(* ===== verification/Prelude.thy ===== *)
theory Prelude
  imports Complex_Main "HOL-Library.Word"
begin

text \<open>
  Shared vocabulary of the development: the C integer types as words, the collections of
  rewrite rules that the component theories fill, the two arithmetic macros of
  \<open>src/util.h\<close>, and generic lemmas on lists that several components use.

  C's \<open>int\<close> is modelled as the unbounded \<open>int\<close> (its overflow is undefined in C); the
  fixed-width types are words, so their wrap-around is the code's.  \<open>double\<close> is modelled
  as \<open>real\<close>: rounding is not modelled.
\<close>

unbundle bit_operations_syntax

type_synonym u8 = "8 word"
type_synonym u16 = "16 word"
type_synonym u32 = "32 word"
type_synonym u64 = "64 word"
type_synonym bytes = "8 word list"

named_theorems ring_simps \<open>index arithmetic of the circular buffers\<close>
named_theorems wire_simps \<open>byte order conversions\<close>
named_theorems gf_simps \<open>transfer from bytes to the field GF(256)\<close>
named_theorems srv_simps \<open>field updates of the server that leave a projection unchanged\<close>

section \<open>The macros MIN and MAX of util.h\<close>

text \<open>
  \<^verbatim>\<open>
  #define MIN(x,y) (y)^(((x) ^ (y)) &  - ((x) < (y)))
  #define MAX(x,y) (y)^(((x) ^ (y)) & - ((x) > (y)))
  \<close>
  The comparison yields the \<open>int\<close> 0 or 1, its negation is converted to the operands'
  type: no bits or all bits.
\<close>

definition c_mask :: "bool \<Rightarrow> 'a::len word" where
  "c_mask b = - (if b then 1 else 0)"

definition c_MIN :: "'a::len word \<Rightarrow> 'a word \<Rightarrow> 'a word" where
  "c_MIN x y = y XOR ((x XOR y) AND c_mask (x < y))"

definition c_MAX :: "'a::len word \<Rightarrow> 'a word \<Rightarrow> 'a word" where
  "c_MAX x y = y XOR ((x XOR y) AND c_mask (x > y))"

lemma c_mask_simps [simp]: "c_mask True = - 1" "c_mask False = 0"
  by (simp_all add: c_mask_def)

lemma xor_left_cancel: "(y :: 'a::len word) XOR (x XOR y) = x"
  by (metis xor.assoc xor.commute xor.right_neutral xor_self_eq)

lemma c_MIN_eq_min: "c_MIN x y = min x y"
  by (cases "x < y") (auto simp: c_MIN_def min_def xor_left_cancel)

lemma c_MAX_eq_max: "c_MAX x y = max x y"
  by (cases "x > y") (auto simp: c_MAX_def max_def xor_left_cancel)

lemma unat_c_MIN: "unat (c_MIN x y) = min (unat x) (unat y)"
  by (simp add: c_MIN_eq_min min_def word_le_nat_alt)

lemma unat_c_MAX: "unat (c_MAX x y) = max (unat x) (unat y)"
  by (simp add: c_MAX_eq_max max_def word_le_nat_alt)

section \<open>Lists as C arrays\<close>

text \<open>
  \<open>memcpy\<close> of the bytes \<open>src\<close> to offset \<open>off\<close> of the array \<open>dst\<close>, within bounds.
\<close>

definition memcpy_at :: "'a list \<Rightarrow> nat \<Rightarrow> 'a list \<Rightarrow> 'a list" where
  "memcpy_at dst off src = take off dst @ src @ drop (off + length src) dst"

lemma length_memcpy_at [simp]:
  "off + length src \<le> length dst \<Longrightarrow> length (memcpy_at dst off src) = length dst"
  by (simp add: memcpy_at_def)

lemma nth_memcpy_at:
  assumes "off + length src \<le> length dst" and "i < length dst"
  shows "memcpy_at dst off src ! i =
    (if off \<le> i \<and> i < off + length src then src ! (i - off) else dst ! i)"
  using assms by (auto simp: memcpy_at_def nth_append min_def)

lemma memcpy_at_Nil [simp]: "memcpy_at dst off [] = dst"
  by (simp add: memcpy_at_def)

lemma list_eq_nthI:
  "length xs = n \<Longrightarrow> length ys = n \<Longrightarrow> (\<And>i. i < n \<Longrightarrow> xs ! i = ys ! i) \<Longrightarrow> xs = ys"
  by (simp add: list_eq_iff_nth_eq)

lemma mod_add_sub_same:
  "(a::nat) < n \<Longrightarrow> b < n \<Longrightarrow> (a + b) mod n = (if a + b < n then a + b else a + b - n)"
  by (auto simp: mod_if)

lemma map2_nth:
  "length xs = length ys \<Longrightarrow> i < length xs \<Longrightarrow> map2 f xs ys ! i = f (xs ! i) (ys ! i)"
  by simp

lemma list_update_map_upd:
  "i < length xs \<Longrightarrow> (xs[i := y]) ! j = (if j = i then y else xs ! j)"
  by simp

end
