(* ===== verification/CString.thy ===== *)
theory CString
  imports Prelude
begin

text \<open>
  Strings and small buffers of C as the proxies use them: \<open>char\<close> is signed, so a byte from
  128 on is a negative number when it is used as a length or an index; \<open>sprintf\<close> of \<open>%d\<close>;
  \<open>ntohs\<close>; and accesses to an array that are \<open>None\<close> when they leave it.  An array is the
  list of its bytes, a string the list of its characters without the terminating 0.
\<close>

section \<open>Characters and numbers\<close>

text \<open>A \<open>char\<close> converted to \<open>int\<close>.\<close>

definition schar :: "u8 \<Rightarrow> int" where
  "schar c = (if c < 128 then uint c else uint c - 256)"

text \<open>An \<open>int\<close> stored into a \<open>char\<close>.\<close>

definition to_char :: "int \<Rightarrow> u8" where
  "to_char n = word_of_int n"

text \<open>The 16 bits at \<open>p\<close> in network order, and such bits written to memory.\<close>

definition net16 :: "u8 \<Rightarrow> u8 \<Rightarrow> u16" where
  "net16 hi lo = word_of_int (256 * uint hi + uint lo)"

definition net16_bytes :: "u16 \<Rightarrow> bytes" where
  "net16_bytes p = [word_of_int (uint p div 256), word_of_int (uint p mod 256)]"

fun digits :: "nat \<Rightarrow> bytes" where
  "digits n = (if n < 10 then [48 + of_nat n] else digits (n div 10) @ [48 + of_nat (n mod 10)])"

declare digits.simps [simp del]

text \<open>\<open>%d\<close>; and the four numbers with dots between them.\<close>

definition show_int :: "int \<Rightarrow> bytes" where
  "show_int n = (if n < 0 then 45 # digits (nat (- n)) else digits (nat n))"

definition show_dotted :: "int \<Rightarrow> int \<Rightarrow> int \<Rightarrow> int \<Rightarrow> bytes" where
  "show_dotted a b c d = show_int a @ [46] @ show_int b @ [46] @ show_int c @ [46] @ show_int d"

text \<open>The bytes of a literal.\<close>

definition str :: "string \<Rightarrow> bytes" where
  "str s = map of_char s"

section \<open>Accesses to an array\<close>

text \<open>A call that leaves an array or follows NULL; one that is still waiting; one that returned.\<close>

datatype 'a call = Overrun | Stuck | Ret 'a

definition call_of :: "'a option \<Rightarrow> 'a call" where
  "call_of x = (case x of None \<Rightarrow> Overrun | Some y \<Rightarrow> Ret y)"

lemma call_of_simps [simp]:
  "call_of x = Ret y \<longleftrightarrow> x = Some y" "call_of x = Overrun \<longleftrightarrow> x = None" "call_of x \<noteq> Stuck"
  by (simp_all add: call_of_def split: option.splits)

definition buf_get :: "bytes \<Rightarrow> int \<Rightarrow> u8 option" where
  "buf_get buf i = (if 0 \<le> i \<and> i < int (length buf) then Some (buf ! nat i) else None)"

definition buf_set :: "bytes \<Rightarrow> int \<Rightarrow> u8 \<Rightarrow> bytes option" where
  "buf_set buf i c = (if 0 \<le> i \<and> i < int (length buf) then Some (buf[nat i := c]) else None)"

text \<open>\<open>memcpy\<close> of a list of bytes to offset \<open>i\<close>; \<open>strcpy\<close> also copies the 0.\<close>

definition buf_put :: "bytes \<Rightarrow> int \<Rightarrow> bytes \<Rightarrow> bytes option" where
  "buf_put buf i s =
    (if 0 \<le> i \<and> i + int (length s) \<le> int (length buf) then Some (memcpy_at buf (nat i) s) else None)"

definition buf_strcpy :: "bytes \<Rightarrow> int \<Rightarrow> bytes \<Rightarrow> bytes option" where
  "buf_strcpy buf i s = buf_put buf i (s @ [0])"

lemma buf_put_length: "buf_put buf i s = Some buf' \<Longrightarrow> length buf' = length buf"
  by (auto simp: buf_put_def split: if_splits)

text \<open>A buffer that is written from left to right: it starts with \<open>xs\<close>.\<close>

definition starts :: "bytes \<Rightarrow> bytes \<Rightarrow> bool" where
  "starts buf xs \<longleftrightarrow> (\<exists>t. buf = xs @ t)"

lemma starts_Nil [simp]: "starts buf []"
  by (simp add: starts_def)

lemma starts_take: "starts buf xs \<Longrightarrow> n = length xs \<Longrightarrow> take n buf = xs"
  by (auto simp: starts_def)

lemma starts_nth: "starts buf xs \<Longrightarrow> i < length xs \<Longrightarrow> buf ! i = xs ! i"
  by (auto simp: starts_def nth_append)

lemma starts_length: "starts buf xs \<Longrightarrow> length xs \<le> length buf"
  by (auto simp: starts_def)

lemma buf_put_Some: "buf_put buf i s = Some buf' \<Longrightarrow> buf' = memcpy_at buf (nat i) s"
  by (simp add: buf_put_def split: if_splits)

lemma starts_put:
  assumes "starts buf xs" "buf_put buf i s = Some buf'" "i = int (length xs)"
  shows "starts buf' (xs @ s)"
proof -
  obtain t where t: "buf = xs @ t" using assms(1) unfolding starts_def by blast
  have "buf' = memcpy_at buf (nat i) s" by (rule buf_put_Some [OF assms(2)])
  then have "buf' = take (length xs) buf @ s @ drop (length xs + length s) buf"
    by (simp only: memcpy_at_def assms(3) nat_int)
  then have "buf' = (xs @ s) @ drop (length s) t" by (simp add: t)
  then show ?thesis unfolding starts_def by blast
qed

lemma starts_strcpy:
  assumes "starts buf xs" "buf_strcpy buf i s = Some buf'" "i = int (length xs)"
  shows "starts buf' (xs @ s)"
proof -
  have "starts buf' (xs @ s @ [0])"
    by (rule starts_put [OF assms(1) _ assms(3)]) (use assms(2) in \<open>simp only: buf_strcpy_def\<close>)
  then obtain t where "buf' = (xs @ s) @ [0] @ t" by (auto simp: starts_def)
  then show ?thesis unfolding starts_def by blast
qed

lemma starts_set:
  assumes "starts buf xs" "buf_set buf i c = Some buf'" "i = int (length xs)"
  shows "starts buf' (xs @ [c])"
proof -
  obtain t where "buf = xs @ t" using assms(1) by (auto simp: starts_def)
  moreover have "int (length xs) < int (length buf)" "buf' = buf[length xs := c]"
    using assms(2,3) by (simp_all add: buf_set_def split: if_splits)
  ultimately have "\<exists>t'. buf' = (xs @ [c]) @ t'" by (cases t) simp_all
  then show ?thesis by (simp only: starts_def)
qed

section \<open>Lemmas\<close>

lemma schar_small [simp]: "c < 128 \<Longrightarrow> schar c = int (unat c)"
  by (simp add: schar_def)

lemma schar_large: "\<not> c < 128 \<Longrightarrow> schar c < 0"
  using uint_lt2p [of c] by (simp add: schar_def)

lemma schar_nonneg: "0 \<le> schar c \<longleftrightarrow> c < 128"
  using schar_large [of c] by (cases "c < 128") auto

lemma schar_upper: "schar c < 128"
proof (cases "c < 128")
  case True
  then show ?thesis by (simp add: schar_def word_less_def)
qed (use schar_large [of c] in linarith)

lemma schar_of_nat [simp]: "n < 128 \<Longrightarrow> schar (of_nat n) = int n"
  by (subst schar_small) (simp_all add: word_less_nat_alt unat_of_nat)

lemma schar_zero [simp]: "schar c = 0 \<longleftrightarrow> c = 0"
  using schar_nonneg [of c] by (cases "c < 128") (auto simp: schar_def uint_0_iff)

lemma schar_lower: "- 128 \<le> schar c"
  using uint_ge_0 [of c] by (auto simp: schar_def word_less_def intro: order_trans [of _ 0])

lemma net16_roundtrip: "net16_bytes p = [a, b] \<Longrightarrow> net16 a b = p"
proof -
  assume "net16_bytes p = [a, b]"
  then have ab: "a = word_of_int (uint p div 256)" "b = word_of_int (uint p mod 256)"
    by (auto simp: net16_bytes_def)
  have "uint p < 65536" using uint_lt2p [of p] by simp
  then have "uint p div 256 < 256" "0 \<le> uint p div 256" by (simp_all add: pos_imp_zdiv_nonneg_iff)
  then have "uint a = uint p div 256" "uint b = uint p mod 256"
    by (simp_all add: ab uint_word_of_int mod_pos_pos_trivial)
  then have "256 * uint a + uint b = uint p" by simp
  then show "net16 a b = p" by (simp add: net16_def)
qed

lemma digits_length: "n < 10 ^ Suc k \<Longrightarrow> length (digits n) \<le> Suc k"
proof (induction k arbitrary: n)
  case 0
  then show ?case by (simp add: digits.simps [of n])
next
  case (Suc k)
  then have "n div 10 < 10 ^ Suc k" by (simp add: less_mult_imp_div_less)
  from Suc.IH [OF this] show ?case by (simp add: digits.simps [of n])
qed

lemma show_int_length:
  assumes "-1000 < n" "n < 1000"
  shows "length (show_int n) \<le> (if n < 0 then 4 else 3)"
  using assms digits_length [of "nat n" 2] digits_length [of "nat (- n)" 2] by (auto simp: show_int_def)

lemma show_dotted_length:
  assumes "\<forall>n \<in> {a, b, c, d}. 0 \<le> n \<and> n < 1000"
  shows "length (show_dotted a b c d) \<le> 15"
  using assms show_int_length [of a] show_int_length [of b] show_int_length [of c] show_int_length [of d]
  by (simp add: show_dotted_def)

end
