(* ===== verification/Base64.thy ===== *)
theory Base64
  imports CString
begin

text \<open>
  \<open>proxy_encode_base64\<close> of \<open>src/up_proxy.c\<close>, by which the HTTP proxy's user and password
  are encoded, next to the encoding of RFC 4648 and its inverse.  \<open>None\<close> is an index
  outside the table: the characters are signed.
\<close>

section \<open>The code\<close>

text \<open>The encoding table is built by a loop in each call.\<close>

definition b64_fill :: "nat \<Rightarrow> bytes \<Rightarrow> bytes" where
  "b64_fill i b64 =
    (let b64 = b64[i := 65 + of_nat i, 26 + i := 97 + of_nat i]
     in if i < 10 then b64[52 + i := 48 + of_nat i] else b64)"

definition b64_table :: bytes where
  "b64_table = (fold b64_fill [0..<26] (replicate 64 0))[62 := 43, 63 := 47]"

text \<open>One turn of the loop: four characters for three bytes, padded with zeros.\<close>

definition b64_quad :: "u8 \<Rightarrow> u8 \<Rightarrow> u8 \<Rightarrow> bytes option" where
  "b64_quad b0 b1 b2 =
    (case (buf_get b64_table (drop_bit 2 (schar b0)),
           buf_get b64_table (push_bit 4 (schar b0 AND 3) OR drop_bit 4 (schar b1)),
           buf_get b64_table (push_bit 2 (schar b1 AND 15) OR drop_bit 6 (schar b2)),
           buf_get b64_table (schar b2 AND 63)) of
       (Some w, Some x, Some y, Some z) \<Rightarrow> Some [w, x, y, z]
     | _ \<Rightarrow> None)"

definition b64_group :: "bytes \<Rightarrow> nat \<Rightarrow> bytes option" where
  "b64_group src i =
    (let b1 = (if i + 1 < length src then src ! (i + 1) else 0);
         b2 = (if i + 2 < length src then src ! (i + 2) else 0)
     in b64_quad (src ! i) b1 b2)"

function b64_loop :: "bytes \<Rightarrow> nat \<Rightarrow> bytes \<Rightarrow> (nat \<times> bytes) option" where
  "b64_loop src i dest =
    (if i < length src
     then case b64_group src i of
         Some q \<Rightarrow> b64_loop src (i + 3) (dest @ q)
       | None \<Rightarrow> None
     else Some (i, dest))"
  by pat_completeness auto
termination by (relation "measure (\<lambda>(src, i, dest). length src - i)") auto

declare b64_loop.simps [simp del]

text \<open>The padding overwrites the last characters.\<close>

definition proxy_encode_base64 :: "bytes \<Rightarrow> bytes option" where
  "proxy_encode_base64 src =
    (case b64_loop src 0 [] of
       None \<Rightarrow> None
     | Some (i, dest) \<Rightarrow>
         let j = length dest;
             dest = (if length src + 1 \<le> i then dest[j - 1 := 61] else dest);
             dest = (if length src + 2 \<le> i then dest[j - 2 := 61] else dest)
         in Some dest)"

section \<open>RFC 4648\<close>

definition b64_char :: "nat \<Rightarrow> u8" where
  "b64_char n = (if n < 26 then of_nat (65 + n) else if n < 52 then of_nat (97 + (n - 26))
    else if n < 62 then of_nat (48 + (n - 52)) else if n = 62 then 43 else 47)"

definition b64_value :: "u8 \<Rightarrow> nat" where
  "b64_value c = (let n = unat c in if 97 \<le> n then n - 97 + 26 else if 65 \<le> n then n - 65
    else if 48 \<le> n then n - 48 + 52 else if n = 43 then 62 else 63)"

fun b64_spec :: "bytes \<Rightarrow> bytes" where
  "b64_spec [] = []"
| "b64_spec [a] = [b64_char (unat a div 4), b64_char (unat a mod 4 * 16), 61, 61]"
| "b64_spec [a, b] = [b64_char (unat a div 4), b64_char (unat a mod 4 * 16 + unat b div 16),
     b64_char (unat b mod 16 * 4), 61]"
| "b64_spec (a # b # c # r) = b64_char (unat a div 4) # b64_char (unat a mod 4 * 16 + unat b div 16) #
     b64_char (unat b mod 16 * 4 + unat c div 64) # b64_char (unat c mod 64) # b64_spec r"

fun b64_decode :: "bytes \<Rightarrow> bytes option" where
  "b64_decode [] = Some []"
| "b64_decode (w # x # y # z # r) =
    (let a = b64_value w * 4 + b64_value x div 16;
         b = b64_value x mod 16 * 16 + b64_value y div 4;
         c = b64_value y mod 4 * 64 + b64_value z
     in if r = [] \<and> y = 61 \<and> z = 61 then Some [of_nat a]
        else if r = [] \<and> z = 61 then Some [of_nat a, of_nat b]
        else map_option (\<lambda>t. of_nat a # of_nat b # of_nat c # t) (b64_decode r))"
| "b64_decode _ = None"

text \<open>The alphabet has 64 different characters, none of them the padding.\<close>

lemma b64_alphabet: "list_all (\<lambda>n. b64_value (b64_char n) = n \<and> b64_char n \<noteq> 61) [0..<64]"
  by code_simp

lemma b64_value_char [simp]: "n < 64 \<Longrightarrow> b64_value (b64_char n) = n"
  and b64_char_not_pad [simp]: "n < 64 \<Longrightarrow> b64_char n \<noteq> 61"
  using b64_alphabet by (simp_all add: list_all_iff)

lemma byte_less: "unat (a::u8) < 256"
  using unsigned_less [of a, where ?'a = nat] by simp

lemma byte_ranges:
  "unat (a::u8) div 4 < 64" "unat a mod 4 * 16 + unat (b::u8) div 16 < 64"
  "unat b mod 16 * 4 + unat (c::u8) div 64 < 64" "unat c mod 64 < 64"
proof -
  have "unat a < 256" "unat b < 256" "unat c < 256"
    by (rule byte_less)+
  then show "unat a div 4 < 64" "unat a mod 4 * 16 + unat b div 16 < 64"
    "unat b mod 16 * 4 + unat c div 64 < 64" "unat c mod 64 < 64" by linarith+
qed

lemma byte_pieces:
  fixes a b c :: u8
  shows "unat a div 4 * 4 + (unat a mod 4 * 16 + unat b div 16) div 16 = unat a"
    "(unat a mod 4 * 16 + unat b div 16) mod 16 * 16 + (unat b mod 16 * 4 + unat c div 64) div 4 = unat b"
    "(unat b mod 16 * 4 + unat c div 64) mod 4 * 64 + unat c mod 64 = unat c"
    "unat a div 4 * 4 + (unat a mod 4 * 16) div 16 = unat a"
    "(unat a mod 4 * 16 + unat b div 16) mod 16 * 16 + (unat b mod 16 * 4) div 4 = unat b"
proof -
  have "unat b div 16 < 16" "unat c div 64 < 4" "unat b mod 16 * 4 div 4 = unat b mod 16"
    using byte_less [of b] byte_less [of c] by (simp_all add: less_mult_imp_div_less)
  then have "(unat a mod 4 * 16 + unat b div 16) div 16 = unat a mod 4"
    "(unat a mod 4 * 16 + unat b div 16) mod 16 = unat b div 16"
    "(unat b mod 16 * 4 + unat c div 64) div 4 = unat b mod 16"
    "(unat b mod 16 * 4 + unat c div 64) mod 4 = unat c div 64"
    "(unat a mod 4 * 16) div 16 = unat a mod 4" "unat b mod 16 * 4 div 4 = unat b mod 16"
    by simp_all
  then show "unat a div 4 * 4 + (unat a mod 4 * 16 + unat b div 16) div 16 = unat a"
    "(unat a mod 4 * 16 + unat b div 16) mod 16 * 16 + (unat b mod 16 * 4 + unat c div 64) div 4 = unat b"
    "(unat b mod 16 * 4 + unat c div 64) mod 4 * 64 + unat c mod 64 = unat c"
    "unat a div 4 * 4 + (unat a mod 4 * 16) div 16 = unat a"
    "(unat a mod 4 * 16 + unat b div 16) mod 16 * 16 + (unat b mod 16 * 4) div 4 = unat b"
    by (simp_all only: div_mult_mod_eq)
qed

lemma b64_decode_spec: "b64_decode (b64_spec s) = Some s"
proof (induction s rule: b64_spec.induct)
  case (2 a)
  then show ?case
    using byte_ranges(1) [of a] byte_ranges(2) [of a 0] byte_pieces(4) [of a]
    by (simp add: Let_def del: of_nat_add of_nat_mult)
next
  case (3 a b)
  then show ?case
    using byte_ranges(1) [of a] byte_ranges(2) [of a b] byte_ranges(3) [of b 0] byte_pieces(1) [of a b] byte_pieces(5) [of a b]
    by (simp add: Let_def del: of_nat_add of_nat_mult div_mult_self1 div_mult_self2 div_mult_self3 div_mult_self4)
next
  case (4 a b c r)
  then show ?case
    using byte_ranges(1) [of a] byte_ranges(2) [of a b] byte_ranges(3) [of b c] byte_ranges(4) [of c]
    by (simp add: Let_def byte_pieces del: of_nat_add of_nat_mult div_mult_self1 div_mult_self2 div_mult_self3 div_mult_self4
      mod_mult_self1 mod_mult_self2 mod_mult_self3 mod_mult_self4)
qed simp

lemma b64_spec_length: "length (b64_spec s) = 4 * ((length s + 2) div 3)"
proof (induction s rule: b64_spec.induct)
  case (4 a b c r)
  have "(length r + 2 + 3) div 3 = (length r + 2) div 3 + 1" by linarith
  with 4 show ?case by (simp add: algebra_simps)
qed simp_all

section \<open>The code computes RFC 4648 on ASCII\<close>

lemma b64_table_chars: "length b64_table = 64 \<and> list_all (\<lambda>n. b64_table ! n = b64_char n) [0..<64]"
  by code_simp

lemma b64_get: "n < 64 \<Longrightarrow> buf_get b64_table (int n) = Some (b64_char n)"
  using b64_table_chars by (simp add: buf_get_def list_all_iff)

lemma b64_get_negative: "i < 0 \<Longrightarrow> buf_get b64_table i = None"
  by (simp add: buf_get_def)

lemma or_is_sum:
  "list_all (\<lambda>x. list_all (\<lambda>y. push_bit 4 (int x) OR int y = int (x * 16 + y)) [0..<8]) [0..<4]"
  "list_all (\<lambda>x. list_all (\<lambda>y. push_bit 2 (int x) OR int y = int (x * 4 + y)) [0..<2]) [0..<16]"
  by code_simp+

lemma or_is_sum4: "x < 4 \<Longrightarrow> y < 8 \<Longrightarrow> push_bit 4 (int x) OR int y = int (x * 16 + y)"
  and or_is_sum2: "x < 16 \<Longrightarrow> y < 2 \<Longrightarrow> push_bit 2 (int x) OR int y = int (x * 4 + y)"
  using or_is_sum by (simp_all add: list_all_iff)

lemma int_drop_bit:
  "drop_bit 2 (int n) = int (n div 4)" "drop_bit 4 (int n) = int (n div 16)" "drop_bit 6 (int n) = int (n div 64)"
  by (simp_all add: drop_bit_eq_div zdiv_int)

lemma int_and_mask: "int n AND 3 = int (n mod 4)" "int n AND 15 = int (n mod 16)" "int n AND 63 = int (n mod 64)"
  using take_bit_eq_mask [of 2 "int n"] take_bit_eq_mask [of 4 "int n"] take_bit_eq_mask [of 6 "int n"]
  by (simp_all add: take_bit_eq_mod zmod_int mask_eq_exp_minus_1)

lemma b64_quad_ascii:
  assumes "a < 128" "b < 128" "c < 128"
  shows "b64_quad a b c = Some [b64_char (unat a div 4), b64_char (unat a mod 4 * 16 + unat b div 16),
    b64_char (unat b mod 16 * 4 + unat c div 64), b64_char (unat c mod 64)]"
proof -
  have "unat b < 128" "unat c < 128" using assms by (simp_all add: word_less_nat_alt)
  then have "unat b div 16 < 8" "unat c div 64 < 2" by linarith+
  then have "push_bit 4 (int (unat a mod 4)) OR int (unat b div 16) = int (unat a mod 4 * 16 + unat b div 16)"
    "push_bit 2 (int (unat b mod 16)) OR int (unat c div 64) = int (unat b mod 16 * 4 + unat c div 64)"
    using or_is_sum4 or_is_sum2 by simp_all
  then have "buf_get b64_table (drop_bit 2 (schar a)) = Some (b64_char (unat a div 4))"
    "buf_get b64_table (push_bit 4 (schar a AND 3) OR drop_bit 4 (schar b)) =
      Some (b64_char (unat a mod 4 * 16 + unat b div 16))"
    "buf_get b64_table (push_bit 2 (schar b AND 15) OR drop_bit 6 (schar c)) =
      Some (b64_char (unat b mod 16 * 4 + unat c div 64))"
    "buf_get b64_table (schar c AND 63) = Some (b64_char (unat c mod 64))"
    by (simp_all only: schar_small [OF assms(1)] schar_small [OF assms(2)] schar_small [OF assms(3)]
      int_drop_bit int_and_mask byte_ranges b64_get)
  then show ?thesis by (simp only: b64_quad_def option.case prod.case)
qed

lemma b64_quad_faults:
  assumes "\<not> (a < 128 \<and> b < 128 \<and> c < 128)"
  shows "b64_quad a b c = None"
proof -
  have "schar a < 0 \<or> schar b < 0 \<or> schar c < 0" using assms schar_large by blast
  then have "drop_bit 2 (schar a) < 0 \<or> push_bit 4 (schar a AND 3) OR drop_bit 4 (schar b) < 0 \<or>
      push_bit 2 (schar b AND 15) OR drop_bit 6 (schar c) < 0"
    by (auto simp: or_negative_int_iff)
  then show ?thesis
    using b64_get_negative by (fastforce simp: b64_quad_def split: option.splits)
qed

text \<open>The loop before the padding is written.\<close>

fun b64_raw :: "bytes \<Rightarrow> bytes" where
  "b64_raw [] = []"
| "b64_raw [a] = [b64_char (unat a div 4), b64_char (unat a mod 4 * 16), b64_char 0, b64_char 0]"
| "b64_raw [a, b] = [b64_char (unat a div 4), b64_char (unat a mod 4 * 16 + unat b div 16),
     b64_char (unat b mod 16 * 4), b64_char 0]"
| "b64_raw (a # b # c # r) = b64_char (unat a div 4) # b64_char (unat a mod 4 * 16 + unat b div 16) #
     b64_char (unat b mod 16 * 4 + unat c div 64) # b64_char (unat c mod 64) # b64_raw r"

lemma b64_raw_length: "length (b64_raw s) = 4 * ((length s + 2) div 3)"
proof (induction s rule: b64_raw.induct)
  case (4 a b c r)
  have "(length r + 2 + 3) div 3 = (length r + 2) div 3 + 1" by linarith
  with 4 show ?case by (simp add: algebra_simps)
qed simp_all

lemma b64_turns: "0 < n \<Longrightarrow> (n + 2) div 3 = Suc ((n - 3 + 2) div 3)" for n :: nat
  by presburger

lemma b64_loop_raw:
  "b64_loop src i dest =
    (if \<forall>x \<in> set (drop i src). x < 128
     then Some (i + 3 * ((length src - i + 2) div 3), dest @ b64_raw (drop i src)) else None)"
proof (induction src i dest rule: b64_loop.induct)
  case (1 src i dest)
  let ?ok = "\<lambda>s. \<forall>x \<in> set s. x < (128::u8)"
  have group: "b64_group src i = (if ?ok (take 3 (drop i src)) then Some (b64_raw (take 3 (drop i src))) else None)"
    and rest: "drop (i + 3) src = drop 3 (drop i src)"
    and three: "b64_raw (drop i src) = b64_raw (take 3 (drop i src)) @ b64_raw (drop 3 (drop i src))"
    if i: "i < length src"
  proof -
    show "drop (i + 3) src = drop 3 (drop i src)" by (simp add: add.commute)
    from i obtain a s where s: "drop i src = a # s" "src ! i = a" by (metis Cons_nth_drop_Suc)
    have len: "length src = i + length (a # s)" using i arg_cong [OF s(1), of length] by simp
    have more: "src ! (i + k) = (a # s) ! k" for k
      using i nth_drop [of i src k] by (simp add: s(1))
    consider "s = []" | b where "s = [b]" | b c r where "s = b # c # r" by (metis neq_Nil_conv)
    then show "b64_group src i = (if ?ok (take 3 (drop i src)) then Some (b64_raw (take 3 (drop i src))) else None)"
    proof cases
      case 1
      then show ?thesis using len s(2) b64_quad_ascii [of a 0 0] b64_quad_faults [of a 0 0]
        by (simp add: b64_group_def s(1))
    next
      case 2
      then show ?thesis using len s(2) more [of 1] b64_quad_ascii [of a b 0] b64_quad_faults [of a b 0]
        by (auto simp: b64_group_def s(1))
    next
      case 3
      then show ?thesis using len s(2) more [of 1] more [of 2] b64_quad_ascii [of a b c] b64_quad_faults [of a b c]
        by (auto simp: b64_group_def s(1) numeral_2_eq_2 numeral_3_eq_3)
    qed
    show "b64_raw (drop i src) = b64_raw (take 3 (drop i src)) @ b64_raw (drop 3 (drop i src))"
      by (cases "drop i src" rule: b64_raw.cases) (simp_all add: numeral_3_eq_3)
  qed
  show ?case
  proof (cases "i < length src")
    case False
    then show ?thesis by (simp add: b64_loop.simps [of src i dest])
  next
    case i: True
    have ok: "?ok (drop i src) \<longleftrightarrow> ?ok (take 3 (drop i src)) \<and> ?ok (drop 3 (drop i src))"
      by (subst append_take_drop_id [of 3 "drop i src", symmetric], subst set_append) blast
    show ?thesis
    proof (cases "?ok (take 3 (drop i src))")
      case False
      then have "b64_group src i = None" "\<not> ?ok (drop i src)" using group [OF i] ok by auto
      then show ?thesis using i by (simp only: b64_loop.simps [of src i dest] if_True if_False option.case)
    next
      case True
      then have g: "b64_group src i = Some (b64_raw (take 3 (drop i src)))" using group [OF i] if_P [OF True] by metis
      have n: "i + 3 * ((length src - i + 2) div 3) = i + 3 + 3 * ((length src - (i + 3) + 2) div 3)"
        using b64_turns [of "length src - i"] i by (simp add: add.commute)
      have "?ok (drop (i + 3) src) \<longleftrightarrow> ?ok (drop i src)" unfolding rest [OF i] using ok True by blast
      then show ?thesis
        using 1 [OF i g] i g
        by (simp only: b64_loop.simps [of src i dest] if_True option.case n three [OF i] rest [OF i] append_assoc)
    qed
  qed
qed

definition b64_pad :: "nat \<Rightarrow> bytes \<Rightarrow> bytes" where
  "b64_pad n t =
    (let t' = (if n mod 3 \<noteq> 0 then t[length t - 1 := 61] else t)
     in if n mod 3 = 1 then t'[length t - 2 := 61] else t')"

lemma b64_pad_Cons4:
  assumes "2 \<le> length t"
  shows "b64_pad (Suc (Suc (Suc n))) (w # x # y # z # t) = w # x # y # z # b64_pad n t"
proof -
  obtain k where "length t = Suc (Suc k)" using assms by (metis add_2_eq_Suc le_Suc_ex)
  moreover have "Suc (Suc (Suc n)) mod 3 = n mod 3" by presburger
  ultimately show ?thesis by (simp add: b64_pad_def Let_def)
qed

lemma b64_pad_raw: "b64_pad (length s) (b64_raw s) = b64_spec s"
proof (induction s rule: b64_raw.induct)
  case (4 a b c r)
  show ?case
  proof (cases r)
    case Nil
    then show ?thesis by (simp add: b64_pad_def)
  next
    case (Cons d t)
    then have "1 \<le> (length r + 2) div 3" by (simp add: Suc_le_eq div_greater_zero_iff)
    then have "2 \<le> length (b64_raw r)" by (simp add: b64_raw_length)
    from b64_pad_Cons4 [OF this] 4 show ?thesis by simp
  qed
qed (simp_all add: b64_pad_def)

lemma b64_count:
  fixes n :: nat
  shows "n + 1 \<le> 3 * ((n + 2) div 3) \<longleftrightarrow> n mod 3 \<noteq> 0" "n + 2 \<le> 3 * ((n + 2) div 3) \<longleftrightarrow> n mod 3 = 1"
  by presburger+

lemma base64_spec:
  "proxy_encode_base64 src = (if \<forall>c \<in> set src. c < 128 then Some (b64_spec src) else None)"
proof (cases "\<forall>c \<in> set src. c < 128")
  case True
  then have "b64_loop src 0 [] = Some (3 * ((length src + 2) div 3), b64_raw src)" by (simp add: b64_loop_raw)
  then have "proxy_encode_base64 src = Some (b64_pad (length src) (b64_raw src))"
    by (simp only: proxy_encode_base64_def option.case prod.case Let_def b64_count b64_pad_def)
  with True show ?thesis by (simp add: b64_pad_raw)
next
  case False
  then have "b64_loop src 0 [] = None" by (simp only: b64_loop_raw drop_0 if_False)
  with False show ?thesis by (simp only: proxy_encode_base64_def option.case if_False)
qed

end
