(* ===== verification/UpProxy.thy ===== *)
theory UpProxy
  imports Base64 "HOL-Library.Monad_Syntax" "HOL-Library.Signed_Division"
begin

text \<open>
  Connecting through an upstream proxy, \<open>src/up_proxy.c\<close>: \<open>proxy_new\<close>,
  \<open>proxy_connect_nb\<close>, the state machine \<open>proxy_poll_connect\<close> for SOCKS 5, SOCKS 4 and
  HTTP proxies, and the loop \<open>proxy_connect\<close>.

  A handler is one definition per \<open>case\<close> of the switch.  The global \<open>proxy_errno\<close> is a
  field of the connection; \<open>pc_sent\<close> is what was written to the socket.  What the system
  calls return is the environment \<open>penv\<close> of one call of \<open>proxy_poll_connect\<close>; the
  local array \<open>buf\<close> starts with what the stack holds, \<open>e_stack\<close>.
\<close>

section \<open>Constants of up\_proxy.h\<close>

definition PROXY_SOCKS5 :: int where "PROXY_SOCKS5 = 1"
definition PROXY_SOCKS4 :: int where "PROXY_SOCKS4 = 2"
definition PROXY_HTTPCONNECT :: int where "PROXY_HTTPCONNECT = 3"

definition PROXY_CMD_CONNECT :: int where "PROXY_CMD_CONNECT = 1"
definition PROXY_CMD_BIND :: int where "PROXY_CMD_BIND = 2"
definition PROXY_CMD_UDP :: int where "PROXY_CMD_UDP = 3"

definition PROXY_FL_AUTH :: u16 where "PROXY_FL_AUTH = 1"
definition PROXY_CF_WAITREAD :: u16 where "PROXY_CF_WAITREAD = 1"
definition PROXY_CF_WAITWRITE :: u16 where "PROXY_CF_WAITWRITE = 2"

definition PROXY_CS_CONNECTING :: int where "PROXY_CS_CONNECTING = 1"
definition PROXY_CS_CONNECTED :: int where "PROXY_CS_CONNECTED = 2"
definition PROXY_CS_ERROR :: int where "PROXY_CS_ERROR = 3"
definition PROXY_CS_S5_SENDMET :: int where "PROXY_CS_S5_SENDMET = PROXY_SOCKS5 * 100"
definition PROXY_CS_S5_WAITMET :: int where "PROXY_CS_S5_WAITMET = PROXY_SOCKS5 * 100 + 1"
definition PROXY_CS_S5_SENDAUTH :: int where "PROXY_CS_S5_SENDAUTH = PROXY_SOCKS5 * 100 + 2"
definition PROXY_CS_S5_WAITAUTH :: int where "PROXY_CS_S5_WAITAUTH = PROXY_SOCKS5 * 100 + 3"
definition PROXY_CS_S5_SENDREQ :: int where "PROXY_CS_S5_SENDREQ = PROXY_SOCKS5 * 100 + 4"
definition PROXY_CS_S5_WAITREQ :: int where "PROXY_CS_S5_WAITREQ = PROXY_SOCKS5 * 100 + 5"
definition PROXY_CS_S5_WAITREQ2 :: int where "PROXY_CS_S5_WAITREQ2 = PROXY_SOCKS5 * 100 + 6"
definition PROXY_CS_S4_SENDREQ :: int where "PROXY_CS_S4_SENDREQ = PROXY_SOCKS4 * 100"
definition PROXY_CS_S4_WAITREQ :: int where "PROXY_CS_S4_WAITREQ = PROXY_SOCKS4 * 100 + 1"
definition PROXY_CS_S4_WAITREQ2 :: int where "PROXY_CS_S4_WAITREQ2 = PROXY_SOCKS4 * 100 + 2"
definition PROXY_CS_HC_SENDREQ :: int where "PROXY_CS_HC_SENDREQ = PROXY_HTTPCONNECT * 100"
definition PROXY_CS_HC_WAITREQ :: int where "PROXY_CS_HC_WAITREQ = PROXY_HTTPCONNECT * 100 + 1"

lemmas proxy_consts =
  PROXY_SOCKS5_def PROXY_SOCKS4_def PROXY_HTTPCONNECT_def
  PROXY_CMD_CONNECT_def PROXY_CMD_BIND_def PROXY_CMD_UDP_def
  PROXY_CS_CONNECTING_def PROXY_CS_CONNECTED_def PROXY_CS_ERROR_def
  PROXY_CS_S5_SENDMET_def PROXY_CS_S5_WAITMET_def PROXY_CS_S5_SENDAUTH_def PROXY_CS_S5_WAITAUTH_def
  PROXY_CS_S5_SENDREQ_def PROXY_CS_S5_WAITREQ_def PROXY_CS_S5_WAITREQ2_def
  PROXY_CS_S4_SENDREQ_def PROXY_CS_S4_WAITREQ_def PROXY_CS_S4_WAITREQ2_def
  PROXY_CS_HC_SENDREQ_def PROXY_CS_HC_WAITREQ_def

definition PROXY_ERR_MEM :: int where "PROXY_ERR_MEM = 1"
definition PROXY_ERR_PARAM :: int where "PROXY_ERR_PARAM = 2"
definition PROXY_ERR_SOCKSVER :: int where "PROXY_ERR_SOCKSVER = 3"
definition PROXY_ERR_SOCKSMETHOD :: int where "PROXY_ERR_SOCKSMETHOD = 4"
definition PROXY_ERR_AUTH :: int where "PROXY_ERR_AUTH = 5"
definition PROXY_ERR_NEGOT :: int where "PROXY_ERR_NEGOT = 6"
definition PROXY_ERR_RESOLV :: int where "PROXY_ERR_RESOLV = 7"
definition PROXY_ERR_S5_BASE :: int where "PROXY_ERR_S5_BASE = PROXY_SOCKS5 * 100"
definition PROXY_ERR_S4_BASE :: int where "PROXY_ERR_S4_BASE = PROXY_SOCKS4 * 100"
definition PROXY_ERR_HC_GENERAL :: int where "PROXY_ERR_HC_GENERAL = PROXY_HTTPCONNECT * 100 + 1"

definition PROXY_NEGBUFLEN :: nat where "PROXY_NEGBUFLEN = 256"
definition PROXY_AUTHBUFLEN :: nat where "PROXY_AUTHBUFLEN = 128"

section \<open>State\<close>

record t_proxy =
  px_type :: u16
  px_ip :: bytes
  px_port :: u16
  px_flags :: u16
  px_user :: "bytes option"
  px_pwd :: "bytes option"

record t_proxy_connection =
  pc_proxy :: t_proxy
  pc_status :: int
  pc_cmd :: u16
  pc_flags :: u16
  pc_remote_port :: u16
  pc_remote_name :: "bytes option"
  pc_target_port :: u16
  pc_target_name :: bytes
  pc_ctcp_port :: "bytes option"
  pc_errno :: int
  pc_sent :: bytes

text \<open>
  \<open>e_poll\<close> is the result of \<open>poll\<close> for the events asked for, \<open>e_events\<close> and
  \<open>e_adam\<close> what the stack holds in \<open>pfd.events\<close> and \<open>adam\<close>; \<open>e_read\<close> is \<open>None\<close> for an
  error, else the bytes that are available; \<open>e_write\<close> is the result of \<open>write\<close>, never
  more than it was asked for; \<open>e_hosts\<close> the successive results of \<open>gethostbyname\<close> with
  \<open>errno\<close>.
\<close>

record penv =
  e_events :: u16
  e_poll :: "u16 \<Rightarrow> int"
  e_errno :: int
  e_getsockopt :: int
  e_so_err :: int
  e_fcntl :: int
  e_stack :: bytes
  e_adam :: int
  e_write :: int
  e_read :: "bytes option"
  e_malloc :: bool
  e_hosts :: "(bytes option \<times> int) list"
  e_uid :: nat

section \<open>Creating a proxy and starting a connection\<close>

text \<open>
  The arguments \<open>mem\<close>, \<open>mem_user\<close>, \<open>mem_pwd\<close> say which allocations succeed, \<open>host\<close> is
  what \<open>gethostbyname\<close> finds.  \<open>Inl\<close> is a NULL result with the value of \<open>proxy_errno\<close>.
\<close>

definition proxy_new ::
  "bool \<Rightarrow> bool \<Rightarrow> bool \<Rightarrow> bytes option \<Rightarrow> u16 \<Rightarrow> u16 \<Rightarrow> u16 \<Rightarrow> bytes option \<Rightarrow> bytes option \<Rightarrow> int + t_proxy" where
  "proxy_new mem mem_user mem_pwd host type port flags user pwd =
    (if \<not> mem then Inl PROXY_ERR_MEM
     else if flags AND PROXY_FL_AUTH \<noteq> 0 \<and> (user = None \<or> pwd = None) then Inl PROXY_ERR_PARAM
     else if flags AND PROXY_FL_AUTH \<noteq> 0 \<and> (\<not> mem_user \<or> \<not> mem_pwd) then Inl PROXY_ERR_MEM
     else case host of
       None \<Rightarrow> Inl PROXY_ERR_RESOLV
     | Some ip \<Rightarrow> Inr \<lparr>px_type = type, px_ip = take 4 ip, px_port = port, px_flags = flags,
         px_user = (if flags AND PROXY_FL_AUTH \<noteq> 0 then user else None),
         px_pwd = (if flags AND PROXY_FL_AUTH \<noteq> 0 then pwd else None)\<rparr>)"

text \<open>The check of the command against the type of proxy.\<close>

definition cmd_ok :: "t_proxy \<Rightarrow> int \<Rightarrow> bool" where
  "cmd_ok proxy cmd =
    (if cmd = PROXY_CMD_CONNECT then True
     else if cmd = PROXY_CMD_BIND
     then \<not> (uint (px_type proxy) \<noteq> PROXY_SOCKS5 \<and> uint (px_type proxy) \<noteq> PROXY_SOCKS4)
     else if cmd = PROXY_CMD_UDP then \<not> uint (px_type proxy) \<noteq> PROXY_SOCKS5
     else False)"

text \<open>What the system calls of \<open>proxy_connect_nb\<close> return, each with \<open>errno\<close> after it.\<close>

record nenv =
  n_strdup :: bool
  n_socket :: "int \<times> int"
  n_fcntl :: "int \<times> int"
  n_connect :: "int \<times> int"

definition EINPROGRESS :: int where "EINPROGRESS = 115"

definition proxy_connect_nb ::
  "nenv \<Rightarrow> t_proxy option \<Rightarrow> bytes option \<Rightarrow> u16 \<Rightarrow> int \<Rightarrow> int + t_proxy_connection" where
  "proxy_connect_nb e proxy target_name target_port proxy_cmd =
    (case (proxy, target_name) of
       (Some px, Some name) \<Rightarrow>
         if \<not> cmd_ok px proxy_cmd then Inl PROXY_ERR_PARAM
         else if \<not> n_strdup e then Inl PROXY_ERR_MEM
         else if fst (n_socket e) < 0 then Inl (snd (n_socket e))
         else if fst (n_fcntl e) < 0 then Inl (snd (n_fcntl e))
         else if fst (n_connect e) \<noteq> 0 \<and> snd (n_connect e) \<noteq> EINPROGRESS then Inl (snd (n_connect e))
         else Inr \<lparr>pc_proxy = px, pc_status = PROXY_CS_CONNECTING, pc_cmd = word_of_int proxy_cmd,
                   pc_flags = PROXY_CF_WAITWRITE, pc_remote_port = 0, pc_remote_name = None,
                   pc_target_port = target_port, pc_target_name = name, pc_ctcp_port = None,
                   pc_errno = 0, pc_sent = []\<rparr>
     | _ \<Rightarrow> Inl PROXY_ERR_PARAM)"

section \<open>Reading and writing in a handler\<close>

definition pc_fail :: "int \<Rightarrow> int \<Rightarrow> t_proxy_connection \<Rightarrow> t_proxy_connection \<times> int" where
  "pc_fail status err c = (c\<lparr>pc_status := status, pc_errno := err\<rparr>, -1)"

definition pc_next :: "int \<Rightarrow> u16 \<Rightarrow> t_proxy_connection \<Rightarrow> t_proxy_connection \<times> int" where
  "pc_next status flag c = (c\<lparr>pc_status := status, pc_flags := pc_flags c OR flag\<rparr>, 0)"

definition pc_done :: "t_proxy_connection \<Rightarrow> t_proxy_connection \<times> int" where
  "pc_done c = (c\<lparr>pc_status := PROXY_CS_CONNECTED\<rparr>, 1)"

text \<open>
  \<open>write(sock,buf,buf_len)\<close>: a count that is negative or larger than the array would make the
  kernel read outside \<open>buf\<close>.
\<close>

definition pc_write :: "penv \<Rightarrow> bytes \<Rightarrow> int \<Rightarrow> t_proxy_connection \<Rightarrow> (t_proxy_connection \<times> int) option" where
  "pc_write e buf n c =
    (if 0 \<le> n \<and> n \<le> int (length buf)
     then let r = min (e_write e) n in Some (c\<lparr>pc_sent := pc_sent c @ take (nat r) buf\<rparr>, r)
     else None)"

definition pc_read :: "penv \<Rightarrow> nat \<Rightarrow> bytes \<times> int" where
  "pc_read e n =
    (case e_read e of
       None \<Rightarrow> (e_stack e, -1)
     | Some b \<Rightarrow> (memcpy_at (e_stack e) 0 (take n b), int (length (take n b))))"

text \<open>Sending a request and going to the next state if all of it was written.\<close>

definition pc_send :: "penv \<Rightarrow> bytes \<Rightarrow> int \<Rightarrow> int \<Rightarrow> int \<Rightarrow> t_proxy_connection \<Rightarrow> (t_proxy_connection \<times> int) option" where
  "pc_send e buf n failed status c =
    do {
      (c, r) \<leftarrow> pc_write e buf n c;
      Some (if r < n then pc_fail failed (e_errno e) c else pc_next status PROXY_CF_WAITREAD c)
    }"

section \<open>The handlers: connecting and SOCKS 5\<close>

definition cs_connecting :: "penv \<Rightarrow> t_proxy_connection \<Rightarrow> t_proxy_connection \<times> int" where
  "cs_connecting e c =
    (if e_getsockopt e < 0 \<or> e_so_err e \<noteq> 0 then pc_fail PROXY_CS_ERROR (e_errno e) c
     else if e_fcntl e < 0 then pc_fail PROXY_CS_ERROR (e_errno e) c
     else (c\<lparr>pc_status := uint (px_type (pc_proxy c)) * 100\<rparr>, 0))"

definition cs_s5_sendmet :: "penv \<Rightarrow> t_proxy_connection \<Rightarrow> (t_proxy_connection \<times> int) option" where
  "cs_s5_sendmet e c =
    (let buf = (e_stack e)[0 := 5, 2 := 0];
         (buf, buf_len) = (if px_flags (pc_proxy c) AND PROXY_FL_AUTH \<noteq> 0 then (buf[1 := 2, 3 := 2], 4)
                           else (buf[1 := 1], 3))
     in pc_send e buf buf_len PROXY_CS_ERROR PROXY_CS_S5_WAITMET c)"

definition cs_s5_waitmet :: "penv \<Rightarrow> t_proxy_connection \<Rightarrow> t_proxy_connection \<times> int" where
  "cs_s5_waitmet e c =
    (let (buf, buf_len) = pc_read e 7
     in if buf_len < 7 then pc_fail PROXY_CS_ERROR (e_errno e) c
        else if buf ! 0 \<noteq> 5 then pc_fail PROXY_CS_ERROR PROXY_ERR_SOCKSVER c
        else if buf ! 1 \<noteq> 0 \<and> buf ! 1 \<noteq> 2 then pc_fail PROXY_CS_ERROR PROXY_ERR_SOCKSMETHOD c
        else pc_next (if buf ! 1 = 0 then PROXY_CS_S5_SENDREQ else PROXY_CS_S5_SENDAUTH) PROXY_CF_WAITWRITE
          (c\<lparr>pc_ctcp_port := Some (take 5 (drop 2 buf))\<rparr>))"

text \<open>
  User name and password with their lengths.  The lengths are \<open>char\<close>s that are read back as
  indices; the user and the password are NULL if the proxy was created without them.
\<close>

definition auth_request :: "bytes \<Rightarrow> bytes \<Rightarrow> bytes \<Rightarrow> (bytes \<times> int) option" where
  "auth_request stack user pwd =
    do {
      buf \<leftarrow> buf_set stack 0 1;
      buf \<leftarrow> buf_set buf 1 (to_char (int (length user)));
      buf \<leftarrow> buf_strcpy buf 2 user;
      buf \<leftarrow> buf_set buf (2 + schar (buf ! 1)) (to_char (int (length pwd)));
      buf \<leftarrow> buf_strcpy buf (2 + schar (buf ! 1) + 1) pwd;
      n \<leftarrow> buf_get buf (2 + schar (buf ! 1));
      Some (buf, schar (buf ! 1) + schar n + 3)
    }"

definition cs_s5_sendauth :: "penv \<Rightarrow> t_proxy_connection \<Rightarrow> (t_proxy_connection \<times> int) option" where
  "cs_s5_sendauth e c =
    do {
      user \<leftarrow> px_user (pc_proxy c);
      pwd \<leftarrow> px_pwd (pc_proxy c);
      (buf, buf_len) \<leftarrow> auth_request (e_stack e) user pwd;
      pc_send e buf buf_len (pc_status c OR PROXY_CS_ERROR) PROXY_CS_S5_WAITAUTH c
    }"

definition cs_s5_waitauth :: "penv \<Rightarrow> t_proxy_connection \<Rightarrow> t_proxy_connection \<times> int" where
  "cs_s5_waitauth e c =
    (let (buf, buf_len) = pc_read e 2
     in if buf_len < 2 then pc_fail PROXY_CS_ERROR (if buf_len < 0 then e_errno e else PROXY_ERR_AUTH) c
        else if buf ! 1 \<noteq> 0 then pc_fail PROXY_CS_ERROR PROXY_ERR_AUTH c
        else pc_next PROXY_CS_S5_SENDREQ PROXY_CF_WAITWRITE c)"

definition s5_request :: "bytes \<Rightarrow> u16 \<Rightarrow> bytes \<Rightarrow> u16 \<Rightarrow> (bytes \<times> int) option" where
  "s5_request stack cmd name port =
    do {
      buf \<leftarrow> buf_put stack 0 [5, ucast cmd, 0, 3, to_char (int (length name))];
      buf \<leftarrow> buf_strcpy buf 5 name;
      buf \<leftarrow> buf_put buf (5 + schar (buf ! 4)) (net16_bytes port);
      Some (buf, schar (buf ! 4) + 7)
    }"

definition cs_s5_sendreq :: "penv \<Rightarrow> t_proxy_connection \<Rightarrow> (t_proxy_connection \<times> int) option" where
  "cs_s5_sendreq e c =
    do {
      (buf, buf_len) \<leftarrow> s5_request (e_stack e) (pc_cmd c) (pc_target_name c) (pc_target_port c);
      pc_send e buf buf_len PROXY_CS_ERROR PROXY_CS_S5_WAITREQ c
    }"

text \<open>The checks on a reply; \<open>Inl\<close> is the failed connection.\<close>

definition s5_reply :: "penv \<Rightarrow> t_proxy_connection \<Rightarrow> (t_proxy_connection \<times> int) + bytes" where
  "s5_reply e c =
    (let (buf, buf_len) = pc_read e PROXY_NEGBUFLEN
     in if buf_len < 2 then Inl (pc_fail PROXY_CS_ERROR (if buf_len < 0 then e_errno e else PROXY_ERR_NEGOT) c)
        else if buf ! 1 \<noteq> 0
        then let st = (if 8 < schar (buf ! 1) then 1 else schar (buf ! 1))
             in Inl (pc_fail PROXY_CS_ERROR (PROXY_ERR_S5_BASE + st) c)
        else Inr buf)"

text \<open>
  The remote address: \<open>sprintf\<close> into 16 bytes, and \<open>memcpy\<close> of \<open>buf[4]\<close> bytes into one
  byte more than that.
\<close>

definition s5_remote :: "penv \<Rightarrow> bytes \<Rightarrow> t_proxy_connection \<Rightarrow> t_proxy_connection option" where
  "s5_remote e buf c =
    (if buf ! 3 = 1
     then if \<not> e_malloc e then Some (c\<lparr>pc_remote_name := None\<rparr>)
       else let name = show_dotted (schar (buf ! 4)) (schar (buf ! 5)) (schar (buf ! 6)) (schar (buf ! 7))
         in if length name + 1 \<le> 16
            then Some (c\<lparr>pc_remote_name := Some name, pc_remote_port := net16 (buf ! 8) (buf ! 9)\<rparr>)
            else None
     else if buf ! 3 = 3
     then let n = schar (buf ! 4)
       in if \<not> e_malloc e then Some (c\<lparr>pc_remote_name := None\<rparr>)
          else if n < 0 then None
          else Some (c\<lparr>pc_remote_name := Some (take (nat n) (drop 5 buf)),
                       pc_remote_port := net16 (buf ! (5 + nat n)) (buf ! (6 + nat n))\<rparr>)
     else Some c)"

definition cs_s5_waitreq :: "penv \<Rightarrow> t_proxy_connection \<Rightarrow> (t_proxy_connection \<times> int) option" where
  "cs_s5_waitreq e c =
    (case s5_reply e c of
       Inl r \<Rightarrow> Some r
     | Inr buf \<Rightarrow> do {
         c \<leftarrow> s5_remote e buf c;
         Some (if uint (pc_cmd c) \<noteq> PROXY_CMD_BIND then pc_done c
               else pc_next PROXY_CS_S5_WAITREQ2 PROXY_CF_WAITREAD c)
       })"

definition cs_s5_waitreq2 :: "penv \<Rightarrow> t_proxy_connection \<Rightarrow> t_proxy_connection \<times> int" where
  "cs_s5_waitreq2 e c = (case s5_reply e c of Inl r \<Rightarrow> r | Inr buf \<Rightarrow> pc_done c)"

section \<open>The handlers: SOCKS 4\<close>

text \<open>\<open>TRY_AGAIN\<close> of \<open>netdb.h\<close>; the loop that resolves the name.\<close>

definition TRY_AGAIN :: int where "TRY_AGAIN = 2"

fun s4_resolve :: "(bytes option \<times> int) list \<Rightarrow> (bytes option \<times> int) option" where
  "s4_resolve [] = None"
| "s4_resolve ((he, err) # rest) =
    (if he = None \<and> err = TRY_AGAIN then s4_resolve rest else Some (he, err))"

definition s4_request :: "bytes \<Rightarrow> u16 \<Rightarrow> u16 \<Rightarrow> bytes \<Rightarrow> nat \<Rightarrow> (bytes \<times> int) option" where
  "s4_request stack cmd port ip uid =
    do {
      buf \<leftarrow> buf_put stack 0 ([4, ucast cmd] @ net16_bytes port @ take 4 ip);
      buf \<leftarrow> buf_strcpy buf 8 (show_int (int uid));
      Some (buf, 8 + int (length (show_int (int uid))))
    }"

definition cs_s4_sendreq :: "penv \<Rightarrow> t_proxy_connection \<Rightarrow> (t_proxy_connection \<times> int) call" where
  "cs_s4_sendreq e c =
    (case s4_resolve (e_hosts e) of
       None \<Rightarrow> Stuck
     | Some (None, err) \<Rightarrow> Ret (pc_fail PROXY_CS_ERROR err c)
     | Some (Some ip, _) \<Rightarrow> call_of (do {
         (buf, buf_len) \<leftarrow> s4_request (e_stack e) (pc_cmd c) (pc_target_port c) ip (e_uid e);
         pc_send e buf buf_len PROXY_CS_ERROR PROXY_CS_S4_WAITREQ c
       }))"

definition s4_reply :: "penv \<Rightarrow> t_proxy_connection \<Rightarrow> (t_proxy_connection \<times> int) + bytes" where
  "s4_reply e c =
    (let (buf, buf_len) = pc_read e PROXY_NEGBUFLEN
     in if buf_len < 2 then Inl (pc_fail PROXY_CS_ERROR (e_errno e) c)
        else if buf ! 1 \<noteq> 90 then Inl (pc_fail PROXY_CS_ERROR (PROXY_ERR_S4_BASE + schar (buf ! 1) - 90) c)
        else Inr buf)"

definition cs_s4_waitreq :: "penv \<Rightarrow> t_proxy_connection \<Rightarrow> (t_proxy_connection \<times> int) option" where
  "cs_s4_waitreq e c =
    (case s4_reply e c of
       Inl r \<Rightarrow> Some r
     | Inr buf \<Rightarrow>
         let name = show_dotted (schar (buf ! 4)) (schar (buf ! 5)) (schar (buf ! 6)) (schar (buf ! 7));
             c = c\<lparr>pc_remote_port := net16 (buf ! 2) (buf ! 3),
                    pc_remote_name := (if e_malloc e then Some name else None)\<rparr>
         in if e_malloc e \<and> \<not> length name + 1 \<le> 16 then None
            else Some (if uint (pc_cmd c) = PROXY_CMD_CONNECT then pc_done c
                       else pc_next PROXY_CS_S4_WAITREQ2 PROXY_CF_WAITREAD c))"

definition cs_s4_waitreq2 :: "penv \<Rightarrow> t_proxy_connection \<Rightarrow> t_proxy_connection \<times> int" where
  "cs_s4_waitreq2 e c = (case s4_reply e c of Inl r \<Rightarrow> r | Inr buf \<Rightarrow> (c, 1))"

section \<open>The handlers: HTTP\<close>

text \<open>
  The request, with the credentials in the form \<open>usr:pwd\<close> twice.  All of it with its 0 must
  fit into \<open>buf\<close>, the credentials into \<open>auth_buf\<close>.
\<close>

definition http_auth :: "bytes \<Rightarrow> bytes \<Rightarrow> bytes option" where
  "http_auth user pwd =
    (let auth_buf = user @ str '':'' @ pwd
     in if length auth_buf + 1 \<le> PROXY_AUTHBUFLEN
        then do {
          b64 \<leftarrow> proxy_encode_base64 auth_buf;
          Some (str ''Authorization: Basic '' @ b64 @ [10] @ str ''Proxy-Authorization: Basic '' @ b64 @ [10])
        }
        else None)"

definition http_request :: "t_proxy \<Rightarrow> bytes \<Rightarrow> u16 \<Rightarrow> bytes option" where
  "http_request proxy name port =
    (let target = name @ str '':'' @ show_int (uint port);
         req = str ''CONNECT '' @ target @ str '' HTTP/1.1'' @ [10] @ str ''Host: '' @ target @ [10]
     in do {
       auth \<leftarrow> (if px_flags proxy AND PROXY_FL_AUTH \<noteq> 0
                then do { user \<leftarrow> px_user proxy; pwd \<leftarrow> px_pwd proxy; http_auth user pwd } else Some []);
       if length (req @ auth @ [10]) + 1 \<le> PROXY_NEGBUFLEN then Some (req @ auth @ [10]) else None
     })"

definition cs_hc_sendreq :: "penv \<Rightarrow> t_proxy_connection \<Rightarrow> (t_proxy_connection \<times> int) option" where
  "cs_hc_sendreq e c =
    do {
      req \<leftarrow> http_request (pc_proxy c) (pc_target_name c) (pc_target_port c);
      pc_send e req (int (length req)) PROXY_CS_ERROR PROXY_CS_HC_WAITREQ c
    }"

text \<open>
  \<open>sscanf(buf,"HTTP/1.1 %d",&adam)\<close>: a blank of the format matches any white space, \<open>%d\<close>
  also a sign; without a match \<open>adam\<close> keeps its value.
\<close>

definition is_space :: "u8 \<Rightarrow> bool" where
  "is_space c \<longleftrightarrow> c = 32 \<or> 9 \<le> c \<and> c \<le> 13"

definition is_digit :: "u8 \<Rightarrow> bool" where
  "is_digit c \<longleftrightarrow> 48 \<le> c \<and> c \<le> 57"

definition digits_value :: "bytes \<Rightarrow> int" where
  "digits_value ds = foldl (\<lambda>n c. 10 * n + (uint c - 48)) 0 ds"

definition scan_int :: "bytes \<Rightarrow> int option" where
  "scan_int s =
    (let s = dropWhile is_space s;
         neg = (s \<noteq> [] \<and> hd s = 45);
         s = (if s \<noteq> [] \<and> (hd s = 45 \<or> hd s = 43) then tl s else s);
         ds = takeWhile is_digit s
     in if ds = [] then None else Some (if neg then - digits_value ds else digits_value ds))"

definition http_code :: "bytes \<Rightarrow> int \<Rightarrow> int" where
  "http_code s adam =
    (let lit = str ''HTTP/1.1''
     in if take (length lit) s = lit
        then case scan_int (drop (length lit) s) of None \<Rightarrow> adam | Some n \<Rightarrow> n
        else adam)"

definition cs_hc_waitreq :: "penv \<Rightarrow> t_proxy_connection \<Rightarrow> (t_proxy_connection \<times> int) option" where
  "cs_hc_waitreq e c =
    (let (buf, buf_len) = pc_read e PROXY_NEGBUFLEN
     in if buf_len \<le> 0 then Some (pc_fail PROXY_CS_ERROR (e_errno e) c)
        else do {
          buf \<leftarrow> buf_set buf buf_len 0;
          let adam = http_code (takeWhile (\<lambda>b. b \<noteq> 0) buf) (e_adam e);
          Some (if adam sdiv 100 \<noteq> 2 then pc_fail PROXY_CS_ERROR PROXY_ERR_HC_GENERAL c else pc_done c)
        })"

section \<open>One poll, and the loop\<close>

text \<open>
  Which events are waited for: with neither flag set, whatever the stack holds.  The flag
  found is cleared.
\<close>

definition POLLIN :: u16 where "POLLIN = 1"
definition POLLOUT :: u16 where "POLLOUT = 4"

definition poll_events :: "penv \<Rightarrow> t_proxy_connection \<Rightarrow> u16 \<times> t_proxy_connection" where
  "poll_events e c =
    (if pc_flags c AND PROXY_CF_WAITREAD \<noteq> 0
     then (POLLIN, c\<lparr>pc_flags := pc_flags c AND NOT PROXY_CF_WAITREAD\<rparr>)
     else if pc_flags c AND PROXY_CF_WAITWRITE \<noteq> 0
     then (POLLOUT, c\<lparr>pc_flags := pc_flags c AND NOT PROXY_CF_WAITWRITE\<rparr>)
     else (e_events e, c))"

definition pc_dispatch :: "penv \<Rightarrow> t_proxy_connection \<Rightarrow> (t_proxy_connection \<times> int) call" where
  "pc_dispatch e c =
    (let st = pc_status c
     in if st = PROXY_CS_CONNECTING then Ret (cs_connecting e c)
        else if st = PROXY_CS_S5_SENDMET then call_of (cs_s5_sendmet e c)
        else if st = PROXY_CS_S5_WAITMET then Ret (cs_s5_waitmet e c)
        else if st = PROXY_CS_S5_SENDAUTH then call_of (cs_s5_sendauth e c)
        else if st = PROXY_CS_S5_WAITAUTH then Ret (cs_s5_waitauth e c)
        else if st = PROXY_CS_S5_SENDREQ then call_of (cs_s5_sendreq e c)
        else if st = PROXY_CS_S5_WAITREQ then call_of (cs_s5_waitreq e c)
        else if st = PROXY_CS_S5_WAITREQ2 then Ret (cs_s5_waitreq2 e c)
        else if st = PROXY_CS_S4_SENDREQ then cs_s4_sendreq e c
        else if st = PROXY_CS_S4_WAITREQ then call_of (cs_s4_waitreq e c)
        else if st = PROXY_CS_S4_WAITREQ2 then Ret (cs_s4_waitreq2 e c)
        else if st = PROXY_CS_HC_SENDREQ then call_of (cs_hc_sendreq e c)
        else if st = PROXY_CS_HC_WAITREQ then call_of (cs_hc_waitreq e c)
        else if st = PROXY_CS_CONNECTED then Ret (c, 1)
        else Ret (c\<lparr>pc_errno := PROXY_ERR_PARAM\<rparr>, -1))"

definition proxy_poll_connect :: "penv \<Rightarrow> t_proxy_connection \<Rightarrow> (t_proxy_connection \<times> int) call" where
  "proxy_poll_connect e c =
    (let (events, c) = poll_events e c; p = e_poll e events
     in if p = 0 then Ret (c, 0)
        else if p = -1 then Ret (pc_fail PROXY_CS_ERROR (e_errno e) c)
        else pc_dispatch e c)"

text \<open>The loop of \<open>proxy_connect\<close>, over one environment per turn; NULL is \<open>None\<close>.\<close>

fun proxy_connect_loop :: "penv list \<Rightarrow> t_proxy_connection \<Rightarrow> t_proxy_connection option call" where
  "proxy_connect_loop [] c = Stuck"
| "proxy_connect_loop (e # es) c =
    (case proxy_poll_connect e c of
       Overrun \<Rightarrow> Overrun
     | Stuck \<Rightarrow> Stuck
     | Ret (c, poll_res) \<Rightarrow>
         if poll_res < 0 then Ret None else if 0 < poll_res then Ret (Some c)
         else proxy_connect_loop es c)"

definition proxy_connect ::
  "nenv \<Rightarrow> penv list \<Rightarrow> t_proxy option \<Rightarrow> bytes option \<Rightarrow> u16 \<Rightarrow> int \<Rightarrow> t_proxy_connection option call" where
  "proxy_connect ne es proxy target_name target_port proxy_cmd =
    (case proxy_connect_nb ne proxy target_name target_port proxy_cmd of
       Inl _ \<Rightarrow> Ret None
     | Inr c \<Rightarrow> proxy_connect_loop es c)"

section \<open>The loop ends\<close>

text \<open>How many polls that find the socket ready a connection still needs at most.\<close>

definition pc_rank :: "t_proxy_connection \<Rightarrow> nat" where
  "pc_rank c =
    (let st = pc_status c
     in if st = 1 then 9 else if 100 \<le> st \<and> st \<le> 106 then nat (108 - st)
        else if 200 \<le> st \<and> st \<le> 202 then nat (204 - st) else if 300 \<le> st \<and> st \<le> 301 then nat (303 - st)
        else 1)"

definition ready :: "penv \<Rightarrow> bool" where
  "ready e \<longleftrightarrow> (e_poll e POLLIN \<noteq> 0 \<and> e_poll e POLLOUT \<noteq> 0 \<and> e_poll e (e_events e) \<noteq> 0)"

text \<open>The state after a handler that is not finished.\<close>

lemma pc_send_status:
  "pc_send e buf n failed status c = Some (c', 0) \<Longrightarrow> pc_status c' = status"
  by (auto simp: pc_send_def pc_write_def pc_fail_def pc_next_def Let_def bind_eq_Some_conv split: if_splits)

lemma handler_status:
  "cs_connecting e c = (c', 0) \<Longrightarrow> pc_status c' = uint (px_type (pc_proxy c)) * 100"
  "cs_s5_sendmet e c = Some (c', 0) \<Longrightarrow> pc_status c' = 101"
  "cs_s5_waitmet e c = (c', 0) \<Longrightarrow> pc_status c' = 102 \<or> pc_status c' = 104"
  "cs_s5_sendauth e c = Some (c', 0) \<Longrightarrow> pc_status c' = 103"
  "cs_s5_waitauth e c = (c', 0) \<Longrightarrow> pc_status c' = 104"
  "cs_s5_sendreq e c = Some (c', 0) \<Longrightarrow> pc_status c' = 105"
  "cs_s5_waitreq e c = Some (c', 0) \<Longrightarrow> pc_status c' = 106"
  "cs_s5_waitreq2 e c \<noteq> (c', 0)"
  "cs_s4_sendreq e c = Ret (c', 0) \<Longrightarrow> pc_status c' = 201"
  "cs_s4_waitreq e c = Some (c', 0) \<Longrightarrow> pc_status c' = 202"
  "cs_s4_waitreq2 e c \<noteq> (c', 0)"
  "cs_hc_sendreq e c = Some (c', 0) \<Longrightarrow> pc_status c' = 301"
  "cs_hc_waitreq e c \<noteq> Some (c', 0)"
  subgoal by (auto simp: cs_connecting_def pc_fail_def split: if_splits)
  subgoal by (auto simp: cs_s5_sendmet_def Let_def proxy_consts dest!: pc_send_status split: if_splits)
  subgoal by (auto simp: cs_s5_waitmet_def Let_def proxy_consts pc_fail_def pc_next_def split: if_splits prod.splits)
  subgoal by (auto simp: cs_s5_sendauth_def bind_eq_Some_conv proxy_consts dest!: pc_send_status)
  subgoal by (auto simp: cs_s5_waitauth_def Let_def proxy_consts pc_fail_def pc_next_def split: if_splits prod.splits)
  subgoal by (auto simp: cs_s5_sendreq_def bind_eq_Some_conv proxy_consts dest!: pc_send_status)
  subgoal by (auto simp: cs_s5_waitreq_def s5_reply_def bind_eq_Some_conv Let_def proxy_consts pc_fail_def pc_done_def
        pc_next_def split: sum.splits if_splits prod.splits)
  subgoal by (auto simp: cs_s5_waitreq2_def s5_reply_def Let_def pc_fail_def pc_done_def split: sum.splits if_splits prod.splits)
  subgoal by (auto simp: cs_s4_sendreq_def bind_eq_Some_conv proxy_consts pc_fail_def dest!: pc_send_status
        split: option.splits prod.splits)
  subgoal by (auto simp: cs_s4_waitreq_def s4_reply_def Let_def proxy_consts pc_fail_def pc_done_def pc_next_def
        split: sum.splits if_splits prod.splits)
  subgoal by (auto simp: cs_s4_waitreq2_def s4_reply_def Let_def pc_fail_def split: sum.splits if_splits prod.splits)
  subgoal by (auto simp: cs_hc_sendreq_def bind_eq_Some_conv proxy_consts dest!: pc_send_status)
  subgoal by (auto simp: cs_hc_waitreq_def Let_def bind_eq_Some_conv pc_fail_def pc_done_def split: if_splits prod.splits)
  done

lemma type_rank: "pc_status c = uint (t::u16) * 100 \<Longrightarrow> pc_rank c < 9"
proof -
  assume s: "pc_status c = uint t * 100"
  consider "uint t = 1" | "uint t = 2" | "uint t = 3" | "uint t \<noteq> 1" "uint t \<noteq> 2" "uint t \<noteq> 3" by blast
  then show ?thesis
  proof cases
    case 4
    then have "uint t * 100 \<notin> {1} \<union> {100..106} \<union> {200..202} \<union> {300..301}" by auto
    with s show ?thesis by (auto simp: pc_rank_def Let_def)
  qed (simp_all add: s pc_rank_def)
qed

lemma dispatch_rank:
  assumes "pc_dispatch e c = Ret (c', 0)"
  shows "pc_rank c' < pc_rank c"
  using assms handler_status(8,11,13)
  by (auto simp: pc_dispatch_def Let_def proxy_consts pc_rank_def [of c] split: if_splits
      dest!: handler_status(1-7,9,10,12) intro: type_rank) (simp_all add: pc_rank_def)

lemma poll_rank:
  assumes "proxy_poll_connect e c = Ret (c', 0)"
  shows "pc_rank c' \<le> pc_rank c" "ready e \<Longrightarrow> pc_rank c' < pc_rank c"
proof -
  obtain ev c1 where pe: "poll_events e c = (ev, c1)" by fastforce
  then have r: "pc_rank c1 = pc_rank c" and ev: "ready e \<Longrightarrow> e_poll e ev \<noteq> 0"
    by (auto simp: poll_events_def pc_rank_def ready_def split: if_splits)
  show "pc_rank c' \<le> pc_rank c"
    using assms r dispatch_rank [of e c1 c'] by (auto simp: proxy_poll_connect_def pe Let_def pc_fail_def split: if_splits)
  show "pc_rank c' < pc_rank c" if "ready e"
    using assms r ev [OF that] dispatch_rank [of e c1 c'] by (auto simp: proxy_poll_connect_def pe Let_def pc_fail_def split: if_splits)
qed

lemma poll_not_stuck:
  "s4_resolve (e_hosts e) \<noteq> None \<Longrightarrow> proxy_poll_connect e c \<noteq> Stuck"
  by (auto simp: proxy_poll_connect_def pc_dispatch_def cs_s4_sendreq_def Let_def
      split: prod.splits option.splits if_splits)

lemma pc_rank_range: "1 \<le> pc_rank c \<and> pc_rank c \<le> 9"
  by (auto simp: pc_rank_def Let_def)

lemma connect_loop_ends:
  assumes "\<forall>e \<in> set es. s4_resolve (e_hosts e) \<noteq> None" "pc_rank c \<le> length (filter ready es)"
  shows "proxy_connect_loop es c \<noteq> Stuck"
  using assms
proof (induction es arbitrary: c)
  case Nil
  then show ?case using pc_rank_range [of c] by simp
next
  case (Cons e es)
  have "proxy_connect_loop es c' \<noteq> Stuck" if r: "proxy_poll_connect e c = Ret (c', 0)" for c'
  proof (rule Cons.IH)
    show "pc_rank c' \<le> length (filter ready es)"
      using poll_rank [OF r] Cons.prems(2) by (cases "ready e") simp_all
  qed (use Cons.prems in simp)
  moreover have "proxy_poll_connect e c \<noteq> Stuck" using poll_not_stuck Cons.prems(1) by simp
  ultimately show ?case by (auto split: call.splits prod.splits)
qed

section \<open>What a SOCKS 5 server is sent\<close>

text \<open>The messages of RFC 1928 and RFC 1929.\<close>

definition s5_methods :: "u16 \<Rightarrow> bytes" where
  "s5_methods flags = (if flags AND PROXY_FL_AUTH \<noteq> 0 then [5, 2, 0, 2] else [5, 1, 0])"

definition s5_auth :: "bytes \<Rightarrow> bytes \<Rightarrow> bytes" where
  "s5_auth user pwd = [1, of_nat (length user)] @ user @ [of_nat (length pwd)] @ pwd"

definition s5_req :: "u16 \<Rightarrow> bytes \<Rightarrow> u16 \<Rightarrow> bytes" where
  "s5_req cmd name port = [5, ucast cmd, 0, 3, of_nat (length name)] @ name @ net16_bytes port"

lemma s5_request_bytes:
  assumes "length name < 128" "s5_request stack cmd name port = Some (buf, n)"
  shows "0 \<le> n" "take (nat n) buf = s5_req cmd name port"
proof -
  let ?l = "to_char (int (length name))"
  obtain b1 b2 b3 where b: "buf_put stack 0 [5, ucast cmd, 0, 3, ?l] = Some b1" "buf_strcpy b1 5 name = Some b2"
      "buf_put b2 (5 + schar (b2 ! 4)) (net16_bytes port) = Some b3" and r: "buf = b3" "n = schar (b3 ! 4) + 7"
    using assms(2) by (auto simp: s5_request_def bind_eq_Some_conv)
  have 1: "starts b1 [5, ucast cmd, 0, 3, ?l]" using starts_put [OF starts_Nil b(1)] by simp
  have 2: "starts b2 ([5, ucast cmd, 0, 3, ?l] @ name)" by (rule starts_strcpy [OF 1 b(2)]) simp
  have l: "schar ?l = int (length name)" using assms(1) by (simp add: to_char_def)
  have "b2 ! 4 = ?l" using starts_nth [OF 2, of 4] by (simp add: nth_append)
  then have 3: "starts b3 (([5, ucast cmd, 0, 3, ?l] @ name) @ net16_bytes port)"
    by (intro starts_put [OF 2 b(3)]) (simp add: l)
  have "b3 ! 4 = ?l" using starts_nth [OF 3, of 4] by (simp add: nth_append)
  then have n: "n = int (length name) + 7" using r l by simp
  then show "0 \<le> n" by simp
  show "take (nat n) buf = s5_req cmd name port"
    using starts_take [OF 3, of "nat n"] n r(1) by (simp add: s5_req_def to_char_def net16_bytes_def nat_add_distrib)
qed

lemma auth_request_bytes:
  assumes "length user < 128" "length pwd < 128" "auth_request stack user pwd = Some (buf, n)"
  shows "0 \<le> n" "take (nat n) buf = s5_auth user pwd"
proof -
  let ?u = "to_char (int (length user))" and ?p = "to_char (int (length pwd))"
  obtain b1 b2 b3 b4 b5 k where b: "buf_set stack 0 1 = Some b1" "buf_set b1 1 ?u = Some b2" "buf_strcpy b2 2 user = Some b3"
      "buf_set b3 (2 + schar (b3 ! 1)) ?p = Some b4" "buf_strcpy b4 (2 + schar (b4 ! 1) + 1) pwd = Some b5"
      "buf_get b5 (2 + schar (b5 ! 1)) = Some k" and r: "buf = b5" "n = schar (b5 ! 1) + schar k + 3"
    using assms(3) by (auto simp: auth_request_def bind_eq_Some_conv)
  have u: "schar ?u = int (length user)" and p: "schar ?p = int (length pwd)" using assms by (simp_all add: to_char_def)
  have 1: "starts b1 [1]" using starts_set [OF starts_Nil b(1)] by simp
  have 2: "starts b2 [1, ?u]" using starts_set [OF 1 b(2)] by simp
  have 3: "starts b3 ([1, ?u] @ user)" by (rule starts_strcpy [OF 2 b(3)]) simp
  have "b3 ! 1 = ?u" using starts_nth [OF 3, of 1] by simp
  then have 4: "starts b4 (([1, ?u] @ user) @ [?p])" by (intro starts_set [OF 3 b(4)]) (simp add: u)
  have "b4 ! 1 = ?u" using starts_nth [OF 4, of 1] by simp
  then have 5: "starts b5 ((([1, ?u] @ user) @ [?p]) @ pwd)" by (intro starts_strcpy [OF 4 b(5)]) (simp add: u)
  have b51: "b5 ! 1 = ?u" using starts_nth [OF 5, of 1] by simp
  have "b5 ! (2 + length user) = ?p" using starts_nth [OF 5, of "2 + length user"] by (simp add: nth_append)
  then have "k = ?p" using b(6) b51 by (auto simp: buf_get_def u nat_add_distrib split: if_splits)
  then have n: "n = int (length user) + int (length pwd) + 3" using r b51 u p by simp
  then show "0 \<le> n" by simp
  show "take (nat n) buf = s5_auth user pwd"
    using starts_take [OF 5, of "nat n"] n r(1) by (simp add: s5_auth_def to_char_def nat_add_distrib)
qed

text \<open>What has been written when the negotiation is in a state.\<close>

definition s5_opening :: "t_proxy_connection \<Rightarrow> bytes \<Rightarrow> bool" where
  "s5_opening c xs \<longleftrightarrow> xs = s5_methods (px_flags (pc_proxy c)) \<or>
    (\<exists>u p. px_user (pc_proxy c) = Some u \<and> px_pwd (pc_proxy c) = Some p \<and>
      xs = s5_methods (px_flags (pc_proxy c)) @ s5_auth u p)"

definition s5_sent :: "t_proxy_connection \<Rightarrow> bool" where
  "s5_sent c \<longleftrightarrow>
    (let st = pc_status c; sent = pc_sent c
     in if st = 1 \<or> st = 100 then sent = []
        else if st = 101 \<or> st = 102 then sent = s5_methods (px_flags (pc_proxy c))
        else if st = 103 \<or> st = 104 then s5_opening c sent
        else if st = 105 \<or> st = 106 \<or> st = 2
        then \<exists>xs. s5_opening c xs \<and> sent = xs @ s5_req (pc_cmd c) (pc_target_name c) (pc_target_port c)
        else False)"

definition s5_fits :: "t_proxy_connection \<Rightarrow> bool" where
  "s5_fits c \<longleftrightarrow> px_type (pc_proxy c) = 1 \<and> length (pc_target_name c) < 128 \<and>
    (\<forall>u. px_user (pc_proxy c) = Some u \<longrightarrow> length u < 128) \<and>
    (\<forall>p. px_pwd (pc_proxy c) = Some p \<longrightarrow> length p < 128)"

definition pc_static :: "t_proxy_connection \<Rightarrow> t_proxy \<times> u16 \<times> bytes \<times> u16" where
  "pc_static c = (pc_proxy c, pc_cmd c, pc_target_name c, pc_target_port c)"

lemma pc_send_ok:
  "pc_send e buf n failed status c = Some (c', r) \<Longrightarrow> 0 \<le> r \<Longrightarrow>
    r = 0 \<and> pc_status c' = status \<and> pc_static c' = pc_static c \<and> pc_sent c' = pc_sent c @ take (nat n) buf"
  by (auto simp: pc_send_def pc_write_def pc_fail_def pc_next_def pc_static_def Let_def bind_eq_Some_conv min_def
      split: if_splits)

lemma methods_bytes:
  assumes "length stack = 256" "cs_s5_sendmet e c = Some (c', r)" "0 \<le> r" "stack = e_stack e"
  shows "r = 0 \<and> pc_status c' = 101 \<and> pc_static c' = pc_static c \<and>
    pc_sent c' = pc_sent c @ s5_methods (px_flags (pc_proxy c))"
proof -
  obtain a b d f t where st: "stack = a # b # d # f # t"
    using assms(1) by (auto simp: length_Suc_conv numeral_eq_Suc)
  show ?thesis
    using assms(2,3) st assms(4)
    by (cases "px_flags (pc_proxy c) AND PROXY_FL_AUTH = 0")
      (auto simp: cs_s5_sendmet_def s5_methods_def Let_def proxy_consts dest!: pc_send_ok)
qed

lemma s5_reply_Inl: "s5_reply e c = Inl (c', r) \<Longrightarrow> r = -1"
  by (auto simp: s5_reply_def Let_def pc_fail_def split: if_splits prod.splits)

lemma s5_remote_same:
  "s5_remote e buf c = Some c' \<Longrightarrow> pc_static c' = pc_static c \<and> pc_sent c' = pc_sent c \<and> pc_flags c' = pc_flags c"
  by (auto simp: s5_remote_def pc_static_def Let_def split: if_splits)

lemma waitreq_same:
  assumes "cs_s5_waitreq e c = Some (c', r)" "0 \<le> r"
  shows "pc_static c' = pc_static c \<and> pc_sent c' = pc_sent c \<and>
    (pc_status c' = 106 \<and> r = 0 \<or> pc_status c' = 2 \<and> r = 1)"
proof -
  obtain buf where "s5_reply e c = Inr buf"
    using assms s5_reply_Inl [of e c c' r] by (cases "s5_reply e c") (auto simp: cs_s5_waitreq_def)
  then obtain c1 where 1: "s5_remote e buf c = Some c1"
    and 2: "(c', r) = (if uint (pc_cmd c1) \<noteq> PROXY_CMD_BIND then pc_done c1
      else pc_next PROXY_CS_S5_WAITREQ2 PROXY_CF_WAITREAD c1)"
    using assms(1) by (auto simp: cs_s5_waitreq_def bind_eq_Some_conv)
  from 2 s5_remote_same [OF 1] show ?thesis
    by (auto simp: pc_done_def pc_next_def pc_static_def proxy_consts split: if_splits)
qed

lemma s5_opening_static: "pc_static c' = pc_static c \<Longrightarrow> s5_opening c' = s5_opening c"
  by (rule ext) (simp add: s5_opening_def pc_static_def)

lemma s5_step:
  assumes fits: "s5_fits c" and ok: "s5_sent c" and stack: "length (e_stack e) = 256"
    and d: "pc_dispatch e c = Ret (c', r)" and r: "0 \<le> r"
  shows "s5_sent c' \<and> pc_static c' = pc_static c \<and> (r \<noteq> 0 \<longrightarrow> pc_status c' = 2)"
proof -
  have t1: "px_type (pc_proxy c) = 1" using fits by (simp add: s5_fits_def)
  consider (con) "pc_status c = 1" | (met) "pc_status c = 100" | (wmet) "pc_status c = 101" | (auth) "pc_status c = 102"
    | (wauth) "pc_status c = 103" | (req) "pc_status c = 104" | (wreq) "pc_status c = 105"
    | (wreq2) "pc_status c = 106" | (conn) "pc_status c = 2"
    using ok by (auto simp: s5_sent_def Let_def split: if_splits)
  then show ?thesis
  proof cases
    case con
    then have "cs_connecting e c = (c', r)" using d by (simp add: pc_dispatch_def proxy_consts)
    with ok con r t1 show ?thesis
      by (auto simp: cs_connecting_def pc_fail_def s5_sent_def pc_static_def split: if_splits)
  next
    case met
    then have "cs_s5_sendmet e c = Some (c', r)" using d by (simp add: pc_dispatch_def proxy_consts)
    from methods_bytes [OF stack this r refl] ok met show ?thesis by (auto simp: s5_sent_def pc_static_def)
  next
    case wmet
    then have "cs_s5_waitmet e c = (c', r)" using d by (simp add: pc_dispatch_def proxy_consts)
    with ok wmet r show ?thesis
      by (auto simp: cs_s5_waitmet_def pc_fail_def pc_next_def s5_sent_def s5_opening_def pc_static_def proxy_consts Let_def
          split: if_splits prod.splits)
  next
    case auth
    then have "cs_s5_sendauth e c = Some (c', r)" using d by (simp add: pc_dispatch_def proxy_consts)
    then obtain u p buf n where up: "px_user (pc_proxy c) = Some u" "px_pwd (pc_proxy c) = Some p"
        and a: "auth_request (e_stack e) u p = Some (buf, n)"
        and s: "pc_send e buf n (pc_status c OR PROXY_CS_ERROR) PROXY_CS_S5_WAITAUTH c = Some (c', r)"
      by (auto simp: cs_s5_sendauth_def bind_eq_Some_conv)
    have "take (nat n) buf = s5_auth u p" using auth_request_bytes(2) [OF _ _ a] fits up by (simp add: s5_fits_def)
    with pc_send_ok [OF s r] ok auth up show ?thesis
      by (auto simp: s5_sent_def s5_opening_def pc_static_def proxy_consts)
  next
    case wauth
    then have "cs_s5_waitauth e c = (c', r)" using d by (simp add: pc_dispatch_def proxy_consts)
    with ok wauth r show ?thesis
      by (auto simp: cs_s5_waitauth_def pc_fail_def pc_next_def s5_sent_def s5_opening_def pc_static_def proxy_consts Let_def
          split: if_splits prod.splits)
  next
    case req
    then have "cs_s5_sendreq e c = Some (c', r)" using d by (simp add: pc_dispatch_def proxy_consts)
    then obtain buf n where q: "s5_request (e_stack e) (pc_cmd c) (pc_target_name c) (pc_target_port c) = Some (buf, n)"
        and s: "pc_send e buf n PROXY_CS_ERROR PROXY_CS_S5_WAITREQ c = Some (c', r)"
      by (auto simp: cs_s5_sendreq_def bind_eq_Some_conv)
    have "take (nat n) buf = s5_req (pc_cmd c) (pc_target_name c) (pc_target_port c)"
      using s5_request_bytes(2) [OF _ q] fits by (simp add: s5_fits_def)
    with pc_send_ok [OF s r] ok req show ?thesis
      by (auto simp: s5_sent_def s5_opening_def pc_static_def proxy_consts)
  next
    case wreq
    then have "cs_s5_waitreq e c = Some (c', r)" using d by (simp add: pc_dispatch_def proxy_consts)
    from waitreq_same [OF this r] ok wreq s5_opening_static [of c' c] show ?thesis
      by (auto simp: s5_sent_def pc_static_def)
  next
    case wreq2
    then have "cs_s5_waitreq2 e c = (c', r)" using d by (simp add: pc_dispatch_def proxy_consts)
    with ok wreq2 r show ?thesis
      by (auto simp: cs_s5_waitreq2_def pc_done_def s5_sent_def s5_opening_def pc_static_def
          proxy_consts Let_def split: if_splits sum.splits dest!: s5_reply_Inl)
  next
    case conn
    with d ok show ?thesis by (simp add: pc_dispatch_def proxy_consts)
  qed
qed

lemma s5_poll:
  assumes "s5_fits c" "s5_sent c" "length (e_stack e) = 256" "proxy_poll_connect e c = Ret (c', r)" "0 \<le> r"
  shows "s5_sent c' \<and> pc_static c' = pc_static c \<and> (r \<noteq> 0 \<longrightarrow> pc_status c' = 2)"
proof -
  obtain ev c1 where pe: "poll_events e c = (ev, c1)" by fastforce
  then obtain f where f: "c1 = c\<lparr>pc_flags := f\<rparr>"
    by (auto simp: poll_events_def split: if_splits intro: that [of "pc_flags c"])
  have "s5_opening c1 = s5_opening c" by (rule s5_opening_static) (simp add: f pc_static_def)
  then have "s5_sent c1 = s5_sent c" by (simp add: s5_sent_def Let_def f cong: if_cong)
  then have same: "pc_static c1 = pc_static c" "s5_fits c1" "s5_sent c1"
    using assms(1,2) by (simp_all add: f pc_static_def s5_fits_def)
  have poll: "(if e_poll e ev = 0 then Ret (c1, 0) else if e_poll e ev = -1 then Ret (pc_fail PROXY_CS_ERROR (e_errno e) c1)
      else pc_dispatch e c1) = Ret (c', r)"
    using assms(4) by (simp only: proxy_poll_connect_def pe Let_def prod.case)
  show ?thesis
  proof (cases "e_poll e ev = 0")
    case True
    with poll same show ?thesis by simp
  next
    case False
    then have 2: "pc_dispatch e c1 = Ret (c', r)"
      using poll assms(5) by (simp add: pc_fail_def split: if_splits)
    from s5_step [OF same(2,3) assms(3) 2 assms(5)] same(1) show ?thesis by simp
  qed
qed

lemma s5_loop:
  assumes "proxy_connect_loop es c = Ret (Some c')" "s5_fits c" "s5_sent c" "\<forall>e \<in> set es. length (e_stack e) = 256"
  shows "s5_sent c' \<and> pc_status c' = 2 \<and> pc_static c' = pc_static c"
  using assms
proof (induction es arbitrary: c)
  case (Cons e es)
  obtain c1 r where p: "proxy_poll_connect e c = Ret (c1, r)" "0 \<le> r"
    using Cons.prems(1) by (auto split: call.splits if_splits)
  from s5_poll [OF Cons.prems(2,3) _ p] Cons.prems(4)
  have 1: "s5_sent c1" "pc_static c1 = pc_static c" "r \<noteq> 0 \<longrightarrow> pc_status c1 = 2" by simp_all
  then have fits: "s5_fits c1" using Cons.prems(2) by (simp add: pc_static_def s5_fits_def)
  show ?case
  proof (cases "r = 0")
    case True
    then show ?thesis using Cons.IH [of c1] Cons.prems(1,4) p(1) 1 fits by simp
  next
    case False
    then show ?thesis using Cons.prems(1) p 1 by simp
  qed
qed simp

lemma connect_nb_start:
  assumes "proxy_connect_nb ne (Some px) (Some name) port cmd = Inr c"
  shows "pc_status c = 1" "pc_sent c = []" "pc_static c = (px, word_of_int cmd, name, port)"
  using assms by (auto simp: proxy_connect_nb_def pc_static_def proxy_consts split: if_splits)

section \<open>Faults\<close>

text \<open>Addresses that do not fit into the 16 bytes allocated for them.\<close>

lemma show_int_long: "-128 \<le> n \<Longrightarrow> n \<le> -100 \<Longrightarrow> length (show_int n) = 4"
proof -
  assume "-128 \<le> n" "n \<le> -100"
  moreover have "list_all (\<lambda>k. length (digits k) = 3) [100..<129]" by code_simp
  then have "length (digits k) = 3" if "k \<in> set [100..<129]" for k using that by (simp only: list_all_iff)
  moreover have "nat (- n) \<in> set [100..<129]" using calculation(1,2) unfolding set_upt atLeastLessThan_iff by linarith
  ultimately show "length (show_int n) = 4" by (simp add: show_int_def)
qed

lemma schar_dotted:
  assumes "128 \<le> a" "a \<le> 156"
  shows "-128 \<le> schar a \<and> schar a \<le> -100"
  using assms by (auto simp: schar_def word_le_def word_less_def)

lemma remote_overrun:
  assumes "\<forall>x \<in> {buf ! 4, buf ! 5, buf ! 6, buf ! 7}. 128 \<le> x \<and> x \<le> 156" "buf ! 3 = 1" "e_malloc e"
  shows "s5_remote e buf c = None"
  using assms show_int_long schar_dotted by (simp add: s5_remote_def Let_def show_dotted_def)

lemma remote_small:
  assumes "\<forall>x \<in> {buf ! 4, buf ! 5, buf ! 6, buf ! 7}. x < 128" "buf ! 3 = 1" "e_malloc e"
  shows "s5_remote e buf c = Some (c\<lparr>pc_remote_name := Some (show_dotted (int (unat (buf ! 4))) (int (unat (buf ! 5)))
      (int (unat (buf ! 6))) (int (unat (buf ! 7)))), pc_remote_port := net16 (buf ! 8) (buf ! 9)\<rparr>)"
proof -
  have "0 \<le> schar x \<and> schar x < 1000" if "x \<in> {buf ! 4, buf ! 5, buf ! 6, buf ! 7}" for x
    using that assms(1) schar_nonneg schar_upper [of x] by fastforce
  then have "length (show_dotted (schar (buf ! 4)) (schar (buf ! 5)) (schar (buf ! 6)) (schar (buf ! 7))) \<le> 15"
    by (intro show_dotted_length) auto
  then show ?thesis using assms by (simp add: s5_remote_def Let_def)
qed

end
