(* ===== verification/UpSession.thy ===== *)
theory UpSession
  imports UpProxy
begin

text \<open>
  Whole sessions with an upstream proxy: which states a connection can be in, and what a
  SOCKS 5 proxy was sent when the connection is established.
\<close>

section \<open>The states of a connection\<close>

text \<open>
  The states that \<open>up_proxy.h\<close> names for a type of proxy.  Every other value falls into the
  default branch of the switch.
\<close>

definition status_ok :: "int \<Rightarrow> int \<Rightarrow> bool" where
  "status_ok type st \<longleftrightarrow> st \<in> {PROXY_CS_CONNECTING, PROXY_CS_CONNECTED, PROXY_CS_ERROR} \<or>
    type = PROXY_SOCKS5 \<and> PROXY_CS_S5_SENDMET \<le> st \<and> st \<le> PROXY_CS_S5_WAITREQ2 \<or>
    type = PROXY_SOCKS4 \<and> PROXY_CS_S4_SENDREQ \<le> st \<and> st \<le> PROXY_CS_S4_WAITREQ2 \<or>
    type = PROXY_HTTPCONNECT \<and> PROXY_CS_HC_SENDREQ \<le> st \<and> st \<le> PROXY_CS_HC_WAITREQ"

lemmas handler_defs =
  cs_connecting_def cs_s5_sendmet_def cs_s5_waitmet_def cs_s5_sendauth_def cs_s5_waitauth_def cs_s5_sendreq_def
  cs_s5_waitreq_def cs_s5_waitreq2_def cs_s4_sendreq_def cs_s4_waitreq_def cs_s4_waitreq2_def cs_hc_sendreq_def
  cs_hc_waitreq_def

text \<open>A state and a result of a handler: the next state, or the state in which it failed.\<close>

definition leads :: "t_proxy_connection \<Rightarrow> int set \<Rightarrow> int \<Rightarrow> t_proxy_connection \<times> int \<Rightarrow> bool" where
  "leads c sts bad r \<longleftrightarrow> pc_proxy (fst r) = pc_proxy c \<and> snd r \<in> {-1, 0, 1} \<and>
    (if snd r = -1 then pc_status (fst r) = bad
     else pc_status (fst r) \<in> sts \<and> (snd r = 1 \<longrightarrow> pc_status (fst r) \<in> {2, pc_status c}))"

lemma leads_base:
  "leads c sts bad (pc_fail bad err c)"
  "st \<in> sts \<Longrightarrow> leads c sts bad (pc_next st flag c)"
  "2 \<in> sts \<Longrightarrow> leads c sts bad (pc_done c)"
  by (simp_all add: leads_def pc_fail_def pc_next_def pc_done_def proxy_consts)

lemma pc_send_leads: "pc_send e buf n bad st c = Some r \<Longrightarrow> leads c {st} bad r"
  by (auto simp: pc_send_def pc_write_def Let_def bind_eq_Some_conv leads_def pc_fail_def pc_next_def split: if_splits)

lemma s5_reply_leads: "s5_reply e c = Inl r \<Longrightarrow> leads c sts 3 r"
  using leads_base(1) [of c sts 3] by (auto simp: s5_reply_def Let_def proxy_consts split: if_splits prod.splits)

lemma s4_reply_leads: "s4_reply e c = Inl r \<Longrightarrow> leads c sts 3 r"
  using leads_base(1) [of c sts 3] by (auto simp: s4_reply_def Let_def proxy_consts split: if_splits prod.splits)

lemma s5_remote_proxy: "s5_remote e buf c = Some c' \<Longrightarrow> pc_proxy c' = pc_proxy c"
  using s5_remote_same by (fastforce simp: pc_static_def)

lemma handler_leads:
  "leads c {uint (px_type (pc_proxy c)) * 100} 3 (cs_connecting e c)"
  "cs_s5_sendmet e c = Some r \<Longrightarrow> leads c {101} 3 r"
  "leads c {102, 104} 3 (cs_s5_waitmet e c)"
  "cs_s5_sendauth e c = Some r \<Longrightarrow> leads c {103} (pc_status c OR 3) r"
  "leads c {104} 3 (cs_s5_waitauth e c)"
  "cs_s5_sendreq e c = Some r \<Longrightarrow> leads c {105} 3 r"
  "cs_s5_waitreq e c = Some r \<Longrightarrow> leads c {106, 2} 3 r"
  "leads c {2} 3 (cs_s5_waitreq2 e c)"
  "cs_s4_sendreq e c = Ret r \<Longrightarrow> leads c {201} 3 r"
  "cs_s4_waitreq e c = Some r \<Longrightarrow> leads c {202, 2} 3 r"
  "leads c {pc_status c} 3 (cs_s4_waitreq2 e c)"
  "cs_hc_sendreq e c = Some r \<Longrightarrow> leads c {301} 3 r"
  "cs_hc_waitreq e c = Some r \<Longrightarrow> leads c {2} 3 r"
  subgoal by (simp add: cs_connecting_def leads_base proxy_consts) (simp add: leads_def)
  subgoal by (auto simp: cs_s5_sendmet_def Let_def proxy_consts split: if_splits dest!: pc_send_leads)
  subgoal by (auto simp: cs_s5_waitmet_def Let_def proxy_consts leads_def pc_fail_def pc_next_def split: prod.splits)
  subgoal by (auto simp: cs_s5_sendauth_def bind_eq_Some_conv proxy_consts dest!: pc_send_leads)
  subgoal by (auto simp: cs_s5_waitauth_def Let_def proxy_consts leads_def pc_fail_def pc_next_def split: prod.splits)
  subgoal by (auto simp: cs_s5_sendreq_def bind_eq_Some_conv proxy_consts dest!: pc_send_leads)
  subgoal by (auto simp: cs_s5_waitreq_def bind_eq_Some_conv proxy_consts leads_def pc_next_def pc_done_def
        dest!: s5_remote_proxy split: sum.splits if_splits dest: s5_reply_leads [unfolded leads_def])
  subgoal by (auto simp: cs_s5_waitreq2_def proxy_consts leads_base intro: s5_reply_leads split: sum.splits)
  subgoal by (auto simp: cs_s4_sendreq_def bind_eq_Some_conv proxy_consts leads_base dest!: pc_send_leads
        split: option.splits prod.splits)
  subgoal by (auto simp: cs_s4_waitreq_def Let_def proxy_consts leads_def pc_next_def pc_done_def
        dest!: s4_reply_leads [unfolded leads_def] split: sum.splits if_splits)
  subgoal by (auto simp: cs_s4_waitreq2_def leads_def dest: s4_reply_leads [unfolded leads_def] split: sum.splits)
  subgoal by (auto simp: cs_hc_sendreq_def bind_eq_Some_conv proxy_consts dest!: pc_send_leads)
  subgoal by (auto simp: cs_hc_waitreq_def Let_def bind_eq_Some_conv proxy_consts leads_def pc_fail_def pc_done_def
        split: if_splits prod.splits)
  done

text \<open>
  A turn keeps the type of the state.  A failure leaves ERROR, but a failed write of the
  credentials leaves WAITAUTH; a success leaves CONNECTED, but a SOCKS 4 BIND does not.
\<close>

definition turn_ok :: "int \<Rightarrow> t_proxy_connection \<times> int \<Rightarrow> bool" where
  "turn_ok type r \<longleftrightarrow> (let st = pc_status (fst r) in
    if snd r < 0 then st = PROXY_CS_ERROR \<or> type = PROXY_SOCKS5 \<and> st = PROXY_CS_S5_WAITAUTH
    else if snd r = 0 then status_ok type st
    else st = PROXY_CS_CONNECTED \<or> type = PROXY_SOCKS4 \<and> st = PROXY_CS_S4_WAITREQ2)"

lemma leads_turn:
  assumes "leads c sts bad r" "\<forall>s \<in> sts. status_ok t s" "bad = 3 \<or> t = 1 \<and> bad = 103"
    "pc_status c \<notin> sts \<or> pc_status c = 202 \<and> t = 2"
  shows "turn_ok t r \<and> pc_proxy (fst r) = pc_proxy c"
proof -
  have r: "snd r = -1 \<or> snd r = 0 \<or> snd r = 1" and px: "pc_proxy (fst r) = pc_proxy c"
    and neg: "snd r = -1 \<Longrightarrow> pc_status (fst r) = bad"
    and nonneg: "snd r \<noteq> -1 \<Longrightarrow> pc_status (fst r) \<in> sts \<and> (snd r = 1 \<longrightarrow> pc_status (fst r) \<in> {2, pc_status c})"
    using assms(1) by (auto simp: leads_def split: if_splits)
  from r have "turn_ok t r"
  proof (elim disjE)
    assume "snd r = -1"
    then show ?thesis using neg assms(3) by (auto simp: turn_ok_def proxy_consts)
  next
    assume "snd r = 0"
    then show ?thesis using nonneg assms(2) by (simp add: turn_ok_def)
  next
    assume "snd r = 1"
    then show ?thesis using nonneg assms(4) by (auto simp: turn_ok_def proxy_consts)
  qed
  with px show ?thesis by simp
qed

lemma dispatch_leads:
  assumes "pc_dispatch e c = Ret r"
  shows "pc_status c = 1 \<Longrightarrow> leads c {uint (px_type (pc_proxy c)) * 100} 3 r"
    "pc_status c = 100 \<Longrightarrow> leads c {101} 3 r" "pc_status c = 101 \<Longrightarrow> leads c {102, 104} 3 r"
    "pc_status c = 102 \<Longrightarrow> leads c {103} 103 r" "pc_status c = 103 \<Longrightarrow> leads c {104} 3 r"
    "pc_status c = 104 \<Longrightarrow> leads c {105} 3 r" "pc_status c = 105 \<Longrightarrow> leads c {106, 2} 3 r"
    "pc_status c = 106 \<Longrightarrow> leads c {2} 3 r" "pc_status c = 200 \<Longrightarrow> leads c {201} 3 r"
    "pc_status c = 201 \<Longrightarrow> leads c {202, 2} 3 r" "pc_status c = 202 \<Longrightarrow> leads c {202} 3 r"
    "pc_status c = 300 \<Longrightarrow> leads c {301} 3 r" "pc_status c = 301 \<Longrightarrow> leads c {2} 3 r"
    "pc_status c = 2 \<Longrightarrow> r = (c, 1)" "pc_status c = 3 \<Longrightarrow> fst r = c\<lparr>pc_errno := PROXY_ERR_PARAM\<rparr> \<and> snd r = -1"
  subgoal using assms handler_leads(1) [of c e] by (auto simp: pc_dispatch_def proxy_consts)
  subgoal using assms handler_leads(2) by (simp add: pc_dispatch_def proxy_consts)
  subgoal using assms handler_leads(3) [of c e] by (auto simp: pc_dispatch_def proxy_consts)
  subgoal using assms handler_leads(4) [of e c r] by (simp add: pc_dispatch_def proxy_consts)
  subgoal using assms handler_leads(5) [of c e] by (auto simp: pc_dispatch_def proxy_consts)
  subgoal using assms handler_leads(6) by (simp add: pc_dispatch_def proxy_consts)
  subgoal using assms handler_leads(7) by (simp add: pc_dispatch_def proxy_consts)
  subgoal using assms handler_leads(8) [of c e] by (auto simp: pc_dispatch_def proxy_consts)
  subgoal using assms handler_leads(9) by (simp add: pc_dispatch_def proxy_consts)
  subgoal using assms handler_leads(10) by (simp add: pc_dispatch_def proxy_consts)
  subgoal using assms handler_leads(11) [of c e] by (auto simp: pc_dispatch_def proxy_consts)
  subgoal using assms handler_leads(12) by (simp add: pc_dispatch_def proxy_consts)
  subgoal using assms handler_leads(13) by (simp add: pc_dispatch_def proxy_consts)
  subgoal using assms by (simp add: pc_dispatch_def proxy_consts)
  subgoal using assms by (auto simp: pc_dispatch_def proxy_consts)
  done

lemma dispatch_turn_ok:
  assumes t: "t = uint (px_type (pc_proxy c))" "t \<in> {1, 2, 3}" and ok: "status_ok t (pc_status c)"
    and d: "pc_dispatch e c = Ret r"
  shows "turn_ok t r \<and> pc_proxy (fst r) = pc_proxy c"
proof -
  let ?st = "pc_status c"
  note so = status_ok_def proxy_consts and l = dispatch_leads [OF d]
  consider "?st = 1" | "?st = 2" | "?st = 3" | "t = 1" "?st \<in> {100, 101, 102, 103, 104, 105, 106}"
    | "t = 2" "?st \<in> {200, 201, 202}" | "t = 3" "?st \<in> {300, 301}"
    using ok by (auto simp: so) linarith+
  then show ?thesis
  proof cases
    case 1
    show ?thesis by (rule leads_turn [OF l(1) [OF 1]]) (use t 1 in \<open>auto simp: so\<close>)
  next
    case 2
    then show ?thesis using l(14) by (simp add: turn_ok_def proxy_consts)
  next
    case 3
    then show ?thesis using l(15) by (simp add: turn_ok_def proxy_consts)
  next
    case 4
    then show ?thesis
      using leads_turn [OF l(2), of t] leads_turn [OF l(3), of t] leads_turn [OF l(4), of t] leads_turn [OF l(5), of t]
        leads_turn [OF l(6), of t] leads_turn [OF l(7), of t] leads_turn [OF l(8), of t]
      by (elim insertE emptyE) (simp_all add: so)
  next
    case 5
    then show ?thesis
      using leads_turn [OF l(9), of t] leads_turn [OF l(10), of t] leads_turn [OF l(11), of t]
      by (elim insertE emptyE) (simp_all add: so)
  next
    case 6
    then show ?thesis
      using leads_turn [OF l(12), of t] leads_turn [OF l(13), of t]
      by (elim insertE emptyE) (simp_all add: so)
  qed
qed

lemma poll_turn_ok:
  assumes t: "t = uint (px_type (pc_proxy c))" "t \<in> {1, 2, 3}" and ok: "status_ok t (pc_status c)"
    and p: "proxy_poll_connect e c = Ret r"
  shows "turn_ok t r \<and> pc_proxy (fst r) = pc_proxy c"
proof -
  obtain ev c1 where pe: "poll_events e c = (ev, c1)" by fastforce
  then have c1: "pc_proxy c1 = pc_proxy c" "pc_status c1 = pc_status c"
    by (auto simp: poll_events_def split: if_splits)
  have poll: "(if e_poll e ev = 0 then Ret (c1, 0) else if e_poll e ev = -1 then Ret (pc_fail PROXY_CS_ERROR (e_errno e) c1)
      else pc_dispatch e c1) = Ret r"
    using p by (simp only: proxy_poll_connect_def pe Let_def prod.case)
  show ?thesis
  proof (cases "e_poll e ev = 0 \<or> e_poll e ev = -1")
    case True
    then show ?thesis using poll ok c1 by (auto simp: turn_ok_def pc_fail_def split: if_splits)
  next
    case False
    then have "pc_dispatch e c1 = Ret r" using poll by simp
    from dispatch_turn_ok [OF _ t(2) _ this] ok t(1) c1 show ?thesis by simp
  qed
qed

text \<open>
  What a caller of \<open>proxy_poll_connect\<close> can do: poll again, also after a failure.
\<close>

inductive poll_run :: "t_proxy_connection \<Rightarrow> t_proxy_connection \<Rightarrow> bool" for c0 where
  poll_start: "poll_run c0 c0"
| poll_again: "poll_run c0 c \<Longrightarrow> proxy_poll_connect e c = Ret (c', r) \<Longrightarrow> poll_run c0 c'"

lemma turn_status_ok: "turn_ok t r \<Longrightarrow> status_ok t (pc_status (fst r))"
  by (auto simp: turn_ok_def status_ok_def proxy_consts Let_def split: if_splits)

lemma poll_run_status:
  assumes "poll_run c0 c" "status_ok t (pc_status c0)" "t = uint (px_type (pc_proxy c0))" "t \<in> {1, 2, 3}"
  shows "status_ok t (pc_status c) \<and> pc_proxy c = pc_proxy c0"
  using assms(1)
proof induction
  case poll_start
  then show ?case using assms by simp
next
  case (poll_again c e c' r)
  from poll_turn_ok [of t c e "(c', r)"] poll_again assms(3,4)
  have "turn_ok t (c', r) \<and> pc_proxy c' = pc_proxy c" by simp
  then show ?case using poll_again.IH turn_status_ok [of t "(c', r)"] by simp
qed

section \<open>A SOCKS 5 connection that is established\<close>

lemma socks5_connected:
  assumes "proxy_connect ne es (Some px) (Some name) port cmd = Ret (Some c)" "px_type px = 1" "length name < 128"
    "\<forall>u. px_user px = Some u \<longrightarrow> length u < 128" "\<forall>p. px_pwd px = Some p \<longrightarrow> length p < 128"
    "\<forall>e \<in> set es. length (e_stack e) = 256"
  shows "pc_status c = PROXY_CS_CONNECTED \<and>
    (\<exists>auth. pc_sent c = s5_methods (px_flags px) @ auth @ s5_req (word_of_int cmd) name port \<and>
      (auth = [] \<or> (\<exists>u p. px_user px = Some u \<and> px_pwd px = Some p \<and> auth = s5_auth u p)))"
proof -
  obtain c0 where nb: "proxy_connect_nb ne (Some px) (Some name) port cmd = Inr c0"
      and lp: "proxy_connect_loop es c0 = Ret (Some c)"
    using assms(1) by (auto simp: proxy_connect_def split: sum.splits)
  note c0 = connect_nb_start [OF nb]
  have "s5_fits c0" "s5_sent c0" using c0 assms(2-5) by (simp_all add: s5_fits_def s5_sent_def pc_static_def)
  from s5_loop [OF lp this assms(6)] have c: "s5_sent c" "pc_status c = 2" "pc_static c = pc_static c0" by simp_all
  have st: "pc_proxy c = px" "pc_cmd c = word_of_int cmd" "pc_target_name c = name" "pc_target_port c = port"
    using c(3) c0(3) by (simp_all add: pc_static_def)
  from c(1,2) obtain xs where "s5_opening c xs" "pc_sent c = xs @ s5_req (word_of_int cmd) name port"
    by (auto simp: s5_sent_def st)
  then show ?thesis using c(2) unfolding s5_opening_def st by (auto simp: proxy_consts)
qed

end
