(* ===== verification/Socks.thy ===== *)
theory Socks
  imports UpProxy
begin

text \<open>
  The SOCKS 5 front ends: \<open>readnb\<close> and \<open>writenb\<close> of \<open>src/misc_local.c\<close> and
  \<open>src/misc_remote.c\<close> (the same text), \<open>err_to_se\<close> of \<open>src/error.c\<close>, and from
  \<open>src/child_local.c\<close> and \<open>src/child_remote.c\<close> the negotiation with a client
  (\<open>negotiate\<close>, \<open>connect_client\<close>, \<open>bind_client\<close>, \<open>handle_con\<close> up to the relay of data).

  A socket is what its reads and writes return and what was written to it.  Read data come
  in chunks, each what is available at one \<open>read\<close>; the empty chunk is the end of the file.
  The two negotiations share their stages; they differ in the reply to the methods.
\<close>

section \<open>Error codes\<close>

definition ERR_NONE :: int where "ERR_NONE = 0"
definition ERR_NEGFAIL :: int where "ERR_NEGFAIL = 1"
definition ERR_BADVER :: int where "ERR_BADVER = 3"
definition ERR_READ :: int where "ERR_READ = 4"
definition ERR_WRITE :: int where "ERR_WRITE = 5"
definition ERR_NOMETHOD :: int where "ERR_NOMETHOD = 6"
definition ERR_CMDNOTSUP :: int where "ERR_CMDNOTSUP = 7"
definition ERR_ATYPNOTSUP :: int where "ERR_ATYPNOTSUP = 8"
definition ERR_RESOLV :: int where "ERR_RESOLV = 9"
definition ERR_CONREFUSE :: int where "ERR_CONREFUSE = 10"
definition ERR_NETUNREACH :: int where "ERR_NETUNREACH = 11"
definition ERR_CREATESK :: int where "ERR_CREATESK = 12"
definition ERR_BIND :: int where "ERR_BIND = 13"
definition ERR_LISTEN :: int where "ERR_LISTEN = 14"
definition ERR_CONIDLE :: int where "ERR_CONIDLE = 15"
definition ERR_SKFATAL :: int where "ERR_SKFATAL = 16"
definition ERR_LASTMSG :: int where "ERR_LASTMSG = ERR_SKFATAL"
definition ERR_SRVCTCP :: int where "ERR_SRVCTCP = 17"

definition SE_NONE :: int where "SE_NONE = 0"
definition SE_GENERAL :: int where "SE_GENERAL = 1"
definition SE_NETUNREACH :: int where "SE_NETUNREACH = 3"
definition SE_CONREFUSE :: int where "SE_CONREFUSE = 5"
definition SE_CMDNOTSUP :: int where "SE_CMDNOTSUP = 7"
definition SE_ATYPNOTSUP :: int where "SE_ATYPNOTSUP = 8"

lemmas socks_errors =
  ERR_NONE_def ERR_NEGFAIL_def ERR_BADVER_def ERR_READ_def ERR_WRITE_def ERR_NOMETHOD_def ERR_CMDNOTSUP_def
  ERR_ATYPNOTSUP_def ERR_RESOLV_def ERR_CONREFUSE_def ERR_NETUNREACH_def ERR_CREATESK_def ERR_BIND_def
  ERR_LISTEN_def ERR_CONIDLE_def ERR_SKFATAL_def ERR_LASTMSG_def ERR_SRVCTCP_def
  SE_NONE_def SE_GENERAL_def SE_NETUNREACH_def SE_CONREFUSE_def SE_CMDNOTSUP_def SE_ATYPNOTSUP_def

definition err_to_se :: "int \<Rightarrow> int" where
  "err_to_se err_code =
    (if err_code = ERR_NONE then SE_NONE
     else if err_code = ERR_CMDNOTSUP then SE_CMDNOTSUP
     else if err_code = ERR_ATYPNOTSUP then SE_ATYPNOTSUP
     else if err_code = ERR_NETUNREACH then SE_NETUNREACH
     else if err_code = ERR_CONREFUSE then SE_CONREFUSE
     else if err_code = ERR_SRVCTCP then SE_CONREFUSE
     else SE_GENERAL)"

section \<open>Reading and writing all of a buffer\<close>

datatype rd = RdInt | RdErr | Chunk bytes
datatype wr = WrInt | WrRes int

record sock =
  sk_in :: "rd list"
  sk_wr :: "wr list"
  sk_out :: bytes

text \<open>
  \<open>readnb_loop buf off cnt br inp\<close>: \<open>br\<close> bytes have been read to \<open>buf + off\<close>.  The count
  \<open>cnt - br\<close> becomes a \<open>size_t\<close>: if it is negative the kernel gives all it has.
\<close>

function readnb_loop :: "bytes \<Rightarrow> int \<Rightarrow> int \<Rightarrow> nat \<Rightarrow> rd list \<Rightarrow> (rd list \<times> int \<times> bytes) call" where
  "readnb_loop buf off cnt br [] = Stuck"
| "readnb_loop buf off cnt br (RdInt # inp) = readnb_loop buf off cnt br inp"
| "readnb_loop buf off cnt br (RdErr # inp) = Ret (inp, ERR_READ, buf)"
| "readnb_loop buf off cnt br (Chunk c # inp) =
    (let n = (if cnt - int br < 0 then length c else min (nat (cnt - int br)) (length c));
         inp = (if n < length c then Chunk (drop n c) # inp else inp)
     in if n = 0 then Ret (inp, ERR_READ, buf)
        else case buf_put buf (off + int br) (take n c) of
          None \<Rightarrow> Overrun
        | Some buf \<Rightarrow>
            if int (br + n) < cnt then readnb_loop buf off cnt (br + n) inp else Ret (inp, ERR_NONE, buf))"
  by pat_completeness auto
termination
  by (relation "measure (\<lambda>(buf, off, cnt, br, inp).
        sum_list (map (\<lambda>r. case r of Chunk c \<Rightarrow> Suc (length c) | _ \<Rightarrow> 1) inp))") (auto simp: Let_def)

definition readnb :: "sock \<Rightarrow> bytes \<Rightarrow> int \<Rightarrow> int \<Rightarrow> (sock \<times> int \<times> bytes) call" where
  "readnb sk buf off cnt =
    (case readnb_loop buf off cnt 0 (sk_in sk) of
       Overrun \<Rightarrow> Overrun | Stuck \<Rightarrow> Stuck
     | Ret (inp, res, buf) \<Rightarrow> Ret (sk\<lparr>sk_in := inp\<rparr>, res, buf))"

text \<open>The result of one \<open>write\<close> is never more than it was asked for.\<close>

fun writenb_loop :: "bytes \<Rightarrow> nat \<Rightarrow> nat \<Rightarrow> wr list \<Rightarrow> bytes \<Rightarrow> (wr list \<times> bytes \<times> int) call" where
  "writenb_loop buf cnt bw [] out = Stuck"
| "writenb_loop buf cnt bw (WrInt # ws) out = writenb_loop buf cnt bw ws out"
| "writenb_loop buf cnt bw (WrRes r # ws) out =
    (let n = min (nat r) (cnt - bw)
     in if r \<le> 0 then Ret (ws, out, ERR_WRITE)
        else if bw + n < cnt then writenb_loop buf cnt (bw + n) ws (out @ take n (drop bw buf))
        else Ret (ws, out @ take n (drop bw buf), ERR_NONE))"

definition writenb :: "sock \<Rightarrow> bytes \<Rightarrow> nat \<Rightarrow> (sock \<times> int) call" where
  "writenb sk buf cnt =
    (case writenb_loop buf cnt 0 (sk_wr sk) (sk_out sk) of
       Overrun \<Rightarrow> Overrun | Stuck \<Rightarrow> Stuck
     | Ret (ws, out, res) \<Rightarrow> Ret (sk\<lparr>sk_wr := ws, sk_out := out\<rparr>, res))"

section \<open>The state of a child and its environment\<close>

text \<open>
  \<open>ch_data\<close> is \<open>ad_target.sa_data\<close>: the port in its first two bytes, then the address.
  \<open>ch_buf\<close> is the local array of \<open>negotiate\<close>.
\<close>

record child =
  ch_client :: sock
  ch_data :: bytes
  ch_target_ip :: bytes
  ch_target_port :: u16
  ch_buf :: bytes

text \<open>
  The environment: the upstream proxy, \<open>gethostbyname\<close>, and what the system calls and
  \<open>connect_ctcp\<close> return.
\<close>

record socks_env =
  x_up_proxy :: "t_proxy option"
  x_host :: "bytes \<Rightarrow> bytes option"
  x_nenv :: nenv
  x_penvs :: "penv list"
  x_ctcp :: bool
  x_socket :: int
  x_bind :: int
  x_listen :: int
  x_connect :: "int \<times> int"
  x_host_ip :: bytes
  x_accept :: int

text \<open>A stage ends the negotiation if its result is not \<open>ERR_NONE\<close>.\<close>

definition then_stage :: "(child \<times> int) call \<Rightarrow> (child \<Rightarrow> (child \<times> int) call) \<Rightarrow> (child \<times> int) call" where
  "then_stage r f =
    (case r of Overrun \<Rightarrow> Overrun | Stuck \<Rightarrow> Stuck
     | Ret (c, res) \<Rightarrow> if res \<noteq> ERR_NONE then Ret (c, res) else f c)"

definition read_buf :: "child \<Rightarrow> int \<Rightarrow> int \<Rightarrow> (child \<times> int) call" where
  "read_buf c off cnt =
    (case readnb (ch_client c) (ch_buf c) off cnt of
       Overrun \<Rightarrow> Overrun | Stuck \<Rightarrow> Stuck
     | Ret (sk, res, buf) \<Rightarrow> Ret (c\<lparr>ch_client := sk, ch_buf := buf\<rparr>, res))"

definition read_data :: "child \<Rightarrow> int \<Rightarrow> int \<Rightarrow> (child \<times> int) call" where
  "read_data c off cnt =
    (case readnb (ch_client c) (ch_data c) off cnt of
       Overrun \<Rightarrow> Overrun | Stuck \<Rightarrow> Stuck
     | Ret (sk, res, dat) \<Rightarrow> Ret (c\<lparr>ch_client := sk, ch_data := dat\<rparr>, res))"

definition write_client :: "child \<Rightarrow> bytes \<Rightarrow> nat \<Rightarrow> (child \<times> int) call" where
  "write_client c buf cnt =
    (case writenb (ch_client c) buf cnt of
       Overrun \<Rightarrow> Overrun | Stuck \<Rightarrow> Stuck
     | Ret (sk, res) \<Rightarrow> Ret (c\<lparr>ch_client := sk\<rparr>, res))"

section \<open>negotiate\<close>

text \<open>The methods the client proposes.\<close>

definition neg_methods :: "child \<Rightarrow> (child \<times> int) call" where
  "neg_methods c =
    then_stage (read_buf c 0 2) (\<lambda>c.
      if ch_buf c ! 0 \<noteq> 5 then Ret (c, ERR_BADVER)
      else then_stage (read_buf c 2 (schar (ch_buf c ! 1))) (\<lambda>c.
        if list_ex (\<lambda>i. ch_buf c ! (2 + i) = 0) [0..<nat (schar (ch_buf c ! 1))]
        then Ret (c, ERR_NONE) else Ret (c, ERR_NOMETHOD)))"

text \<open>
  The method is selected; the remote proxy adds the port of its CTCP socket, as a string in
  the seven bytes that are written.
\<close>

definition neg_reply_local :: "child \<Rightarrow> (child \<times> int) call" where
  "neg_reply_local c =
    (let c = c\<lparr>ch_buf := (ch_buf c)[0 := 5, 1 := 0]\<rparr>
     in case write_client c (ch_buf c) 2 of
       Overrun \<Rightarrow> Overrun | Stuck \<Rightarrow> Stuck
     | Ret (c, res) \<Rightarrow> Ret (c, if res \<noteq> ERR_NONE then ERR_WRITE else ERR_NONE))"

definition neg_reply_remote :: "int \<Rightarrow> child \<Rightarrow> (child \<times> int) call" where
  "neg_reply_remote ctcp_port c =
    (case buf_strcpy ((ch_buf c)[0 := 5, 1 := 0]) 2 (show_int ctcp_port) of
       None \<Rightarrow> Overrun
     | Some buf \<Rightarrow>
         case write_client (c\<lparr>ch_buf := buf\<rparr>) buf 7 of
           Overrun \<Rightarrow> Overrun | Stuck \<Rightarrow> Stuck
         | Ret (c, res) \<Rightarrow> Ret (c, if res \<noteq> ERR_NONE then ERR_WRITE else ERR_NONE))"

text \<open>The target address: four bytes, or a name with its length before it.\<close>

definition set_ip :: "bytes \<Rightarrow> child \<Rightarrow> child" where
  "set_ip ip c = c\<lparr>ch_data := memcpy_at (ch_data c) 2 ip\<rparr>"

definition neg_domain :: "socks_env \<Rightarrow> child \<Rightarrow> (child \<times> int) call" where
  "neg_domain x c =
    then_stage (read_buf c 0 1) (\<lambda>c.
      if schar (ch_buf c ! 0) > 255 then Ret (c, ERR_NEGFAIL)
      else then_stage (read_buf c 1 (schar (ch_buf c ! 0))) (\<lambda>c.
        case buf_set (ch_buf c) (schar (ch_buf c ! 0) + 1) 0 of
          None \<Rightarrow> Overrun
        | Some buf \<Rightarrow>
            let c = c\<lparr>ch_buf := buf\<rparr>; name = takeWhile (\<lambda>b. b \<noteq> 0) (drop 1 buf)
            in if x_up_proxy x = None
               then case x_host x name of
                   None \<Rightarrow> Ret (c, ERR_RESOLV)
                 | Some ip \<Rightarrow> if length ip \<noteq> 4 then Ret (c, ERR_RESOLV) else Ret (set_ip ip c, ERR_NONE)
               else Ret (c\<lparr>ch_target_ip := name\<rparr>, ERR_NONE)))"

definition neg_address :: "socks_env \<Rightarrow> child \<Rightarrow> (child \<times> int) call" where
  "neg_address x c =
    (let c = c\<lparr>ch_data := replicate 14 0\<rparr>
     in if ch_buf c ! 3 = 1
        then then_stage (read_data c 2 4) (\<lambda>c.
          let d = ch_data c; b = (\<lambda>i. int (unat (d ! i)))
          in Ret (c\<lparr>ch_target_ip := show_dotted (b 2) (b 3) (b 4) (b 5)\<rparr>, ERR_NONE))
        else if ch_buf c ! 3 = 3 then neg_domain x c
        else Ret (c, ERR_ATYPNOTSUP))"

definition neg_port :: "child \<Rightarrow> (child \<times> int) call" where
  "neg_port c =
    then_stage (read_data c 0 2) (\<lambda>c.
      Ret (c\<lparr>ch_target_port := net16 (ch_data c ! 0) (ch_data c ! 1)\<rparr>, ERR_NONE))"

text \<open>Connecting to the target, through the upstream proxy if there is one.\<close>

definition ECONNREFUSED :: int where "ECONNREFUSED = 111"
definition ENETUNREACH :: int where "ENETUNREACH = 101"

definition connect_target :: "socks_env \<Rightarrow> int" where
  "connect_target x =
    (if x_socket x < 0 then ERR_NEGFAIL
     else if fst (x_connect x) < 0
     then if snd (x_connect x) = ECONNREFUSED then ERR_CONREFUSE
          else if snd (x_connect x) = ENETUNREACH then ERR_NETUNREACH else ERR_NEGFAIL
     else ERR_NONE)"

definition connect_client_remote :: "socks_env \<Rightarrow> child \<Rightarrow> (child \<times> int) call" where
  "connect_client_remote x c =
    (case x_up_proxy x of
       None \<Rightarrow> Ret (c, connect_target x)
     | Some px \<Rightarrow>
         case proxy_connect (x_nenv x) (x_penvs x) (Some px) (Some (ch_target_ip c)) (ch_target_port c) PROXY_CMD_CONNECT of
           Overrun \<Rightarrow> Overrun | Stuck \<Rightarrow> Stuck
         | Ret None \<Rightarrow> Ret (c, ERR_NEGFAIL)
         | Ret (Some pcon) \<Rightarrow> Ret (c, ERR_NONE))"

text \<open>The local proxy then connects to the CTCP server on the port the proxy has named.\<close>

definition connect_client_local :: "socks_env \<Rightarrow> child \<Rightarrow> (child \<times> int) call" where
  "connect_client_local x c =
    (case x_up_proxy x of
       None \<Rightarrow> Ret (c, connect_target x)
     | Some px \<Rightarrow>
         case proxy_connect (x_nenv x) (x_penvs x) (Some px) (Some (ch_target_ip c)) (ch_target_port c) PROXY_CMD_CONNECT of
           Overrun \<Rightarrow> Overrun | Stuck \<Rightarrow> Stuck
         | Ret None \<Rightarrow> Ret (c, ERR_NEGFAIL)
         | Ret (Some pcon) \<Rightarrow> Ret (c, if x_ctcp x then ERR_NONE else ERR_NEGFAIL))"

text \<open>The BIND command; \<open>x_accept\<close> is the result of \<open>accept\<close> once it is not interrupted.\<close>

definition open_serv_sock :: "socks_env \<Rightarrow> int" where
  "open_serv_sock x =
    (if x_socket x < 0 then ERR_CREATESK else if x_bind x < 0 then ERR_BIND
     else if x_listen x < 0 then ERR_LISTEN else ERR_NONE)"

definition bind_client :: "socks_env \<Rightarrow> child \<Rightarrow> (child \<times> int) call" where
  "bind_client x c =
    (let res = open_serv_sock x
     in if res \<noteq> ERR_NONE then Ret (c, res)
        else case write_client c ([5, of_int SE_NONE, 0, 1] @ take 4 (x_host_ip x) @ take 2 (ch_data c)) 10 of
          Overrun \<Rightarrow> Overrun | Stuck \<Rightarrow> Stuck
        | Ret (c, _) \<Rightarrow> if x_accept x < 0 then Ret (c, x_accept x) else Ret (c, ERR_NONE))"

text \<open>
  From the request on: its header, the address, the port, the command.
\<close>

definition neg_command :: "(child \<Rightarrow> (child \<times> int) call) \<Rightarrow> socks_env \<Rightarrow> int \<Rightarrow> child \<Rightarrow> (child \<times> int) call" where
  "neg_command connect x cmd c =
    (if cmd = PROXY_CMD_CONNECT then connect c else bind_client x (set_ip [0, 0, 0, 0] c))"

definition neg_request :: "(child \<Rightarrow> (child \<times> int) call) \<Rightarrow> socks_env \<Rightarrow> child \<Rightarrow> (child \<times> int) call" where
  "neg_request connect x c =
    then_stage (read_buf c 0 4) (\<lambda>c.
      let cmd = schar (ch_buf c ! 1)
      in if cmd \<noteq> PROXY_CMD_CONNECT \<and> cmd \<noteq> PROXY_CMD_BIND then Ret (c, ERR_CMDNOTSUP)
         else then_stage (neg_address x c) (\<lambda>c. then_stage (neg_port c) (neg_command connect x cmd)))"

definition negotiate_local :: "socks_env \<Rightarrow> child \<Rightarrow> (child \<times> int) call" where
  "negotiate_local x c =
    then_stage (neg_methods c) (\<lambda>c. then_stage (neg_reply_local c) (neg_request (connect_client_local x) x))"

definition negotiate_remote :: "socks_env \<Rightarrow> int \<Rightarrow> child \<Rightarrow> (child \<times> int) call" where
  "negotiate_remote x ctcp_port c =
    then_stage (neg_methods c) (\<lambda>c. then_stage (neg_reply_remote ctcp_port c) (neg_request (connect_client_remote x) x))"

section \<open>The beginning of handle\_con\<close>

text \<open>
  The reply to the client, and the result that ends the connection before the relay; the
  message of the log is \<open>sz_error[res]\<close>, which has \<open>ERR_LASTMSG + 1\<close> entries.  The address
  in the reply is that of the socket to the target.
\<close>

definition con_reply :: "bytes \<Rightarrow> (child \<times> int) call \<Rightarrow> (child \<times> int) call" where
  "con_reply sockname r =
    (case r of Overrun \<Rightarrow> Overrun | Stuck \<Rightarrow> Stuck
     | Ret (c, res) \<Rightarrow>
         let hdr = [5, to_char (err_to_se res), 0, 1]
         in if err_to_se res \<noteq> SE_NONE
            then case write_client c hdr 4 of
                Overrun \<Rightarrow> Overrun | Stuck \<Rightarrow> Stuck
              | Ret (c, _) \<Rightarrow> if 0 \<le> res \<and> res \<le> ERR_LASTMSG then Ret (c, res) else Overrun
            else write_client c (hdr @ take 4 (drop 2 sockname) @ take 2 sockname) 10)"

definition handle_con_local :: "socks_env \<Rightarrow> bytes \<Rightarrow> child \<Rightarrow> (child \<times> int) call" where
  "handle_con_local x sockname c = con_reply sockname (negotiate_local x c)"

text \<open>The remote side first opens its CTCP socket and, after the reply, listens on it.\<close>

definition handle_con_remote :: "socks_env \<Rightarrow> bool \<Rightarrow> int \<Rightarrow> int \<Rightarrow> bytes \<Rightarrow> child \<Rightarrow> (child \<times> int) call" where
  "handle_con_remote x opened listened ctcp_port sockname c =
    (if \<not> opened then Ret (c, ERR_SRVCTCP)
     else then_stage (con_reply sockname (negotiate_remote x ctcp_port c))
       (\<lambda>c. if listened < 0 then Ret (c, ERR_SRVCTCP) else Ret (c, ERR_NONE)))"

section \<open>Reads and writes are independent of the segmentation\<close>

text \<open>A socket from which the bytes \<open>xs\<close> will be read, in whatever chunks.\<close>

definition flat :: "rd list \<Rightarrow> bytes" where
  "flat inp = concat (map (\<lambda>r. case r of Chunk c \<Rightarrow> c | _ \<Rightarrow> []) inp)"

definition delivers_bytes :: "sock \<Rightarrow> bytes \<Rightarrow> bool" where
  "delivers_bytes sk xs \<longleftrightarrow> (\<forall>r \<in> set (sk_in sk). r \<noteq> RdErr \<and> r \<noteq> Chunk []) \<and> flat (sk_in sk) = xs"

text \<open>A socket that takes at least \<open>k\<close> writes, each of at least one byte.\<close>

definition takes_writes :: "sock \<Rightarrow> nat \<Rightarrow> bool" where
  "takes_writes sk k \<longleftrightarrow> (\<forall>r. WrRes r \<in> set (sk_wr sk) \<longrightarrow> 0 < r) \<and> k \<le> length (filter (\<lambda>w. w \<noteq> WrInt) (sk_wr sk))"

lemma memcpy_at_append:
  "k \<le> length buf \<Longrightarrow> memcpy_at (memcpy_at buf k a) (k + length a) b = memcpy_at buf k (a @ b)"
  by (simp add: memcpy_at_def ac_simps)

lemma first_chunk:
  assumes "RdErr \<notin> set inp" "flat inp \<noteq> []"
  shows "\<exists>k c inp'. inp = replicate k RdInt @ Chunk c # inp'"
  using assms
proof (induction inp)
  case (Cons r inp)
  show ?case
  proof (cases r)
    case RdInt
    with Cons obtain k c inp' where "inp = replicate k RdInt @ Chunk c # inp'" by (auto simp: flat_def)
    then have "r # inp = replicate (Suc k) RdInt @ Chunk c # inp'" by (simp add: RdInt)
    then show ?thesis by blast
  next
    case (Chunk c)
    then have "r # inp = replicate 0 RdInt @ Chunk c # inp" by simp
    then show ?thesis by blast
  qed (use Cons in simp)
qed (simp add: flat_def)

lemma readnb_loop_exact:
  assumes "\<forall>r \<in> set inp. r \<noteq> RdErr \<and> r \<noteq> Chunk []" "flat inp = ys @ rest" "br < cnt" "length ys = cnt - br"
    "off + cnt \<le> length buf"
  shows "\<exists>inp'. readnb_loop buf (int off) (int cnt) br inp = Ret (inp', ERR_NONE, memcpy_at buf (off + br) ys) \<and>
    (\<forall>r \<in> set inp'. r \<noteq> RdErr \<and> r \<noteq> Chunk []) \<and> flat inp' = rest"
  using assms
proof (induction "length ys" arbitrary: inp br ys buf rule: less_induct)
  case less
  have "RdErr \<notin> set inp" "flat inp \<noteq> []" using less.prems(1-4) by auto
  then obtain k c inp1 where inp: "inp = replicate k RdInt @ Chunk c # inp1" using first_chunk by blast
  have skip: "readnb_loop buf (int off) (int cnt) br inp = readnb_loop buf (int off) (int cnt) br (Chunk c # inp1)"
    unfolding inp by (induction k) simp_all
  have c: "c \<noteq> []" and ok: "\<forall>r \<in> set inp1. r \<noteq> RdErr \<and> r \<noteq> Chunk []" and fl: "c @ flat inp1 = ys @ rest"
    using less.prems(1,2) by (auto simp: inp flat_def)
  define n where "n = min (cnt - br) (length c)"
  have n: "0 < n" "n \<le> length c" "n \<le> length ys" using c less.prems(3,4) by (auto simp: n_def)
  have cn: "take n c = take n ys" using fl n by (metis append_eq_append_conv_if take_append diff_is_0_eq' take_0 append_Nil2)
  define inp2 where "inp2 = (if n < length c then Chunk (drop n c) # inp1 else inp1)"
  have ok2: "\<forall>r \<in> set inp2. r \<noteq> RdErr \<and> r \<noteq> Chunk []" using ok by (auto simp: inp2_def)
  have "flat inp2 = drop n c @ flat inp1" by (simp add: inp2_def flat_def)
  also have "\<dots> = drop n (ys @ rest)" using fl n(2) by (metis diff_is_0_eq drop_0 drop_append)
  finally have fl2: "flat inp2 = drop n ys @ rest" using n(3) by simp
  have put: "buf_put buf (int off + int br) (take n c) = Some (memcpy_at buf (off + br) (take n ys))"
    using n less.prems(3-5) by (simp add: buf_put_def cn nat_add_distrib)
  have "int cnt - int br \<ge> 0" "nat (int cnt - int br) = cnt - br" using less.prems(3) by auto
  then have step: "readnb_loop buf (int off) (int cnt) br inp =
      (if br + n < cnt then readnb_loop (memcpy_at buf (off + br) (take n ys)) (int off) (int cnt) (br + n) inp2
       else Ret (inp2, ERR_NONE, memcpy_at buf (off + br) (take n ys)))"
    using n(1) unfolding skip by (simp add: Let_def put flip: n_def inp2_def)
  show ?case
  proof (cases "br + n < cnt")
    case True
    have "\<exists>inp'. readnb_loop (memcpy_at buf (off + br) (take n ys)) (int off) (int cnt) (br + n) inp2 =
        Ret (inp', ERR_NONE, memcpy_at (memcpy_at buf (off + br) (take n ys)) (off + (br + n)) (drop n ys)) \<and>
        (\<forall>r \<in> set inp'. r \<noteq> RdErr \<and> r \<noteq> Chunk []) \<and> flat inp' = rest"
      by (rule less.hyps [OF _ ok2 fl2 True]) (use n less.prems(3-5) in auto)
    moreover have "memcpy_at (memcpy_at buf (off + br) (take n ys)) (off + (br + n)) (drop n ys) = memcpy_at buf (off + br) ys"
      using memcpy_at_append [of "off + br" buf "take n ys" "drop n ys"] n(3) less.prems(3,5) by (simp add: add.assoc)
    ultimately show ?thesis using step True by simp
  next
    case False
    then have "n = length ys" using n less.prems(3,4) by simp
    with step False ok2 fl2 show ?thesis by simp
  qed
qed

lemma readnb_exact:
  assumes "delivers_bytes sk (ys @ rest)" "0 < length ys" "off + length ys \<le> length buf"
  shows "\<exists>sk'. readnb sk buf (int off) (int (length ys)) = Ret (sk', ERR_NONE, memcpy_at buf off ys) \<and>
    delivers_bytes sk' rest \<and> sk_wr sk' = sk_wr sk \<and> sk_out sk' = sk_out sk"
proof -
  obtain inp' where "readnb_loop buf (int off) (int (length ys)) 0 (sk_in sk) = Ret (inp', ERR_NONE, memcpy_at buf off ys)"
    "\<forall>r \<in> set inp'. r \<noteq> RdErr \<and> r \<noteq> Chunk []" "flat inp' = rest"
    using readnb_loop_exact [of "sk_in sk" ys rest 0 "length ys" off buf] assms by (auto simp: delivers_bytes_def)
  then show ?thesis by (auto simp: readnb_def delivers_bytes_def)
qed

lemma writenb_loop_all:
  assumes "\<forall>r. WrRes r \<in> set ws \<longrightarrow> 0 < r" "cnt - bw + k \<le> length (filter (\<lambda>w. w \<noteq> WrInt) ws)" "bw < cnt" "cnt \<le> length buf"
  shows "\<exists>ws'. writenb_loop buf cnt bw ws out = Ret (ws', out @ take (cnt - bw) (drop bw buf), ERR_NONE) \<and>
    (\<forall>r. WrRes r \<in> set ws' \<longrightarrow> 0 < r) \<and> k \<le> length (filter (\<lambda>w. w \<noteq> WrInt) ws')"
  using assms
proof (induction ws arbitrary: bw out)
  case (Cons w ws)
  show ?case
  proof (cases w)
    case WrInt
    then show ?thesis using Cons by simp
  next
    case (WrRes r)
    define n where "n = min (nat r) (cnt - bw)"
    have n: "0 < n" "n \<le> cnt - bw" and r: "\<not> r \<le> 0" using Cons.prems(1,3) by (auto simp: WrRes n_def)
    have all: "take n (drop bw buf) @ take (cnt - (bw + n)) (drop (bw + n) buf) = take (cnt - bw) (drop bw buf)"
      using n take_add [of n "cnt - (bw + n)" "drop bw buf"] by (simp add: add.commute)
    have len: "cnt - (bw + n) + k \<le> length (filter (\<lambda>w. w \<noteq> WrInt) ws)" using Cons.prems(2,3) n by (simp add: WrRes)
    show ?thesis
    proof (cases "bw + n < cnt")
      case True
      from Cons.IH [OF _ len True Cons.prems(4), of "out @ take n (drop bw buf)"] Cons.prems(1) r True show ?thesis
        by (simp add: WrRes Let_def all flip: n_def)
    next
      case False
      then have "n = cnt - bw" using n by simp
      with Cons.prems(1) r False len show ?thesis by (simp add: WrRes Let_def flip: n_def)
    qed
  qed
qed simp

lemma writenb_all:
  assumes "takes_writes sk (cnt + k)" "0 < cnt" "cnt \<le> length buf"
  shows "\<exists>sk'. writenb sk buf cnt = Ret (sk', ERR_NONE) \<and> sk_out sk' = sk_out sk @ take cnt buf \<and>
    takes_writes sk' k \<and> sk_in sk' = sk_in sk"
proof -
  obtain ws' where "writenb_loop buf cnt 0 (sk_wr sk) (sk_out sk) = Ret (ws', sk_out sk @ take cnt buf, ERR_NONE)"
    "\<forall>r. WrRes r \<in> set ws' \<longrightarrow> 0 < r" "k \<le> length (filter (\<lambda>w. w \<noteq> WrInt) ws')"
    using writenb_loop_all [of "sk_wr sk" cnt 0 k buf "sk_out sk"] assms by (auto simp: takes_writes_def)
  then show ?thesis by (auto simp: writenb_def takes_writes_def)
qed

section \<open>The negotiation reads what a SOCKS 5 client sends\<close>

lemma read_buf_exact:
  assumes "delivers_bytes (ch_client c) (ys @ rest)" "0 < length ys" "off + length ys \<le> length (ch_buf c)"
    "m = int (length ys)" "k = int off"
  obtains sk' where "read_buf c k m = Ret (c\<lparr>ch_client := sk', ch_buf := memcpy_at (ch_buf c) off ys\<rparr>, ERR_NONE)"
    "delivers_bytes sk' rest" "sk_wr sk' = sk_wr (ch_client c)" "sk_out sk' = sk_out (ch_client c)"
  using readnb_exact [OF assms(1-3)] assms(4,5) by (auto simp: read_buf_def)

lemma read_data_exact:
  assumes "delivers_bytes (ch_client c) (ys @ rest)" "0 < length ys" "off + length ys \<le> length (ch_data c)"
    "m = int (length ys)" "k = int off"
  obtains sk' where "read_data c k m = Ret (c\<lparr>ch_client := sk', ch_data := memcpy_at (ch_data c) off ys\<rparr>, ERR_NONE)"
    "delivers_bytes sk' rest" "sk_wr sk' = sk_wr (ch_client c)" "sk_out sk' = sk_out (ch_client c)"
  using readnb_exact [OF assms(1-3)] assms(4,5) by (auto simp: read_data_def)

lemma then_stage_Ret [simp]: "then_stage (Ret (c, ERR_NONE)) f = f c"
  by (simp add: then_stage_def)

lemma memcpy_at_starts: "length s \<le> length buf \<Longrightarrow> i < length s \<Longrightarrow> memcpy_at buf 0 s ! i = s ! i"
  by (simp add: memcpy_at_def nth_append)

text \<open>The list of methods, of at most 127 entries among which \<open>no authentication\<close>.\<close>

lemma neg_methods_ok:
  assumes inp: "delivers_bytes (ch_client c) ([5, of_nat (length ms)] @ ms @ rest)" and buf: "length (ch_buf c) = 256"
    and ms: "length ms < 128" "0 \<in> set ms"
  obtains sk' buf' where "neg_methods c = Ret (c\<lparr>ch_client := sk', ch_buf := buf'\<rparr>, ERR_NONE)" "length buf' = 256"
    "delivers_bytes sk' rest" "sk_wr sk' = sk_wr (ch_client c)" "sk_out sk' = sk_out (ch_client c)"
proof -
  let ?h = "[5, of_nat (length ms)] :: bytes"
  obtain s1 where 1: "read_buf c 0 2 = Ret (c\<lparr>ch_client := s1, ch_buf := memcpy_at (ch_buf c) 0 ?h\<rparr>, ERR_NONE)"
    and s1: "delivers_bytes s1 (ms @ rest)" "sk_wr s1 = sk_wr (ch_client c)" "sk_out s1 = sk_out (ch_client c)"
    by (rule read_buf_exact [OF inp, of 0 2 0]) (use buf in simp_all)
  let ?c1 = "c\<lparr>ch_client := s1, ch_buf := memcpy_at (ch_buf c) 0 ?h\<rparr>"
  have h: "ch_buf ?c1 ! 0 = 5" "ch_buf ?c1 ! 1 = of_nat (length ms)" "length (ch_buf ?c1) = 256"
    using buf by (simp_all add: memcpy_at_starts)
  have n: "schar (of_nat (length ms)) = int (length ms)" using ms(1) by simp
  have pos: "0 < length ms" using ms(2) by auto
  obtain s2 where 2: "read_buf ?c1 2 (schar (ch_buf ?c1 ! 1)) =
      Ret (?c1\<lparr>ch_client := s2, ch_buf := memcpy_at (ch_buf ?c1) 2 ms\<rparr>, ERR_NONE)"
    and s2: "delivers_bytes s2 rest" "sk_wr s2 = sk_wr s1" "sk_out s2 = sk_out s1"
    by (rule read_buf_exact [of ?c1 ms rest 2 "schar (ch_buf ?c1 ! 1)" 2]) (use s1 pos ms(1) h n in simp_all)
  define b where "b = memcpy_at (ch_buf ?c1) 2 ms"
  have b: "b ! 1 = of_nat (length ms)" "length b = 256" "\<And>i. i < length ms \<Longrightarrow> b ! (2 + i) = ms ! i"
    using h ms(1) by (simp_all add: nth_memcpy_at b_def)
  have "list_ex (\<lambda>i. b ! (2 + i) = 0) [0..<length ms]"
    using ms(2) b(3) by (auto simp: list_ex_iff in_set_conv_nth)
  moreover have "nat (schar (b ! 1)) = length ms" by (simp only: b(1) n nat_int)
  ultimately have "neg_methods c = Ret (c\<lparr>ch_client := s2, ch_buf := b\<rparr>, ERR_NONE)"
    by (simp only: neg_methods_def 1 then_stage_Ret h(1) simp_thms if_False 2 flip: b_def)
      (simp del: One_nat_def)
  then show thesis using that s1 s2 b(2) by simp
qed

lemma neg_reply_remote_ok:
  assumes "takes_writes (ch_client c) (7 + k)" "length (ch_buf c) = 256" "length (show_int p) = 4"
  obtains sk' buf' where "neg_reply_remote p c = Ret (c\<lparr>ch_client := sk', ch_buf := buf'\<rparr>, ERR_NONE)" "length buf' = 256"
    "sk_out sk' = sk_out (ch_client c) @ [5, 0] @ show_int p @ [0]" "takes_writes sk' k" "sk_in sk' = sk_in (ch_client c)"
proof -
  let ?b0 = "(ch_buf c)[0 := 5, 1 := 0]"
  define b where "b = memcpy_at ?b0 2 (show_int p @ [0])"
  have b0: "take 2 ?b0 = [5, 0]"
    using assms(2) by (cases "ch_buf c"; cases "tl (ch_buf c)") auto
  have cp: "buf_strcpy ?b0 2 (show_int p) = Some b"
    using assms(2,3) by (simp add: buf_strcpy_def buf_put_def b_def)
  have b: "length b = 256" "take 7 b = [5, 0] @ show_int p @ [0]"
    using assms(2,3) b0 by (simp_all add: b_def memcpy_at_def)
  obtain sk' where "writenb (ch_client c) b 7 = Ret (sk', ERR_NONE)" "sk_out sk' = sk_out (ch_client c) @ take 7 b"
      "takes_writes sk' k" "sk_in sk' = sk_in (ch_client c)"
    using writenb_all [OF assms(1), of b] b(1) by auto
  then show thesis
    by - (rule that [of b sk'], simp_all add: neg_reply_remote_def cp write_client_def b del: One_nat_def)
qed

text \<open>The request for a name: the name is what the code then looks up.\<close>

lemma name_in_buffer:
  assumes "0 \<notin> set name" "length name < 128" "length buf = 256" "buf ! 0 = of_nat (length name)"
  shows "buf_set (memcpy_at buf 1 name) (schar (memcpy_at buf 1 name ! 0) + 1) 0 = Some ((memcpy_at buf 1 name)[length name + 1 := 0])"
    "takeWhile (\<lambda>b. b \<noteq> 0) (drop 1 ((memcpy_at buf 1 name)[length name + 1 := 0])) = name"
proof -
  let ?m = "memcpy_at buf 1 name"
  have m: "length ?m = 256" "?m ! 0 = of_nat (length name)" using assms by (simp_all add: nth_memcpy_at)
  have n: "schar (of_nat (length name)) = int (length name)" using assms(2) by simp
  show "buf_set ?m (schar (?m ! 0) + 1) 0 = Some (?m[length name + 1 := 0])"
    unfolding m(2) n using assms(2) m(1) by (simp add: buf_set_def nat_add_distrib)
  obtain z t where t: "drop (1 + length name) buf = z # t" using assms(2,3) by (cases "drop (1 + length name) buf") auto
  have "drop 1 (?m[length name + 1 := 0]) = (name @ z # t)[length name := 0]"
    using assms(3) t by (simp add: drop_update_swap memcpy_at_def)
  also have "\<dots> = name @ 0 # t" by simp
  finally show "takeWhile (\<lambda>b. b \<noteq> 0) (drop 1 (?m[length name + 1 := 0])) = name"
    using assms(1) by (simp only:) (subst takeWhile_append2, auto)
qed

lemma neg_domain_ok:
  assumes inp: "delivers_bytes (ch_client c) ([of_nat (length name)] @ name @ rest)" and buf: "length (ch_buf c) = 256"
    and name: "0 < length name" "length name < 128" "0 \<notin> set name"
    and host: "x_up_proxy x = None" "x_host x name = Some ip" "length ip = 4"
  obtains sk' buf' where "neg_domain x c = Ret (set_ip ip (c\<lparr>ch_client := sk', ch_buf := buf'\<rparr>), ERR_NONE)" "length buf' = 256"
    "delivers_bytes sk' rest" "sk_wr sk' = sk_wr (ch_client c)" "sk_out sk' = sk_out (ch_client c)"
proof -
  let ?l = "of_nat (length name) :: u8"
  define b1 where "b1 = memcpy_at (ch_buf c) 0 [?l]"
  obtain s1 where 1: "read_buf c 0 1 = Ret (c\<lparr>ch_client := s1, ch_buf := b1\<rparr>, ERR_NONE)"
    and s1: "delivers_bytes s1 (name @ rest)" "sk_wr s1 = sk_wr (ch_client c)" "sk_out s1 = sk_out (ch_client c)"
    by (rule read_buf_exact [OF inp, of 0 1 0]) (use buf in \<open>simp_all add: b1_def\<close>)
  have b1: "length b1 = 256" "b1 ! 0 = ?l" using buf by (simp_all add: b1_def memcpy_at_starts)
  have n: "schar ?l = int (length name)" using name(2) by simp
  let ?c1 = "c\<lparr>ch_client := s1, ch_buf := b1\<rparr>"
  have small: "\<not> 255 < schar (ch_buf ?c1 ! 0)" using name(2) by (simp add: b1 n)
  obtain s2 where 2: "read_buf ?c1 1 (schar (ch_buf ?c1 ! 0)) = Ret (?c1\<lparr>ch_client := s2, ch_buf := memcpy_at (ch_buf ?c1) 1 name\<rparr>, ERR_NONE)"
    and s2: "delivers_bytes s2 rest" "sk_wr s2 = sk_wr s1" "sk_out s2 = sk_out s1"
    by (rule read_buf_exact [of ?c1 name rest 1 "schar (ch_buf ?c1 ! 0)" 1]) (use s1 name b1 n in simp_all)
  let ?b = "(memcpy_at b1 1 name)[length name + 1 := 0]"
  note nm = name_in_buffer [OF name(3,2) b1]
  have "neg_domain x c = Ret (set_ip ip (c\<lparr>ch_client := s2, ch_buf := ?b\<rparr>), ERR_NONE)"
    using nm host unfolding neg_domain_def 1 then_stage_Ret if_not_P [OF small] 2
    by (simp del: One_nat_def add: Let_def)
  then show thesis using that s1 s2 b1 name(2) by simp
qed

text \<open>What the remote proxy does with the bytes of a CONNECT request for a name.\<close>

lemma negotiate_remote_ok:
  assumes inp: "delivers_bytes (ch_client c) (([5, of_nat (length ms)] @ ms) @ s5_req 1 name port @ rest)"
    and buf: "length (ch_buf c) = 256" and ms: "length ms < 128" "0 \<in> set ms"
    and name: "0 < length name" "length name < 128" "0 \<notin> set name"
    and host: "x_up_proxy x = None" "x_host x name = Some ip" "length ip = 4"
    and p: "length (show_int p) = 4" and w: "takes_writes (ch_client c) 7"
  obtains c' where "negotiate_remote x p c = connect_client_remote x c'" "ch_target_port c' = port"
    "take 6 (ch_data c') = net16_bytes port @ ip" "sk_out (ch_client c') = sk_out (ch_client c) @ [5, 0] @ show_int p @ [0]"
    "delivers_bytes (ch_client c') rest"
proof -
  have inp1: "delivers_bytes (ch_client c) ([5, of_nat (length ms)] @ ms @ s5_req 1 name port @ rest)"
    using inp by simp
  obtain s1 b1 where 1: "neg_methods c = Ret (c\<lparr>ch_client := s1, ch_buf := b1\<rparr>, ERR_NONE)" "length b1 = 256"
      "delivers_bytes s1 (s5_req 1 name port @ rest)" "sk_wr s1 = sk_wr (ch_client c)" "sk_out s1 = sk_out (ch_client c)"
    by (rule neg_methods_ok [OF inp1 buf ms])
  let ?c1 = "c\<lparr>ch_client := s1, ch_buf := b1\<rparr>"
  obtain s2 b2 where 2: "neg_reply_remote p ?c1 = Ret (?c1\<lparr>ch_client := s2, ch_buf := b2\<rparr>, ERR_NONE)" "length b2 = 256"
      "sk_out s2 = sk_out s1 @ [5, 0] @ show_int p @ [0]" "sk_in s2 = sk_in s1"
    by (rule neg_reply_remote_ok [of ?c1 0 p]) (use w 1 p in \<open>simp_all add: takes_writes_def\<close>)
  let ?c2 = "c\<lparr>ch_client := s2, ch_buf := b2\<rparr>" and ?h = "[5, 1, 0, 3] :: bytes"
  have d2: "delivers_bytes (ch_client ?c2) (?h @ ([of_nat (length name)] @ name @ net16_bytes port @ rest))"
    using 1(3) 2(4) by (simp add: delivers_bytes_def s5_req_def)
  define b3 where "b3 = memcpy_at b2 0 ?h"
  obtain s3 where 3: "read_buf ?c2 0 4 = Ret (c\<lparr>ch_client := s3, ch_buf := b3\<rparr>, ERR_NONE)"
      "delivers_bytes s3 ([of_nat (length name)] @ name @ net16_bytes port @ rest)" "sk_out s3 = sk_out s2"
    by (rule read_buf_exact [OF d2, of 0 4 0]) (use 2(2) in \<open>simp_all add: b3_def\<close>)
  have b3: "b3 ! 1 = 1" "b3 ! 3 = 3" "length b3 = 256" using 2(2) by (simp_all add: b3_def memcpy_at_starts)
  let ?c3 = "c\<lparr>ch_client := s3, ch_buf := b3\<rparr>"
  let ?c4 = "c\<lparr>ch_client := s3, ch_buf := b3, ch_data := replicate 14 0\<rparr>"
  obtain s5 b5 where 5: "neg_domain x ?c4 = Ret (set_ip ip (?c4\<lparr>ch_client := s5, ch_buf := b5\<rparr>), ERR_NONE)"
      "delivers_bytes s5 (net16_bytes port @ rest)" "sk_out s5 = sk_out s3"
    by (rule neg_domain_ok [of ?c4 name "net16_bytes port @ rest" x ip]) (use 3 b3 name host in simp_all)
  define c5 where "c5 = set_ip ip (?c4\<lparr>ch_client := s5, ch_buf := b5\<rparr>)"
  have c5: "ch_client c5 = s5" "ch_data c5 = memcpy_at (replicate 14 0) 2 ip" by (simp_all add: c5_def set_ip_def)
  define d where "d = memcpy_at (ch_data c5) 0 (net16_bytes port)"
  obtain s6 where 6: "read_data c5 0 2 = Ret (c5\<lparr>ch_client := s6, ch_data := d\<rparr>, ERR_NONE)" "delivers_bytes s6 rest"
      "sk_out s6 = sk_out s5"
    by (rule read_data_exact [of c5 "net16_bytes port" rest 0 2 0])
      (use 5 c5 host(3) in \<open>simp_all add: d_def net16_bytes_def memcpy_at_def\<close>)
  have d: "take 6 d = net16_bytes port @ ip" "net16 (d ! 0) (d ! 1) = port"
    using host(3) net16_roundtrip [of port] by (simp_all add: d_def c5 net16_bytes_def memcpy_at_def)
  define c6 where "c6 = c5\<lparr>ch_client := s6, ch_data := d, ch_target_port := port\<rparr>"
  have addr: "neg_address x ?c3 = Ret (c5, ERR_NONE)" using 5(1) b3(2) by (simp add: neg_address_def Let_def c5_def)
  have port: "neg_port c5 = Ret (c6, ERR_NONE)"
    using d(2) by (simp add: neg_port_def 6(1) c6_def del: One_nat_def)
  have "schar 1 = 1" by code_simp
  then have "schar (ch_buf ?c3 ! 1) = PROXY_CMD_CONNECT" by (simp add: b3 PROXY_CMD_CONNECT_def del: One_nat_def)
  then have "neg_request (connect_client_remote x) x ?c2 = connect_client_remote x c6"
    by (simp add: neg_request_def 3(1) addr port neg_command_def Let_def del: One_nat_def)
  then have "negotiate_remote x p c = connect_client_remote x c6"
    using 1(1) 2(1) by (simp add: negotiate_remote_def)
  then show thesis
    by (rule that) (use d 6 5 3 2 1 in \<open>simp_all add: c6_def c5_def set_ip_def\<close>)
qed

section \<open>A negative count of methods\<close>

lemma neg_methods_overrun:
  assumes "sk_in (ch_client c) = Chunk [5, n] # Chunk xs # inp" "length (ch_buf c) = 256" "128 \<le> n" "254 < length xs"
  shows "neg_methods c = Overrun"
proof -
  define b where "b = memcpy_at (ch_buf c) 0 [5, n]"
  have b: "b ! 0 = 5" "b ! 1 = n" "length b = 256" using assms(2) by (simp_all add: b_def memcpy_at_starts)
  have "readnb_loop (ch_buf c) 0 2 0 (Chunk [5, n] # Chunk xs # inp) = Ret (Chunk xs # inp, ERR_NONE, b)"
    using assms(2) by (simp add: Let_def buf_put_def b_def)
  then have 1: "read_buf c 0 2 = Ret (c\<lparr>ch_client := (ch_client c)\<lparr>sk_in := Chunk xs # inp\<rparr>, ch_buf := b\<rparr>, ERR_NONE)"
    using assms(1) by (simp add: read_buf_def readnb_def)
  have neg: "schar n < 0" using schar_large assms(3) by (simp add: not_less)
  have "buf_put b 2 xs = None" using assms(4) b(3) by (simp add: buf_put_def)
  then have "readnb_loop b 2 (schar n) 0 (Chunk xs # inp) = Overrun"
    using neg assms(4) by (auto simp: Let_def)
  then have "read_buf (c\<lparr>ch_client := (ch_client c)\<lparr>sk_in := Chunk xs # inp\<rparr>, ch_buf := b\<rparr>) 2 (schar n) = Overrun"
    by (simp add: read_buf_def readnb_def del: readnb_loop.simps)
  then show ?thesis
    by (simp add: neg_methods_def 1 b del: One_nat_def) (simp add: then_stage_def)
qed

text \<open>An \<open>accept\<close> that fails in the BIND command has a result that is no error code.\<close>

lemma bind_fails:
  assumes "x_socket x \<ge> 0" "x_bind x \<ge> 0" "x_listen x \<ge> 0" "x_accept x < 0" "takes_writes (ch_client c) 10"
    "length (x_host_ip x) = 4" "length (ch_data c) = 14"
  obtains c' where "bind_client x c = Ret (c', x_accept x)"
proof -
  let ?b = "[5, of_int SE_NONE, 0, 1] @ take 4 (x_host_ip x) @ take 2 (ch_data c)"
  obtain sk' where "writenb (ch_client c) ?b 10 = Ret (sk', ERR_NONE)"
    using writenb_all [of "ch_client c" 10 0 ?b] assms(5-7) by auto
  then show thesis
    using assms(1-4) that by (simp add: bind_client_def open_serv_sock_def Let_def write_client_def)
qed

lemma con_reply_bad_code:
  assumes "res < 0" "takes_writes (ch_client c) 4"
  shows "con_reply sockname (Ret (c, res)) = Overrun"
proof -
  let ?h = "[5, to_char (err_to_se res), 0, 1]"
  obtain sk' where "writenb (ch_client c) ?h 4 = Ret (sk', ERR_NONE)"
    using writenb_all [of "ch_client c" 4 0 ?h] assms(2) by auto
  moreover have "err_to_se res \<noteq> SE_NONE" using assms(1) by (simp add: err_to_se_def socks_errors)
  ultimately show ?thesis using assms(1) by (simp add: con_reply_def write_client_def)
qed

end
