(* ===== verification/GField.thy ===== *)
theory GField
  imports Prelude
begin

text \<open>
  The finite field arithmetic of \<open>src/util.c\<close> (\<open>FFlog\<close>, \<open>FFantilog\<close>, \<open>xFFlog\<close>,
  \<open>fastFFmult\<close>, \<open>FFmult\<close>) and the table of inverses \<open>inv_vec\<close> of
  \<open>src/clictcp.c\<close>.  The reference is multiplication of polynomials over GF(2) modulo
  x^8+x^4+x^3+x+1; the tables are powers and logarithms of the generator 3 (x+1).
  The bytes with exclusive or and \<open>FFmult\<close> form a field, the type \<open>gf256\<close>, over which
  the decoder's linear algebra is stated.
\<close>

unbundle bit_operations_syntax

section \<open>The tables and the operations of util.c\<close>

definition FFlog :: "u8 list" where
  "FFlog =
    [0x00, 0x00, 0x19, 0x01, 0x32, 0x02, 0x1a, 0xc6, 0x4b, 0xc7, 0x1b, 0x68, 0x33, 0xee, 0xdf, 0x03,
     0x64, 0x04, 0xe0, 0x0e, 0x34, 0x8d, 0x81, 0xef, 0x4c, 0x71, 0x08, 0xc8, 0xf8, 0x69, 0x1c, 0xc1,
     0x7d, 0xc2, 0x1d, 0xb5, 0xf9, 0xb9, 0x27, 0x6a, 0x4d, 0xe4, 0xa6, 0x72, 0x9a, 0xc9, 0x09, 0x78,
     0x65, 0x2f, 0x8a, 0x05, 0x21, 0x0f, 0xe1, 0x24, 0x12, 0xf0, 0x82, 0x45, 0x35, 0x93, 0xda, 0x8e,
     0x96, 0x8f, 0xdb, 0xbd, 0x36, 0xd0, 0xce, 0x94, 0x13, 0x5c, 0xd2, 0xf1, 0x40, 0x46, 0x83, 0x38,
     0x66, 0xdd, 0xfd, 0x30, 0xbf, 0x06, 0x8b, 0x62, 0xb3, 0x25, 0xe2, 0x98, 0x22, 0x88, 0x91, 0x10,
     0x7e, 0x6e, 0x48, 0xc3, 0xa3, 0xb6, 0x1e, 0x42, 0x3a, 0x6b, 0x28, 0x54, 0xfa, 0x85, 0x3d, 0xba,
     0x2b, 0x79, 0x0a, 0x15, 0x9b, 0x9f, 0x5e, 0xca, 0x4e, 0xd4, 0xac, 0xe5, 0xf3, 0x73, 0xa7, 0x57,
     0xaf, 0x58, 0xa8, 0x50, 0xf4, 0xea, 0xd6, 0x74, 0x4f, 0xae, 0xe9, 0xd5, 0xe7, 0xe6, 0xad, 0xe8,
     0x2c, 0xd7, 0x75, 0x7a, 0xeb, 0x16, 0x0b, 0xf5, 0x59, 0xcb, 0x5f, 0xb0, 0x9c, 0xa9, 0x51, 0xa0,
     0x7f, 0x0c, 0xf6, 0x6f, 0x17, 0xc4, 0x49, 0xec, 0xd8, 0x43, 0x1f, 0x2d, 0xa4, 0x76, 0x7b, 0xb7,
     0xcc, 0xbb, 0x3e, 0x5a, 0xfb, 0x60, 0xb1, 0x86, 0x3b, 0x52, 0xa1, 0x6c, 0xaa, 0x55, 0x29, 0x9d,
     0x97, 0xb2, 0x87, 0x90, 0x61, 0xbe, 0xdc, 0xfc, 0xbc, 0x95, 0xcf, 0xcd, 0x37, 0x3f, 0x5b, 0xd1,
     0x53, 0x39, 0x84, 0x3c, 0x41, 0xa2, 0x6d, 0x47, 0x14, 0x2a, 0x9e, 0x5d, 0x56, 0xf2, 0xd3, 0xab,
     0x44, 0x11, 0x92, 0xd9, 0x23, 0x20, 0x2e, 0x89, 0xb4, 0x7c, 0xb8, 0x26, 0x77, 0x99, 0xe3, 0xa5,
     0x67, 0x4a, 0xed, 0xde, 0xc5, 0x31, 0xfe, 0x18, 0x0d, 0x63, 0x8c, 0x80, 0xc0, 0xf7, 0x70, 0x07]"

definition FFantilog :: "u8 list" where
  "FFantilog =
    [0x01, 0x03, 0x05, 0x0f, 0x11, 0x33, 0x55, 0xff, 0x1a, 0x2e, 0x72, 0x96, 0xa1, 0xf8, 0x13, 0x35,
     0x5f, 0xe1, 0x38, 0x48, 0xd8, 0x73, 0x95, 0xa4, 0xf7, 0x02, 0x06, 0x0a, 0x1e, 0x22, 0x66, 0xaa,
     0xe5, 0x34, 0x5c, 0xe4, 0x37, 0x59, 0xeb, 0x26, 0x6a, 0xbe, 0xd9, 0x70, 0x90, 0xab, 0xe6, 0x31,
     0x53, 0xf5, 0x04, 0x0c, 0x14, 0x3c, 0x44, 0xcc, 0x4f, 0xd1, 0x68, 0xb8, 0xd3, 0x6e, 0xb2, 0xcd,
     0x4c, 0xd4, 0x67, 0xa9, 0xe0, 0x3b, 0x4d, 0xd7, 0x62, 0xa6, 0xf1, 0x08, 0x18, 0x28, 0x78, 0x88,
     0x83, 0x9e, 0xb9, 0xd0, 0x6b, 0xbd, 0xdc, 0x7f, 0x81, 0x98, 0xb3, 0xce, 0x49, 0xdb, 0x76, 0x9a,
     0xb5, 0xc4, 0x57, 0xf9, 0x10, 0x30, 0x50, 0xf0, 0x0b, 0x1d, 0x27, 0x69, 0xbb, 0xd6, 0x61, 0xa3,
     0xfe, 0x19, 0x2b, 0x7d, 0x87, 0x92, 0xad, 0xec, 0x2f, 0x71, 0x93, 0xae, 0xe9, 0x20, 0x60, 0xa0,
     0xfb, 0x16, 0x3a, 0x4e, 0xd2, 0x6d, 0xb7, 0xc2, 0x5d, 0xe7, 0x32, 0x56, 0xfa, 0x15, 0x3f, 0x41,
     0xc3, 0x5e, 0xe2, 0x3d, 0x47, 0xc9, 0x40, 0xc0, 0x5b, 0xed, 0x2c, 0x74, 0x9c, 0xbf, 0xda, 0x75,
     0x9f, 0xba, 0xd5, 0x64, 0xac, 0xef, 0x2a, 0x7e, 0x82, 0x9d, 0xbc, 0xdf, 0x7a, 0x8e, 0x89, 0x80,
     0x9b, 0xb6, 0xc1, 0x58, 0xe8, 0x23, 0x65, 0xaf, 0xea, 0x25, 0x6f, 0xb1, 0xc8, 0x43, 0xc5, 0x54,
     0xfc, 0x1f, 0x21, 0x63, 0xa5, 0xf4, 0x07, 0x09, 0x1b, 0x2d, 0x77, 0x99, 0xb0, 0xcb, 0x46, 0xca,
     0x45, 0xcf, 0x4a, 0xde, 0x79, 0x8b, 0x86, 0x91, 0xa8, 0xe3, 0x3e, 0x42, 0xc6, 0x51, 0xf3, 0x0e,
     0x12, 0x36, 0x5a, 0xee, 0x29, 0x7b, 0x8d, 0x8c, 0x8f, 0x8a, 0x85, 0x94, 0xa7, 0xf2, 0x0d, 0x17,
     0x39, 0x4b, 0xdd, 0x7c, 0x84, 0x97, 0xa2, 0xfd, 0x1c, 0x24, 0x6c, 0xb4, 0xc7, 0x52, 0xf6, 0x01,
     0x03, 0x05, 0x0f, 0x11, 0x33, 0x55, 0xff, 0x1a, 0x2e, 0x72, 0x96, 0xa1, 0xf8, 0x13, 0x35, 0x5f,
     0xe1, 0x38, 0x48, 0xd8, 0x73, 0x95, 0xa4, 0xf7, 0x02, 0x06, 0x0a, 0x1e, 0x22, 0x66, 0xaa, 0xe5,
     0x34, 0x5c, 0xe4, 0x37, 0x59, 0xeb, 0x26, 0x6a, 0xbe, 0xd9, 0x70, 0x90, 0xab, 0xe6, 0x31, 0x53,
     0xf5, 0x04, 0x0c, 0x14, 0x3c, 0x44, 0xcc, 0x4f, 0xd1, 0x68, 0xb8, 0xd3, 0x6e, 0xb2, 0xcd, 0x4c,
     0xd4, 0x67, 0xa9, 0xe0, 0x3b, 0x4d, 0xd7, 0x62, 0xa6, 0xf1, 0x08, 0x18, 0x28, 0x78, 0x88, 0x83,
     0x9e, 0xb9, 0xd0, 0x6b, 0xbd, 0xdc, 0x7f, 0x81, 0x98, 0xb3, 0xce, 0x49, 0xdb, 0x76, 0x9a, 0xb5,
     0xc4, 0x57, 0xf9, 0x10, 0x30, 0x50, 0xf0, 0x0b, 0x1d, 0x27, 0x69, 0xbb, 0xd6, 0x61, 0xa3, 0xfe,
     0x19, 0x2b, 0x7d, 0x87, 0x92, 0xad, 0xec, 0x2f, 0x71, 0x93, 0xae, 0xe9, 0x20, 0x60, 0xa0, 0xfb,
     0x16, 0x3a, 0x4e, 0xd2, 0x6d, 0xb7, 0xc2, 0x5d, 0xe7, 0x32, 0x56, 0xfa, 0x15, 0x3f, 0x41, 0xc3,
     0x5e, 0xe2, 0x3d, 0x47, 0xc9, 0x40, 0xc0, 0x5b, 0xed, 0x2c, 0x74, 0x9c, 0xbf, 0xda, 0x75, 0x9f,
     0xba, 0xd5, 0x64, 0xac, 0xef, 0x2a, 0x7e, 0x82, 0x9d, 0xbc, 0xdf, 0x7a, 0x8e, 0x89, 0x80, 0x9b,
     0xb6, 0xc1, 0x58, 0xe8, 0x23, 0x65, 0xaf, 0xea, 0x25, 0x6f, 0xb1, 0xc8, 0x43, 0xc5, 0x54, 0xfc,
     0x1f, 0x21, 0x63, 0xa5, 0xf4, 0x07, 0x09, 0x1b, 0x2d, 0x77, 0x99, 0xb0, 0xcb, 0x46, 0xca, 0x45,
     0xcf, 0x4a, 0xde, 0x79, 0x8b, 0x86, 0x91, 0xa8, 0xe3, 0x3e, 0x42, 0xc6, 0x51, 0xf3, 0x0e, 0x12,
     0x36, 0x5a, 0xee, 0x29, 0x7b, 0x8d, 0x8c, 0x8f, 0x8a, 0x85, 0x94, 0xa7, 0xf2, 0x0d, 0x17, 0x39,
     0x4b, 0xdd, 0x7c, 0x84, 0x97, 0xa2, 0xfd, 0x1c, 0x24, 0x6c, 0xb4, 0xc7, 0x52, 0xf6, 0x01]"

definition inv_vec :: "u8 list" where
  "inv_vec =
    [0x00, 0x01, 0x8d, 0xf6, 0xcb, 0x52, 0x7b, 0xd1, 0xe8, 0x4f, 0x29, 0xc0, 0xb0, 0xe1, 0xe5, 0xc7,
     0x74, 0xb4, 0xaa, 0x4b, 0x99, 0x2b, 0x60, 0x5f, 0x58, 0x3f, 0xfd, 0xcc, 0xff, 0x40, 0xee, 0xb2,
     0x3a, 0x6e, 0x5a, 0xf1, 0x55, 0x4d, 0xa8, 0xc9, 0xc1, 0x0a, 0x98, 0x15, 0x30, 0x44, 0xa2, 0xc2,
     0x2c, 0x45, 0x92, 0x6c, 0xf3, 0x39, 0x66, 0x42, 0xf2, 0x35, 0x20, 0x6f, 0x77, 0xbb, 0x59, 0x19,
     0x1d, 0xfe, 0x37, 0x67, 0x2d, 0x31, 0xf5, 0x69, 0xa7, 0x64, 0xab, 0x13, 0x54, 0x25, 0xe9, 0x09,
     0xed, 0x5c, 0x05, 0xca, 0x4c, 0x24, 0x87, 0xbf, 0x18, 0x3e, 0x22, 0xf0, 0x51, 0xec, 0x61, 0x17,
     0x16, 0x5e, 0xaf, 0xd3, 0x49, 0xa6, 0x36, 0x43, 0xf4, 0x47, 0x91, 0xdf, 0x33, 0x93, 0x21, 0x3b,
     0x79, 0xb7, 0x97, 0x85, 0x10, 0xb5, 0xba, 0x3c, 0xb6, 0x70, 0xd0, 0x06, 0xa1, 0xfa, 0x81, 0x82,
     0x83, 0x7e, 0x7f, 0x80, 0x96, 0x73, 0xbe, 0x56, 0x9b, 0x9e, 0x95, 0xd9, 0xf7, 0x02, 0xb9, 0xa4,
     0xde, 0x6a, 0x32, 0x6d, 0xd8, 0x8a, 0x84, 0x72, 0x2a, 0x14, 0x9f, 0x88, 0xf9, 0xdc, 0x89, 0x9a,
     0xfb, 0x7c, 0x2e, 0xc3, 0x8f, 0xb8, 0x65, 0x48, 0x26, 0xc8, 0x12, 0x4a, 0xce, 0xe7, 0xd2, 0x62,
     0x0c, 0xe0, 0x1f, 0xef, 0x11, 0x75, 0x78, 0x71, 0xa5, 0x8e, 0x76, 0x3d, 0xbd, 0xbc, 0x86, 0x57,
     0x0b, 0x28, 0x2f, 0xa3, 0xda, 0xd4, 0xe4, 0x0f, 0xa9, 0x27, 0x53, 0x04, 0x1b, 0xfc, 0xac, 0xe6,
     0x7a, 0x07, 0xae, 0x63, 0xc5, 0xdb, 0xe2, 0xea, 0x94, 0x8b, 0xc4, 0xd5, 0x9d, 0xf8, 0x90, 0x6b,
     0xb1, 0x0d, 0xd6, 0xeb, 0xc6, 0x0e, 0xcf, 0xad, 0x08, 0x4e, 0xd7, 0xe3, 0x5d, 0x50, 0x1e, 0xb3,
     0x5b, 0x23, 0x38, 0x34, 0x68, 0x46, 0x03, 0x8c, 0xdd, 0x9c, 0x7d, 0xa0, 0xcd, 0x1a, 0x41, 0x1c]"

definition xFFlog :: "u8 \<Rightarrow> u8" where
  "xFFlog x = FFlog ! unat x"

definition fastFFmult :: "u8 \<Rightarrow> u8 \<Rightarrow> u8" where
  "fastFFmult x logy =
    (if x = 0 then 0 else FFantilog ! (unat (FFlog ! unat x) + unat logy))"

definition FFmult :: "u8 \<Rightarrow> u8 \<Rightarrow> u8" where
  "FFmult x y =
    (if x = 0 \<or> y = 0 then 0
     else FFantilog ! (unat (FFlog ! unat x) + unat (FFlog ! unat y)))"

section \<open>Reference: polynomials modulo x^8 + x^4 + x^3 + x + 1\<close>

definition xtime :: "u8 \<Rightarrow> u8" where
  "xtime x = push_bit 1 x XOR (if bit x 7 then 0x1b else 0)"

text \<open>The sum of \<open>x * X^k\<close> over the bits \<open>k\<close> set in \<open>y\<close>.\<close>

fun gmul_upto :: "nat \<Rightarrow> u8 \<Rightarrow> u8 \<Rightarrow> u8" where
  "gmul_upto 0 x y = 0"
| "gmul_upto (Suc k) x y = gmul_upto k x y XOR (if bit y k then (xtime ^^ k) x else 0)"

definition gmul :: "u8 \<Rightarrow> u8 \<Rightarrow> u8" where
  "gmul x y = gmul_upto 8 x y"

definition mul3 :: "u8 \<Rightarrow> u8" where
  "mul3 x = xtime x XOR x"


section \<open>Multiplication by a fixed element is linear\<close>

lemma xtime_0 [simp]: "xtime 0 = 0"
  by (simp add: xtime_def)

lemma xtime_xor: "xtime (x XOR y) = xtime x XOR xtime y"
proof (rule bit_word_eqI)
  fix n assume "n < LENGTH(8)"
  show "bit (xtime (x XOR y)) n = bit (xtime x XOR xtime y) n"
    by (cases "bit x 7"; cases "bit y 7") (auto simp: xtime_def bit_simps)
qed

lemma xtime_pow_xor: "(xtime ^^ k) (x XOR y) = (xtime ^^ k) x XOR (xtime ^^ k) y"
  by (induction k) (simp_all add: xtime_xor)

lemma xtime_pow_0 [simp]: "(xtime ^^ k) 0 = 0"
  by (induction k) simp_all

lemma mul3_xor: "mul3 (x XOR y) = mul3 x XOR mul3 y"
  by (simp add: mul3_def xtime_xor ac_simps)

lemma mul3_0 [simp]: "mul3 0 = 0"
  by (simp add: mul3_def)

lemma xtime_pow_mul3: "(xtime ^^ k) (mul3 x) = mul3 ((xtime ^^ k) x)"
  by (simp add: mul3_def xtime_pow_xor funpow_swap1)

lemma gmul_upto_mul3: "gmul_upto k (mul3 x) y = mul3 (gmul_upto k x y)"
  by (induction k) (simp_all add: mul3_xor xtime_pow_mul3)

lemma gmul_mul3_pow: "gmul ((mul3 ^^ n) x) y = (mul3 ^^ n) (gmul x y)"
  by (induction n) (simp_all add: gmul_def gmul_upto_mul3)

lemma gmul_xor_left: "gmul (x XOR x') y = gmul x y XOR gmul x' y"
proof -
  have "gmul_upto k (x XOR x') y = gmul_upto k x y XOR gmul_upto k x' y" for k
    by (induction k) (simp_all add: xtime_pow_xor ac_simps)
  then show ?thesis by (simp add: gmul_def)
qed

lemma gmul_xor_right: "gmul x (y XOR y') = gmul x y XOR gmul x y'"
proof -
  have "gmul_upto k x (y XOR y') = gmul_upto k x y XOR gmul_upto k x y'" for k
    by (induction k) (auto simp: bit_xor_iff ac_simps xor.left_commute)
  then show ?thesis by (simp add: gmul_def)
qed

lemma gmul_0_left [simp]: "gmul 0 y = 0"
proof -
  have "gmul_upto k 0 y = 0" for k
    by (induction k) simp_all
  then show ?thesis by (simp add: gmul_def)
qed

lemma gmul_0_right [simp]: "gmul x 0 = 0"
proof -
  have "gmul_upto k x 0 = 0" for k
    by (induction k) simp_all
  then show ?thesis by (simp add: gmul_def)
qed

lemma xtime_pow_1: "k < 8 \<Longrightarrow> (xtime ^^ k) 1 = push_bit k 1"
proof (induction k)
  case 0
  then show ?case by simp
next
  case (Suc k)
  then have "\<not> bit (push_bit k (1 :: u8)) 7"
    by (auto simp: bit_simps)
  with Suc show ?case by (simp add: xtime_def ac_simps)
qed

lemma gmul_upto_1: "k \<le> 8 \<Longrightarrow> gmul_upto k 1 y = take_bit k y"
proof (induction k)
  case 0
  then show ?case by simp
next
  case (Suc k)
  have "take_bit (Suc k) y = take_bit k y XOR (if bit y k then push_bit k 1 else 0)"
    by (rule bit_word_eqI) (auto simp: bit_simps less_Suc_eq)
  with Suc show ?case by (simp add: xtime_pow_1)
qed

lemma gmul_1_left: "gmul 1 y = y"
  by (simp add: gmul_def gmul_upto_1 take_bit_word_eq_self)

section \<open>The tables are powers and logarithms of the generator\<close>

fun chained :: "('a \<Rightarrow> 'a) \<Rightarrow> 'a list \<Rightarrow> bool" where
  "chained f (x # y # zs) = (y = f x \<and> chained f (y # zs))"
| "chained f _ = True"

lemma chained_nth: "chained f (x # xs) \<Longrightarrow> i \<le> length xs \<Longrightarrow> (x # xs) ! i = (f ^^ i) x"
proof (induction xs arbitrary: x i)
  case Nil
  then show ?case by simp
next
  case (Cons y ys)
  then show ?case by (cases i) (auto simp: funpow_swap1)
qed

lemma length_FFlog: "length FFlog = 256"
  by (simp add: FFlog_def)

lemma length_FFantilog: "length FFantilog = 511"
  by (simp add: FFantilog_def)

lemma length_inv_vec: "length inv_vec = 256"
  by (simp add: inv_vec_def)

lemma FFantilog_chained: "chained mul3 FFantilog"
  unfolding FFantilog_def mul3_def by (simp add: xtime_def)

lemma FFantilog_nth:
  assumes "i < 511"
  shows "FFantilog ! i = (mul3 ^^ i) 1"
proof -
  have eq: "FFantilog = 1 # tl FFantilog"
    by (simp add: FFantilog_def)
  have "i \<le> length (tl FFantilog)"
    using assms by (simp add: length_FFantilog)
  moreover have "chained mul3 (1 # tl FFantilog)"
    using FFantilog_chained eq by simp
  ultimately have "(1 # tl FFantilog) ! i = (mul3 ^^ i) 1"
    by (rule chained_nth [rotated])
  then show ?thesis using eq by simp
qed

lemma FFlog_table:
  "\<forall>i\<in>set [0..<255]. FFantilog ! unat (FFlog ! Suc i) = of_nat (Suc i) \<and> unat (FFlog ! Suc i) < 255"
  by code_simp

lemma byte_nonzeroE:
  assumes "(x :: u8) \<noteq> 0"
  obtains i where "i < 255" and "unat x = Suc i" and "x = of_nat (Suc i)"
proof -
  have "unat x < 256" using unsigned_less [of x] by simp
  moreover have "unat x \<noteq> 0" using assms by (simp add: unat_eq_0)
  ultimately have "unat x - 1 < 255" and "unat x = Suc (unat x - 1)" by linarith+
  then show ?thesis using that [of "unat x - 1"] by (metis of_nat_unat ucast_id)
qed

lemma FFlog_nonzero:
  assumes "x \<noteq> 0"
  shows "FFantilog ! unat (FFlog ! unat x) = x" and "unat (FFlog ! unat x) < 255"
proof -
  obtain i where i: "i < 255" "unat x = Suc i" "x = of_nat (Suc i)"
    using assms by (rule byte_nonzeroE)
  then have "i \<in> set [0..<255]" by simp
  with FFlog_table i show "FFantilog ! unat (FFlog ! unat x) = x"
    and "unat (FFlog ! unat x) < 255" by auto
qed

lemma generator_power: "x \<noteq> 0 \<Longrightarrow> (mul3 ^^ unat (FFlog ! unat x)) 1 = x"
  using FFlog_nonzero [of x] FFantilog_nth [of "unat (FFlog ! unat x)"] by simp

lemma FFmult_mul3_pow:
  assumes "x \<noteq> 0"
  shows "FFmult x y = (mul3 ^^ unat (FFlog ! unat x)) y"
proof (cases "y = 0")
  case True
  have "(mul3 ^^ n) 0 = 0" for n by (induction n) simp_all
  with True show ?thesis by (simp add: FFmult_def)
next
  case False
  let ?lx = "unat (FFlog ! unat x)" and ?ly = "unat (FFlog ! unat y)"
  have "FFmult x y = FFantilog ! (?lx + ?ly)"
    using assms False by (simp add: FFmult_def)
  also have "\<dots> = (mul3 ^^ ?lx) ((mul3 ^^ ?ly) 1)"
    using FFlog_nonzero(2) [OF assms] FFlog_nonzero(2) [OF False]
    by (simp add: FFantilog_nth funpow_add)
  finally show ?thesis using False by (simp add: generator_power)
qed

lemma FFmult_eq_gmul: "FFmult x y = gmul x y"
proof (cases "x = 0")
  case True
  then show ?thesis by (simp add: FFmult_def)
next
  case False
  have "gmul x y = gmul ((mul3 ^^ unat (FFlog ! unat x)) 1) y"
    using False by (simp add: generator_power)
  then show ?thesis
    using False by (simp add: gmul_mul3_pow gmul_1_left FFmult_mul3_pow)
qed

lemma FFmult_commute: "FFmult x y = FFmult y x"
  by (auto simp: FFmult_def add.commute)

lemma FFmult_assoc: "FFmult (FFmult x y) z = FFmult x (FFmult y z)"
proof (cases "x = 0")
  case True
  then show ?thesis by (simp add: FFmult_def)
next
  case False
  then show ?thesis
    by (simp add: FFmult_mul3_pow) (simp add: FFmult_eq_gmul gmul_mul3_pow)
qed

lemma FFmult_1 [simp]: "FFmult 1 y = y"
  by (simp add: FFmult_eq_gmul gmul_1_left)

lemma FFmult_0 [simp]: "FFmult 0 y = 0" "FFmult x 0 = 0"
  by (simp_all add: FFmult_def)

lemma FFmult_xor: "FFmult (x XOR x') y = FFmult x y XOR FFmult x' y"
  by (simp add: FFmult_eq_gmul gmul_xor_left)

lemma inv_vec_table: "\<forall>i\<in>set [0..<255]. FFmult (of_nat (Suc i)) (inv_vec ! Suc i) = 1"
  by code_simp

lemma inv_vec_inverse:
  assumes "x \<noteq> 0"
  shows "FFmult x (inv_vec ! unat x) = 1"
proof -
  have "x \<noteq> 0" by (rule assms)
  then obtain i where i: "i < 255" "unat x = Suc i" "x = of_nat (Suc i)"
    by (rule byte_nonzeroE)
  then have "i \<in> set [0..<255]" by simp
  with inv_vec_table i show ?thesis by metis
qed

lemma inv_vec_0: "inv_vec ! 0 = 0"
  by (simp add: inv_vec_def)

lemma inv_vec_nonzero: "x \<noteq> 0 \<Longrightarrow> inv_vec ! unat (x :: u8) \<noteq> 0"
  using inv_vec_inverse [of x] by auto

lemma fastFFmult_eq: "y \<noteq> 0 \<Longrightarrow> fastFFmult x (xFFlog y) = FFmult x y"
  by (simp add: fastFFmult_def xFFlog_def FFmult_def)

section \<open>The field GF(256)\<close>

typedef gf256 = "UNIV :: u8 set" morphisms byte_of gf_of
  by simp

lemma gf_of_inject_iff [simp]: "gf_of x = gf_of y \<longleftrightarrow> x = y"
  by (simp add: gf_of_inject)

lemma byte_of_gf_of [simp]: "byte_of (gf_of x) = x"
  by (simp add: gf_of_inverse)

instantiation gf256 :: field
begin

definition zero_gf256 :: gf256 where "zero_gf256 = gf_of 0"
definition one_gf256 :: gf256 where "one_gf256 = gf_of 1"
definition plus_gf256 :: "gf256 \<Rightarrow> gf256 \<Rightarrow> gf256" where
  "plus_gf256 a b = gf_of (byte_of a XOR byte_of b)"
definition minus_gf256 :: "gf256 \<Rightarrow> gf256 \<Rightarrow> gf256" where
  "minus_gf256 a b = gf_of (byte_of a XOR byte_of b)"
definition uminus_gf256 :: "gf256 \<Rightarrow> gf256" where "uminus_gf256 a = a"
definition times_gf256 :: "gf256 \<Rightarrow> gf256 \<Rightarrow> gf256" where
  "times_gf256 a b = gf_of (FFmult (byte_of a) (byte_of b))"
definition inverse_gf256 :: "gf256 \<Rightarrow> gf256" where
  "inverse_gf256 a = gf_of (inv_vec ! unat (byte_of a))"
definition divide_gf256 :: "gf256 \<Rightarrow> gf256 \<Rightarrow> gf256" where
  "divide_gf256 a b = gf_of (FFmult (byte_of a) (inv_vec ! unat (byte_of b)))"

lemmas gf256_defs = zero_gf256_def one_gf256_def plus_gf256_def minus_gf256_def
  uminus_gf256_def times_gf256_def inverse_gf256_def divide_gf256_def

instance
proof
  fix a b c :: gf256
  show "a * b * c = a * (b * c)" by (simp add: gf256_defs FFmult_assoc)
  show "a * b = b * a" by (simp add: gf256_defs FFmult_commute)
  show "1 * a = a" by (simp add: gf256_defs byte_of_inverse)
  show "a + b + c = a + (b + c)" by (simp add: gf256_defs xor.assoc)
  show "a + b = b + a" by (simp add: gf256_defs xor.commute)
  show "0 + a = a" by (simp add: gf256_defs byte_of_inverse)
  show "- a + a = 0" by (simp add: gf256_defs)
  show "a - b = a + - b" by (simp add: gf256_defs)
  show "(a + b) * c = a * c + b * c" by (simp add: gf256_defs FFmult_xor)
  show "(0::gf256) \<noteq> 1" by (simp add: gf256_defs)
  show "inverse (0::gf256) = 0" by (simp add: gf256_defs inv_vec_0)
  show "a div b = a * inverse b" by (simp add: gf256_defs)
  assume "a \<noteq> 0"
  then have "byte_of a \<noteq> 0" by (metis gf256_defs(1) byte_of_inverse)
  then show "inverse a * a = 1"
    by (simp add: gf256_defs FFmult_commute [of "inv_vec ! _"] inv_vec_inverse)
qed

end

lemma gf_of_xor [gf_simps]: "gf_of (x XOR y) = gf_of x + gf_of y"
  by (simp add: plus_gf256_def)

lemma gf_of_FFmult [gf_simps]: "gf_of (FFmult x y) = gf_of x * gf_of y"
  by (simp add: times_gf256_def)

lemma gf_of_0 [gf_simps]: "gf_of 0 = 0"
  by (simp add: zero_gf256_def)

lemma gf_of_1 [gf_simps]: "gf_of 1 = 1"
  by (simp add: one_gf256_def)

lemma gf_of_inv_vec [gf_simps]: "gf_of (inv_vec ! unat x) = inverse (gf_of x)"
  by (simp add: inverse_gf256_def)

lemma gf_of_eq_0_iff [simp]: "gf_of x = 0 \<longleftrightarrow> x = 0"
  by (simp add: zero_gf256_def)

lemma gf256_add_self [simp]: "(a :: gf256) + a = 0"
  by (simp add: gf256_defs)

lemma gf256_minus [simp]: "- (a :: gf256) = a"
  by (simp add: uminus_gf256_def)

lemma gf256_diff: "(a :: gf256) - b = a + b"
  by (simp add: gf256_defs)

end
