(* ===== verification/Wire.thy ===== *)
theory Wire
  imports Prelude
begin

text \<open>
  The packets of \<open>src/util.h\<close> and their way to the wire: \<open>Data_Pckt\<close>, \<open>Ack_Pckt\<close>,
  the conversions \<open>htonpData\<close>, \<open>htonpAck\<close>, \<open>ntohpData\<close>, \<open>ntohpAck\<close> of
  \<open>src/util.c\<close> and \<open>marshallData\<close>, \<open>unmarshallAck\<close>, \<open>marshallAck\<close>.  The code sends
  the memory image of the C struct, so the model has that image too, for a host of either
  byte order (\<open>le\<close> says little endian).  The time stamp is a \<open>double\<close>: here its 64 bits.
\<close>

section \<open>Constants\<close>

definition MSS :: nat where "MSS = 1500"
definition IPUDP_HEADER_SIZE :: nat where "IPUDP_HEADER_SIZE = 32"
definition ACK_SIZE :: nat where "ACK_SIZE = 8 + 4 + 4 + 4 + 1"
definition PAYLOAD_SIZE :: nat where
  "PAYLOAD_SIZE = MSS - IPUDP_HEADER_SIZE - (8 + 4 + 4 + 4 + 1 + 1 + 1)"
definition BLOCK_SIZE :: nat where "BLOCK_SIZE = 32"
definition NUM_BLOCKS :: nat where "NUM_BLOCKS = 100"
definition MAX_CWND :: nat where "MAX_CWND = 1000"

lemma PAYLOAD_SIZE_eq: "PAYLOAD_SIZE = 1445"
  by (simp add: PAYLOAD_SIZE_def MSS_def IPUDP_HEADER_SIZE_def)

datatype flag = NORMAL | SYN | SYN_ACK | FIN | FIN_ACK | CODED

primrec flag_code :: "flag \<Rightarrow> u32" where
  "flag_code NORMAL = 0"
| "flag_code SYN = 1"
| "flag_code SYN_ACK = 2"
| "flag_code FIN = 3"
| "flag_code FIN_ACK = 4"
| "flag_code CODED = 5"

lemma flag_code_inject [simp]: "flag_code a = flag_code b \<longleftrightarrow> a = b"
  by (cases a; cases b) simp_all

section \<open>Packets\<close>

record data_pckt =
  d_tstamp :: u64
  d_flag :: u32
  d_seqno :: u32
  d_blockno :: u32
  d_start_packet :: u8
  d_num_packets :: u8
  d_packet_coeff :: u8
  d_payload :: bytes

record ack_pckt =
  a_tstamp :: u64
  a_flag :: u32
  a_ackno :: u32
  a_blockno :: u32
  a_dof_rec :: u8

definition ackPacket :: "u32 \<Rightarrow> u32 \<Rightarrow> u8 \<Rightarrow> u64 \<Rightarrow> ack_pckt" where
  "ackPacket ackno blockno dofs_left tstamp0 =
    \<lparr>a_tstamp = tstamp0, a_flag = flag_code NORMAL, a_ackno = ackno, a_blockno = blockno,
     a_dof_rec = dofs_left\<rparr>"

text \<open>The packets without data.\<close>

definition is_control :: "data_pckt \<Rightarrow> bool" where
  "is_control m \<longleftrightarrow> d_flag m = flag_code FIN \<or> d_flag m = flag_code FIN_ACK \<or> d_flag m = flag_code SYN_ACK \<or> d_flag m = flag_code SYN"

section \<open>Byte order\<close>

text \<open>The bytes of a 32-bit word, the most significant first.\<close>

definition be32 :: "u32 \<Rightarrow> bytes" where
  "be32 w = [ucast (drop_bit 24 w), ucast (drop_bit 16 w), ucast (drop_bit 8 w), ucast w]"

definition of_be32 :: "bytes \<Rightarrow> u32" where
  "of_be32 bs = push_bit 24 (ucast (bs ! 0)) OR push_bit 16 (ucast (bs ! 1)) OR
    push_bit 8 (ucast (bs ! 2)) OR ucast (bs ! 3)"

definition mem32 :: "bool \<Rightarrow> u32 \<Rightarrow> bytes" where
  "mem32 le w = (if le then rev (be32 w) else be32 w)"

definition of_mem32 :: "bool \<Rightarrow> bytes \<Rightarrow> u32" where
  "of_mem32 le bs = of_be32 (if le then rev bs else bs)"

text \<open>\<open>htonl\<close> and \<open>ntohl\<close> swap the bytes on a little-endian host only.\<close>

definition htonl :: "bool \<Rightarrow> u32 \<Rightarrow> u32" where
  "htonl le w = (if le then of_be32 (rev (be32 w)) else w)"

definition be16 :: "u16 \<Rightarrow> bytes" where
  "be16 w = [ucast (drop_bit 8 w), ucast w]"

definition of_be16 :: "bytes \<Rightarrow> u16" where
  "of_be16 bs = push_bit 8 (ucast (bs ! 0)) OR ucast (bs ! 1)"

definition mem64 :: "bool \<Rightarrow> u64 \<Rightarrow> bytes" where
  "mem64 le w =
    (let be = be32 (ucast (drop_bit 32 w)) @ be32 (ucast w) in if le then rev be else be)"

definition of_mem64 :: "bool \<Rightarrow> bytes \<Rightarrow> u64" where
  "of_mem64 le bs =
    (let be = (if le then rev bs else bs)
     in push_bit 32 (ucast (of_be32 (take 4 be))) OR ucast (of_be32 (drop 4 be)))"

lemma length_be32 [simp]: "length (be32 w) = 4"
  by (simp add: be32_def)

lemma length_mem32 [simp]: "length (mem32 le w) = 4"
  by (simp add: mem32_def)

lemma length_mem64 [simp]: "length (mem64 le w) = 8"
  by (simp add: mem64_def Let_def)

lemma of_be32_be32 [simp, wire_simps]: "of_be32 (be32 w) = w"
proof (rule bit_word_eqI)
  fix i assume i: "i < LENGTH(32)"
  consider "i < 8" | "8 \<le> i" "i < 16" | "16 \<le> i" "i < 24" | "24 \<le> i" by linarith
  then show "bit (of_be32 (be32 w)) i = bit w i"
    by cases (use i in \<open>auto simp: of_be32_def be32_def bit_or_iff bit_push_bit_iff
      bit_unsigned_iff bit_drop_bit_eq\<close>)
qed

lemma be32_of_be32 [simp]:
  assumes "length bs = 4"
  shows "be32 (of_be32 bs) = bs"
proof -
  obtain a b c d where bs: "bs = [a, b, c, d]"
    using assms by (auto simp: length_Suc_conv numeral_eq_Suc)
  have "ucast (drop_bit 24 (of_be32 bs)) = a" "ucast (drop_bit 16 (of_be32 bs)) = b"
    "ucast (drop_bit 8 (of_be32 bs)) = c" "ucast (of_be32 bs) = d"
    by (rule bit_word_eqI, auto simp: bs of_be32_def bit_or_iff bit_push_bit_iff bit_unsigned_iff
        bit_drop_bit_eq impossible_bit)+
  then show ?thesis by (simp add: be32_def bs)
qed

lemma of_mem32_mem32 [simp, wire_simps]: "of_mem32 le (mem32 le w) = w"
  by (simp add: of_mem32_def mem32_def)

lemma of_be16_be16 [simp, wire_simps]: "of_be16 (be16 w) = w"
proof (rule bit_word_eqI)
  fix i assume "i < LENGTH(16)"
  then show "bit (of_be16 (be16 w)) i = bit w i"
    by (auto simp: of_be16_def be16_def bit_or_iff bit_push_bit_iff bit_unsigned_iff bit_drop_bit_eq
        not_less le_Suc_eq)
qed

lemma of_mem64_mem64 [simp, wire_simps]: "of_mem64 le (mem64 le w) = w"
proof -
  have "push_bit 32 (ucast (ucast (drop_bit 32 w) :: u32)) OR ucast (ucast w :: u32) = w"
    by (rule bit_word_eqI) (auto simp: bit_or_iff bit_push_bit_iff bit_unsigned_iff bit_drop_bit_eq)
  then show ?thesis by (simp add: of_mem64_def mem64_def Let_def)
qed

text \<open>Converted to network order, a field has the same bytes in memory on every host.\<close>

lemma mem32_htonl [simp, wire_simps]: "mem32 le (htonl le w) = be32 w"
  by (simp add: mem32_def htonl_def)

lemma htonl_htonl [simp, wire_simps]: "htonl le (htonl le w) = w"
  by (simp add: htonl_def)

lemma htonl_of_mem32_be32 [simp, wire_simps]: "htonl le (of_mem32 le (be32 w)) = w"
  by (metis htonl_htonl mem32_htonl of_mem32_mem32)

section \<open>Conversion and marshalling\<close>

definition htonpData :: "bool \<Rightarrow> data_pckt \<Rightarrow> data_pckt" where
  "htonpData le m = m\<lparr>d_flag := htonl le (d_flag m), d_seqno := htonl le (d_seqno m),
    d_blockno := htonl le (d_blockno m)\<rparr>"

definition ntohpData :: "bool \<Rightarrow> data_pckt \<Rightarrow> data_pckt" where
  "ntohpData le m = m\<lparr>d_flag := htonl le (d_flag m), d_seqno := htonl le (d_seqno m),
    d_blockno := htonl le (d_blockno m)\<rparr>"

definition htonpAck :: "bool \<Rightarrow> ack_pckt \<Rightarrow> ack_pckt" where
  "htonpAck le m = m\<lparr>a_flag := htonl le (a_flag m), a_ackno := htonl le (a_ackno m),
    a_blockno := htonl le (a_blockno m)\<rparr>"

definition ntohpAck :: "bool \<Rightarrow> ack_pckt \<Rightarrow> ack_pckt" where
  "ntohpAck le m = m\<lparr>a_flag := htonl le (a_flag m), a_ackno := htonl le (a_ackno m),
    a_blockno := htonl le (a_blockno m)\<rparr>"

text \<open>The memory image of the structs; \<open>pad\<close> is what lies behind the last field.\<close>

definition data_mem :: "bool \<Rightarrow> bytes \<Rightarrow> data_pckt \<Rightarrow> bytes" where
  "data_mem le pad m = mem64 le (d_tstamp m) @ mem32 le (d_flag m) @ mem32 le (d_seqno m) @
    mem32 le (d_blockno m) @ [d_start_packet m, d_num_packets m, d_packet_coeff m] @
    d_payload m @ pad"

definition data_of_mem :: "bool \<Rightarrow> bytes \<Rightarrow> data_pckt" where
  "data_of_mem le bs =
    \<lparr>d_tstamp = of_mem64 le (take 8 bs), d_flag = of_mem32 le (take 4 (drop 8 bs)),
     d_seqno = of_mem32 le (take 4 (drop 12 bs)), d_blockno = of_mem32 le (take 4 (drop 16 bs)),
     d_start_packet = bs ! 20, d_num_packets = bs ! 21, d_packet_coeff = bs ! 22,
     d_payload = take PAYLOAD_SIZE (drop 23 bs)\<rparr>"

definition ack_mem :: "bool \<Rightarrow> ack_pckt \<Rightarrow> bytes" where
  "ack_mem le m = mem64 le (a_tstamp m) @ mem32 le (a_flag m) @ mem32 le (a_ackno m) @
    mem32 le (a_blockno m) @ [a_dof_rec m]"

definition ack_of_mem :: "bool \<Rightarrow> bytes \<Rightarrow> ack_pckt" where
  "ack_of_mem le bs =
    \<lparr>a_tstamp = of_mem64 le (take 8 bs), a_flag = of_mem32 le (take 4 (drop 8 bs)),
     a_ackno = of_mem32 le (take 4 (drop 12 bs)), a_blockno = of_mem32 le (take 4 (drop 16 bs)),
     a_dof_rec = bs ! 20\<rparr>"

text \<open>
  The two senders: the bytes handed to \<open>sendto\<close>.  \<open>marshallData\<close> returns
  \<open>sizeof(Data_Pckt)\<close>, the 1468 bytes of the fields and four of padding.
\<close>

definition marshallData :: "bool \<Rightarrow> bytes \<Rightarrow> data_pckt \<Rightarrow> bytes" where
  "marshallData le pad m = data_mem le pad (htonpData le m)"

definition marshallAck :: "bool \<Rightarrow> ack_pckt \<Rightarrow> bytes" where
  "marshallAck le m = take ACK_SIZE (ack_mem le (htonpAck le m))"

definition unmarshallAck :: "bool \<Rightarrow> bytes \<Rightarrow> ack_pckt" where
  "unmarshallAck le bs = ntohpAck le (ack_of_mem le bs)"

lemma ntohp_htonp [simp]:
  "ntohpData le (htonpData le m) = m" "ntohpAck le (htonpAck le a) = a"
  by (simp_all add: ntohpData_def htonpData_def ntohpAck_def htonpAck_def)

lemma take_drop_parts:
  "length a = n \<Longrightarrow> take n (a @ b) = a" "length a = n \<Longrightarrow> drop n (a @ b) = b"
  by simp_all

lemma data_of_mem_data_mem:
  assumes "length (d_payload m) = PAYLOAD_SIZE"
  shows "data_of_mem le (data_mem le pad m) = m"
  using assms by (simp add: data_of_mem_def data_mem_def nth_append)

lemma ack_of_mem_ack_mem: "ack_of_mem le (ack_mem le m) = m"
  by (simp add: ack_of_mem_def ack_mem_def nth_append)

lemma length_ack_mem [simp]: "length (ack_mem le m) = ACK_SIZE"
  by (simp add: ack_mem_def ACK_SIZE_def)

lemma length_data_mem:
  "length (d_payload m) = PAYLOAD_SIZE \<Longrightarrow> length (data_mem le pad m) = 1468 + length pad"
  by (simp add: data_mem_def PAYLOAD_SIZE_eq)

lemma unmarshall_marshall_data:
  "length (d_payload m) = PAYLOAD_SIZE \<Longrightarrow> ntohpData le (data_of_mem le (marshallData le pad m)) = m"
  by (simp add: marshallData_def data_of_mem_data_mem htonpData_def ntohpData_def)

lemma unmarshall_marshall_ack: "unmarshallAck le (marshallAck le m) = m"
  by (simp add: unmarshallAck_def marshallAck_def ack_of_mem_ack_mem)

text \<open>
  Between hosts of different byte orders the headers agree, and only the time stamp, which
  no side converts, arrives with its bytes reversed.
\<close>

lemma marshall_ack_cross:
  "unmarshallAck le (marshallAck le' m) = m\<lparr>a_tstamp := of_mem64 le (mem64 le' (a_tstamp m))\<rparr>"
  by (simp add: unmarshallAck_def marshallAck_def ack_of_mem_def ack_mem_def ACK_SIZE_def nth_append
      htonpAck_def ntohpAck_def)

lemma marshall_data_cross:
  "length (d_payload m) = PAYLOAD_SIZE \<Longrightarrow>
    ntohpData le (data_of_mem le (marshallData le' pad m)) =
      m\<lparr>d_tstamp := of_mem64 le (mem64 le' (d_tstamp m))\<rparr>"
  by (simp add: marshallData_def data_of_mem_def data_mem_def nth_append htonpData_def ntohpData_def)

end
