(* ===== verification/FastRand.thy ===== *)
theory FastRand
  imports Prelude
begin

text \<open>
  The pseudo-random generator of \<open>src/util.c\<close> (\<open>rotl\<close>, \<open>seedfastrand\<close>, \<open>fastrand\<close>)
  and its use for coding coefficients.  Its state is the three global variables \<open>x\<close>,
  \<open>y\<close>, \<open>z\<close>.  The server sends only the seed of a coded packet; the client
  regenerates the coefficients from it, so both sides have to draw the same sequence.
\<close>

record rng =
  rng_x :: u32
  rng_y :: u32
  rng_z :: u32

definition rotl :: "u32 \<Rightarrow> nat \<Rightarrow> u32" where
  "rotl r n = push_bit n r OR drop_bit (32 - n) r"

definition seedfastrand :: "u32 \<Rightarrow> rng" where
  "seedfastrand seed =
    \<lparr>rng_x = drop_bit 16 seed + 4125832013,
     rng_y = (seed AND 0xffff) + 814584116,
     rng_z = 542\<rparr>"

definition fastrand :: "rng \<Rightarrow> rng \<times> u32" where
  "fastrand s =
    (let x = rotl (rng_x s * 255519323) 13;
         y = rotl (rng_y s * 3166389663) 17;
         z = rotl (rng_z s - rotl (rng_z s) 11) 27
     in (\<lparr>rng_x = x, rng_y = y, rng_z = z\<rparr>, x XOR y XOR z))"

text \<open>
  The loop \<open>for (i = 0; i < n; i++) coeff[i] = (uint8_t) (fastrand() % GF)\<close> that both
  sides run, with \<open>GF\<close> being 256.
\<close>

fun draw_coeffs :: "rng \<Rightarrow> nat \<Rightarrow> bytes" where
  "draw_coeffs s 0 = []"
| "draw_coeffs s (Suc n) = (let (s', r) = fastrand s in ucast (r mod 256) # draw_coeffs s' n)"

text \<open>
  The seed is \<open>(uint32_t) (msg->packet_coeff + blockno)\<close>.
\<close>

definition packet_coeffs :: "u8 \<Rightarrow> u32 \<Rightarrow> nat \<Rightarrow> bytes" where
  "packet_coeffs pc blockno n = draw_coeffs (seedfastrand (ucast pc + blockno)) n"

lemma length_draw_coeffs [simp]: "length (draw_coeffs s n) = n"
  by (induction n arbitrary: s) (auto simp: Let_def split: prod.splits)

lemma length_packet_coeffs [simp]: "length (packet_coeffs pc b n) = n"
  by (simp add: packet_coeffs_def)

lemma bit_rotl:
  "n \<le> 32 \<Longrightarrow> i < 32 \<Longrightarrow> bit (rotl r n) i = (if i < n then bit r (i + (32 - n)) else bit r (i - n))"
  by (auto simp: rotl_def bit_or_iff bit_push_bit_iff bit_drop_bit_eq impossible_bit add.commute)

text \<open>The rotation loses no information: a step of each component can be undone.\<close>

lemma rotl_inj: "n \<le> 32 \<Longrightarrow> rotl r n = rotl s n \<Longrightarrow> r = s"
proof (rule bit_word_eqI)
  fix i assume n: "n \<le> 32" and eq: "rotl r n = rotl s n" and i: "i < LENGTH(32)"
  show "bit r i = bit s i"
  proof (cases "i + n < 32")
    case True
    then show ?thesis using bit_rotl [of n "i + n" r] bit_rotl [of n "i + n" s] n eq by simp
  next
    case False
    then have "i + n - 32 < n" "i + n - 32 + (32 - n) = i" "i + n - 32 < 32" using n i by auto
    then show ?thesis
      using bit_rotl [of n "i + n - 32" r] bit_rotl [of n "i + n - 32" s] n eq by simp
  qed
qed

lemma odd_mult_inj:
  assumes inv: "(c :: u32) * d = 1" and eq: "x * c = y * c"
  shows "x = y"
proof -
  have "x * (c * d) = y * (c * d)" using eq by (simp only: mult.assoc [symmetric])
  with inv show ?thesis by simp
qed

text \<open>The two multiplicative components are permutations of their state.\<close>

lemma fastrand_components:
  "rng_x (fst (fastrand s)) = rotl (rng_x s * 255519323) 13"
  "rng_y (fst (fastrand s)) = rotl (rng_y s * 3166389663) 17"
  by (simp_all add: fastrand_def Let_def)

lemma fastrand_xy_inj:
  "rng_x (fst (fastrand s)) = rng_x (fst (fastrand t)) \<Longrightarrow> rng_x s = rng_x t"
  "rng_y (fst (fastrand s)) = rng_y (fst (fastrand t)) \<Longrightarrow> rng_y s = rng_y t"
proof -
  have one: "(255519323 :: u32) * 2340697555 = 1" "(3166389663 :: u32) * 3431634527 = 1"
    by simp_all
  show "rng_x (fst (fastrand s)) = rng_x (fst (fastrand t)) \<Longrightarrow> rng_x s = rng_x t"
    unfolding fastrand_components by (rule odd_mult_inj [OF one(1)], rule rotl_inj [of 13]) simp_all
  show "rng_y (fst (fastrand s)) = rng_y (fst (fastrand t)) \<Longrightarrow> rng_y s = rng_y t"
    unfolding fastrand_components by (rule odd_mult_inj [OF one(2)], rule rotl_inj [of 17]) simp_all
qed

section \<open>Sharing the generator\<close>

text \<open>
  The generator's state is global and its functions take no lock, while the server runs
  its coding jobs on several threads.  A schedule of calls by two threads, \<open>True\<close> for a
  call of the thread whose coefficients are watched; \<open>draws\<close> collects its coefficients.
\<close>

datatype rng_call = Seed u32 | Draw

fun rng_schedule :: "rng \<Rightarrow> (bool \<times> rng_call) list \<Rightarrow> bytes" where
  "rng_schedule s [] = []"
| "rng_schedule s ((t, Seed seed) # cs) = rng_schedule (seedfastrand seed) cs"
| "rng_schedule s ((t, Draw) # cs) =
    (let (s', r) = fastrand s in
     if t then ucast (r mod 256) # rng_schedule s' cs else rng_schedule s' cs)"

lemma rng_schedule_alone:
  "rng_schedule s (map (Pair True) (replicate n Draw)) = draw_coeffs s n"
  by (induction n arbitrary: s) (auto simp: Let_def split: prod.splits)

lemma rng_alone_coeffs:
  "rng_schedule s (map (Pair True) (Seed (ucast pc + b) # replicate n Draw)) = packet_coeffs pc b n"
  using rng_schedule_alone [of "seedfastrand (ucast pc + b)" n] by (simp add: packet_coeffs_def)

end
