(* ===== verification/LinComb.thy ===== *)
theory LinComb
  imports GField Wire FastRand
begin

text \<open>
  Linear combinations of payloads, shared by the encoder of \<open>src/srvctcp.c\<close> and the
  decoder of \<open>src/clictcp.c\<close>.  \<open>axpy\<close> is the inner loop both contain; \<open>row_sat\<close> says
  that a row of coefficients describes a payload; \<open>pkt_ok\<close> is the contract between the
  two sides: what a data packet of a block promises.  \<open>P k j\<close> is byte \<open>j\<close> of packet
  \<open>k\<close> of the block.
\<close>

section \<open>The inner loops\<close>

text \<open>\<^verbatim>\<open>for (j = 0; j < PAYLOAD_SIZE; j++) payload[j] ^= fastFFmult(content[j], logc);\<close>\<close>

definition axpy :: "bytes \<Rightarrow> u8 \<Rightarrow> bytes \<Rightarrow> bytes" where
  "axpy payload logc content = map2 (\<lambda>p w. p XOR fastFFmult w logc) payload content"

lemma length_axpy [simp]: "length (axpy ws l vs) = min (length ws) (length vs)"
  by (simp add: axpy_def)

lemma gf_axpy:
  "c \<noteq> 0 \<Longrightarrow> j < length ws \<Longrightarrow> j < length vs \<Longrightarrow>
    gf_of (axpy ws (xFFlog c) vs ! j) = gf_of (ws ! j) + gf_of c * gf_of (vs ! j)"
  by (simp add: axpy_def fastFFmult_eq gf_simps mult.commute)

section \<open>Rows and payloads\<close>

definition row_sat :: "(nat \<Rightarrow> nat \<Rightarrow> u8) \<Rightarrow> nat \<Rightarrow> nat \<Rightarrow> bytes \<Rightarrow> bytes \<Rightarrow> bool" where
  "row_sat P r n cs ws \<longleftrightarrow>
    (\<forall>j < length ws. gf_of (ws ! j) = (\<Sum>i<n. gf_of (cs ! i) * gf_of (P (r + i) j)))"

lemma row_satD:
  "row_sat P r n cs ws \<Longrightarrow> j < length ws \<Longrightarrow>
    gf_of (ws ! j) = (\<Sum>i<n. gf_of (cs ! i) * gf_of (P (r + i) j))"
  by (simp add: row_sat_def)

lemma row_sat_cong:
  "row_sat P r n cs ws \<Longrightarrow> (\<And>i. i < n \<Longrightarrow> ds ! i = cs ! i) \<Longrightarrow> row_sat P r n ds ws"
  by (simp add: row_sat_def)

text \<open>Zero coefficients at the end of the row do not count.\<close>

lemma row_sat_shrink:
  assumes "m \<le> n" "\<And>i. m \<le> i \<Longrightarrow> i < n \<Longrightarrow> cs ! i = 0"
  shows "row_sat P r n cs ws \<longleftrightarrow> row_sat P r m cs ws"
proof -
  have "(\<Sum>i<n. gf_of (cs ! i) * gf_of (P (r + i) j)) = (\<Sum>i<m. gf_of (cs ! i) * gf_of (P (r + i) j))" for j
    by (rule sum.mono_neutral_right) (use assms in \<open>auto simp: gf_simps\<close>)
  then show ?thesis by (simp add: row_sat_def)
qed

lemma row_sat_empty: "row_sat P r 0 cs ws \<longleftrightarrow> (\<forall>j < length ws. ws ! j = 0)"
  by (simp add: row_sat_def gf_simps [symmetric])

lemma row_sat_unit:
  assumes "0 < n" "cs ! 0 = 1" "\<And>i. 1 \<le> i \<Longrightarrow> i < n \<Longrightarrow> cs ! i = 0"
  shows "row_sat P r n cs ws \<longleftrightarrow> (\<forall>j < length ws. ws ! j = P r j)"
proof -
  have "row_sat P r n cs ws \<longleftrightarrow> row_sat P r 1 cs ws"
    by (rule row_sat_shrink) (use assms in auto)
  with assms(2) show ?thesis by (simp add: row_sat_def gf_simps)
qed

text \<open>Leading zeros move the row to the right.\<close>

lemma row_sat_shift:
  assumes sat: "row_sat P r n cs ws" and s: "s \<le> n" and zero: "\<And>i. i < s \<Longrightarrow> cs ! i = 0"
    and ds: "\<And>i. i < n - s \<Longrightarrow> ds ! i = cs ! (s + i)" "\<And>i. n - s \<le> i \<Longrightarrow> i < n \<Longrightarrow> ds ! i = 0"
  shows "row_sat P (r + s) n ds ws"
proof -
  have "(\<Sum>i<n. gf_of (cs ! i) * gf_of (P (r + i) j)) =
    (\<Sum>i<n. gf_of (ds ! i) * gf_of (P (r + s + i) j))" for j
  proof -
    have "(\<Sum>i<n. gf_of (cs ! i) * gf_of (P (r + i) j)) =
      (\<Sum>i\<in>{s..<n}. gf_of (cs ! i) * gf_of (P (r + i) j))"
      by (rule sum.mono_neutral_right) (use zero in \<open>auto simp: gf_simps\<close>)
    also have "\<dots> = (\<Sum>i\<in>{0..<n - s}. gf_of (cs ! (s + i)) * gf_of (P (r + (s + i)) j))"
      using sum.shift_bounds_nat_ivl [of "\<lambda>i. gf_of (cs ! i) * gf_of (P (r + i) j)" 0 s "n - s"] s
      by (simp add: add.commute add.left_commute)
    also have "\<dots> = (\<Sum>i\<in>{..<n - s}. gf_of (ds ! i) * gf_of (P (r + s + i) j))"
      by (rule sum.cong) (use ds(1) in \<open>auto simp: add.assoc\<close>)
    also have "\<dots> = (\<Sum>i<n. gf_of (ds ! i) * gf_of (P (r + s + i) j))"
      by (rule sum.mono_neutral_left) (use ds(2) in \<open>auto simp: gf_simps\<close>)
    finally show ?thesis .
  qed
  with sat show ?thesis by (simp add: row_sat_def)
qed

text \<open>Subtraction of a stored row whose leading coefficient is one.\<close>

lemma row_sat_subtract:
  assumes sat: "row_sat P r n cs ws" and row: "row_sat P r m rs vs"
    and mn: "0 < m" "m \<le> n" and piv: "cs ! 0 \<noteq> 0" "rs ! 0 = 1"
    and ds0: "ds ! 0 = 0" and ds: "\<And>i. 1 \<le> i \<Longrightarrow> i < m \<Longrightarrow> ds ! i = cs ! i XOR FFmult (rs ! i) (cs ! 0)"
    and ds': "\<And>i. m \<le> i \<Longrightarrow> i < n \<Longrightarrow> ds ! i = cs ! i"
    and len: "length vs = length ws"
  shows "row_sat P r n ds (axpy ws (xFFlog (cs ! 0)) vs)"
  unfolding row_sat_def
proof (intro allI impI)
  fix j assume "j < length (axpy ws (xFFlog (cs ! 0)) vs)"
  then have j: "j < length ws" "j < length vs" using len by simp_all
  let ?p = "gf_of (cs ! 0)" and ?G = "\<lambda>i. gf_of (P (r + i) j)"
  let ?R = "\<lambda>i. if i < m then gf_of (rs ! i) else 0"
  have G: "gf_of (ds ! i) = gf_of (cs ! i) + ?p * ?R i" if "i < n" for i
  proof (cases "i = 0")
    case True
    with piv ds0 mn show ?thesis by (simp add: gf_simps)
  next
    case False
    then show ?thesis using that ds [of i] ds' [of i] by (auto simp: gf_simps mult.commute not_less)
  qed
  have "gf_of (axpy ws (xFFlog (cs ! 0)) vs ! j) = gf_of (ws ! j) + ?p * gf_of (vs ! j)"
    using gf_axpy [OF piv(1)] j by simp
  also have "\<dots> = (\<Sum>i<n. gf_of (cs ! i) * ?G i) + ?p * (\<Sum>i<m. gf_of (rs ! i) * ?G i)"
    using row_satD [OF sat j(1)] row_satD [OF row j(2)] by simp
  also have "(\<Sum>i<m. gf_of (rs ! i) * ?G i) = (\<Sum>i<n. ?R i * ?G i)"
    by (rule sum.mono_neutral_cong_left) (use mn in auto)
  also have "(\<Sum>i<n. gf_of (cs ! i) * ?G i) + ?p * (\<Sum>i<n. ?R i * ?G i) =
    (\<Sum>i<n. gf_of (ds ! i) * ?G i)"
    unfolding sum_distrib_left sum.distrib [symmetric]
    by (rule sum.cong) (use G in \<open>auto simp: algebra_simps\<close>)
  finally show "gf_of (axpy ws (xFFlog (cs ! 0)) vs ! j) = (\<Sum>i<n. gf_of (ds ! i) * ?G i)" .
qed

text \<open>Scaling.\<close>

lemma row_sat_scale:
  assumes sat: "row_sat P r n cs ws" and c: "c \<noteq> 0"
    and ds: "\<And>i. i < n \<Longrightarrow> ds ! i = fastFFmult (cs ! i) (xFFlog c)"
  shows "row_sat P r n ds (map (\<lambda>w. fastFFmult w (xFFlog c)) ws)"
  unfolding row_sat_def
proof (intro allI impI)
  fix j assume "j < length (map (\<lambda>w. fastFFmult w (xFFlog c)) ws)"
  then have j: "j < length ws" by simp
  have "gf_of (ws ! j) * gf_of c = (\<Sum>i<n. (gf_of (cs ! i) * gf_of (P (r + i) j)) * gf_of c)"
    using row_satD [OF sat j] by (simp add: sum_distrib_right)
  also have "\<dots> = (\<Sum>i<n. gf_of (ds ! i) * gf_of (P (r + i) j))"
    by (rule sum.cong) (simp_all add: ds fastFFmult_eq c gf_simps ac_simps)
  finally show "gf_of (map (\<lambda>w. fastFFmult w (xFFlog c)) ws ! j) =
      (\<Sum>i<n. gf_of (ds ! i) * gf_of (P (r + i) j))"
    using j by (simp add: fastFFmult_eq c gf_simps)
qed

section \<open>The contract of a data packet\<close>

text \<open>
  The coefficients that the receiver derives from the header of a packet: those generated
  from the seed for a coded packet, the single 1 for an uncoded one.
\<close>

definition pkt_coeffs :: "data_pckt \<Rightarrow> bytes" where
  "pkt_coeffs m =
    (if d_flag m = flag_code CODED
     then packet_coeffs (d_packet_coeff m) (d_blockno m) (unat (d_num_packets m)) else [1])"

definition pkt_ok :: "(nat \<Rightarrow> nat \<Rightarrow> u8) \<Rightarrow> nat \<Rightarrow> data_pckt \<Rightarrow> bool" where
  "pkt_ok P L m \<longleftrightarrow> length (d_payload m) = L \<and> 0 < d_num_packets m \<and>
    unat (d_start_packet m) + unat (d_num_packets m) \<le> BLOCK_SIZE \<and>
    (d_flag m \<noteq> flag_code CODED \<longrightarrow> d_num_packets m = 1) \<and>
    row_sat P (unat (d_start_packet m)) (unat (d_num_packets m)) (pkt_coeffs m) (d_payload m)"

lemma length_pkt_coeffs: "pkt_ok P L m \<Longrightarrow> length (pkt_coeffs m) = unat (d_num_packets m)"
  by (auto simp: pkt_coeffs_def pkt_ok_def)

section \<open>The payload format\<close>

text \<open>
  A packet of the stream: two bytes of length in network order, the data, zeros.  The
  receiver copies the two bytes out, converts them with \<open>ntohs\<close> and takes that many bytes.
\<close>

definition payload_len :: "bytes \<Rightarrow> nat" where
  "payload_len ws = unat (of_be16 (take 2 ws))"

definition payload_data :: "bytes \<Rightarrow> bytes" where
  "payload_data ws = take (payload_len ws) (drop 2 ws)"

end
