(* ===== verification/Ring.thy ===== *)
theory Ring
  imports Prelude
begin

text \<open>
  The index arithmetic of the two circular buffers (\<open>src/qbuffer.c\<close>, \<open>src/fifo.c\<close>):
  the portable \<open>modulo\<close> both files define, and the window of a circular array of
  \<open>m\<close> cells that starts at an index and wraps around.
\<close>

section \<open>C remainder and the portable modulo\<close>

text \<open>C's \<open>%\<close> truncates towards zero; the result has the sign of the dividend.\<close>

definition c_rem :: "int \<Rightarrow> int \<Rightarrow> int" where
  "c_rem a b = sgn a * (\<bar>a\<bar> mod \<bar>b\<bar>)"

definition modulo :: "int \<Rightarrow> int \<Rightarrow> int" where
  "modulo n m = c_rem (c_rem n m + m) m"

lemma mod_window:
  assumes "0 < m" "- m \<le> a" "a < 2 * m"
  shows "(a :: int) mod m = (if a < 0 then a + m else if a < m then a else a - m)"
proof -
  consider "a < 0" | "0 \<le> a" "a < m" | "m \<le> a" by linarith
  then show ?thesis
  proof cases
    case 1
    then have "(a + m) mod m = a + m" using assms by (intro mod_pos_pos_trivial) auto
    with 1 show ?thesis by simp
  next
    case 2
    then show ?thesis by (simp add: mod_pos_pos_trivial)
  next
    case 3
    then have "(a - m) mod m = a - m" using assms by (intro mod_pos_pos_trivial) auto
    then have "a mod m = a - m" by simp
    with 3 assms show ?thesis by simp
  qed
qed

lemma modulo_eq_mod [ring_simps]:
  assumes "0 < m"
  shows "modulo n m = n mod m"
proof -
  have "\<bar>n\<bar> mod m < m" "0 \<le> \<bar>n\<bar> mod m"
    using assms by simp_all
  then have bounds: "- m < c_rem n m" "c_rem n m < m"
    using assms unfolding c_rem_def sgn_if by (auto simp only: abs_of_pos split: if_split)
  have "c_rem n m mod m = n mod m"
  proof (cases "n < 0")
    case True
    then show ?thesis
      using assms by (simp add: c_rem_def mod_minus_eq)
  next
    case False
    then show ?thesis using assms by (auto simp: c_rem_def sgn_if)
  qed
  moreover have "modulo n m = (c_rem n m + m) mod m"
    using bounds assms by (auto simp: modulo_def c_rem_def [of "c_rem n m + m"] sgn_if)
  ultimately show ?thesis by simp
qed

section \<open>The window of a circular array\<close>

definition ring :: "'a list \<Rightarrow> int \<Rightarrow> int \<Rightarrow> int \<Rightarrow> 'a list" where
  "ring q m start n = map (\<lambda>k. q ! nat ((start + int k) mod m)) [0..<nat n]"

lemma length_ring [simp]: "length (ring q m start n) = nat n"
  by (simp add: ring_def)

lemma ring_0 [simp]: "ring q m start 0 = []"
  by (simp add: ring_def)

lemma nth_ring: "k < nat n \<Longrightarrow> ring q m start n ! k = q ! nat ((start + int k) mod m)"
  by (simp add: ring_def)

lemma ring_start_mod [ring_simps]: "ring q m (start mod m) n = ring q m start n"
  by (simp add: ring_def mod_add_left_eq)

lemma ring_split:
  "0 \<le> a \<Longrightarrow> 0 \<le> b \<Longrightarrow> ring q m start (a + b) = ring q m start a @ ring q m (start + a) b"
  by (rule nth_equalityI) (auto simp: nth_ring nth_append algebra_simps of_nat_diff)

lemma ring_snoc:
  "0 \<le> n \<Longrightarrow> ring q m start (n + 1) = ring q m start n @ [q ! nat ((start + n) mod m)]"
  by (simp add: ring_split) (simp add: ring_def)

lemma ring_cons:
  "0 \<le> n \<Longrightarrow> ring q m start (n + 1) = q ! nat (start mod m) # ring q m (start + 1) n"
  using ring_split [of 1 n q m start] by (simp add: add.commute) (simp add: ring_def)

lemma ring_take: "0 \<le> k \<Longrightarrow> k \<le> n \<Longrightarrow> take (nat k) (ring q m start n) = ring q m start k"
  using ring_split [of k "n - k" q m start] by simp

lemma ring_drop: "0 \<le> k \<Longrightarrow> k \<le> n \<Longrightarrow> drop (nat k) (ring q m start n) = ring q m (start + k) (n - k)"
  using ring_split [of k "n - k" q m start] by simp

lemma ring_cong:
  assumes "\<And>k. k < nat n \<Longrightarrow> q ! nat ((start + int k) mod m) = q' ! nat ((start + int k) mod m)"
  shows "ring q m start n = ring q' m start n"
  using assms by (simp add: ring_def)

lemma mod_dist:
  "0 < m \<Longrightarrow> 0 \<le> (d :: int) \<Longrightarrow> d < m \<Longrightarrow> (a + d) mod m = (a + e) mod m \<longleftrightarrow> d = e mod m"
proof -
  assume "0 < m" "0 \<le> d" "d < m"
  then have "(a + d) mod m = (a + e) mod m \<longleftrightarrow> d mod m = e mod m"
    by (metis (no_types, opaque_lifting) add_diff_cancel_left' mod_add_right_eq mod_diff_left_eq)
  with \<open>0 \<le> d\<close> \<open>d < m\<close> show ?thesis by simp
qed

text \<open>Writing one cell outside the window leaves the window unchanged.\<close>

lemma ring_update_outside:
  assumes "0 < m" "length q = nat m" "0 \<le> n" "n \<le> d" "d < m"
  shows "ring (q[nat ((start + d) mod m) := x]) m start n = ring q m start n"
proof (rule ring_cong)
  fix k assume k: "k < nat n"
  then have "(start + d) mod m \<noteq> (start + int k) mod m"
    using assms mod_dist [of m d start "int k"] by auto
  then have "nat ((start + d) mod m) \<noteq> nat ((start + int k) mod m)"
    using assms(1) by (metis nat_0_le pos_mod_sign)
  then show "q[nat ((start + d) mod m) := x] ! nat ((start + int k) mod m) =
      q ! nat ((start + int k) mod m)" by simp
qed

lemma ring_index_bound: "0 < m \<Longrightarrow> nat (i mod m) < nat m"
  by (simp add: nat_less_iff)

section \<open>Writing a run of cells that may wrap\<close>

text \<open>
  The two copies of \<open>fifo_push\<close>: one when the run fits before the end of the array, a
  tail part and a part at the start of the array otherwise.
\<close>

definition ring_write :: "'a list \<Rightarrow> int \<Rightarrow> int \<Rightarrow> 'a list \<Rightarrow> 'a list" where
  "ring_write q m pos xs =
    (let to_end = m - pos in
     if int (length xs) \<le> to_end then memcpy_at q (nat pos) xs
     else memcpy_at (memcpy_at q (nat pos) (take (nat to_end) xs)) 0 (drop (nat to_end) xs))"

lemma length_ring_write [simp]:
  assumes "length q = nat m" "0 \<le> pos" "pos < m" "int (length xs) \<le> m"
  shows "length (ring_write q m pos xs) = nat m"
  using assms by (auto simp: ring_write_def Let_def)

lemma nth_ring_write_nat:
  assumes "length q = M" "P < M" "length xs \<le> M" "j < M"
  defines "d \<equiv> (if P \<le> j then j - P else j + M - P)"
  shows "ring_write q (int M) (int P) xs ! j = (if d < length xs then xs ! d else q ! j)"
proof (cases "length xs \<le> M - P")
  case True
  then have "int (length xs) \<le> int M - int P" using assms by auto
  then show ?thesis
    using assms True by (auto simp: ring_write_def nth_memcpy_at d_def)
next
  case False
  let ?e = "M - P"
  have e: "?e < length xs" "P + ?e = M" "nat (int M - int P) = ?e" using False assms by auto
  have wr: "ring_write q (int M) (int P) xs =
      memcpy_at (memcpy_at q P (take ?e xs)) 0 (drop ?e xs)"
    using False e assms by (auto simp: ring_write_def Let_def)
  have len: "length (memcpy_at q P (take ?e xs)) = M"
    using assms e by simp
  show ?thesis
  proof (cases "j < length xs - ?e")
    case True
    then have "j < P" using assms e by linarith
    then show ?thesis
      using True e assms len by (auto simp: wr nth_memcpy_at d_def add.commute)
  next
    case False
    then have "ring_write q (int M) (int P) xs ! j = memcpy_at q P (take ?e xs) ! j"
      using assms len e by (simp add: wr nth_memcpy_at)
    then show ?thesis
      using False e assms by (auto simp: nth_memcpy_at d_def)
  qed
qed

lemma nth_ring_write:
  assumes "length q = nat m" "0 \<le> pos" "pos < m" "int (length xs) \<le> m" "0 \<le> i" "i < m"
  shows "ring_write q m pos xs ! nat i =
    (if (i - pos) mod m < int (length xs) then xs ! nat ((i - pos) mod m) else q ! nat i)"
proof -
  define M P j where "M = nat m" and "P = nat pos" and "j = nat i"
  then have eq: "m = int M" "pos = int P" "i = int j" using assms by auto
  have d: "(i - pos) mod m = int (if P \<le> j then j - P else j + M - P)"
    using assms eq by (subst mod_window) auto
  show ?thesis
    using assms nth_ring_write_nat [of q M P xs j] unfolding d by (simp add: eq)
qed

lemma ring_ring_write:
  assumes "length q = nat m" "0 < m" "0 \<le> n" "n + int (length xs) \<le> m"
  shows "ring (ring_write q m ((start + n) mod m) xs) m start (n + int (length xs)) =
    ring q m start n @ xs"
proof (rule list_eq_nthI)
  show "length (ring (ring_write q m ((start + n) mod m) xs) m start (n + int (length xs))) =
      nat n + length xs"
    using assms by (simp add: nat_add_distrib)
  show "length (ring q m start n @ xs) = nat n + length xs" by simp
  fix k assume k: "k < nat n + length xs"
  let ?i = "(start + int k) mod m"
  have "(?i - (start + n) mod m) mod m = (int k - n) mod m"
    by (simp add: mod_diff_eq)
  moreover have "(int k - n) mod m = (if n \<le> int k then int k - n else int k - n + m)"
    using assms k by (subst mod_window) auto
  ultimately have "ring_write q m ((start + n) mod m) xs ! nat ?i =
      (if k < nat n then q ! nat ?i else xs ! (k - nat n))"
    using assms k nth_ring_write [of q m "(start + n) mod m" xs ?i]
    by (auto simp: nat_diff_distrib)
  then show "ring (ring_write q m ((start + n) mod m) xs) m start (n + int (length xs)) ! k =
      (ring q m start n @ xs) ! k"
    using assms k by (simp add: nth_ring nth_append nat_add_distrib)
qed

section \<open>Reading a run of cells that may wrap\<close>

definition ring_read :: "'a list \<Rightarrow> int \<Rightarrow> int \<Rightarrow> int \<Rightarrow> 'a list" where
  "ring_read q m pos n =
    (let to_end = m - pos in
     if n \<le> to_end then take (nat n) (drop (nat pos) q)
     else take (nat to_end) (drop (nat pos) q) @ take (nat (n - to_end)) q)"

lemma ring_read_eq_ring:
  assumes "length q = nat m" "0 \<le> pos" "pos < m" "0 \<le> n" "n \<le> m"
  shows "ring_read q m pos n = ring q m pos n"
proof -
  define M P N where "M = nat m" and "P = nat pos" and "N = nat n"
  then have eq: "m = int M" "pos = int P" "n = int N" using assms by auto
  have bounds: "length q = M" "P < M" "N \<le> M" using assms eq by auto
  have idx: "nat ((pos + int k) mod m) = (if P + k < M then P + k else P + k - M)"
    if "k < N" for k
    using bounds eq that by (subst mod_window) auto
  have rd: "ring_read q m pos n =
      (if N \<le> M - P then take N (drop P q)
       else take (M - P) (drop P q) @ take (N - (M - P)) q)"
    using bounds eq by (auto simp: ring_read_def Let_def nat_diff_distrib)
  show ?thesis
    by (rule list_eq_nthI [where n = N])
      (unfold rd, use bounds eq(3) idx in \<open>auto simp: nth_ring nth_append add.commute\<close>)
qed

end
