(* ===== verification/Qbuffer.thy ===== *)
theory Qbuffer
  imports Ring
begin

text \<open>
  The circular queue of pointers of \<open>src/qbuffer.c\<close> (\<open>q_init\<close>, \<open>q_push_back\<close>,
  \<open>q_push_front\<close>, \<open>q_pop\<close>, \<open>q_free\<close>).  The cells hold optional entries (\<open>None\<close> is
  NULL).  Each operation runs under the queue's mutex and is one step; \<open>None\<close> as a result
  is a caller that waits on a condition variable.  \<open>tail\<close> is the index before the first
  entry, \<open>head\<close> the index of the last one.
\<close>

section \<open>State and operations\<close>

record 'a qbuffer =
  q_max_size :: int
  q_head :: int
  q_tail :: int
  q_cells :: "'a option list"
  q_size :: int

definition q_init :: "nat \<Rightarrow> 'a qbuffer" where
  "q_init max_size =
    \<lparr>q_max_size = int max_size, q_head = 0, q_tail = 0,
     q_cells = replicate max_size None, q_size = 0\<rparr>"

definition q_push_back :: "'a qbuffer \<Rightarrow> 'a \<Rightarrow> 'a qbuffer option" where
  "q_push_back buff entry =
    (if q_size buff = q_max_size buff then None
     else
       let head = modulo (q_head buff + 1) (q_max_size buff)
       in Some (buff\<lparr>q_head := head, q_size := q_size buff + 1,
                     q_cells := (q_cells buff)[nat head := Some entry]\<rparr>))"

definition q_push_front :: "'a qbuffer \<Rightarrow> 'a \<Rightarrow> 'a qbuffer option" where
  "q_push_front buff entry =
    (if q_size buff = q_max_size buff then None
     else Some (buff\<lparr>q_cells := (q_cells buff)[nat (q_tail buff) := Some entry],
                     q_tail := modulo (q_tail buff - 1) (q_max_size buff),
                     q_size := q_size buff + 1\<rparr>))"

definition q_pop :: "'a qbuffer \<Rightarrow> ('a qbuffer \<times> 'a option) option" where
  "q_pop buff =
    (if q_size buff = 0 then None
     else
       let tail = modulo (q_tail buff + 1) (q_max_size buff)
       in Some (buff\<lparr>q_tail := tail, q_size := q_size buff - 1\<rparr>, q_cells buff ! nat tail))"

text \<open>
  \<open>q_free\<close> hands the cells from \<open>head\<close> down to \<open>tail + 1\<close> to \<open>free_handler\<close>: the list
  of the handler's arguments is returned in the order of the calls.
\<close>

fun q_free_loop :: "int list \<Rightarrow> int \<Rightarrow> 'a option list \<Rightarrow> 'a option list \<times> 'a option list" where
  "q_free_loop [] max_size cells = (cells, [])"
| "q_free_loop (i # is) max_size cells =
    (let j = nat (modulo i max_size);
         (cells', freed) = q_free_loop is max_size (cells[j := None])
     in (cells', cells ! j # freed))"

definition q_free :: "'a qbuffer \<Rightarrow> 'a qbuffer \<times> 'a option list" where
  "q_free buff =
    (let (cells, freed) = q_free_loop (rev [q_tail buff + 1..q_head buff]) (q_max_size buff) (q_cells buff)
     in (buff\<lparr>q_cells := cells, q_head := 0, q_tail := 0, q_size := 0\<rparr>, freed))"

section \<open>Invariant and abstraction\<close>

definition q_ok :: "'a qbuffer \<Rightarrow> bool" where
  "q_ok b \<longleftrightarrow> 0 < q_max_size b \<and> length (q_cells b) = nat (q_max_size b) \<and>
    0 \<le> q_tail b \<and> q_tail b < q_max_size b \<and> 0 \<le> q_size b \<and> q_size b \<le> q_max_size b \<and>
    q_head b = (q_tail b + q_size b) mod q_max_size b"

definition q_cells_list :: "'a qbuffer \<Rightarrow> 'a option list" where
  "q_cells_list b = ring (q_cells b) (q_max_size b) (q_tail b + 1) (q_size b)"

text \<open>The queue represents \<open>xs\<close>, first entry first.\<close>

definition q_holds :: "'a qbuffer \<Rightarrow> 'a list \<Rightarrow> bool" where
  "q_holds b xs \<longleftrightarrow> q_ok b \<and> q_cells_list b = map Some xs"

lemma q_holds_ok: "q_holds b xs \<Longrightarrow> q_ok b"
  by (simp add: q_holds_def)

lemma q_holds_size: "q_holds b xs \<Longrightarrow> q_size b = int (length xs)"
proof -
  assume "q_holds b xs"
  then have "length (q_cells_list b) = length xs" and "0 \<le> q_size b"
    by (simp_all add: q_holds_def q_ok_def)
  then show ?thesis by (simp add: q_cells_list_def)
qed

lemma q_holds_unique: "q_holds b xs \<Longrightarrow> q_holds b ys \<Longrightarrow> xs = ys"
  by (auto simp: q_holds_def dest!: map_injective)

lemma q_init_holds: "0 < n \<Longrightarrow> q_holds (q_init n) []"
  by (simp add: q_holds_def q_ok_def q_init_def q_cells_list_def)

lemma q_push_back_holds:
  assumes h: "q_holds b xs" and res: "q_push_back b x = Some b'"
  shows "q_holds b' (xs @ [x])"
proof -
  have ok: "q_ok b" by (rule q_holds_ok [OF h])
  let ?m = "q_max_size b"
  define i where "i = nat ((q_tail b + 1 + q_size b) mod ?m)"
  have m: "0 < ?m" "q_size b < ?m" "0 \<le> q_size b"
    using ok res by (auto simp: q_ok_def q_push_back_def split: if_splits)
  have hd: "(q_head b + 1) mod ?m = (q_tail b + 1 + q_size b) mod ?m"
    using ok by (simp add: q_ok_def mod_simps ac_simps)
  have b': "b' = b\<lparr>q_head := (q_tail b + 1 + q_size b) mod ?m, q_size := q_size b + 1,
      q_cells := (q_cells b)[i := Some x]\<rparr>"
    using res m by (simp add: q_push_back_def Let_def ring_simps hd i_def split: if_splits)
  have i: "i < length (q_cells b)"
    using ok m by (simp add: i_def q_ok_def ring_index_bound)
  have win: "ring ((q_cells b)[i := Some x]) ?m (q_tail b + 1) (q_size b) = q_cells_list b"
    using ok m ring_update_outside [of ?m "q_cells b" "q_size b" "q_size b" "q_tail b + 1" "Some x"]
    by (simp add: q_cells_list_def i_def q_ok_def)
  have "q_cells_list b' = q_cells_list b @ [Some x]"
    using m i win by (simp add: b' q_cells_list_def ring_snoc flip: i_def)
  moreover have "q_ok b'"
    using ok m by (auto simp: b' q_ok_def algebra_simps)
  ultimately show ?thesis using h by (simp add: q_holds_def)
qed

lemma q_push_front_holds:
  assumes h: "q_holds b xs" and res: "q_push_front b x = Some b'"
  shows "q_holds b' (x # xs)"
proof -
  have ok: "q_ok b" by (rule q_holds_ok [OF h])
  let ?m = "q_max_size b" and ?i = "nat (q_tail b)"
  have m: "0 < ?m" "q_size b < ?m" "0 \<le> q_size b" "0 \<le> q_tail b" "q_tail b < ?m"
    using ok res by (auto simp: q_ok_def q_push_front_def split: if_splits)
  have b': "b' = b\<lparr>q_cells := (q_cells b)[?i := Some x], q_tail := (q_tail b - 1) mod ?m,
      q_size := q_size b + 1\<rparr>"
    using res m by (simp add: q_push_front_def ring_simps split: if_splits)
  have last: "(q_tail b + 1 + (?m - 1)) mod ?m = q_tail b"
    using m by (simp add: mod_pos_pos_trivial)
  have win: "ring ((q_cells b)[?i := Some x]) ?m (q_tail b + 1) (q_size b) = q_cells_list b"
    using ok m last ring_update_outside [of ?m "q_cells b" "q_size b" "?m - 1" "q_tail b + 1" "Some x"]
    by (simp add: q_cells_list_def q_ok_def)
  have start: "ring q ?m ((q_tail b - 1) mod ?m + 1) n = ring q ?m (q_tail b) n" for q :: "'a option list" and n
    using ring_start_mod [of q ?m "(q_tail b - 1) mod ?m + 1" n] ring_start_mod [of q ?m "q_tail b" n]
    by (simp add: mod_add_left_eq)
  have "q_cells_list b' = Some x # q_cells_list b"
    using m ok win by (simp add: b' q_cells_list_def start ring_cons q_ok_def mod_pos_pos_trivial)
  moreover have "((q_tail b - 1) mod ?m + (q_size b + 1)) mod ?m = (q_tail b + q_size b) mod ?m"
    by (simp add: mod_simps)
  then have "q_ok b'"
    using ok m by (auto simp: b' q_ok_def)
  ultimately show ?thesis using h by (simp add: q_holds_def)
qed

lemma q_pop_holds:
  assumes h: "q_holds b xs" and res: "q_pop b = Some (b', e)"
  shows "xs \<noteq> []" and "e = Some (hd xs)" and "q_holds b' (tl xs)"
proof -
  have ok: "q_ok b" by (rule q_holds_ok [OF h])
  let ?m = "q_max_size b"
  have m: "0 < ?m" "0 < q_size b" "0 \<le> q_tail b"
    using ok res by (auto simp: q_ok_def q_pop_def split: if_splits)
  have b': "b' = b\<lparr>q_tail := (q_tail b + 1) mod ?m, q_size := q_size b - 1\<rparr>"
    and e: "e = q_cells b ! nat ((q_tail b + 1) mod ?m)"
    using res m by (auto simp: q_pop_def Let_def ring_simps split: if_splits)
  have "q_cells_list b = e # q_cells_list b'"
    using m ring_cons [of "q_size b - 1" "q_cells b" ?m "q_tail b + 1"]
      ring_start_mod [of "q_cells b" ?m "(q_tail b + 1) mod ?m + 1" "q_size b - 1"]
      ring_start_mod [of "q_cells b" ?m "q_tail b + 1 + 1" "q_size b - 1"]
    by (simp add: q_cells_list_def b' e mod_add_left_eq)
  moreover have "((q_tail b + 1) mod ?m + (q_size b - 1)) mod ?m = (q_tail b + q_size b) mod ?m"
    by (simp add: mod_simps)
  then have "q_ok b'" using ok m by (auto simp: b' q_ok_def)
  ultimately show "xs \<noteq> []" and "e = Some (hd xs)" and "q_holds b' (tl xs)"
    using h by (auto simp: q_holds_def)
qed

lemma q_push_back_None: "q_push_back b x = None \<longleftrightarrow> q_size b = q_max_size b"
  by (simp add: q_push_back_def Let_def)

lemma q_push_front_None: "q_push_front b x = None \<longleftrightarrow> q_size b = q_max_size b"
  by (simp add: q_push_front_def)

lemma q_pop_None: "q_pop b = None \<longleftrightarrow> q_size b = 0"
  by (simp add: q_pop_def Let_def)

lemma q_max_size_frame:
  "q_push_back b x = Some b' \<Longrightarrow> q_max_size b' = q_max_size b"
  "q_push_front b x = Some b' \<Longrightarrow> q_max_size b' = q_max_size b"
  "q_pop b = Some (b', e) \<Longrightarrow> q_max_size b' = q_max_size b"
  by (auto simp: q_push_back_def q_push_front_def q_pop_def Let_def split: if_splits)

section \<open>Freeing the queue\<close>

lemma q_free_loop_freed:
  "distinct (map (\<lambda>i. nat (modulo i m)) is) \<Longrightarrow>
    snd (q_free_loop is m cells) = map (\<lambda>i. cells ! nat (modulo i m)) is"
proof (induction "is" arbitrary: cells)
  case Nil
  then show ?case by simp
next
  case (Cons i "is")
  have "nat (modulo k m) \<noteq> nat (modulo i m)" if "k \<in> set is" for k
    using Cons.prems that by (auto simp: image_iff)
  then have "map (\<lambda>k. cells[nat (modulo i m) := None] ! nat (modulo k m)) is =
      map (\<lambda>k. cells ! nat (modulo k m)) is" by (intro map_cong refl nth_list_update_neq) metis
  with Cons show ?case by (simp add: case_prod_unfold Let_def)
qed

lemma length_q_free_loop: "length (fst (q_free_loop is m cells)) = length cells"
  by (induction "is" m cells rule: q_free_loop.induct) (auto simp: case_prod_unfold Let_def)

lemma q_free_reset: "q_ok b \<Longrightarrow> q_holds (fst (q_free b)) []"
  by (auto simp: q_free_def case_prod_unfold Let_def q_holds_def q_ok_def q_cells_list_def length_q_free_loop)

text \<open>While the entries do not wrap, every entry is freed, last one first.\<close>

lemma q_free_no_wrap:
  assumes h: "q_holds b xs" and nw: "q_tail b + q_size b < q_max_size b"
  shows "snd (q_free b) = map Some (rev xs)"
proof -
  have ok: "q_ok b" by (rule q_holds_ok [OF h])
  let ?m = "q_max_size b"
  have head: "q_head b = q_tail b + q_size b"
    using ok nw by (simp add: q_ok_def mod_pos_pos_trivial)
  have idx: "nat (modulo i ?m) = nat i" if "i \<in> set [q_tail b + 1..q_head b]" for i
    using that ok nw head by (simp add: ring_simps q_ok_def mod_pos_pos_trivial)
  have "distinct (map nat [q_tail b + 1..q_head b])"
    using ok by (auto simp: distinct_map q_ok_def inj_on_def)
  moreover have "map (\<lambda>i. nat (modulo i ?m)) [q_tail b + 1..q_head b] = map nat [q_tail b + 1..q_head b]"
    using idx by (intro map_cong) simp_all
  ultimately have "distinct (map (\<lambda>i. nat (modulo i ?m)) (rev [q_tail b + 1..q_head b]))"
    by (simp only: rev_map [symmetric] distinct_rev)
  from q_free_loop_freed [OF this, of "q_cells b"]
  have "snd (q_free b) = map (\<lambda>i. q_cells b ! nat (modulo i ?m)) (rev [q_tail b + 1..q_head b])"
    by (simp add: q_free_def case_prod_unfold)
  also have "\<dots> = rev (map (\<lambda>i. q_cells b ! nat i) [q_tail b + 1..q_head b])"
    using idx by (simp add: rev_map)
  also have "map (\<lambda>i. q_cells b ! nat i) [q_tail b + 1..q_head b] = q_cells_list b"
    using ok nw head
    by (auto intro!: nth_equalityI simp: q_cells_list_def nth_ring q_ok_def mod_pos_pos_trivial)
  finally show ?thesis using h by (simp add: q_holds_def rev_map)
qed

text \<open>Once the entries wrap, or the queue is full, none of them is freed.\<close>

lemma q_free_wrapped:
  assumes "q_ok b" and "q_max_size b \<le> q_tail b + q_size b"
  shows "snd (q_free b) = []"
proof -
  have "q_head b = q_tail b + q_size b - q_max_size b"
    using assms mod_window [of "q_max_size b" "q_tail b + q_size b"] by (simp add: q_ok_def)
  then have "[q_tail b + 1..q_head b] = []"
    using assms by (simp add: q_ok_def)
  then show ?thesis by (simp add: q_free_def)
qed

section \<open>Interface: a bounded double-ended queue\<close>

locale deque =
  fixes holds :: "'q \<Rightarrow> 'a list \<Rightarrow> bool" and room :: "'q \<Rightarrow> int"
    and push_back :: "'q \<Rightarrow> 'a \<Rightarrow> 'q option" and push_front :: "'q \<Rightarrow> 'a \<Rightarrow> 'q option"
    and pop :: "'q \<Rightarrow> ('q \<times> 'a option) option"
  assumes back_holds: "holds q xs \<Longrightarrow> push_back q x = Some q' \<Longrightarrow> holds q' (xs @ [x])"
    and front_holds: "holds q xs \<Longrightarrow> push_front q x = Some q' \<Longrightarrow> holds q' (x # xs)"
    and pop_holds: "holds q xs \<Longrightarrow> pop q = Some (q', e) \<Longrightarrow> xs \<noteq> [] \<and> e = Some (hd xs) \<and> holds q' (tl xs)"
    and back_blocks: "holds q xs \<Longrightarrow> push_back q x = None \<longleftrightarrow> int (length xs) = room q"
    and front_blocks: "holds q xs \<Longrightarrow> push_front q x = None \<longleftrightarrow> int (length xs) = room q"
    and pop_blocks: "holds q xs \<Longrightarrow> pop q = None \<longleftrightarrow> xs = []"
begin

lemma pop_front:
  assumes "holds q xs" "push_front q x = Some q'"
  shows "\<exists>q''. pop q' = Some (q'', Some x) \<and> holds q'' xs"
proof -
  have h: "holds q' (x # xs)" using assms by (rule front_holds)
  then obtain q'' e where "pop q' = Some (q'', e)" using pop_blocks by fastforce
  with pop_holds [OF h] show ?thesis by auto
qed

lemma pop_Cons:
  assumes "holds q (x # xs)"
  shows "\<exists>q'. pop q = Some (q', Some x) \<and> holds q' xs"
proof -
  obtain q' e where "pop q = Some (q', e)" using pop_blocks [OF assms] by fastforce
  with pop_holds [OF assms] show ?thesis by auto
qed

lemma pop_SomeE:
  assumes "holds q xs" "pop q = Some (q', e)"
  obtains x ys where "xs = x # ys" "e = Some x" "holds q' ys"
  using pop_holds [OF assms] that by (cases xs) auto

end

interpretation dq: deque q_holds q_max_size q_push_back q_push_front q_pop
proof
  fix q :: "'a qbuffer" and xs x q'
  assume h: "q_holds q xs"
  show "q_push_back q x = Some q' \<Longrightarrow> q_holds q' (xs @ [x])" using h by (rule q_push_back_holds)
  show "q_push_front q x = Some q' \<Longrightarrow> q_holds q' (x # xs)" using h by (rule q_push_front_holds)
  show "q_push_back q x = None \<longleftrightarrow> int (length xs) = q_max_size q"
    by (simp add: q_push_back_None q_holds_size [OF h])
  show "q_push_front q x = None \<longleftrightarrow> int (length xs) = q_max_size q"
    by (simp add: q_push_front_None q_holds_size [OF h])
  show "q_pop q = None \<longleftrightarrow> xs = []"
    by (simp add: q_pop_None q_holds_size [OF h])
next
  fix q :: "'a qbuffer" and xs q' e
  assume "q_holds q xs" "q_pop q = Some (q', e)"
  then show "xs \<noteq> [] \<and> e = Some (hd xs) \<and> q_holds q' (tl xs)" using q_pop_holds by blast
qed

end
