(* ===== verification/SkbPool.thy ===== *)
theory SkbPool
  imports Prelude
begin

text \<open>
  The pool of packet buffers of \<open>src/util.c\<close> (\<open>alloc_skb\<close>, \<open>free_skb\<close>): a free list
  linked through the buffers themselves, with a \<open>used\<close> mark in each.  Buffers are
  addresses; the store keeps the \<open>next\<close> and \<open>used\<close> fields of each.  \<open>malloc\<close> is outside
  the program: its result is an argument (\<open>None\<close> is failure), and what the pool relies on
  is that it returns an address not in use.  Each operation holds the pool's mutex.
\<close>

type_synonym addr = nat

record skb_pool =
  p_first :: "addr option"
  p_num :: int
  p_next :: "addr \<Rightarrow> addr option"
  p_used :: "addr \<Rightarrow> bool"
  p_chunks :: "addr list"

definition skb_pool_init :: skb_pool where
  "skb_pool_init = \<lparr>p_first = None, p_num = 0, p_next = (\<lambda>_. None), p_used = (\<lambda>_. False), p_chunks = []\<rparr>"

definition take_chunk :: "skb_pool \<Rightarrow> addr \<Rightarrow> skb_pool" where
  "take_chunk p a = p\<lparr>p_next := (p_next p)(a := None), p_used := (p_used p)(a := True)\<rparr>"

definition alloc_skb :: "addr option \<Rightarrow> skb_pool \<Rightarrow> skb_pool \<times> addr option" where
  "alloc_skb malloc p =
    (case p_first p of
       None \<Rightarrow>
         (let p = p\<lparr>p_num := p_num p + 1\<rparr> in
          case malloc of
            None \<Rightarrow> (p, None)
          | Some a \<Rightarrow> (take_chunk (p\<lparr>p_chunks := a # p_chunks p\<rparr>) a, Some a))
     | Some a \<Rightarrow> (take_chunk (p\<lparr>p_first := p_next p a\<rparr>) a, Some a))"

definition free_skb :: "addr \<Rightarrow> skb_pool \<Rightarrow> skb_pool" where
  "free_skb a p =
    (if \<not> p_used p a then p
     else
       let p' = (if p_first p = None then p\<lparr>p_first := Some a, p_next := (p_next p)(a := None)\<rparr>
                 else p\<lparr>p_next := (p_next p)(a := p_first p), p_first := Some a\<rparr>)
       in p'\<lparr>p_used := (p_used p')(a := False)\<rparr>)"

section \<open>The free list\<close>

fun linked :: "(addr \<Rightarrow> addr option) \<Rightarrow> addr option \<Rightarrow> addr list \<Rightarrow> bool" where
  "linked nxt start [] \<longleftrightarrow> start = None"
| "linked nxt start (a # as) \<longleftrightarrow> start = Some a \<and> linked nxt (nxt a) as"

lemma linked_frame: "a \<notin> set as \<Longrightarrow> linked (nxt(a := x)) start as = linked nxt start as"
  by (induction as arbitrary: start) auto

lemma linked_unique: "linked nxt start as \<Longrightarrow> linked nxt start bs \<Longrightarrow> as = bs"
proof (induction as arbitrary: start bs)
  case Nil
  then show ?case by (cases bs) auto
next
  case (Cons a as)
  then show ?case by (cases bs) auto
qed

text \<open>
  The free list holds the allocated buffers that are not marked used, each once.
\<close>

definition pool_ok :: "skb_pool \<Rightarrow> addr list \<Rightarrow> bool" where
  "pool_ok p fl \<longleftrightarrow> linked (p_next p) (p_first p) fl \<and> distinct fl \<and> distinct (p_chunks p) \<and>
    set fl \<subseteq> set (p_chunks p) \<and> (\<forall>a. p_used p a \<longleftrightarrow> a \<in> set (p_chunks p) \<and> a \<notin> set fl)"

definition fresh :: "skb_pool \<Rightarrow> addr option \<Rightarrow> bool" where
  "fresh p m = (case m of None \<Rightarrow> True | Some a \<Rightarrow> a \<notin> set (p_chunks p))"

lemma pool_init_ok: "pool_ok skb_pool_init []"
  by (simp add: pool_ok_def skb_pool_init_def)

lemma pool_ok_Nil: "pool_ok p [] \<Longrightarrow> p_first p = None"
  by (simp add: pool_ok_def)

lemma pool_ok_Cons: "pool_ok p (b # fl) \<Longrightarrow> p_first p = Some b"
  by (simp add: pool_ok_def)

lemma alloc_skb_ok:
  assumes ok: "pool_ok p fl" and fr: "fresh p m" and res: "alloc_skb m p = (p', Some a)"
  shows "pool_ok p' (tl fl) \<and> \<not> p_used p a \<and> a \<notin> set (tl fl) \<and> p_used p' = (p_used p)(a := True)"
proof (cases fl)
  case Nil
  with ok have first: "p_first p = None" by (simp add: pool_ok_Nil)
  from res first have "m = Some a"
    and p': "p' = take_chunk (p\<lparr>p_num := p_num p + 1, p_chunks := a # p_chunks p\<rparr>) a"
    by (auto simp: alloc_skb_def Let_def split: option.splits)
  with fr have "a \<notin> set (p_chunks p)" by (simp add: fresh_def)
  with ok Nil show ?thesis by (simp add: p' pool_ok_def take_chunk_def)
next
  case (Cons b rest)
  with ok have first: "p_first p = Some b" by (simp add: pool_ok_Cons)
  from res first have "a = b" and p': "p' = take_chunk (p\<lparr>p_first := p_next p b\<rparr>) b"
    by (auto simp: alloc_skb_def)
  with ok Cons show ?thesis by (auto simp: pool_ok_def take_chunk_def linked_frame)
qed

lemma alloc_skb_fail:
  assumes ok: "pool_ok p fl" and res: "alloc_skb m p = (p', None)"
  shows "fl = [] \<and> m = None \<and> pool_ok p' []"
proof (cases fl)
  case Nil
  with ok have "p_first p = None" by (simp add: pool_ok_Nil)
  with res have "m = None" "p' = p\<lparr>p_num := p_num p + 1\<rparr>"
    by (auto simp: alloc_skb_def Let_def split: option.splits)
  with ok Nil show ?thesis by (simp add: pool_ok_def)
next
  case (Cons b rest)
  with ok have "p_first p = Some b" by (simp add: pool_ok_Cons)
  with res show ?thesis by (simp add: alloc_skb_def)
qed

lemma alloc_skb_recycles: "pool_ok p (a # fl) \<Longrightarrow> snd (alloc_skb m p) = Some a"
  by (auto simp: pool_ok_def alloc_skb_def)

lemma alloc_skb_succeeds: "m \<noteq> None \<Longrightarrow> \<exists>p' a. alloc_skb m p = (p', Some a)"
  by (cases "p_first p") (auto simp: alloc_skb_def Let_def)

lemma free_skb_used:
  assumes ok: "pool_ok p fl" and used: "p_used p a"
  shows "pool_ok (free_skb a p) (a # fl)" and "p_used (free_skb a p) = (p_used p)(a := False)"
proof -
  have "a \<notin> set fl" "a \<in> set (p_chunks p)" using assms by (auto simp: pool_ok_def)
  moreover have "p_first p = None \<Longrightarrow> fl = []" using ok by (cases fl) (auto simp: pool_ok_def)
  ultimately show "pool_ok (free_skb a p) (a # fl)"
    using assms by (auto simp: pool_ok_def free_skb_def Let_def linked_frame)
  show "p_used (free_skb a p) = (p_used p)(a := False)"
    using used by (simp add: free_skb_def Let_def)
qed

lemma free_skb_again [simp]: "\<not> p_used p a \<Longrightarrow> free_skb a p = p"
  by (simp add: free_skb_def)

lemma free_skb_ok: "pool_ok p fl \<Longrightarrow> \<exists>fl'. pool_ok (free_skb a p) fl'"
  by (cases "p_used p a") (auto intro: free_skb_used(1))

lemma free_skb_idem: "free_skb a (free_skb a p) = free_skb a p"
  by (cases "p_used p a") (simp_all add: free_skb_def Let_def)

section \<open>Many clients\<close>

text \<open>
  Any sequence of allocations and releases, with the multiset of the addresses that
  clients hold: an allocation hands its address to a client, a release takes it back.
\<close>

inductive skb_run :: "skb_pool \<Rightarrow> addr set \<Rightarrow> bool" where
  skb_start: "skb_run skb_pool_init {}"
| skb_alloc: "skb_run p H \<Longrightarrow> fresh p m \<Longrightarrow> alloc_skb m p = (p', Some a) \<Longrightarrow> skb_run p' (insert a H)"
| skb_fail: "skb_run p H \<Longrightarrow> alloc_skb m p = (p', None) \<Longrightarrow> skb_run p' H"
| skb_free: "skb_run p H \<Longrightarrow> a \<in> H \<Longrightarrow> skb_run (free_skb a p) (H - {a})"
| skb_free_again: "skb_run p H \<Longrightarrow> a \<notin> H \<Longrightarrow> skb_run (free_skb a p) H"

lemma skb_run_inv: "skb_run p H \<Longrightarrow> \<exists>fl. pool_ok p fl \<and> H = {a. p_used p a}"
proof (induction rule: skb_run.induct)
  case skb_start
  then show ?case using pool_init_ok by (auto simp: skb_pool_init_def)
next
  case (skb_alloc p H m p' a)
  then obtain fl where "pool_ok p fl" "H = {a. p_used p a}" by blast
  then have "pool_ok p' (tl fl) \<and> p_used p' = (p_used p)(a := True)"
    using alloc_skb_ok [of p fl m p' a] skb_alloc.hyps by simp
  with \<open>H = {a. p_used p a}\<close> show ?case by (intro exI [of _ "tl fl"]) auto
next
  case (skb_fail p H m p')
  then obtain fl where fl: "pool_ok p fl" "H = {a. p_used p a}" by blast
  moreover have "p_used p' = p_used p"
    using skb_fail(2) by (auto simp: alloc_skb_def Let_def split: option.splits)
  ultimately show ?case using alloc_skb_fail [OF fl(1) skb_fail(2)] by auto
next
  case (skb_free p H a)
  then obtain fl where "pool_ok p fl" "H = {a. p_used p a}" by blast
  with skb_free free_skb_used [of p fl a] show ?case by auto
next
  case (skb_free_again p H a)
  then show ?case by auto
qed

lemma skb_run_fresh:
  assumes "skb_run p H" "fresh p m" "alloc_skb m p = (p', Some a)"
  shows "a \<notin> H"
proof -
  obtain fl where "pool_ok p fl" "H = {a. p_used p a}"
    using skb_run_inv [OF assms(1)] by blast
  with alloc_skb_ok [OF _ assms(2,3)] show ?thesis by auto
qed

end
