(* ===== verification/Encoder.thy ===== *)
theory Encoder
  imports LinComb Qbuffer SkbPool
begin

text \<open>
  The sender's blocks and the coding jobs of \<open>src/srvctcp.c\<close>: \<open>readBlock\<close>,
  \<open>freeBlock\<close> and \<open>coding_job\<close>.  A packet buffer is an address; \<open>k_mem\<close> is the packet
  stored there, \<open>k_pool\<close> the pool of \<open>src/util.c\<close>.  \<open>malloc\<close> gives the address a new
  buffer gets in a state of the pool (\<open>None\<close>: out of memory), \<open>rnds\<close> the results of
  \<open>random()\<close>, both outside the program.  A job runs under the lock of its block.
\<close>

section \<open>State\<close>

record coder =
  k_pool :: skb_pool
  k_mem :: "addr \<Rightarrow> data_pckt"

record block =
  b_len :: nat
  b_content :: "addr option list"
  b_skb :: "addr option list"

definition block_init :: block where
  "block_init = \<lparr>b_len = 0, b_content = replicate BLOCK_SIZE None, b_skb = replicate BLOCK_SIZE None\<rparr>"

section \<open>Reading data into a block\<close>

definition pack_payload :: "bytes \<Rightarrow> bytes" where
  "pack_payload data =
    memcpy_at (memcpy_at (replicate PAYLOAD_SIZE 0) 2 data) 0 (be16 (of_nat (length data)))"

definition put_skb :: "block \<Rightarrow> addr \<Rightarrow> block" where
  "put_skb blk a = blk\<lparr>b_skb := (b_skb blk)[b_len blk := Some a],
     b_content := (b_content blk)[b_len blk := Some a], b_len := b_len blk + 1\<rparr>"

definition set_payload :: "coder \<Rightarrow> addr \<Rightarrow> bytes \<Rightarrow> coder" where
  "set_payload S a tmp = S\<lparr>k_mem := (k_mem S)(a := (k_mem S a)\<lparr>d_payload := tmp\<rparr>)\<rparr>"

text \<open>The bytes that did not fit are the third component; the C function returns the
  number of those that did.\<close>

function readBlock ::
  "(skb_pool \<Rightarrow> addr option) \<Rightarrow> block \<Rightarrow> coder \<Rightarrow> bytes \<Rightarrow> block \<times> coder \<times> bytes" where
  "readBlock malloc blk S buf =
    (if b_len blk < BLOCK_SIZE \<and> buf \<noteq> [] then
       (case alloc_skb (malloc (k_pool S)) (k_pool S) of
          (pool, None) \<Rightarrow> (blk, S\<lparr>k_pool := pool\<rparr>, buf)
        | (pool, Some skb) \<Rightarrow>
            let bytes_read = min (PAYLOAD_SIZE - 2) (length buf);
                tmp = pack_payload (take bytes_read buf)
            in readBlock malloc (put_skb blk skb) (set_payload (S\<lparr>k_pool := pool\<rparr>) skb tmp)
                 (drop bytes_read buf))
     else (blk, S, buf))"
  by pat_completeness auto
termination
  by (relation "measure (\<lambda>(m, blk, S, buf). length buf)") (auto simp: PAYLOAD_SIZE_eq)

declare readBlock.simps [simp del]

definition freeBlock :: "block \<Rightarrow> coder \<Rightarrow> block \<times> coder" where
  "freeBlock blk S =
    (blk\<lparr>b_len := 0\<rparr>,
     S\<lparr>k_pool := fold free_skb (List.map_filter id (take (b_len blk) (b_skb blk))) (k_pool S)\<rparr>)"

section \<open>Coding jobs\<close>

record coding_job_t =
  j_blockno :: u32
  j_start :: int
  j_dof_request :: int
  j_coding_wnd :: int

text \<open>The uncoded packets: each is the buffer of the block itself, with its header set.\<close>

fun code_rows :: "u32 \<Rightarrow> block \<Rightarrow> int list \<Rightarrow> coder \<Rightarrow> addr qbuffer \<Rightarrow> (coder \<times> addr qbuffer) option" where
  "code_rows blockno blk [] S q = Some (S, q)"
| "code_rows blockno blk (row # rows) S q =
    (case b_skb blk ! nat row of
       None \<Rightarrow> code_rows blockno blk rows S q
     | Some a \<Rightarrow>
         let msg = (k_mem S a)\<lparr>d_flag := flag_code NORMAL, d_blockno := blockno,
               d_num_packets := 1, d_start_packet := of_int row, d_packet_coeff := 1\<rparr>;
             S = S\<lparr>k_mem := (k_mem S)(a := msg)\<rparr>
         in case q_push_back q a of
              None \<Rightarrow> None
            | Some q \<Rightarrow> code_rows blockno blk rows S q)"

text \<open>The loop that draws seeds until a coefficient is not zero.\<close>

fun draw_nonzero :: "nat list \<Rightarrow> u32 \<Rightarrow> nat \<Rightarrow> (u8 \<times> bytes \<times> nat list) option" where
  "draw_nonzero [] blockno block_len = None"
| "draw_nonzero (r # rnds) blockno block_len =
    (let packet_coeff = of_nat (r mod 256);
         coeff = packet_coeffs packet_coeff blockno block_len
     in if length (filter (\<lambda>c. c > 0) coeff) = 0 then draw_nonzero rnds blockno block_len
        else Some (packet_coeff, coeff, rnds))"

fun mix_rows :: "bytes \<Rightarrow> bytes list \<Rightarrow> bytes \<Rightarrow> bytes" where
  "mix_rows (c # cs) (w # ws) payload =
    mix_rows cs ws (if c = 0 then payload else axpy payload (xFFlog c) w)"
| "mix_rows _ _ payload = payload"

definition contents :: "block \<Rightarrow> coder \<Rightarrow> bytes list" where
  "contents blk S =
    map (\<lambda>i. case b_content blk ! i of Some a \<Rightarrow> d_payload (k_mem S a) | None \<Rightarrow> []) [0..<b_len blk]"

fun code_mixed ::
  "(skb_pool \<Rightarrow> addr option) \<Rightarrow> u32 \<Rightarrow> block \<Rightarrow> nat \<Rightarrow> coder \<Rightarrow> addr qbuffer \<Rightarrow> nat list \<Rightarrow>
    (coder \<times> addr qbuffer \<times> nat list) option" where
  "code_mixed malloc blockno blk 0 S q rnds = Some (S, q, rnds)"
| "code_mixed malloc blockno blk (Suc n) S q rnds =
    (case alloc_skb (malloc (k_pool S)) (k_pool S) of
       (pool, None) \<Rightarrow> code_mixed malloc blockno blk n (S\<lparr>k_pool := pool\<rparr>) q rnds
     | (pool, Some a) \<Rightarrow>
         (case draw_nonzero rnds blockno (b_len blk) of
            None \<Rightarrow> None
          | Some (packet_coeff, coeff, rnds) \<Rightarrow>
              let msg = (k_mem S a)\<lparr>d_blockno := blockno, d_start_packet := 0,
                    d_num_packets := of_nat (b_len blk), d_flag := flag_code CODED,
                    d_packet_coeff := packet_coeff,
                    d_payload := mix_rows coeff (contents blk S) (replicate PAYLOAD_SIZE 0)\<rparr>;
                  S = \<lparr>k_pool = pool, k_mem = (k_mem S)(a := msg)\<rparr>
              in case q_push_back q a of
                   None \<Rightarrow> None
                 | Some q \<Rightarrow> code_mixed malloc blockno blk n S q rnds))"

text \<open>
  The job.  A job for an old block or a block without data does nothing; \<open>None\<close> is a
  worker that waits, in \<open>q_push_back\<close> or for a seed with a nonzero coefficient.
\<close>

definition coding_job ::
  "(skb_pool \<Rightarrow> addr option) \<Rightarrow> u32 \<Rightarrow> coding_job_t \<Rightarrow> block \<Rightarrow> coder \<Rightarrow> addr qbuffer \<Rightarrow> nat list \<Rightarrow>
    (coder \<times> addr qbuffer \<times> nat list) option" where
  "coding_job malloc curr_block job blk S q rnds =
    (if j_blockno job < curr_block then Some (S, q, rnds)
     else
       let block_len = b_len blk; start = j_start job; dof_request = j_dof_request job in
       if block_len = 0 then Some (S, q, rnds)
       else if j_coding_wnd job = 0 then
         (case code_rows (j_blockno job) blk [start..min (start + dof_request) (int block_len) - 1] S q of
            None \<Rightarrow> None
          | Some (S, q) \<Rightarrow>
              code_mixed malloc (j_blockno job) blk
                (nat (max 0 (dof_request - (int block_len - start)))) S q rnds)
       else code_mixed malloc (j_blockno job) blk (nat dof_request) S q rnds)"

section \<open>What a block holds\<close>

text \<open>
  The entries below \<open>b_len\<close> are distinct buffers in use, each with a whole payload.
\<close>

definition holds_at :: "block \<Rightarrow> coder \<Rightarrow> nat \<Rightarrow> addr \<Rightarrow> bool" where
  "holds_at blk S i a \<longleftrightarrow> b_skb blk ! i = Some a \<and> b_content blk ! i = Some a \<and>
    p_used (k_pool S) a \<and> length (d_payload (k_mem S a)) = PAYLOAD_SIZE"

definition block_ok :: "block \<Rightarrow> coder \<Rightarrow> bool" where
  "block_ok blk S \<longleftrightarrow> b_len blk \<le> BLOCK_SIZE \<and> length (b_skb blk) = BLOCK_SIZE \<and>
    length (b_content blk) = BLOCK_SIZE \<and> (\<forall>i < b_len blk. \<exists>a. holds_at blk S i a) \<and>
    (\<forall>i < b_len blk. \<forall>j < b_len blk. b_skb blk ! i = b_skb blk ! j \<longrightarrow> i = j)"

definition block_bytes :: "block \<Rightarrow> coder \<Rightarrow> bytes" where
  "block_bytes blk S = concat (map payload_data (contents blk S))"

definition packet_of :: "block \<Rightarrow> coder \<Rightarrow> nat \<Rightarrow> nat \<Rightarrow> u8" where
  "packet_of blk S k j = (if k < b_len blk then contents blk S ! k ! j else 0)"

lemma block_init_ok: "block_ok block_init S"
  by (simp add: block_ok_def block_init_def)

lemma length_contents [simp]: "length (contents blk S) = b_len blk"
  by (simp add: contents_def)

lemma contents_nth:
  assumes "block_ok blk S" "i < b_len blk"
  obtains a where "holds_at blk S i a" "contents blk S ! i = d_payload (k_mem S a)"
    "length (contents blk S ! i) = PAYLOAD_SIZE"
proof -
  obtain a where a: "holds_at blk S i a" using assms unfolding block_ok_def by blast
  then show ?thesis using that [of a] assms(2) by (simp add: contents_def holds_at_def)
qed

lemma contents_eqI:
  assumes "block_ok blk S" "\<And>i a. i < b_len blk \<Longrightarrow> holds_at blk S i a \<Longrightarrow> d_payload (k_mem S' a) = d_payload (k_mem S a)"
  shows "contents blk S' = contents blk S"
  unfolding contents_def
proof (rule map_cong [OF refl])
  fix i assume "i \<in> set [0..<b_len blk]"
  then have i: "i < b_len blk" by simp
  with assms(1) obtain a where a: "holds_at blk S i a" unfolding block_ok_def by blast
  with assms(2) [OF i a] show "(case b_content blk ! i of None \<Rightarrow> [] | Some a \<Rightarrow> d_payload (k_mem S' a)) =
      (case b_content blk ! i of None \<Rightarrow> [] | Some a \<Rightarrow> d_payload (k_mem S a))"
    by (simp add: holds_at_def)
qed

lemma block_okI:
  assumes "block_ok blk S" "\<And>i a. i < b_len blk \<Longrightarrow> holds_at blk S i a \<Longrightarrow> holds_at blk S' i a"
  shows "block_ok blk S'"
proof -
  have "\<exists>a. holds_at blk S' i a" if i: "i < b_len blk" for i
  proof -
    obtain a where "holds_at blk S i a" using assms(1) i unfolding block_ok_def by blast
    with assms(2) [OF i] show ?thesis by blast
  qed
  with assms(1) show ?thesis unfolding block_ok_def by blast
qed

lemma be16_length [simp]: "length (be16 w) = 2"
  by (simp add: be16_def)

lemma payload_data_pack:
  assumes "length data \<le> PAYLOAD_SIZE - 2"
  shows "payload_data (pack_payload data) = data" "length (pack_payload data) = PAYLOAD_SIZE"
proof -
  have n: "length data < 2 ^ 16" "2 + length data \<le> PAYLOAD_SIZE"
    using assms by (simp_all add: PAYLOAD_SIZE_eq)
  then show "length (pack_payload data) = PAYLOAD_SIZE" by (simp add: pack_payload_def)
  have hd: "take 2 (pack_payload data) = be16 (of_nat (length data))"
    by (simp add: pack_payload_def memcpy_at_def)
  have tl: "drop 2 (pack_payload data) = data @ drop (2 + length data) (replicate PAYLOAD_SIZE 0)"
    by (simp add: pack_payload_def memcpy_at_def PAYLOAD_SIZE_eq)
  have "unat (of_nat (length data) :: u16) = length data"
    using n by (simp add: unsigned_of_nat take_bit_nat_eq_self)
  then show "payload_data (pack_payload data) = data"
    by (simp add: payload_data_def payload_len_def hd tl)
qed

section \<open>Reading data keeps the stream\<close>

definition pool_good :: "skb_pool \<Rightarrow> bool" where
  "pool_good p \<longleftrightarrow> (\<exists>fl. pool_ok p fl)"

text \<open>Everything that is in use before stays in use and keeps its contents.\<close>

definition frame :: "coder \<Rightarrow> coder \<Rightarrow> bool" where
  "frame S S' \<longleftrightarrow> (\<forall>a. p_used (k_pool S) a \<longrightarrow> p_used (k_pool S') a \<and> k_mem S' a = k_mem S a)"

lemma frame_refl [simp]: "frame S S"
  by (simp add: frame_def)

lemma frame_trans: "frame S S' \<Longrightarrow> frame S' S'' \<Longrightarrow> frame S S''"
  by (simp add: frame_def)

lemma alloc_good:
  assumes "pool_good p" "fresh p m" "alloc_skb m p = (p', Some a)"
  shows "pool_good p'" "\<not> p_used p a" "p_used p' = (p_used p)(a := True)"
  using assms alloc_skb_ok [of p _ m p' a] by (auto simp: pool_good_def)

lemma alloc_none_good:
  assumes "pool_good p" "alloc_skb m p = (p', None)"
  shows "pool_good p'" "p_used p' = p_used p"
proof -
  show "pool_good p'" using assms alloc_skb_fail unfolding pool_good_def by blast
  show "p_used p' = p_used p"
    using assms(2) by (auto simp: alloc_skb_def Let_def split: option.splits)
qed

lemma frame_block:
  assumes ok: "block_ok blk S" and fr: "frame S S'"
  shows "block_ok blk S'" "contents blk S' = contents blk S"
proof -
  have "holds_at blk S' i a" "d_payload (k_mem S' a) = d_payload (k_mem S a)" if "holds_at blk S i a" for i a
    using that fr by (simp_all add: holds_at_def frame_def)
  then show "block_ok blk S'" "contents blk S' = contents blk S"
    using block_okI [OF ok] contents_eqI [OF ok] by blast+
qed

lemma put_skb_ok:
  assumes ok: "block_ok blk S" and room: "b_len blk < BLOCK_SIZE"
    and fresh: "\<not> p_used (k_pool S) a" and pool: "p_used p = (p_used (k_pool S))(a := True)"
    and len: "length tmp = PAYLOAD_SIZE" and S': "S' = set_payload (S\<lparr>k_pool := p\<rparr>) a tmp"
  shows "block_ok (put_skb blk a) S'" and "contents (put_skb blk a) S' = contents blk S @ [tmp]"
    and "frame S S'"
proof -
  have fr: "frame S S'" using fresh pool by (auto simp: frame_def S' set_payload_def)
  then show "frame S S'" .
  note fb = frame_block [OF ok fr]
  let ?b = "put_skb blk a" and ?n = "b_len blk"
  have l: "?n < length (b_skb blk)" "?n < length (b_content blk)"
    using ok room by (simp_all add: block_ok_def)
  have old: "b_skb ?b ! i = b_skb blk ! i" "b_content ?b ! i = b_content blk ! i" if "i < ?n" for i
    using that by (simp_all add: put_skb_def)
  have new: "b_skb ?b ! ?n = Some a" "b_content ?b ! ?n = Some a" "b_len ?b = Suc ?n"
    using l by (simp_all add: put_skb_def)
  have mem: "d_payload (k_mem S' a) = tmp" "p_used (k_pool S') a" using pool by (simp_all add: S' set_payload_def)
  have ne: "b_skb blk ! i \<noteq> Some a" if i: "i < ?n" for i
  proof -
    obtain c where "holds_at blk S i c" using ok i unfolding block_ok_def by blast
    with fresh show ?thesis by (auto simp: holds_at_def)
  qed
  have h: "\<exists>c. holds_at ?b S' i c" if "i < b_len ?b" for i
  proof (cases "i = ?n")
    case True
    with new mem len show ?thesis by (simp add: holds_at_def)
  next
    case False
    with that new have i: "i < ?n" by simp
    then obtain c where "holds_at blk S' i c" using fb(1) unfolding block_ok_def by blast
    with old [OF i] show ?thesis by (simp add: holds_at_def)
  qed
  have d: "i = j" if ij: "i < b_len ?b" "j < b_len ?b" "b_skb ?b ! i = b_skb ?b ! j" for i j
  proof -
    consider "i = ?n" "j = ?n" | "i < ?n" "j = ?n" | "i = ?n" "j < ?n" | "i < ?n" "j < ?n"
      using ij new by linarith
    then show ?thesis
      using ij(3) old [of i] old [of j] ne [of i] ne [of j] new ok
      by cases (simp_all add: block_ok_def)
  qed
  show "block_ok ?b S'"
    unfolding block_ok_def
  proof (intro conjI)
    show "\<forall>i<b_len ?b. \<exists>c. holds_at ?b S' i c" using h by blast
    show "\<forall>i<b_len ?b. \<forall>j<b_len ?b. b_skb ?b ! i = b_skb ?b ! j \<longrightarrow> i = j" using d by blast
  qed (use ok room in \<open>simp_all add: block_ok_def put_skb_def\<close>)
  have "contents ?b S' = contents blk S' @ [tmp]"
    using new mem old by (simp add: contents_def)
  with fb(2) show "contents ?b S' = contents blk S @ [tmp]" by simp
qed

lemma readBlock_correct:
  assumes "readBlock malloc blk S buf = (blk', S', rest)" "block_ok blk S" "pool_good (k_pool S)"
    and "\<forall>p. fresh p (malloc p)"
  shows "block_ok blk' S' \<and> pool_good (k_pool S') \<and> frame S S' \<and>
    block_bytes blk' S' @ rest = block_bytes blk S @ buf \<and> b_len blk \<le> b_len blk' \<and>
    (rest = [] \<or> b_len blk' = BLOCK_SIZE \<or> (\<exists>p. malloc p = None))"
  using assms
proof (induction malloc blk S buf rule: readBlock.induct)
  case (1 malloc blk S buf)
  have fr: "fresh p (malloc p)" for p using 1(5) by blast
  show ?case
  proof (cases "b_len blk < BLOCK_SIZE \<and> buf \<noteq> []")
    case False
    with 1 show ?thesis by (auto simp: readBlock.simps [of malloc blk S buf] block_ok_def)
  next
    case True
    show ?thesis
    proof (cases "alloc_skb (malloc (k_pool S)) (k_pool S)")
      case (Pair p r)
      show ?thesis
      proof (cases r)
        case None
        have res: "blk' = blk" "S' = S\<lparr>k_pool := p\<rparr>" "rest = buf"
          using 1(2) True Pair None by (simp_all add: readBlock.simps [of malloc blk S buf])
        have "malloc (k_pool S) = None"
          using Pair None by (auto simp: alloc_skb_def Let_def split: option.splits)
        moreover have "frame S S'"
          using alloc_none_good [OF 1(4), of "malloc (k_pool S)" p] Pair None res by (simp add: frame_def)
        ultimately show ?thesis
          using alloc_none_good [OF 1(4), of "malloc (k_pool S)" p] Pair None res 1(3)
            frame_block [OF 1(3), of S'] by (auto simp: block_bytes_def)
      next
        case (Some a)
        define n where "n = min (PAYLOAD_SIZE - 2) (length buf)"
        define tmp where "tmp = pack_payload (take n buf)"
        define S1 where "S1 = set_payload (S\<lparr>k_pool := p\<rparr>) a tmp"
        have al: "pool_good p" "\<not> p_used (k_pool S) a" "p_used p = (p_used (k_pool S))(a := True)"
          using alloc_good [OF 1(4) fr] Pair Some by blast+
        have tmp: "payload_data tmp = take n buf" "length tmp = PAYLOAD_SIZE"
          using payload_data_pack [of "take n buf"] by (simp_all add: tmp_def n_def)
        note put = put_skb_ok [OF 1(3) conjunct1 [OF True] al(2,3) tmp(2) S1_def]
        have rec: "readBlock malloc (put_skb blk a) S1 (drop n buf) = (blk', S', rest)"
          using 1(2) True Pair Some by (simp add: readBlock.simps [of malloc blk S buf] n_def tmp_def S1_def Let_def)
        have "pool_good (k_pool S1)" using al by (simp add: S1_def set_payload_def)
        from 1(1) [OF True Pair [symmetric] Some n_def tmp_def rec [unfolded S1_def]
            put(1) [unfolded S1_def] this [unfolded S1_def] 1(5)]
        have "block_ok blk' S' \<and> pool_good (k_pool S') \<and> frame S1 S' \<and>
          block_bytes blk' S' @ rest = block_bytes (put_skb blk a) S1 @ drop n buf \<and>
          b_len (put_skb blk a) \<le> b_len blk' \<and>
          (rest = [] \<or> b_len blk' = BLOCK_SIZE \<or> (\<exists>p. malloc p = None))"
          unfolding S1_def .
        moreover have "block_bytes (put_skb blk a) S1 = block_bytes blk S @ take n buf"
          using put(2) tmp(1) by (simp add: block_bytes_def)
        moreover have "b_len (put_skb blk a) = Suc (b_len blk)" by (simp add: put_skb_def)
        ultimately show ?thesis using put(3) frame_trans [of S S1 S'] by auto
      qed
    qed
  qed
qed

section \<open>Coding keeps the contract of the packets\<close>

lemma gf_mix_rows:
  "length cs = length ws \<Longrightarrow> \<forall>w \<in> set ws. length w = length acc \<Longrightarrow>
    length (mix_rows cs ws acc) = length acc \<and>
    (\<forall>j < length acc. gf_of (mix_rows cs ws acc ! j) =
      gf_of (acc ! j) + (\<Sum>i<length cs. gf_of (cs ! i) * gf_of (ws ! i ! j)))"
proof (induction cs ws arbitrary: acc rule: list_induct2')
  case (4 c cs w ws)
  let ?acc = "if c = 0 then acc else axpy acc (xFFlog c) w"
  have len: "length ?acc = length acc" using 4 by simp
  have hd: "gf_of (?acc ! j) = gf_of (acc ! j) + gf_of c * gf_of (w ! j)" if "j < length acc" for j
    using that 4 gf_axpy [of c j acc w] by (simp add: gf_simps)
  have "length (mix_rows cs ws ?acc) = length acc \<and>
    (\<forall>j < length acc. gf_of (mix_rows cs ws ?acc ! j) =
      gf_of (?acc ! j) + (\<Sum>i<length cs. gf_of (cs ! i) * gf_of (ws ! i ! j)))"
    using 4 len by auto
  with hd show ?case by (simp add: sum.lessThan_Suc_shift add.assoc del: sum.lessThan_Suc)
qed simp_all

lemma draw_nonzero_Some:
  "draw_nonzero rnds b n = Some (pc, cs, rnds') \<Longrightarrow> cs = packet_coeffs pc b n \<and> (\<exists>c \<in> set cs. c \<noteq> 0)"
  by (induction rnds) (auto simp: Let_def filter_empty_conv word_neq_0_conv split: if_splits)

definition coded_pkt :: "u32 \<Rightarrow> block \<Rightarrow> coder \<Rightarrow> data_pckt \<Rightarrow> bool" where
  "coded_pkt b blk S m \<longleftrightarrow> pkt_ok (packet_of blk S) PAYLOAD_SIZE m \<and> d_blockno m = b \<and>
    d_flag m = flag_code CODED \<and> d_start_packet m = 0 \<and> unat (d_num_packets m) = b_len blk \<and>
    (\<exists>c \<in> set (pkt_coeffs m). c \<noteq> 0)"

lemma coded_pktI:
  assumes ok: "block_ok blk S" and ne: "0 < b_len blk"
    and cs: "cs = packet_coeffs pc b (b_len blk)" "\<exists>c \<in> set cs. c \<noteq> 0"
    and m: "m = m0\<lparr>d_blockno := b, d_start_packet := 0, d_num_packets := of_nat (b_len blk),
      d_flag := flag_code CODED, d_packet_coeff := pc,
      d_payload := mix_rows cs (contents blk S) (replicate PAYLOAD_SIZE 0)\<rparr>"
  shows "coded_pkt b blk S m"
proof -
  have n: "b_len blk \<le> BLOCK_SIZE" using ok by (simp add: block_ok_def)
  then have un: "unat (of_nat (b_len blk) :: u8) = b_len blk"
    by (simp add: unsigned_of_nat take_bit_nat_eq_self BLOCK_SIZE_def)
  have pc: "pkt_coeffs m = cs" using cs(1) un by (simp add: pkt_coeffs_def m)
  have "\<forall>w \<in> set (contents blk S). length w = length (replicate PAYLOAD_SIZE (0::u8))"
    using contents_nth [OF ok] by (metis in_set_conv_nth length_contents length_replicate)
  with gf_mix_rows [of cs "contents blk S" "replicate PAYLOAD_SIZE 0"] cs(1)
  have mix: "length (d_payload m) = PAYLOAD_SIZE"
    "\<And>j. j < PAYLOAD_SIZE \<Longrightarrow> gf_of (d_payload m ! j) =
      (\<Sum>i<b_len blk. gf_of (cs ! i) * gf_of (contents blk S ! i ! j))"
    by (auto simp: m gf_simps)
  have "row_sat (packet_of blk S) 0 (b_len blk) cs (d_payload m)"
    using mix by (simp add: row_sat_def packet_of_def)
  moreover have "d_num_packets m \<noteq> 0" using un ne by (auto simp: m)
  ultimately show ?thesis
    using mix(1) n un pc cs(2) by (simp add: coded_pkt_def pkt_ok_def m word_gt_0)
qed

lemma coded_pkt_contents:
  "contents blk S' = contents blk S \<Longrightarrow> coded_pkt b blk S' m = coded_pkt b blk S m"
proof -
  assume "contents blk S' = contents blk S"
  then have "packet_of blk S' = packet_of blk S" by (simp add: packet_of_def fun_eq_iff)
  then show ?thesis by (simp add: coded_pkt_def)
qed

lemma code_mixed_correct:
  assumes "code_mixed malloc b blk n S q rnds = Some (S', q', rnds')" "block_ok blk S" "0 < b_len blk"
    "pool_good (k_pool S)" "\<forall>p. fresh p (malloc p)" "q_holds q xs"
  shows "\<exists>as. q_holds q' (xs @ as) \<and> (\<forall>a \<in> set as. coded_pkt b blk S (k_mem S' a) \<and>
      \<not> p_used (k_pool S) a \<and> p_used (k_pool S') a) \<and> frame S S' \<and> pool_good (k_pool S') \<and>
      length as \<le> n \<and> ((\<forall>p. malloc p \<noteq> None) \<longrightarrow> length as = n) \<and> distinct as"
  using assms
proof (induction n arbitrary: S q rnds xs)
  case 0
  then show ?case by (auto intro!: exI [of _ "[]"])
next
  case (Suc n)
  obtain p r where al: "alloc_skb (malloc (k_pool S)) (k_pool S) = (p, r)" by fastforce
  show ?case
  proof (cases r)
    case None
    let ?S = "S\<lparr>k_pool := p\<rparr>"
    note an = alloc_none_good [OF Suc.prems(4) al [unfolded None]]
    have fr: "frame S ?S" using an by (simp add: frame_def)
    note fb = frame_block [OF Suc.prems(2) fr]
    have "malloc (k_pool S) = None"
      using al None by (auto simp: alloc_skb_def Let_def split: option.splits)
    moreover have "\<exists>as. q_holds q' (xs @ as) \<and> (\<forall>a \<in> set as. coded_pkt b blk ?S (k_mem S' a) \<and>
      \<not> p_used (k_pool ?S) a \<and> p_used (k_pool S') a) \<and> frame ?S S' \<and> pool_good (k_pool S') \<and>
      length as \<le> n \<and> ((\<forall>p. malloc p \<noteq> None) \<longrightarrow> length as = n) \<and> distinct as"
      by (rule Suc.IH) (use Suc.prems al None an fb in auto)
    then obtain as where "q_holds q' (xs @ as)" "frame ?S S'" "pool_good (k_pool S')" "length as \<le> n" "distinct as"
      "\<forall>a \<in> set as. coded_pkt b blk S (k_mem S' a) \<and> \<not> p_used (k_pool S) a \<and> p_used (k_pool S') a"
      using coded_pkt_contents [OF fb(2)] an(2) by auto
    ultimately show ?thesis using frame_trans [OF fr] by (intro exI [of _ as]) auto
  next
    case (Some a)
    obtain pc cs rnds1 where dr: "draw_nonzero rnds b (b_len blk) = Some (pc, cs, rnds1)"
      using Suc.prems(1) al Some by (auto split: option.splits)
    define msg where "msg = (k_mem S a)\<lparr>d_blockno := b, d_start_packet := 0,
      d_num_packets := of_nat (b_len blk), d_flag := flag_code CODED, d_packet_coeff := pc,
      d_payload := mix_rows cs (contents blk S) (replicate PAYLOAD_SIZE 0)\<rparr>"
    define S1 where "S1 = \<lparr>k_pool = p, k_mem = (k_mem S)(a := msg)\<rparr>"
    obtain q1 where q1: "q_push_back q a = Some q1"
      and rec: "code_mixed malloc b blk n S1 q1 rnds1 = Some (S', q', rnds')"
      using Suc.prems(1) al Some dr by (auto simp: Let_def S1_def msg_def split: option.splits)
    have ag: "pool_good p" "\<not> p_used (k_pool S) a" "p_used p = (p_used (k_pool S))(a := True)"
      using alloc_good [OF Suc.prems(4), of "malloc (k_pool S)" p a] Suc.prems(5) al Some by blast+
    have fr: "frame S S1" using ag by (auto simp: frame_def S1_def)
    note fb = frame_block [OF Suc.prems(2) fr]
    have pk: "coded_pkt b blk S msg"
      by (rule coded_pktI [OF Suc.prems(2,3)]) (use draw_nonzero_Some [OF dr] msg_def in auto)
    have "\<exists>as. q_holds q' ((xs @ [a]) @ as) \<and> (\<forall>c \<in> set as. coded_pkt b blk S1 (k_mem S' c) \<and>
      \<not> p_used (k_pool S1) c \<and> p_used (k_pool S') c) \<and> frame S1 S' \<and> pool_good (k_pool S') \<and>
      length as \<le> n \<and> ((\<forall>p. malloc p \<noteq> None) \<longrightarrow> length as = n) \<and> distinct as"
      by (rule Suc.IH [OF rec fb(1) Suc.prems(3) _ Suc.prems(5) dq.back_holds [OF Suc.prems(6) q1]])
        (simp add: S1_def ag)
    then obtain as where as: "q_holds q' (xs @ a # as)"
      "\<forall>c \<in> set as. coded_pkt b blk S (k_mem S' c) \<and> \<not> p_used (k_pool S1) c \<and> p_used (k_pool S') c"
      "frame S1 S'" "pool_good (k_pool S')" "length as \<le> n" "(\<forall>p. malloc p \<noteq> None) \<longrightarrow> length as = n" "distinct as"
      using coded_pkt_contents [OF fb(2)] by auto
    have u1: "p_used (k_pool S1) a" "k_mem S1 a = msg" using ag by (simp_all add: S1_def)
    have a: "p_used (k_pool S') a" "k_mem S' a = msg" using as(3) u1 by (simp_all add: frame_def)
    have un: "\<not> p_used (k_pool S) c" if "\<not> p_used (k_pool S1) c" for c
      using that fr by (auto simp: frame_def)
    show ?thesis
      by (intro exI [of _ "a # as"]) (use as a pk un u1(1) ag(2) frame_trans [OF fr as(3)] in auto)
  qed
qed

definition plain_pkt :: "u32 \<Rightarrow> nat \<Rightarrow> data_pckt \<Rightarrow> bool" where
  "plain_pkt b row m \<longleftrightarrow> d_flag m = flag_code NORMAL \<and> d_blockno m = b \<and> d_num_packets m = 1 \<and>
    unat (d_start_packet m) = row"

lemma plain_pkt_ok:
  assumes ok: "block_ok blk S" and i: "i < b_len blk" and at: "holds_at blk S i a"
    and m: "plain_pkt b i m" "d_payload m = d_payload (k_mem S a)"
  shows "pkt_ok (packet_of blk S) PAYLOAD_SIZE m"
proof -
  have "contents blk S ! i = d_payload m" using at m(2) i by (simp add: contents_def holds_at_def)
  then have "row_sat (packet_of blk S) i 1 [1] (d_payload m)"
    using i by (simp add: row_sat_def packet_of_def gf_simps)
  moreover have "i < BLOCK_SIZE" using ok i by (simp add: block_ok_def)
  ultimately show ?thesis
    using m at by (simp add: pkt_ok_def plain_pkt_def pkt_coeffs_def holds_at_def)
qed

text \<open>Only the headers of the listed buffers change.\<close>

lemma code_rows_correct:
  assumes "code_rows b blk rows S q = Some (S', q')" "block_ok blk S" "q_holds q xs"
    "distinct rows" "\<forall>row \<in> set rows. 0 \<le> row \<and> nat row < b_len blk"
  shows "k_pool S' = k_pool S \<and> (\<forall>a. d_payload (k_mem S' a) = d_payload (k_mem S a)) \<and>
    q_holds q' (xs @ map (\<lambda>row. the (b_skb blk ! nat row)) rows) \<and>
    (\<forall>row \<in> set rows. plain_pkt b (nat row) (k_mem S' (the (b_skb blk ! nat row)))) \<and>
    (\<forall>a. (\<forall>row \<in> set rows. b_skb blk ! nat row \<noteq> Some a) \<longrightarrow> k_mem S' a = k_mem S a)"
  using assms
proof (induction rows arbitrary: S q xs)
  case Nil
  then show ?case by simp
next
  case (Cons row rows)
  have row: "0 \<le> row" "nat row < b_len blk" using Cons.prems(5) by auto
  obtain a where at: "holds_at blk S (nat row) a" using Cons.prems(2) row unfolding block_ok_def by blast
  then have a: "b_skb blk ! nat row = Some a" by (simp add: holds_at_def)
  define msg where "msg = (k_mem S a)\<lparr>d_flag := flag_code NORMAL, d_blockno := b,
    d_num_packets := 1, d_start_packet := of_int row, d_packet_coeff := 1\<rparr>"
  define S1 where "S1 = S\<lparr>k_mem := (k_mem S)(a := msg)\<rparr>"
  obtain q1 where q1: "q_push_back q a = Some q1" and rec: "code_rows b blk rows S1 q1 = Some (S', q')"
    using Cons.prems(1) a by (auto simp: Let_def msg_def S1_def split: option.splits)
  have pay: "d_payload (k_mem S1 c) = d_payload (k_mem S c)" for c by (simp add: S1_def msg_def)
  have hold: "holds_at blk S1 i c" if "holds_at blk S i c" for i c
    using that pay by (simp add: holds_at_def S1_def)
  have ok1: "block_ok blk S1" by (rule block_okI [OF Cons.prems(2)]) (rule hold)
  have IH: "k_pool S' = k_pool S1 \<and> (\<forall>a. d_payload (k_mem S' a) = d_payload (k_mem S1 a)) \<and>
    q_holds q' ((xs @ [a]) @ map (\<lambda>row. the (b_skb blk ! nat row)) rows) \<and>
    (\<forall>row \<in> set rows. plain_pkt b (nat row) (k_mem S' (the (b_skb blk ! nat row)))) \<and>
    (\<forall>a. (\<forall>row \<in> set rows. b_skb blk ! nat row \<noteq> Some a) \<longrightarrow> k_mem S' a = k_mem S1 a)"
    by (rule Cons.IH [OF rec ok1 dq.back_holds [OF Cons.prems(3) q1]]) (use Cons.prems(4,5) in auto)
  have ne: "b_skb blk ! nat r \<noteq> Some a" if r: "r \<in> set rows" for r
  proof
    assume "b_skb blk ! nat r = Some a"
    then have "nat r = nat row" using a r row Cons.prems(2,5) unfolding block_ok_def by simp
    with r Cons.prems(4,5) row show False by (auto simp: nat_eq_iff2)
  qed
  have "nat row < 32" using row Cons.prems(2) by (simp add: block_ok_def BLOCK_SIZE_def)
  then have "unat (of_int row :: u8) = nat row"
    using row(1) by (simp add: unat_eq_nat_uint unsigned_of_int take_bit_int_eq_self)
  then have "plain_pkt b (nat row) msg" by (simp add: plain_pkt_def msg_def)
  moreover have "k_mem S' a = msg" using IH ne by (simp add: S1_def)
  ultimately show ?case using IH a ne pay by (auto simp: S1_def)
qed

definition job_pkt :: "u32 \<Rightarrow> block \<Rightarrow> coder \<Rightarrow> data_pckt \<Rightarrow> bool" where
  "job_pkt b blk S m \<longleftrightarrow> pkt_ok (packet_of blk S) PAYLOAD_SIZE m \<and> d_blockno m = b \<and>
    (unat (d_num_packets m) = 1 \<or> unat (d_num_packets m) = b_len blk)"

lemma coding_job_coded:
  assumes "code_mixed malloc b blk n S q rnds = Some (S', q', rnds')" "block_ok blk S" "0 < b_len blk"
    "pool_good (k_pool S)" "\<forall>p. fresh p (malloc p)" "q_holds q xs"
  obtains as where "q_holds q' (xs @ as)" "\<forall>a \<in> set as. job_pkt b blk S (k_mem S' a)"
    "contents blk S' = contents blk S" "frame S S'" "block_ok blk S'" "length as \<le> n"
    "(\<forall>p. malloc p \<noteq> None) \<longrightarrow> length as = n"
proof -
  obtain as where as: "q_holds q' (xs @ as)" "frame S S'" "length as \<le> n"
      "(\<forall>p. malloc p \<noteq> None) \<longrightarrow> length as = n" "\<forall>a \<in> set as. coded_pkt b blk S (k_mem S' a)"
    using code_mixed_correct [OF assms] by blast
  then have "\<forall>a \<in> set as. job_pkt b blk S (k_mem S' a)" by (simp add: coded_pkt_def job_pkt_def)
  with as that frame_block [OF assms(2) as(2)] show ?thesis by blast
qed

lemma coding_job_correct:
  assumes job: "coding_job malloc cb job blk S q rnds = Some (S', q', rnds')" and ok: "block_ok blk S"
    and good: "pool_good (k_pool S)" and fr: "\<forall>p. fresh p (malloc p)" and q: "q_holds q xs"
    and start: "0 \<le> j_start job"
  shows "\<exists>as. q_holds q' (xs @ as) \<and> (\<forall>a \<in> set as. job_pkt (j_blockno job) blk S (k_mem S' a)) \<and>
    contents blk S' = contents blk S \<and> block_ok blk S'"
proof -
  let ?b = "j_blockno job" and ?n = "int (b_len blk)"
  let ?rows = "[j_start job..min (j_start job + j_dof_request job) ?n - 1]"
  consider "?b < cb \<or> b_len blk = 0" | "\<not> ?b < cb" "0 < b_len blk" "j_coding_wnd job \<noteq> 0"
    | "\<not> ?b < cb" "0 < b_len blk" "j_coding_wnd job = 0" by blast
  then show ?thesis
  proof cases
    case 1
    then have "S' = S" "q' = q" using job by (auto simp: coding_job_def Let_def split: if_splits)
    then show ?thesis using q ok by (auto intro!: exI [of _ "[]"])
  next
    case 2
    then have "code_mixed malloc ?b blk (nat (j_dof_request job)) S q rnds = Some (S', q', rnds')"
      using job by (simp add: coding_job_def Let_def)
    then show ?thesis using coding_job_coded [OF _ ok 2(2) good fr q] by metis
  next
    case 3
    then obtain S1 q1 where rows: "code_rows ?b blk ?rows S q = Some (S1, q1)"
      and mixed: "code_mixed malloc ?b blk (nat (max 0 (j_dof_request job - (?n - j_start job)))) S1 q1 rnds =
        Some (S', q', rnds')"
      using job by (auto simp: coding_job_def Let_def split: option.splits)
    have in_range: "\<forall>row \<in> set ?rows. 0 \<le> row \<and> nat row < b_len blk" using start by auto
    note cr = code_rows_correct [OF rows ok q distinct_upto in_range]
    have pay: "d_payload (k_mem S1 a) = d_payload (k_mem S a)" and pool: "k_pool S1 = k_pool S" for a
      using cr by blast+
    have ok1: "block_ok blk S1" by (rule block_okI [OF ok]) (simp add: holds_at_def pay pool)
    have ct: "contents blk S1 = contents blk S" by (rule contents_eqI [OF ok]) (simp add: pay)
    then have po: "packet_of blk S1 = packet_of blk S" by (simp add: packet_of_def fun_eq_iff)
    obtain as where as: "q_holds q' ((xs @ map (\<lambda>row. the (b_skb blk ! nat row)) ?rows) @ as)"
      "\<forall>a \<in> set as. job_pkt ?b blk S1 (k_mem S' a)" "contents blk S' = contents blk S1" "frame S1 S'"
      "block_ok blk S'"
      using coding_job_coded [OF mixed ok1 3(2) _ fr] cr good pool by metis
    have "job_pkt ?b blk S (k_mem S' (the (b_skb blk ! nat row)))" if row: "row \<in> set ?rows" for row
    proof -
      have i: "nat row < b_len blk" using in_range row by blast
      then obtain a where at: "holds_at blk S1 (nat row) a" using ok1 unfolding block_ok_def by blast
      then have a: "b_skb blk ! nat row = Some a" "k_mem S' a = k_mem S1 a"
        using as(4) by (simp_all add: holds_at_def frame_def)
      have "plain_pkt ?b (nat row) (k_mem S1 a)" using cr row a by fastforce
      then show ?thesis
        using plain_pkt_ok [OF ok1 i at] po a by (simp add: job_pkt_def plain_pkt_def)
    qed
    moreover have "job_pkt ?b blk S1 m = job_pkt ?b blk S m" for m by (simp add: job_pkt_def po)
    ultimately have "\<forall>a \<in> set (map (\<lambda>row. the (b_skb blk ! nat row)) ?rows @ as).
        job_pkt ?b blk S (k_mem S' a)"
      using as(2) by (simp only: set_append ball_Un set_map) blast
    then show ?thesis using as(1,3,5) ct
      by (intro exI [of _ "map (\<lambda>row. the (b_skb blk ! nat row)) ?rows @ as"]) simp
  qed
qed

end
