(* ===== verification/Congestion.thy ===== *)
theory Congestion
  imports Wire
begin

text \<open>
  The state of one path of the server, \<open>Substream_Path\<close> of \<open>src/srvctcp.h\<close>, and the
  functions of \<open>src/srvctcp.c\<close> that control its rate: \<open>init_stream\<close>, \<open>timeout\<close>, the
  round-trip and loss estimators of \<open>handle_ack\<close>, \<open>loss_occurred\<close>, \<open>decrease_cwnd\<close>,
  \<open>constrain_cwnd\<close> and \<open>advance_cwnd\<close>.  Windows and sequence numbers are 32-bit words and
  wrap; \<open>double\<close> is \<open>real\<close>; a call of \<open>getTime\<close> is the argument \<open>now\<close>.
\<close>

section \<open>State\<close>

datatype srvpath = SYN_RECV | SYN_ACK_SENT | ESTABLISHED | FIN_SENT | FIN_ACK_RECV | FIN_RECV | FIN_ACK_SENT | CLOSING

type_synonym sockaddr = "nat \<times> u16 \<times> u32"

record path =
  OnFly :: "u32 list"
  tx_time :: "real list"
  packets_sent :: "int list"
  last_ack_time :: real
  last_ack_time_user :: real
  snd_nxt :: u32
  snd_una :: u32
  snd_cwnd :: u32
  snd_ssthresh :: u32
  idle :: int
  srtt :: real
  srtt_user :: real
  rttvar :: real
  mdev :: real
  mdev_max :: real
  rto :: real
  slr :: real
  slr_long :: real
  slr_longstd :: real
  cli_addr :: sockaddr
  total_loss :: int
  minrtt :: real
  maxrtt :: real
  basertt :: real
  p_rtt :: real
  avrgrtt :: real
  vdecr :: int
  v0 :: int
  max_delta :: real
  cntrtt :: u32
  dec_snd_nxt :: u32
  toggle :: int
  beg_snd_nxt :: u32
  beg_snd_una :: u32
  time_snd_nxt :: real
  rate :: real
  goodput :: real
  losscnt :: int
  pathstate :: srvpath

datatype cc = Aimd | Vegas | OtherCC

text \<open>The configuration of \<open>srvctcp_sock\<close>.\<close>

record cfg =
  SLR_scaling :: real
  maxidle :: int
  rcvrwin :: int
  increment :: int
  multiplier :: real
  ssincr :: int
  initsegs :: int
  valpha :: int
  vbeta :: int
  cong_control :: cc

definition default_cfg :: "real \<Rightarrow> cc \<Rightarrow> cfg" where
  "default_cfg scaling cong =
    \<lparr>SLR_scaling = scaling, maxidle = 10, rcvrwin = 20, increment = 1, multiplier = 0.85,
     ssincr = 1, initsegs = 8, valpha = 2, vbeta = 4, cong_control = cong\<rparr>"

section \<open>Constants and conversions\<close>

definition RTO_BIAS :: real where "RTO_BIAS = 0.010"
definition INIT_RTO :: real where "INIT_RTO = 1"
definition RTO_MIN :: real where "RTO_MIN = 0.2"
definition SLR_LONG_INIT :: real where "SLR_LONG_INIT = 0.05"
definition slr_mem :: real where "slr_mem = 1 / 128"
definition slr_longmem :: real where "slr_longmem = 1 / real (BLOCK_SIZE * 10)"
definition g_rtt :: real where "g_rtt = 1 / real (BLOCK_SIZE div 5)"

text \<open>Conversion of a \<open>double\<close> to an integer type truncates.\<close>

definition c_trunc :: "real \<Rightarrow> int" where
  "c_trunc r = (if 0 \<le> r then \<lfloor>r\<rfloor> else \<lceil>r\<rceil>)"

definition c_u32 :: "real \<Rightarrow> u32" where
  "c_u32 r = of_int (c_trunc r)"

abbreviation r32 :: "u32 \<Rightarrow> real" where
  "r32 w \<equiv> real (unat w)"

section \<open>A new path\<close>

definition init_stream :: "cfg \<Rightarrow> path \<Rightarrow> path" where
  "init_stream c p = p\<lparr>
    packets_sent := replicate NUM_BLOCKS 0,
    OnFly := replicate MAX_CWND 0,
    tx_time := replicate MAX_CWND 0,
    last_ack_time := 0,
    snd_nxt := 1,
    snd_una := 1,
    snd_cwnd := of_int (initsegs c),
    cntrtt := 0,
    toggle := 1,
    losscnt := 0,
    beg_snd_nxt := 0,
    beg_snd_una := 0,
    dec_snd_nxt := 0,
    snd_ssthresh := (if multiplier c \<noteq> 0 then c_u32 (multiplier c * real MAX_CWND) else 2147483647),
    idle := 0,
    max_delta := 0,
    vdecr := 0,
    v0 := 0,
    minrtt := 999999,
    basertt := 999999,
    maxrtt := 0,
    avrgrtt := 0,
    srtt := 0,
    p_rtt := 0,
    rto := INIT_RTO,
    slr := 0,
    slr_long := SLR_LONG_INIT,
    slr_longstd := 0,
    total_loss := 0\<rparr>"

section \<open>Timeouts\<close>

text \<open>The flag is the result of the C function: false for a dead path.\<close>

definition timeout :: "cfg \<Rightarrow> path \<Rightarrow> path \<times> bool" where
  "timeout c p =
    (if maxidle c < idle p then (p, False)
     else
       let p = p\<lparr>idle := idle p + 1, slr := slr_long p, rto := 2 * rto p\<rparr> in
       if snd_nxt p \<noteq> snd_una p then
         let p = p\<lparr>snd_ssthresh := c_u32 (r32 (snd_cwnd p) * multiplier c)\<rparr>;
             p = (if snd_ssthresh p < of_int (initsegs c)
                  then p\<lparr>snd_ssthresh := of_int (initsegs c)\<rparr> else p)
         in (p\<lparr>snd_cwnd := of_int (initsegs c), snd_una := snd_nxt p\<rparr>, True)
       else (p, True))"

section \<open>The estimators of handle_ack\<close>

text \<open>
  Round-trip time and retransmission timeout, in the order of the code: the extremes, the
  deviation, the smoothed values.  \<open>tstamp\<close> is the time echoed by the ack.
\<close>

definition rtt_sample :: "real \<Rightarrow> path \<Rightarrow> path" where
  "rtt_sample rtt p = p\<lparr>
     p_rtt := rtt,
     basertt := (if rtt < basertt p then rtt else basertt p),
     minrtt := (if rtt < minrtt p then rtt else minrtt p),
     maxrtt := (if rtt > maxrtt p then rtt else maxrtt p),
     avrgrtt := avrgrtt p + rtt\<rparr>"

definition rtt_deviation :: "real \<Rightarrow> path \<Rightarrow> path" where
  "rtt_deviation rtt p =
    (let m = rtt - srtt p;
         m = (if m < 0 then (if - m > mdev p then - m / 8 else - m) else m);
         md = 0.75 * mdev p + 0.25 * m
     in if md > mdev_max p
        then p\<lparr>mdev := md, mdev_max := md, rttvar := (if md > rttvar p then md else rttvar p)\<rparr>
        else p\<lparr>mdev := md\<rparr>)"

definition rtt_smooth :: "real \<Rightarrow> path \<Rightarrow> path" where
  "rtt_smooth rtt p =
    (let sr = (1 - g_rtt) * srtt p + g_rtt * rtt;
         rv = (if cntrtt p = 0 \<and> mdev_max p < rttvar p
               then 0.75 * rttvar p + 0.25 * mdev_max p else rttvar p)
     in p\<lparr>srtt := sr, rttvar := rv,
          mdev_max := (if cntrtt p = 0 then RTO_MIN / 4 else mdev_max p),
          rto := sr + 4 * rv,
          srtt_user := (1 - g_rtt) * srtt_user p + g_rtt * last_ack_time_user p,
          cntrtt := cntrtt p + 1\<rparr>)"

definition rtt_update :: "real \<Rightarrow> path \<Rightarrow> path" where
  "rtt_update tstamp p =
    (let rtt = last_ack_time p - tstamp in rtt_smooth rtt (rtt_deviation rtt (rtt_sample rtt p)))"

text \<open>A good ack: the packets between \<open>snd_una\<close> and \<open>ackno\<close> count as lost.\<close>

definition good_ack :: "u32 \<Rightarrow> path \<Rightarrow> path" where
  "good_ack ackno p =
    (let losses = sint (ackno - (snd_una p + 1));
         p = p\<lparr>losscnt := losscnt p + losses, total_loss := total_loss p + losses\<rparr>;
         loss_tmp = (1 - slr_mem) powi losses;
         p = p\<lparr>slr := loss_tmp * (1 - slr_mem) * slr p + (1 - loss_tmp)\<rparr>;
         loss_tmp = (1 - slr_longmem) powi losses;
         p = p\<lparr>slr_long := loss_tmp * (1 - slr_longmem) * slr_long p + (1 - loss_tmp)\<rparr>;
         p = p\<lparr>slr_longstd := (1 - slr_longmem) * slr_longstd p +
                slr_longmem * (\<bar>slr p - slr_long p\<bar> - slr_longstd p)\<rparr>
     in p\<lparr>snd_una := ackno\<rparr>)"

section \<open>The window\<close>

definition loss_occurred :: "path \<Rightarrow> bool" where
  "loss_occurred p \<longleftrightarrow> losscnt p > 0 \<and> (srtt p - basertt p > 0.005 \<or> minrtt p - basertt p > 0.002)"

definition decrease_cwnd :: "path \<Rightarrow> path" where
  "decrease_cwnd p =
    (if snd_una p \<le> dec_snd_nxt p then p
     else
       let p = p\<lparr>dec_snd_nxt := snd_una p + snd_cwnd p\<rparr>;
           p = p\<lparr>snd_cwnd := snd_cwnd p - of_int (toggle p)\<rparr>;
           p = (if cntrtt p > 2 then
                  let decrease = c_trunc (0.5 + r32 (snd_cwnd p) * (1 - basertt p / minrtt p));
                      half = c_trunc (0.5 + r32 (snd_cwnd p div 2));
                      decrease = (if decrease > half then half else decrease)
                  in p\<lparr>snd_cwnd := snd_cwnd p - of_int decrease\<rparr>
                else p\<lparr>snd_cwnd := snd_cwnd p div 2\<rparr>);
           p = (if snd_cwnd p < 2 then p\<lparr>snd_cwnd := 2\<rparr> else p)
       in p\<lparr>snd_ssthresh := c_u32 (0.75 * r32 (snd_cwnd p))\<rparr>)"

definition constrain_cwnd :: "path \<Rightarrow> path" where
  "constrain_cwnd p =
    (let p = (if of_nat MAX_CWND < snd_cwnd p then p\<lparr>snd_cwnd := of_nat MAX_CWND\<rparr> else p)
     in if snd_cwnd p < 2 then p\<lparr>snd_cwnd := 2\<rparr> else p)"

definition raise_ssthresh :: "path \<Rightarrow> path" where
  "raise_ssthresh p =
    (if r32 (snd_ssthresh p) < 0.75 * r32 (snd_cwnd p)
     then p\<lparr>snd_ssthresh := c_u32 (0.75 * r32 (snd_cwnd p))\<rparr> else p)"

text \<open>Leaving slow start, the same three lines in both algorithms.\<close>

definition exit_slow_start :: "u32 \<Rightarrow> path \<Rightarrow> path" where
  "exit_slow_start target_cwnd p =
    (let p = (if target_cwnd + 1 < snd_cwnd p then p\<lparr>snd_cwnd := target_cwnd + 1\<rparr> else p)
     in if snd_cwnd p - 1 < snd_ssthresh p then p\<lparr>snd_ssthresh := snd_cwnd p - 1\<rparr> else p)"

definition advance_aimd :: "path \<Rightarrow> path" where
  "advance_aimd p =
    (let target_cwnd = c_u32 (r32 (snd_cwnd p) * basertt p / srtt p);
         diff = snd_cwnd p - target_cwnd;
         p = (if diff > 1 \<and> snd_cwnd p \<le> snd_ssthresh p then exit_slow_start target_cwnd p
              else if dec_snd_nxt p < snd_una p then p\<lparr>snd_cwnd := snd_cwnd p + of_int (toggle p)\<rparr>
              else p);
         p = (if loss_occurred p then decrease_cwnd p else p)
     in raise_ssthresh (constrain_cwnd p))"

definition advance_vegas :: "cfg \<Rightarrow> path \<Rightarrow> path" where
  "advance_vegas c p =
    (if cntrtt p \<le> 2 then p\<lparr>snd_cwnd := snd_cwnd p + 1\<rparr>
     else
       let rtt = (if snd_cwnd p \<le> snd_ssthresh p then srtt p else minrtt p);
           target_cwnd = c_u32 (r32 (snd_cwnd p) * basertt p / rtt);
           diff = snd_cwnd p - target_cwnd;
           p = (if r32 diff > max_delta p then p\<lparr>max_delta := r32 diff\<rparr> else p);
           p = (if diff > 1 \<and> snd_cwnd p \<le> snd_ssthresh p then exit_slow_start target_cwnd p
                else if snd_cwnd p \<le> snd_ssthresh p then p\<lparr>snd_cwnd := snd_cwnd p + 1\<rparr>
                else if diff > of_int (vbeta c) then
                  let p = p\<lparr>snd_cwnd := snd_cwnd p - 1, vdecr := vdecr p + 1\<rparr>
                  in if snd_cwnd p - 1 < snd_ssthresh p then p\<lparr>snd_ssthresh := snd_cwnd p - 1\<rparr> else p
                else if diff < of_int (valpha c) then p\<lparr>snd_cwnd := snd_cwnd p + 1\<rparr>
                else p\<lparr>v0 := v0 p + 1\<rparr>)
       in raise_ssthresh (constrain_cwnd p))"

definition advance_cwnd :: "real \<Rightarrow> cfg \<Rightarrow> path \<Rightarrow> path" where
  "advance_cwnd now c p =
    constrain_cwnd
     (if beg_snd_nxt p \<le> snd_una p then
        let p = p\<lparr>rate := r32 (snd_una p - beg_snd_una p) / (now - time_snd_nxt p),
                  beg_snd_nxt := snd_una p + snd_cwnd p,
                  beg_snd_una := snd_una p,
                  time_snd_nxt := now\<rparr>;
            p = (case cong_control c of
                   Aimd \<Rightarrow> advance_aimd p
                 | Vegas \<Rightarrow> advance_vegas c p
                 | OtherCC \<Rightarrow> p)
        in p\<lparr>cntrtt := 0, toggle := 1, minrtt := 999999, losscnt := 0\<rparr>
      else if snd_cwnd p \<le> snd_ssthresh p then
        (case cong_control c of OtherCC \<Rightarrow> p | _ \<Rightarrow> p\<lparr>snd_cwnd := snd_cwnd p + 1\<rparr>)
      else p)"

section \<open>Bounds\<close>

lemma constrain_bounds:
  "2 \<le> snd_cwnd (constrain_cwnd p)" "snd_cwnd (constrain_cwnd p) \<le> of_nat MAX_CWND"
  by (auto simp: constrain_cwnd_def MAX_CWND_def Let_def word_le_nat_alt word_less_nat_alt)

lemma constrain_id: "2 \<le> snd_cwnd p \<Longrightarrow> snd_cwnd p \<le> of_nat MAX_CWND \<Longrightarrow> constrain_cwnd p = p"
  by (auto simp: constrain_cwnd_def Let_def)

lemma advance_cwnd_bounds:
  "2 \<le> snd_cwnd (advance_cwnd now c p)" "snd_cwnd (advance_cwnd now c p) \<le> of_nat MAX_CWND"
  unfolding advance_cwnd_def by (rule constrain_bounds)+

text \<open>A path keeps its position in the sequence space; only the windows change.\<close>

lemma constrain_frame [srv_simps]: "snd_una (constrain_cwnd p) = snd_una p" "snd_nxt (constrain_cwnd p) = snd_nxt p"
  "pathstate (constrain_cwnd p) = pathstate p" "idle (constrain_cwnd p) = idle p"
  by (simp_all add: constrain_cwnd_def Let_def)

lemma raise_ssthresh_frame [srv_simps]: "snd_una (raise_ssthresh p) = snd_una p"
  "snd_nxt (raise_ssthresh p) = snd_nxt p" "pathstate (raise_ssthresh p) = pathstate p"
  "snd_cwnd (raise_ssthresh p) = snd_cwnd p" "idle (raise_ssthresh p) = idle p"
  by (simp_all add: raise_ssthresh_def)

lemma exit_slow_start_frame [srv_simps]: "snd_una (exit_slow_start t p) = snd_una p"
  "snd_nxt (exit_slow_start t p) = snd_nxt p" "pathstate (exit_slow_start t p) = pathstate p"
  "idle (exit_slow_start t p) = idle p"
  by (simp_all add: exit_slow_start_def Let_def)

lemma decrease_cwnd_frame [srv_simps]: "snd_una (decrease_cwnd p) = snd_una p"
  "snd_nxt (decrease_cwnd p) = snd_nxt p" "pathstate (decrease_cwnd p) = pathstate p"
  "idle (decrease_cwnd p) = idle p"
  by (simp_all add: decrease_cwnd_def Let_def)

lemma advance_aimd_frame [srv_simps]: "snd_una (advance_aimd p) = snd_una p"
  "snd_nxt (advance_aimd p) = snd_nxt p" "pathstate (advance_aimd p) = pathstate p"
  "idle (advance_aimd p) = idle p"
  by (simp_all add: advance_aimd_def Let_def srv_simps)

lemma advance_vegas_frame [srv_simps]: "snd_una (advance_vegas c p) = snd_una p"
  "snd_nxt (advance_vegas c p) = snd_nxt p" "pathstate (advance_vegas c p) = pathstate p"
  "idle (advance_vegas c p) = idle p"
  by (simp_all add: advance_vegas_def Let_def srv_simps)

lemma advance_cwnd_frame [srv_simps]: "snd_una (advance_cwnd now c p) = snd_una p"
  "snd_nxt (advance_cwnd now c p) = snd_nxt p" "pathstate (advance_cwnd now c p) = pathstate p"
  "idle (advance_cwnd now c p) = idle p"
  by (simp_all add: advance_cwnd_def Let_def srv_simps split: cc.splits)

section \<open>Estimators\<close>

lemma rtt_sample_frame [srv_simps]: "snd_una (rtt_sample t p) = snd_una p" "snd_nxt (rtt_sample t p) = snd_nxt p"
  "snd_cwnd (rtt_sample t p) = snd_cwnd p" "pathstate (rtt_sample t p) = pathstate p"
  "slr (rtt_sample t p) = slr p" "slr_long (rtt_sample t p) = slr_long p" "idle (rtt_sample t p) = idle p"
  "packets_sent (rtt_sample t p) = packets_sent p" "cli_addr (rtt_sample t p) = cli_addr p" "srtt (rtt_sample t p) = srtt p"
  by (simp_all add: rtt_sample_def)

lemma rtt_deviation_frame [srv_simps]: "snd_una (rtt_deviation t p) = snd_una p" "snd_nxt (rtt_deviation t p) = snd_nxt p"
  "snd_cwnd (rtt_deviation t p) = snd_cwnd p" "pathstate (rtt_deviation t p) = pathstate p"
  "slr (rtt_deviation t p) = slr p" "slr_long (rtt_deviation t p) = slr_long p" "idle (rtt_deviation t p) = idle p"
  "packets_sent (rtt_deviation t p) = packets_sent p" "cli_addr (rtt_deviation t p) = cli_addr p" "srtt (rtt_deviation t p) = srtt p"
  "basertt (rtt_deviation t p) = basertt p"
  by (simp_all add: rtt_deviation_def Let_def)

lemma rtt_smooth_frame [srv_simps]: "snd_una (rtt_smooth t p) = snd_una p" "snd_nxt (rtt_smooth t p) = snd_nxt p"
  "snd_cwnd (rtt_smooth t p) = snd_cwnd p" "pathstate (rtt_smooth t p) = pathstate p"
  "slr (rtt_smooth t p) = slr p" "slr_long (rtt_smooth t p) = slr_long p" "idle (rtt_smooth t p) = idle p"
  "packets_sent (rtt_smooth t p) = packets_sent p" "cli_addr (rtt_smooth t p) = cli_addr p"
  "basertt (rtt_smooth t p) = basertt p" "srtt (rtt_smooth t p) = (1 - g_rtt) * srtt p + g_rtt * t"
  "rto (rtt_smooth t p) = srtt (rtt_smooth t p) + 4 * rttvar (rtt_smooth t p)"
  by (simp_all add: rtt_smooth_def Let_def)

lemma rtt_update_srtt: "srtt (rtt_update t p) = (1 - g_rtt) * srtt p + g_rtt * (last_ack_time p - t)"
  by (simp add: rtt_update_def Let_def srv_simps)

lemma rtt_update_base: "basertt (rtt_update t p) = min (basertt p) (last_ack_time p - t)"
  by (simp add: rtt_update_def Let_def srv_simps) (simp add: rtt_sample_def)

lemma rtt_update_rto: "rto (rtt_update t p) = srtt (rtt_update t p) + 4 * rttvar (rtt_update t p)"
  by (simp add: rtt_update_def Let_def srv_simps)

lemma rtt_update_frame [srv_simps]: "snd_una (rtt_update t p) = snd_una p" "snd_nxt (rtt_update t p) = snd_nxt p"
  "snd_cwnd (rtt_update t p) = snd_cwnd p" "pathstate (rtt_update t p) = pathstate p"
  "slr (rtt_update t p) = slr p" "slr_long (rtt_update t p) = slr_long p" "idle (rtt_update t p) = idle p"
  "packets_sent (rtt_update t p) = packets_sent p" "cli_addr (rtt_update t p) = cli_addr p"
  by (simp_all add: rtt_update_def Let_def srv_simps)

text \<open>The smoothed time lies between its old value and the sample.\<close>

lemma srtt_between:
  "min (srtt p) (last_ack_time p - t) \<le> srtt (rtt_update t p)"
  "srtt (rtt_update t p) \<le> max (srtt p) (last_ack_time p - t)"
proof -
  have g: "0 \<le> g_rtt" "g_rtt \<le> 1" by (simp_all add: g_rtt_def BLOCK_SIZE_def)
  let ?a = "srtt p" and ?b = "last_ack_time p - t"
  have "min ?a ?b = (1 - g_rtt) * min ?a ?b + g_rtt * min ?a ?b" by (simp add: algebra_simps)
  also have "\<dots> \<le> (1 - g_rtt) * ?a + g_rtt * ?b" using g by (intro add_mono mult_left_mono) auto
  finally show "min ?a ?b \<le> srtt (rtt_update t p)" by (simp add: rtt_update_srtt)
  have "(1 - g_rtt) * ?a + g_rtt * ?b \<le> (1 - g_rtt) * max ?a ?b + g_rtt * max ?a ?b"
    using g by (intro add_mono mult_left_mono) auto
  also have "\<dots> = max ?a ?b" by (simp add: algebra_simps)
  finally show "srtt (rtt_update t p) \<le> max ?a ?b" by (simp add: rtt_update_srtt)
qed

text \<open>The loss rates stay probabilities.\<close>

definition prob :: "real \<Rightarrow> bool" where
  "prob x \<longleftrightarrow> 0 \<le> x \<and> x \<le> 1"

lemma mix_prob:
  assumes a: "prob a" and b: "prob b" and x: "prob x"
  shows "prob (a * b * x + (1 - a))"
proof -
  have "0 \<le> a * b * x" using assms by (simp add: prob_def)
  moreover have "b * x \<le> 1" using b x by (simp add: prob_def mult_le_one)
  then have "a * (b * x) \<le> a * 1" using a by (intro mult_left_mono) (simp_all add: prob_def)
  ultimately show ?thesis using a by (simp add: prob_def mult.assoc)
qed

lemma power_prob: "prob a \<Longrightarrow> 0 \<le> n \<Longrightarrow> prob (a powi n)"
  by (simp add: prob_def power_int_def power_le_one)

lemma good_ack_slr:
  assumes "prob (slr p)" "prob (slr_long p)" "0 \<le> sint (ackno - (snd_una p + 1))"
  shows "prob (slr (good_ack ackno p))" "prob (slr_long (good_ack ackno p))"
proof -
  have m: "prob (1 - slr_mem)" "prob (1 - slr_longmem)"
    by (simp_all add: prob_def slr_mem_def slr_longmem_def BLOCK_SIZE_def)
  show "prob (slr (good_ack ackno p))" "prob (slr_long (good_ack ackno p))"
    using mix_prob power_prob m assms by (simp_all add: good_ack_def Let_def)
qed

lemma good_ack_frame [srv_simps]: "snd_una (good_ack a p) = a" "snd_nxt (good_ack a p) = snd_nxt p"
  "snd_cwnd (good_ack a p) = snd_cwnd p" "pathstate (good_ack a p) = pathstate p" "idle (good_ack a p) = idle p"
  by (simp_all add: good_ack_def Let_def)

section \<open>Timeouts and back-off\<close>

lemma timeout_dead: "snd (timeout c p) = False \<longleftrightarrow> maxidle c < idle p"
  by (simp add: timeout_def Let_def)

lemma timeout_alive:
  assumes "idle p \<le> maxidle c"
  shows "idle (fst (timeout c p)) = idle p + 1" "rto (fst (timeout c p)) = 2 * rto p"
    and "snd_una (fst (timeout c p)) = snd_nxt p" "snd_nxt (fst (timeout c p)) = snd_nxt p"
    and "snd_nxt p \<noteq> snd_una p \<Longrightarrow> snd_cwnd (fst (timeout c p)) = of_int (initsegs c)"
    and "snd_nxt p \<noteq> snd_una p \<Longrightarrow> of_int (initsegs c) \<le> snd_ssthresh (fst (timeout c p))"
  using assms by (auto simp: timeout_def Let_def)

text \<open>A path that hears nothing is given up after \<open>maxidle + 1\<close> timeouts.\<close>

lemma timeouts_idle:
  "idle p + int n \<le> maxidle c + 1 \<Longrightarrow> idle (((\<lambda>p. fst (timeout c p)) ^^ n) p) = idle p + int n"
  by (induction n) (auto simp: timeout_alive(1))

lemma silent_path_dies:
  assumes "idle p = 0" "0 \<le> maxidle c"
  shows "snd (timeout c (((\<lambda>p. fst (timeout c p)) ^^ nat (maxidle c + 1)) p)) = False"
  using timeouts_idle [of p "nat (maxidle c + 1)" c] assms
  by (simp only: timeout_dead)

lemma decrease_once:
  assumes "snd_una p \<le> snd_una p + snd_cwnd p"
  shows "decrease_cwnd (decrease_cwnd p) = decrease_cwnd p"
proof (cases "snd_una p \<le> dec_snd_nxt p")
  case True
  then show ?thesis by (simp add: decrease_cwnd_def)
next
  case False
  then have "dec_snd_nxt (decrease_cwnd p) = snd_una p + snd_cwnd p"
    by (simp add: decrease_cwnd_def Let_def)
  then have "snd_una (decrease_cwnd p) \<le> dec_snd_nxt (decrease_cwnd p)"
    using assms by (simp add: decrease_cwnd_frame)
  then show ?thesis by (simp add: decrease_cwnd_def)
qed

text \<open>
  The Vegas test for leaving slow start subtracts unsigned numbers: when the smoothed time
  is below the base time the target exceeds the window, the difference wraps to a large
  number and slow start ends although there is no queueing delay.
\<close>

lemma aimd_spurious_exit:
  assumes "snd_cwnd p \<le> snd_ssthresh p" "2 \<le> snd_cwnd p" "snd_cwnd p \<le> of_nat MAX_CWND"
    and over: "snd_cwnd p < c_u32 (r32 (snd_cwnd p) * basertt p / srtt p)"
      "c_u32 (r32 (snd_cwnd p) * basertt p / srtt p) \<le> of_nat MAX_CWND"
    and "losscnt p = 0"
  shows "snd_cwnd (advance_aimd p) = snd_cwnd p"
    and "snd_ssthresh (advance_aimd p) < snd_cwnd p"
proof -
  let ?t = "c_u32 (r32 (snd_cwnd p) * basertt p / srtt p)"
  have small: "unat ?t \<le> 1000" "unat (snd_cwnd p) \<le> 1000" and lt: "unat (snd_cwnd p) < unat ?t"
    using assms(3) over by (simp_all add: word_le_nat_alt word_less_nat_alt MAX_CWND_def)
  have diff: "snd_cwnd p - ?t > 1"
  proof -
    have "unat (snd_cwnd p - ?t) = 2 ^ 32 - (unat ?t - unat (snd_cwnd p))"
      using lt small by (simp add: unat_sub_if' )
    then show ?thesis using small lt by (simp add: word_less_nat_alt)
  qed
  have "unat (?t + 1) = unat ?t + 1"
    using unat_add_lem [of ?t 1] small by simp
  then have t1: "\<not> ?t + 1 < snd_cwnd p" using lt by (simp add: word_less_nat_alt)
  have c1: "unat (snd_cwnd p - 1) = unat (snd_cwnd p) - 1"
    using assms(2) by (simp add: unat_sub word_le_nat_alt)
  then have le: "snd_cwnd p - 1 < snd_ssthresh p"
    using assms(1,2) by (simp add: word_less_nat_alt word_le_nat_alt)
  have ex: "exit_slow_start ?t p = p\<lparr>snd_ssthresh := snd_cwnd p - 1\<rparr>"
    using t1 le by (simp add: exit_slow_start_def)
  let ?q = "p\<lparr>snd_ssthresh := snd_cwnd p - 1\<rparr>"
  have nl: "\<not> loss_occurred ?q" using assms(6) by (simp add: loss_occurred_def)
  have "constrain_cwnd ?q = ?q" using assms(2,3) by (intro constrain_id) simp_all
  then have res: "advance_aimd p = raise_ssthresh ?q"
    using diff assms(1) ex nl by (simp add: advance_aimd_def Let_def)
  then show "snd_cwnd (advance_aimd p) = snd_cwnd p" by (simp add: raise_ssthresh_frame)
  have pos: "1 \<le> unat (snd_cwnd p)" using assms(2) by (simp add: word_le_nat_alt)
  have ge: "0 \<le> 0.75 * r32 (snd_cwnd p)"
    by (rule mult_nonneg_nonneg) (simp, rule of_nat_0_le_iff)
  have tr: "c_trunc (0.75 * r32 (snd_cwnd p)) = \<lfloor>0.75 * r32 (snd_cwnd p)\<rfloor>"
    unfolding c_trunc_def using ge by argo
  have fl: "0 \<le> \<lfloor>0.75 * r32 (snd_cwnd p)\<rfloor>" "\<lfloor>0.75 * r32 (snd_cwnd p)\<rfloor> < int (unat (snd_cwnd p))"
  proof -
    show "0 \<le> \<lfloor>0.75 * r32 (snd_cwnd p)\<rfloor>" using ge by (simp only: zero_le_floor)
    have "real 1 \<le> r32 (snd_cwnd p)" using pos by (simp only: of_nat_le_iff)
    moreover have "0.75 * x < x" if "real 1 \<le> x" for x :: real using that by simp
    ultimately have "0.75 * r32 (snd_cwnd p) < r32 (snd_cwnd p)" by blast
    then show "\<lfloor>0.75 * r32 (snd_cwnd p)\<rfloor> < int (unat (snd_cwnd p))"
      by (simp only: floor_less_iff of_int_of_nat_eq)
  qed
  have word: "int (unat (of_int k :: u32)) = k" if "0 \<le> k" "k < 1000" for k
    using that by (simp add: unsigned_of_int take_bit_int_eq_self)
  have "\<lfloor>0.75 * r32 (snd_cwnd p)\<rfloor> < 1000" using fl(2) small(2) by linarith
  from word [OF fl(1) this] have "int (unat (c_u32 (0.75 * r32 (snd_cwnd p)))) = \<lfloor>0.75 * r32 (snd_cwnd p)\<rfloor>"
    by (simp only: c_u32_def tr)
  then have "unat (c_u32 (0.75 * r32 (snd_cwnd p))) < unat (snd_cwnd p)" using fl by linarith
  then have low: "c_u32 (0.75 * r32 (snd_cwnd p)) < snd_cwnd p" by (simp only: word_less_nat_alt)
  have q: "snd_cwnd ?q = snd_cwnd p" "snd_ssthresh ?q = snd_cwnd p - 1"
    "snd_ssthresh (?q\<lparr>snd_ssthresh := x\<rparr>) = x" for x by simp_all
  have "snd_cwnd p - 1 < snd_cwnd p" using c1 pos by (simp add: word_less_nat_alt)
  with low show "snd_ssthresh (advance_aimd p) < snd_cwnd p"
    unfolding res raise_ssthresh_def q
    by (cases "r32 (snd_cwnd p - 1) < 0.75 * r32 (snd_cwnd p)") (simp_all only: if_True if_False q)
qed

end
