(* ===== verification/ThrPool.thy ===== *)
theory ThrPool
  imports Qbuffer "HOL-Library.Multiset"
begin

text \<open>
  The thread pool of \<open>src/thr_pool.c\<close> (\<open>thrpool_init\<close>, \<open>addJob\<close>, \<open>takeJob\<close>,
  \<open>do_worker\<close>, \<open>thrpool_kill\<close>) over the queue of \<open>src/qbuffer.c\<close>.  A job whose
  function pointer is NULL tells one worker to exit.  Operations on the queue are single
  steps; the interleaving of the workers, of the clients and of the thread that kills the
  pool is a step relation.
\<close>

section \<open>Jobs, state and operations\<close>

datatype priority = LOW | HIGH

datatype 'j job = Job 'j | NullJob

datatype 'j worker = Idle | Busy 'j | Dead

record 'j thr_pool =
  t_nthreads :: nat
  t_job_q :: "'j job qbuffer"
  t_th :: "'j worker list"

definition thrpool_init :: "nat \<Rightarrow> 'j thr_pool" where
  "thrpool_init sz = \<lparr>t_nthreads = sz, t_job_q = q_init (2 * sz), t_th = replicate sz Idle\<rparr>"

definition addJob :: "'j thr_pool \<Rightarrow> 'j job \<Rightarrow> priority \<Rightarrow> 'j thr_pool option" where
  "addJob pool j p =
    (case p of
       HIGH \<Rightarrow> map_option (\<lambda>q. pool\<lparr>t_job_q := q\<rparr>) (q_push_front (t_job_q pool) j)
     | LOW \<Rightarrow> map_option (\<lambda>q. pool\<lparr>t_job_q := q\<rparr>) (q_push_back (t_job_q pool) j))"

text \<open>The result of \<open>takeJob\<close>: the job and whether the worker goes on.\<close>

definition takeJob :: "'j thr_pool \<Rightarrow> ('j thr_pool \<times> 'j job \<times> bool) option" where
  "takeJob pool =
    (case q_pop (t_job_q pool) of
       Some (q, Some j) \<Rightarrow> Some (pool\<lparr>t_job_q := q\<rparr>, j, j \<noteq> NullJob)
     | _ \<Rightarrow> None)"

text \<open>One turn of the loop of \<open>do_worker\<close> up to the call of the job's function.\<close>

definition worker_take :: "'j thr_pool \<Rightarrow> nat \<Rightarrow> 'j thr_pool option" where
  "worker_take pool i =
    (case takeJob pool of
       None \<Rightarrow> None
     | Some (pool', j, alive) \<Rightarrow>
         Some (pool'\<lparr>t_th := (t_th pool')[i := (case j of Job a \<Rightarrow> Busy a | NullJob \<Rightarrow> Dead)]\<rparr>))"

text \<open>
  A run of the pool: \<open>sub\<close> are the jobs clients submitted, \<open>exe\<close> those that were
  executed, \<open>kill\<close> the number of NULL jobs that \<open>thrpool_kill\<close> still has to add
  (\<open>None\<close> before it is called).  After \<open>thrpool_kill\<close> starts no client adds a job:
  its caller closes the connection.
\<close>

inductive pool_run :: "nat \<Rightarrow> 'j thr_pool \<Rightarrow> 'j list \<Rightarrow> 'j list \<Rightarrow> nat option \<Rightarrow> bool" for sz where
  pool_start: "pool_run sz (thrpool_init sz) [] [] None"
| pool_add: "pool_run sz P sub exe None \<Longrightarrow> addJob P (Job a) p = Some P' \<Longrightarrow>
    pool_run sz P' (a # sub) exe None"
| pool_take: "pool_run sz P sub exe kill \<Longrightarrow> i < length (t_th P) \<Longrightarrow> t_th P ! i = Idle \<Longrightarrow>
    worker_take P i = Some P' \<Longrightarrow> pool_run sz P' sub exe kill"
| pool_exec: "pool_run sz P sub exe kill \<Longrightarrow> i < length (t_th P) \<Longrightarrow> t_th P ! i = Busy a \<Longrightarrow>
    pool_run sz (P\<lparr>t_th := (t_th P)[i := Idle]\<rparr>) sub (a # exe) kill"
| pool_kill: "pool_run sz P sub exe None \<Longrightarrow> pool_run sz P sub exe (Some (t_nthreads P))"
| pool_kill_add: "pool_run sz P sub exe (Some (Suc n)) \<Longrightarrow> addJob P NullJob LOW = Some P' \<Longrightarrow>
    pool_run sz P' sub exe (Some n)"

section \<open>Invariant\<close>

fun the_jobs :: "'j job list \<Rightarrow> 'j list" where
  "the_jobs [] = []"
| "the_jobs (Job a # js) = a # the_jobs js"
| "the_jobs (NullJob # js) = the_jobs js"

fun busy_jobs :: "'j worker list \<Rightarrow> 'j list" where
  "busy_jobs [] = []"
| "busy_jobs (Busy a # ws) = a # busy_jobs ws"
| "busy_jobs (_ # ws) = busy_jobs ws"

definition dead_count :: "'j worker list \<Rightarrow> nat" where
  "dead_count ws = length (filter (\<lambda>w. case w of Dead \<Rightarrow> True | _ \<Rightarrow> False) ws)"

text \<open>
  The queue holds real jobs followed by NULL jobs; every submitted job is queued, being
  executed or executed; a worker only stops after the real jobs are taken; NULL jobs, dead workers and the NULL jobs still to be added make
  up the number of threads.
\<close>

definition pool_inv :: "nat \<Rightarrow> 'j thr_pool \<Rightarrow> 'j list \<Rightarrow> 'j list \<Rightarrow> nat option \<Rightarrow> bool" where
  "pool_inv sz P sub exe kill \<longleftrightarrow>
    (\<exists>js n. q_holds (t_job_q P) (map Job js @ replicate n NullJob) \<and>
      mset sub = mset js + mset (busy_jobs (t_th P)) + mset exe \<and>
      t_nthreads P = sz \<and> length (t_th P) = sz \<and> (js = [] \<or> dead_count (t_th P) = 0) \<and>
      (case kill of None \<Rightarrow> n = 0 \<and> dead_count (t_th P) = 0
       | Some k \<Rightarrow> n + dead_count (t_th P) + k = sz))"

lemma busy_jobs_update:
  "i < length ws \<Longrightarrow> ws ! i = Idle \<Longrightarrow>
    mset (busy_jobs (ws[i := Busy a])) = add_mset a (mset (busy_jobs ws)) \<and>
    mset (busy_jobs (ws[i := Dead])) = mset (busy_jobs ws)"
proof (induction ws arbitrary: i)
  case Nil
  then show ?case by simp
next
  case (Cons w ws)
  then show ?case by (cases i; cases w) auto
qed

lemma busy_jobs_finish:
  "i < length ws \<Longrightarrow> ws ! i = Busy a \<Longrightarrow>
    add_mset a (mset (busy_jobs (ws[i := Idle]))) = mset (busy_jobs ws)"
proof (induction ws arbitrary: i)
  case Nil
  then show ?case by simp
next
  case (Cons w ws)
  then show ?case by (cases i; cases w) auto
qed

lemma dead_count_update:
  "i < length ws \<Longrightarrow> ws ! i \<noteq> Dead \<Longrightarrow>
    dead_count (ws[i := w]) = dead_count ws + (if w = Dead then 1 else 0)"
proof (induction ws arbitrary: i)
  case Nil
  then show ?case by simp
next
  case (Cons v ws)
  then show ?case by (cases i; cases v; cases w) (auto simp: dead_count_def)
qed

lemma dead_count_all: "dead_count ws = length ws \<longleftrightarrow> (\<forall>w \<in> set ws. w = Dead)"
proof (induction ws)
  case Nil
  then show ?case by (simp add: dead_count_def)
next
  case (Cons w ws)
  have "dead_count ws \<le> length ws" by (simp add: dead_count_def)
  then have "dead_count ws \<noteq> Suc (length ws)" by simp
  with Cons show ?case by (cases w) (auto simp: dead_count_def)
qed

lemma busy_jobs_dead: "\<forall>w \<in> set ws. w = Dead \<Longrightarrow> busy_jobs ws = []"
  by (induction ws) auto

lemma addJob_LOW:
  assumes "q_holds (t_job_q P) xs" "addJob P j LOW = Some P'"
  shows "\<exists>q. P' = P\<lparr>t_job_q := q\<rparr> \<and> q_holds q (xs @ [j])"
  using assms by (auto simp: addJob_def dest: dq.back_holds)

lemma addJob_HIGH:
  assumes "q_holds (t_job_q P) xs" "addJob P j HIGH = Some P'"
  shows "\<exists>q. P' = P\<lparr>t_job_q := q\<rparr> \<and> q_holds q (j # xs)"
  using assms by (auto simp: addJob_def dest: dq.front_holds)

lemma worker_takeE:
  assumes "q_holds (t_job_q P) xs" "worker_take P i = Some P'"
  obtains j ys q where "xs = j # ys" "q_holds q ys"
    "P' = P\<lparr>t_job_q := q, t_th := (t_th P)[i := (case j of Job a \<Rightarrow> Busy a | NullJob \<Rightarrow> Dead)]\<rparr>"
proof -
  obtain q e where pop: "q_pop (t_job_q P) = Some (q, e)"
    using assms(2) by (auto simp: worker_take_def takeJob_def split: option.splits)
  then obtain j ys where "xs = j # ys" "e = Some j" "q_holds q ys"
    using assms(1) by (metis dq.pop_SomeE)
  then show ?thesis
    using that assms(2) pop by (auto simp: worker_take_def takeJob_def)
qed

lemma pool_run_inv:
  assumes "pool_run sz P sub exe kill" and "0 < sz"
  shows "pool_inv sz P sub exe kill"
  using assms
proof (induction rule: pool_run.induct)
  case pool_start
  have "busy_jobs (replicate n Idle) = []" and "dead_count (replicate n Idle) = 0" for n
    by (induction n) (simp_all add: dead_count_def)
  moreover have "q_holds (q_init (2 * sz)) []"
    by (rule q_init_holds) (use pool_start in simp)
  ultimately show ?case
    by (auto simp: pool_inv_def thrpool_init_def intro!: exI [of _ "[]"])
next
  case (pool_add P sub exe a p P')
  then obtain js where js: "q_holds (t_job_q P) (map Job js)"
    "mset sub = mset js + mset (busy_jobs (t_th P)) + mset exe" "t_nthreads P = sz"
    "js = [] \<or> dead_count (t_th P) = 0" "length (t_th P) = sz" "dead_count (t_th P) = 0"
    by (auto simp: pool_inv_def)
  show ?case
  proof (cases p)
    case LOW
    with js pool_add.hyps(2) addJob_LOW [of P "map Job js"] obtain q
      where "P' = P\<lparr>t_job_q := q\<rparr>" "q_holds q (map Job (js @ [a]))" by fastforce
    with js show ?thesis by (auto simp: pool_inv_def intro!: exI [of _ "js @ [a]"])
  next
    case HIGH
    with js pool_add.hyps(2) addJob_HIGH [of P "map Job js"] obtain q
      where "P' = P\<lparr>t_job_q := q\<rparr>" "q_holds q (map Job (a # js))" by fastforce
    with js show ?thesis by (auto simp: pool_inv_def intro!: exI [of _ "a # js"])
  qed
next
  case (pool_take P sub exe kill i P')
  then obtain js n where js: "q_holds (t_job_q P) (map Job js @ replicate n NullJob)"
    "mset sub = mset js + mset (busy_jobs (t_th P)) + mset exe" "t_nthreads P = sz"
    "js = [] \<or> dead_count (t_th P) = 0" "length (t_th P) = sz"
    "case kill of None \<Rightarrow> n = 0 \<and> dead_count (t_th P) = 0 | Some k \<Rightarrow> n + dead_count (t_th P) + k = sz"
    by (auto simp: pool_inv_def)
  note upd = busy_jobs_update [OF pool_take.hyps(2,3)] dead_count_update [OF pool_take.hyps(2)]
  from js(1) pool_take.hyps(4) show ?case
  proof (rule worker_takeE)
    fix j ys q
    assume q: "map Job js @ replicate n NullJob = j # ys" "q_holds q ys"
      "P' = P\<lparr>t_job_q := q, t_th := (t_th P)[i := (case j of Job a \<Rightarrow> Busy a | NullJob \<Rightarrow> Dead)]\<rparr>"
    show ?thesis
    proof (cases js)
      case Nil
      then obtain k where "n = Suc k" "j = NullJob" "ys = replicate k NullJob"
        using q(1) by (cases n) auto
      with q js upd Nil pool_take.hyps(3) show ?thesis
        by (auto simp: pool_inv_def split: option.splits intro!: exI [of _ "[]"] exI [of _ k])
    next
      case (Cons a js')
      then have "j = Job a" "ys = map Job js' @ replicate n NullJob" using q(1) by auto
      with q js upd Cons pool_take.hyps(3) show ?thesis
        by (auto simp: pool_inv_def split: option.splits intro!: exI [of _ js'] exI [of _ n])
    qed
  qed
next
  case (pool_exec P sub exe kill i a)
  then obtain js n where js: "q_holds (t_job_q P) (map Job js @ replicate n NullJob)"
    "mset sub = mset js + mset (busy_jobs (t_th P)) + mset exe" "t_nthreads P = sz"
    "js = [] \<or> dead_count (t_th P) = 0" "length (t_th P) = sz"
    "case kill of None \<Rightarrow> n = 0 \<and> dead_count (t_th P) = 0 | Some k \<Rightarrow> n + dead_count (t_th P) + k = sz"
    by (auto simp: pool_inv_def)
  have "mset (busy_jobs (t_th P)) = add_mset a (mset (busy_jobs ((t_th P)[i := Idle])))"
    and "dead_count ((t_th P)[i := Idle]) = dead_count (t_th P)"
    using busy_jobs_finish [OF pool_exec.hyps(2,3)] dead_count_update [OF pool_exec.hyps(2), of Idle]
      pool_exec.hyps(3) by simp_all
  with js show ?case
    by (cases kill) (auto simp: pool_inv_def intro!: exI [of _ js] exI [of _ n])
next
  case (pool_kill P sub exe)
  then show ?case by (fastforce simp: pool_inv_def)
next
  case (pool_kill_add P sub exe n P')
  then obtain js k where js: "q_holds (t_job_q P) (map Job js @ replicate k NullJob)"
    "mset sub = mset js + mset (busy_jobs (t_th P)) + mset exe" "t_nthreads P = sz"
    "js = [] \<or> dead_count (t_th P) = 0" "length (t_th P) = sz" "k + dead_count (t_th P) + Suc n = sz"
    by (auto simp: pool_inv_def)
  from addJob_LOW [OF js(1) pool_kill_add.hyps(2)] obtain q
    where "P' = P\<lparr>t_job_q := q\<rparr>" "q_holds q (map Job js @ replicate (Suc k) NullJob)"
    by (auto simp: replicate_append_same)
  with js show ?case by (auto simp: pool_inv_def intro!: exI [of _ js] exI [of _ "Suc k"])
qed

end
