(* ===== verification/Sender.thy ===== *)
theory Sender
  imports Encoder Congestion ThrPool
begin

text \<open>
  The sending side of \<open>src/srvctcp.c\<close>: the socket \<open>srvctcp_sock\<close>, \<open>create_srvctcp_sock\<close>,
  \<open>send_ctcp\<close>, \<open>handle_ack\<close>, \<open>send_segs\<close> and \<open>send_one\<close>.  Every function runs under the
  locks the code takes and is one step.  \<open>None\<close> is a thread that waits: for room in the
  queue of the worker pool or for a coded packet.  Packets handed to \<open>sendto\<close> are logged
  in \<open>s_sent\<close>.  Block numbers are assumed below 2^31 where the code keeps them in an \<open>int\<close>.
\<close>

section \<open>State\<close>

datatype status = ACTIVE | CLOSED | SK_CLOSING
datatype ctcp_err = NONE | CLOSE_ERR | CLIHUP

record server =
  s_cfg :: cfg
  s_curr_block :: u32
  s_maxblockno :: u32
  s_dof_req_latest :: int
  s_blocks :: "block list"
  s_dof_remain :: "int list"
  s_coded_q :: "addr qbuffer list"
  s_workers :: "coding_job_t thr_pool"
  s_status :: status
  s_error :: ctcp_err
  s_coder :: coder
  s_paths :: "path list"
  s_ipkts :: int
  s_opkts :: int
  s_badacks :: int
  s_timeouts :: int
  s_goodacks :: int
  s_sent :: "(nat \<times> data_pckt) list"

definition THREADS :: nat where "THREADS = 5"
definition MAX_CONNECT :: nat where "MAX_CONNECT = 5"
definition MAX_CODING_WND :: int where "MAX_CODING_WND = 32"
definition MIN_DOF_REQUEST :: int where "MIN_DOF_REQUEST = 0"

definition create_srvctcp_sock :: "cfg \<Rightarrow> coder \<Rightarrow> server" where
  "create_srvctcp_sock c coder0 =
    \<lparr>s_cfg = c, s_curr_block = 1, s_maxblockno = 1, s_dof_req_latest = int BLOCK_SIZE,
     s_blocks = replicate NUM_BLOCKS block_init, s_dof_remain = replicate NUM_BLOCKS 0,
     s_coded_q = replicate NUM_BLOCKS (q_init (2 * BLOCK_SIZE)), s_workers = thrpool_init THREADS,
     s_status = ACTIVE, s_error = NONE, s_coder = coder0, s_paths = [],
     s_ipkts = 0, s_opkts = 0, s_badacks = 0, s_timeouts = 0, s_goodacks = 0, s_sent = []\<rparr>"

definition bslot :: "u32 \<Rightarrow> nat" where
  "bslot blockno = unat blockno mod NUM_BLOCKS"

definition upd_path :: "nat \<Rightarrow> (path \<Rightarrow> path) \<Rightarrow> server \<Rightarrow> server" where
  "upd_path i f sk = sk\<lparr>s_paths := (s_paths sk)[i := f (s_paths sk ! i)]\<rparr>"

section \<open>send_ctcp\<close>

datatype send_end = AllSent | HangUp | MustWait

text \<open>One turn of the loop with data left; the rest of the data and how the turn ends.\<close>

datatype send_turn = Stored server bytes | NextBlock server | Full | PoolWaits

definition send_step :: "(skb_pool \<Rightarrow> addr option) \<Rightarrow> server \<Rightarrow> bytes \<Rightarrow> send_turn" where
  "send_step malloc sk buf =
    (let i = s_maxblockno sk; k = bslot i; blk = s_blocks sk ! k; block_len_tmp = b_len blk in
     case readBlock malloc blk (s_coder sk) buf of
       (blk', coder', rest) \<Rightarrow>
         let sk = sk\<lparr>s_blocks := (s_blocks sk)[k := blk'], s_coder := coder'\<rparr> in
         if length rest < length buf then
           let dof_request = int (b_len blk') - int block_len_tmp;
               job = \<lparr>j_blockno = i, j_start = int block_len_tmp, j_dof_request = dof_request,
                      j_coding_wnd = 0\<rparr>;
               sk = sk\<lparr>s_dof_remain := (s_dof_remain sk)[k := s_dof_remain sk ! k + dof_request]\<rparr>
           in case addJob (s_workers sk) (Job job) LOW of
                None \<Rightarrow> PoolWaits
              | Some workers \<Rightarrow>
                  let sk = sk\<lparr>s_workers := workers\<rparr>
                  in Stored (if i = s_curr_block sk
                             then sk\<lparr>s_dof_req_latest := s_dof_req_latest sk + dof_request\<rparr> else sk) rest
         else if s_maxblockno sk < s_curr_block sk + of_nat NUM_BLOCKS then
           NextBlock (sk\<lparr>s_maxblockno := s_maxblockno sk + 1\<rparr>)
         else Full)"

lemma send_step_Stored: "send_step malloc sk buf = Stored sk' rest \<Longrightarrow>
    length rest < length buf \<and> s_maxblockno sk' = s_maxblockno sk \<and> s_curr_block sk' = s_curr_block sk"
  by (auto simp: send_step_def Let_def split: prod.splits if_splits option.splits)

lemma send_step_NextBlock: "send_step malloc sk buf = NextBlock sk' \<Longrightarrow>
    s_maxblockno sk < s_curr_block sk + of_nat NUM_BLOCKS \<and> s_maxblockno sk' = s_maxblockno sk + 1 \<and>
    s_curr_block sk' = s_curr_block sk"
  by (auto simp: send_step_def Let_def split: prod.splits if_splits option.splits)

lemma word_succ_less: "(b :: u32) < x \<Longrightarrow> unat x - unat (b + 1) < unat x - unat b"
proof -
  assume a: "b < x"
  then have "unat b < unat x" by (simp add: word_less_nat_alt)
  moreover have "unat x < 2 ^ 32" using unsigned_less [of x] by simp
  ultimately have "unat b + unat (1 :: u32) < 2 ^ LENGTH(32)" by simp
  then have "unat (b + 1) = Suc (unat b)" using unat_add_lem [of b 1] by simp
  with \<open>unat b < unat x\<close> show ?thesis by simp
qed

text \<open>
  \<open>MustWait\<close> is a full window: the code then waits on a condition for at most 100 ms and
  either returns the count so far or goes on with the rest, which is another call.
\<close>

function send_ctcp :: "(skb_pool \<Rightarrow> addr option) \<Rightarrow> server \<Rightarrow> bytes \<Rightarrow> (server \<times> bytes \<times> send_end) option" where
  "send_ctcp malloc sk buf =
    (if buf = [] then Some (sk, [], AllSent)
     else if s_status sk \<noteq> ACTIVE then Some (sk\<lparr>s_error := CLIHUP\<rparr>, buf, HangUp)
     else case send_step malloc sk buf of
       Stored sk' rest \<Rightarrow> send_ctcp malloc sk' rest
     | NextBlock sk' \<Rightarrow> send_ctcp malloc sk' buf
     | Full \<Rightarrow> Some (sk, buf, MustWait)
     | PoolWaits \<Rightarrow> None)"
  by pat_completeness auto
termination
proof (relation "measures [\<lambda>(m, sk, buf). length buf,
    \<lambda>(m, sk, buf). unat (s_curr_block sk + of_nat NUM_BLOCKS) - unat (s_maxblockno sk)]", goal_cases)
  case 1
  then show ?case by simp
next
  case (2 malloc sk buf sk' rest)
  then show ?case using send_step_Stored [of malloc sk buf sk' rest] by simp
next
  case (3 malloc sk buf sk')
  then show ?case using send_step_NextBlock [of malloc sk buf sk'] word_succ_less by simp
qed

declare send_ctcp.simps [simp del]

section \<open>handle_ack\<close>

text \<open>A block that the receiver has decoded is freed.\<close>

definition free_block_step :: "nat \<Rightarrow> server \<Rightarrow> server" where
  "free_block_step pin sk =
    (let k = bslot (s_curr_block sk); blk = s_blocks sk ! k;
         sk = upd_path pin (\<lambda>p. p\<lparr>goodput :=
                (if s_curr_block sk = 1 then real (b_len blk) else goodput p + real (b_len blk))\<rparr>) sk;
         (blk', coder') = freeBlock blk (s_coder sk);
         paths = map (\<lambda>p. p\<lparr>packets_sent := (packets_sent p)[k := 0]\<rparr>) (s_paths sk);
         (q, freed) = q_free (s_coded_q sk ! k);
         coder'' = coder'\<lparr>k_pool := fold free_skb (List.map_filter id freed) (k_pool coder')\<rparr>;
         curr_block = s_curr_block sk + 1
     in sk\<lparr>s_blocks := (s_blocks sk)[k := blk'], s_coder := coder'', s_paths := paths,
           s_dof_remain := (s_dof_remain sk)[k := 0], s_coded_q := (s_coded_q sk)[k := q],
           s_curr_block := curr_block, s_maxblockno := c_MAX curr_block (s_maxblockno sk)\<rparr>)"

lemma free_block_step_fields:
  "s_curr_block (free_block_step pin sk) = s_curr_block sk + 1"
  "s_maxblockno (free_block_step pin sk) = max (s_curr_block sk + 1) (s_maxblockno sk)"
  by (simp_all add: free_block_step_def Let_def upd_path_def c_MAX_eq_max split_def)

function free_blocks :: "u32 \<Rightarrow> nat \<Rightarrow> server \<Rightarrow> server" where
  "free_blocks blockno pin sk =
    (if s_curr_block sk < blockno then free_blocks blockno pin (free_block_step pin sk) else sk)"
  by pat_completeness auto
termination
  by (relation "measure (\<lambda>(b, pin, sk). unat b - unat (s_curr_block sk))")
    (auto simp: free_block_step_fields word_succ_less)

declare free_blocks.simps [simp del]

text \<open>
  \<open>MIN(sk->dof_req_latest, len - ack->dof_rec)\<close> compares as unsigned numbers.
\<close>

definition update_dof_req :: "bool \<Rightarrow> u8 \<Rightarrow> server \<Rightarrow> server" where
  "update_dof_req same dof_rec sk =
    (let len = of_nat (b_len (s_blocks sk ! bslot (s_curr_block sk))) :: u32;
         d = (if same then sint (c_MIN (of_int (s_dof_req_latest sk)) (len - ucast dof_rec))
              else sint (len - ucast dof_rec))
     in sk\<lparr>s_dof_req_latest := (if d < 0 then 0 else d)\<rparr>)"

text \<open>The result of the C function, 0 or -1, is the flag: more may be sent.\<close>

definition ack_path :: "real \<Rightarrow> u32 \<Rightarrow> nat \<Rightarrow> server \<Rightarrow> server" where
  "ack_path now ackno pin sk =
    (let sk = upd_path pin (\<lambda>p. p\<lparr>idle := 0\<rparr>) sk;
         sk = (if ackno \<le> snd_una (s_paths sk ! pin) then sk
               else upd_path pin (good_ack ackno) (sk\<lparr>s_goodacks := s_goodacks sk + 1\<rparr>))
     in upd_path pin (advance_cwnd now (s_cfg sk)) sk)"

definition handle_ack :: "real \<Rightarrow> real \<Rightarrow> ack_pckt \<Rightarrow> nat \<Rightarrow> server \<Rightarrow> server \<times> bool" where
  "handle_ack now tstamp ack pin sk =
    (let ackno = a_ackno ack;
         sk = upd_path pin (rtt_update tstamp) sk;
         curr_block_tmp = s_curr_block sk;
         sk = free_blocks (a_blockno ack) pin sk;
         sk = update_dof_req (curr_block_tmp = s_curr_block sk) (a_dof_rec ack) sk;
         p = s_paths sk ! pin
     in if snd_nxt p < ackno \<or> s_curr_block sk < a_blockno ack then
          (upd_path pin (\<lambda>p. if snd_una p < ackno then p\<lparr>snd_una := ackno\<rparr> else p)
             (sk\<lparr>s_badacks := s_badacks sk + 1\<rparr>), False)
        else (ack_path now ackno pin sk, True))"

section \<open>send_one\<close>

text \<open>
  The header is completed, the packet handed to \<open>sendto\<close> and, unless it is a buffer of
  the block itself, freed.  \<open>None\<close>: the queue is empty and the thread waits.  \<open>now\<close> is the
  time of sending, \<open>tstamp\<close> its 64 bits in the packet.
\<close>

definition send_one :: "real \<Rightarrow> u64 \<Rightarrow> u32 \<Rightarrow> nat \<Rightarrow> server \<Rightarrow> server option" where
  "send_one now tstamp blockno pin sk =
    (let k = bslot blockno; p = s_paths sk ! pin in
     case q_pop (s_coded_q sk ! k) of
       Some (q, Some a) \<Rightarrow>
         let msg = (k_mem (s_coder sk) a)\<lparr>d_seqno := snd_nxt p, d_tstamp := tstamp\<rparr>;
             coder' = (s_coder sk)\<lparr>k_mem := (k_mem (s_coder sk))(a := msg)\<rparr>;
             j = unat (snd_nxt p) mod MAX_CWND;
             p' = p\<lparr>OnFly := (OnFly p)[j := blockno],
                    tx_time := (tx_time p)[j := now + 1.5 * srtt p + RTO_BIAS]\<rparr>;
             coder'' = (if d_flag msg \<noteq> flag_code NORMAL
                        then coder'\<lparr>k_pool := free_skb a (k_pool coder')\<rparr> else coder')
         in Some (sk\<lparr>s_coded_q := (s_coded_q sk)[k := q], s_coder := coder'',
                     s_paths := (s_paths sk)[pin := p'], s_opkts := s_opkts sk + 1,
                     s_sent := s_sent sk @ [(pin, msg)]\<rparr>)
     | _ \<Rightarrow> None)"

text \<open>
  The loop around \<open>sendto\<close> in \<open>send_one\<close> and \<open>send_flag\<close>: \<open>errno\<close> is only set by a call
  that fails, and it is tested after every call.  The list gives the results of the calls
  (\<open>None\<close> is success); the result is how many calls are made, absent if the list is too
  short.
\<close>

definition ENOBUFS :: int where "ENOBUFS = 105"

fun sendto_loop :: "int \<Rightarrow> int option list \<Rightarrow> nat option" where
  "sendto_loop errno [] = None"
| "sendto_loop errno (r # rs) =
    (let errno = (case r of None \<Rightarrow> errno | Some e \<Rightarrow> e)
     in if errno = ENOBUFS then map_option Suc (sendto_loop errno rs) else Some 1)"

section \<open>send_segs\<close>

text \<open>
  The estimate of how many packets of a block are in flight: those of the current block
  whose expected acknowledgement time has not passed; \<open>now\<close> is \<open>current_time\<close>.  The
  means \<open>mean_rate\<close> and \<open>mean_latency\<close> of the code only feed a message and are left out.
\<close>

definition curr_on_fly :: "real \<Rightarrow> u32 \<Rightarrow> path \<Rightarrow> int" where
  "curr_on_fly now curr_block p =
    int (length (filter (\<lambda>k. OnFly p ! (k mod MAX_CWND) = curr_block \<and> now \<le> tx_time p ! (k mod MAX_CWND))
      [unat (snd_una p)..<unat (snd_nxt p)]))"

definition scaled_slr :: "cfg \<Rightarrow> path \<Rightarrow> real" where
  "scaled_slr c p = (let q = SLR_scaling c * slr p in if q > 1 then 1 else q)"

definition mean_on_fly :: "cfg \<Rightarrow> path list \<Rightarrow> int list \<Rightarrow> real" where
  "mean_on_fly c paths CurrOnFly =
    sum_list (map2 (\<lambda>p n. (1 - scaled_slr c p) * real_of_int n) paths CurrOnFly)"

function dof_loop :: "real \<Rightarrow> real \<Rightarrow> int \<Rightarrow> int \<Rightarrow> nat \<Rightarrow> nat" where
  "dof_loop p mean_OnFly dof_request win dof_needed =
    (if int dof_needed < win \<and> real dof_needed * (1 - p) + mean_OnFly < real_of_int dof_request
     then dof_loop p mean_OnFly dof_request win (dof_needed + 1) else dof_needed)"
  by pat_completeness auto
termination by (relation "measure (\<lambda>(p, m, r, win, n). nat (win - int n))") auto

declare dof_loop.simps [simp del]

text \<open>The inner loop that sends: \<open>CurrWin\<close> packets at most, while degrees remain.\<close>

definition sent_update :: "u32 \<Rightarrow> nat \<Rightarrow> server \<Rightarrow> server" where
  "sent_update blockno pin sk =
    (let k = bslot blockno in
     upd_path pin (\<lambda>p. p\<lparr>snd_nxt := snd_nxt p + 1,
         packets_sent := (packets_sent p)[k := packets_sent p ! k + 1]\<rparr>)
       (sk\<lparr>s_dof_remain := (s_dof_remain sk)[k := s_dof_remain sk ! k - 1]\<rparr>))"

fun send_run :: "real \<Rightarrow> u64 \<Rightarrow> u32 \<Rightarrow> nat \<Rightarrow> nat \<Rightarrow> server \<Rightarrow> (server \<times> nat) option" where
  "send_run now ts blockno pin 0 sk = Some (sk, 0)"
| "send_run now ts blockno pin (Suc CurrWin) sk =
    (if s_dof_remain sk ! bslot blockno > 0 then
       (case send_one now ts blockno pin sk of
          None \<Rightarrow> None
        | Some sk \<Rightarrow> map_option (map_prod id Suc)
            (send_run now ts blockno pin CurrWin (sent_update blockno pin sk)))
     else Some (sk, 0))"

text \<open>A job for the degrees of freedom that are missing.\<close>

definition request_job :: "u32 \<Rightarrow> int \<Rightarrow> server \<Rightarrow> server option" where
  "request_job blockno dof_needed sk =
    (let k = bslot blockno in
     if s_dof_remain sk ! k < dof_needed then
       let dof_request = MIN_DOF_REQUEST + dof_needed - s_dof_remain sk ! k;
           job = \<lparr>j_blockno = blockno, j_start = 0, j_dof_request = dof_request,
                  j_coding_wnd = MAX_CODING_WND\<rparr>
       in map_option (\<lambda>w. sk\<lparr>s_workers := w,
            s_dof_remain := (s_dof_remain sk)[k := s_dof_remain sk ! k + dof_request]\<rparr>)
          (addJob (s_workers sk) (Job job) (if blockno = s_curr_block sk then HIGH else LOW))
     else Some sk)"

text \<open>
  One turn of the loop over the blocks.  The mean of the packets in flight is computed
  before \<open>CurrOnFly\<close> is set for the block at hand, so for every block but the current one it
  is that of the previous turn.
\<close>

definition seg_block :: "real \<Rightarrow> u64 \<Rightarrow> nat \<Rightarrow> u32 \<Rightarrow> int \<Rightarrow> int list \<Rightarrow> server \<Rightarrow>
    (server \<times> int \<times> int list) option" where
  "seg_block now ts pin blockno win CurrOnFly sk =
    (let c = s_cfg sk; k = bslot blockno;
         mean_OnFly = mean_on_fly c (s_paths sk) CurrOnFly;
         p = scaled_slr c (s_paths sk ! pin);
         (dof_request_tmp, CurrOnFly) =
           (if blockno = s_curr_block sk then (s_dof_req_latest sk, CurrOnFly)
            else (int (b_len (s_blocks sk ! k)), map (\<lambda>q. packets_sent q ! k) (s_paths sk)));
         dof_needed = dof_loop p mean_OnFly dof_request_tmp win 0
     in case request_job blockno (int dof_needed) sk of
          None \<Rightarrow> None
        | Some sk \<Rightarrow> map_option (\<lambda>(sk, n). (sk, win - int n, CurrOnFly))
            (send_run now ts blockno pin dof_needed sk))"

text \<open>
  The loop visits \<open>curr_block + i\<close> for the listed \<open>i\<close>, at most \<open>NUM_BLOCKS\<close>, while there is
  window and data.  \<open>maxblockno\<close> is read once: the assignment at the end of the loop's body
  declares a variable of its own.
\<close>

fun send_blocks :: "real \<Rightarrow> u64 \<Rightarrow> nat \<Rightarrow> u32 \<Rightarrow> nat list \<Rightarrow> int \<Rightarrow> int list \<Rightarrow> server \<Rightarrow> server option" where
  "send_blocks now ts pin maxblockno [] win CurrOnFly sk = Some sk"
| "send_blocks now ts pin maxblockno (i # is) win CurrOnFly sk =
    (let blockno = s_curr_block sk + of_nat i in
     if win > 0 \<and> (maxblockno = 0 \<or> blockno \<le> maxblockno) then
       (case seg_block now ts pin blockno win CurrOnFly sk of
          None \<Rightarrow> None
        | Some (sk, win, CurrOnFly) \<Rightarrow> send_blocks now ts pin maxblockno is win CurrOnFly sk)
     else Some sk)"

definition path_win :: "path \<Rightarrow> int" where
  "path_win p = sint (snd_cwnd p - (snd_nxt p - snd_una p))"

text \<open>\<open>woken\<close>: \<open>send_ctcp\<close> has signalled a thread that waited with nothing to send.\<close>

definition send_segs :: "bool \<Rightarrow> real \<Rightarrow> u64 \<Rightarrow> nat \<Rightarrow> server \<Rightarrow> server option" where
  "send_segs woken now ts pin sk =
    (if s_status sk = CLOSED then Some sk
     else if s_dof_req_latest sk = 0 \<and> \<not> woken then None
     else
       let win = path_win (s_paths sk ! pin) in
       if win < 1 then Some sk
       else send_blocks now ts pin (s_maxblockno sk) [0..<NUM_BLOCKS + 1] win
              (map (curr_on_fly now (s_curr_block sk)) (s_paths sk)) sk)"

section \<open>The window is respected\<close>

lemma dof_loop_le: "int n \<le> win \<Longrightarrow> int (dof_loop p m r win n) \<le> win"
proof (induction p m r win n rule: dof_loop.induct)
  case (1 p m r win n)
  then show ?case
    by (cases "int n < win \<and> real n * (1 - p) + m < real_of_int r")
      (auto simp: dof_loop.simps [of p m r win n])
qed

text \<open>\<open>dof_loop\<close> asks for just enough: fewer packets would not cover the request.\<close>

lemma dof_loop_min:
  "n \<le> k \<Longrightarrow> k < dof_loop p m r win n \<Longrightarrow> real k * (1 - p) + m < real_of_int r"
proof (induction p m r win n rule: dof_loop.induct)
  case (1 p m r win n)
  then show ?case
    by (cases "int n < win \<and> real n * (1 - p) + m < real_of_int r"; cases "k = n")
      (auto simp: dof_loop.simps [of p m r win n])
qed

lemma dof_loop_covers:
  "int (dof_loop p m r win n) < win \<Longrightarrow> real_of_int r \<le> real (dof_loop p m r win n) * (1 - p) + m"
proof (induction p m r win n rule: dof_loop.induct)
  case (1 p m r win n)
  show ?case
  proof (cases "int n < win \<and> real n * (1 - p) + m < real_of_int r")
    case True
    then have "dof_loop p m r win n = dof_loop p m r win (n + 1)"
      by (simp add: dof_loop.simps [of p m r win n])
    with 1 True show ?thesis by simp
  next
    case False
    then have "dof_loop p m r win n = n" by (subst dof_loop.simps) (simp only: if_False)
    with 1 False show ?thesis by auto
  qed
qed

text \<open>What a step of the sender does to the path: so many packets sent.\<close>

definition sends :: "nat \<Rightarrow> nat \<Rightarrow> server \<Rightarrow> server \<Rightarrow> bool" where
  "sends pin m sk sk' \<longleftrightarrow> length (s_paths sk') = length (s_paths sk) \<and>
    snd_nxt (s_paths sk' ! pin) = snd_nxt (s_paths sk ! pin) + of_nat m \<and>
    snd_una (s_paths sk' ! pin) = snd_una (s_paths sk ! pin) \<and>
    snd_cwnd (s_paths sk' ! pin) = snd_cwnd (s_paths sk ! pin) \<and>
    length (s_sent sk') = length (s_sent sk) + m \<and> s_curr_block sk' = s_curr_block sk"

lemma sends_refl: "sends pin 0 sk sk"
  by (simp add: sends_def)

lemma sends_trans: "sends pin m sk sk' \<Longrightarrow> sends pin n sk' sk'' \<Longrightarrow> sends pin (m + n) sk sk''"
  by (simp add: sends_def)

lemma send_one_sends:
  assumes "send_one now ts b pin sk = Some sk'" "pin < length (s_paths sk)"
  shows "sends pin 1 sk (sent_update b pin sk')"
  using assms
  by (auto simp: send_one_def sent_update_def upd_path_def sends_def Let_def split: option.splits)

lemma send_run_sends:
  "send_run now ts b pin n sk = Some (sk', m) \<Longrightarrow> pin < length (s_paths sk) \<Longrightarrow> m \<le> n \<and> sends pin m sk sk'"
proof (induction n arbitrary: sk m)
  case 0
  then show ?case using sends_refl by simp
next
  case (Suc n)
  show ?case
  proof (cases "s_dof_remain sk ! bslot b > 0")
    case False
    with Suc.prems sends_refl show ?thesis by simp
  next
    case True
    then obtain sk1 m' where one: "send_one now ts b pin sk = Some sk1" "m = Suc m'"
      and rest: "send_run now ts b pin n (sent_update b pin sk1) = Some (sk', m')"
      using Suc.prems(1) by (auto split: option.splits)
    have s1: "sends pin 1 sk (sent_update b pin sk1)" by (rule send_one_sends [OF one(1) Suc.prems(2)])
    then have "pin < length (s_paths (sent_update b pin sk1))" using Suc.prems(2) by (simp add: sends_def)
    with Suc.IH [OF rest] have "m' \<le> n" "sends pin m' (sent_update b pin sk1) sk'" by blast+
    with sends_trans [OF s1] one(2) show ?thesis by fastforce
  qed
qed

lemma request_job_sends: "request_job b n sk = Some sk' \<Longrightarrow> sends pin 0 sk sk'"
  by (auto simp: request_job_def Let_def sends_def split: if_splits)

lemma seg_block_sends:
  assumes "seg_block now ts pin b win fly sk = Some (sk', win', fly')" "pin < length (s_paths sk)" "0 \<le> win"
  shows "\<exists>m. win' = win - int m \<and> int m \<le> win \<and> sends pin m sk sk'"
proof -
  obtain n sk1 m where req: "request_job b (int n) sk = Some sk1" and run: "send_run now ts b pin n sk1 = Some (sk', m)"
    and n: "int n \<le> win" and win': "win' = win - int m"
  proof -
    show ?thesis
      using assms(1) that dof_loop_le [of 0 win] assms(3)
      by (auto simp: seg_block_def Let_def split: option.splits prod.splits if_splits)
  qed
  have s0: "sends pin 0 sk sk1" by (rule request_job_sends [OF req])
  then have "pin < length (s_paths sk1)" using assms(2) by (simp add: sends_def)
  from send_run_sends [OF run this] have "m \<le> n" "sends pin m sk1 sk'" by blast+
  with sends_trans [OF s0] n win' show ?thesis by fastforce
qed

lemma send_blocks_sends:
  "send_blocks now ts pin mb is win fly sk = Some sk' \<Longrightarrow> pin < length (s_paths sk) \<Longrightarrow> 0 \<le> win \<Longrightarrow>
    \<exists>m. int m \<le> win \<and> sends pin m sk sk'"
proof (induction "is" arbitrary: win fly sk)
  case Nil
  then show ?case using sends_refl by (intro exI [of _ 0]) simp
next
  case (Cons i js)
  show ?case
  proof (cases "win > 0 \<and> (mb = 0 \<or> s_curr_block sk + of_nat i \<le> mb)")
    case False
    then have "sk' = sk" using Cons.prems(1) by (auto simp: Let_def)
    then show ?thesis using Cons.prems(3) sends_refl by (intro exI [of _ 0]) simp
  next
    case True
    then obtain sk1 win1 fly1 where seg: "seg_block now ts pin (s_curr_block sk + of_nat i) win fly sk = Some (sk1, win1, fly1)"
      and rest: "send_blocks now ts pin mb js win1 fly1 sk1 = Some sk'"
      using Cons.prems(1) by (auto simp: Let_def split: option.splits)
    obtain m where m: "win1 = win - int m" "int m \<le> win" "sends pin m sk sk1"
      using seg_block_sends [OF seg Cons.prems(2,3)] by blast
    then have "pin < length (s_paths sk1)" using Cons.prems(2) by (simp add: sends_def)
    with Cons.IH [OF rest] m obtain n where "int n \<le> win1" "sends pin n sk1 sk'" by auto
    with m sends_trans [OF m(3)] show ?thesis by (intro exI [of _ "m + n"]) auto
  qed
qed

lemma send_segs_window:
  assumes "send_segs woken now ts pin sk = Some sk'" "pin < length (s_paths sk)"
  shows "\<exists>m. int m \<le> max 0 (path_win (s_paths sk ! pin)) \<and> sends pin m sk sk'"
proof (cases "s_status sk = CLOSED \<or> path_win (s_paths sk ! pin) < 1")
  case True
  then have "sk' = sk" using assms(1) by (auto simp: send_segs_def Let_def split: if_splits)
  then show ?thesis using sends_refl by (intro exI [of _ 0]) simp
next
  case False
  then have "send_blocks now ts pin (s_maxblockno sk) [0..<NUM_BLOCKS + 1] (path_win (s_paths sk ! pin))
      (map (curr_on_fly now (s_curr_block sk)) (s_paths sk)) sk = Some sk'"
    using assms(1) by (auto simp: send_segs_def Let_def split: if_splits)
  from send_blocks_sends [OF this assms(2)] False show ?thesis by auto
qed

end
