(* ===== verification/Fifo.thy ===== *)
theory Fifo
  imports Ring
begin

text \<open>
  The byte queue of \<open>src/fifo.c\<close> (\<open>fifo_init\<close>, \<open>fifo_getspace\<close>, \<open>fifo_push\<close>,
  \<open>fifo_pop\<close>, \<open>fifo_release\<close>, \<open>fifo_free\<close>), through which the decoder hands the
  received stream to the application.  An operation runs under the queue's mutex, so it
  is one step; \<open>None\<close> is a caller that waits on a condition variable.  The abstract
  value of a queue is the list of bytes between its head and its tail.
\<close>

section \<open>State and operations\<close>

record fifo =
  f_released :: bool
  f_max_size :: int
  f_head :: int
  f_tail :: int
  f_q :: bytes
  f_size :: int

definition fifo_init :: "nat \<Rightarrow> fifo" where
  "fifo_init max_size =
    \<lparr>f_released = False, f_max_size = int max_size, f_head = 0, f_tail = 0,
     f_q = replicate max_size 0, f_size = 0\<rparr>"

definition fifo_getspace :: "fifo \<Rightarrow> int" where
  "fifo_getspace Q = f_max_size Q - f_size Q"

text \<open>
  \<open>fifo_push Q buf n\<close> copies at most \<open>n\<close> bytes of \<open>buf\<close>; the result carries the number
  of bytes copied.  \<open>min\<close> is the macro \<open>MIN\<close> of \<open>util.h\<close> (see \<open>c_MIN_eq_min\<close>).
\<close>

definition fifo_push :: "fifo \<Rightarrow> bytes \<Rightarrow> int \<Rightarrow> (fifo \<times> nat) option" where
  "fifo_push Q buf n =
    (if f_size Q = f_max_size Q \<and> \<not> f_released Q then None
     else
       let push_size = min n (f_max_size Q - f_size Q);
           tail_to_end = f_max_size Q - f_tail Q;
           q = (if push_size \<le> tail_to_end
                then memcpy_at (f_q Q) (nat (f_tail Q)) (take (nat push_size) buf)
                else memcpy_at
                  (memcpy_at (f_q Q) (nat (f_tail Q)) (take (nat tail_to_end) buf)) 0
                  (take (nat (push_size - tail_to_end)) (drop (nat tail_to_end) buf)))
       in Some (Q\<lparr>f_q := q,
                  f_tail := modulo (f_tail Q + push_size) (f_max_size Q),
                  f_size := f_size Q + push_size\<rparr>, nat push_size))"

text \<open>\<open>fifo_pop Q n\<close> returns the bytes written to the caller's buffer; their number is the
  result of the C function.\<close>

definition fifo_pop :: "fifo \<Rightarrow> int \<Rightarrow> (fifo \<times> bytes) option" where
  "fifo_pop Q n =
    (if f_size Q = 0 \<and> \<not> f_released Q then None
     else
       let pop_size = min n (f_size Q);
           head_to_end = f_max_size Q - f_head Q;
           buf = (if pop_size \<le> head_to_end
                  then take (nat pop_size) (drop (nat (f_head Q)) (f_q Q))
                  else take (nat head_to_end) (drop (nat (f_head Q)) (f_q Q)) @
                       take (nat (pop_size - head_to_end)) (f_q Q))
       in Some (Q\<lparr>f_head := modulo (f_head Q + pop_size) (f_max_size Q),
                  f_size := f_size Q - pop_size\<rparr>, buf))"

definition fifo_release :: "fifo \<Rightarrow> fifo" where
  "fifo_release Q = Q\<lparr>f_released := True\<rparr>"

definition fifo_free :: "fifo \<Rightarrow> fifo" where
  "fifo_free Q = Q\<lparr>f_head := 0, f_tail := 0, f_size := 0, f_released := False, f_q := []\<rparr>"

section \<open>Invariant and abstraction\<close>

definition fifo_ok :: "fifo \<Rightarrow> bool" where
  "fifo_ok Q \<longleftrightarrow> 0 < f_max_size Q \<and> length (f_q Q) = nat (f_max_size Q) \<and>
    0 \<le> f_head Q \<and> f_head Q < f_max_size Q \<and> 0 \<le> f_size Q \<and> f_size Q \<le> f_max_size Q \<and>
    f_tail Q = (f_head Q + f_size Q) mod f_max_size Q"

definition fifo_bytes :: "fifo \<Rightarrow> bytes" where
  "fifo_bytes Q = ring (f_q Q) (f_max_size Q) (f_head Q) (f_size Q)"

lemma length_fifo_bytes: "length (fifo_bytes Q) = nat (f_size Q)"
  by (simp add: fifo_bytes_def)

lemma fifo_init_ok: "0 < n \<Longrightarrow> fifo_ok (fifo_init n)"
  by (simp add: fifo_ok_def fifo_init_def)

lemma fifo_init_bytes: "fifo_bytes (fifo_init n) = []"
  by (simp add: fifo_bytes_def fifo_init_def)

lemma fifo_release_ok [simp]: "fifo_ok (fifo_release Q) = fifo_ok Q"
  by (simp add: fifo_ok_def fifo_release_def)

lemma fifo_release_bytes [simp]: "fifo_bytes (fifo_release Q) = fifo_bytes Q"
  by (simp add: fifo_bytes_def fifo_release_def)

text \<open>The push is a circular write of the bytes it accepts.\<close>

lemma push_copy_ring_write:
  assumes "0 \<le> p" "p \<le> int (length buf)" "pos \<le> m"
  shows "(if p \<le> m - pos then memcpy_at q (nat pos) (take (nat p) buf)
      else memcpy_at (memcpy_at q (nat pos) (take (nat (m - pos)) buf)) 0
        (take (nat (p - (m - pos))) (drop (nat (m - pos)) buf))) =
    ring_write q m pos (take (nat p) buf)"
proof (cases "p \<le> m - pos")
  case True
  then show ?thesis using assms by (auto simp: ring_write_def Let_def)
next
  case False
  then have "take (nat (m - pos)) (take (nat p) buf) = take (nat (m - pos)) buf"
    and "drop (nat (m - pos)) (take (nat p) buf) =
      take (nat (p - (m - pos))) (drop (nat (m - pos)) buf)"
    using assms by (simp_all add: min_def drop_take nat_diff_distrib)
  moreover have "\<not> int (length (take (nat p) buf)) \<le> m - pos"
    using False assms by simp
  ultimately show ?thesis using False by (simp add: ring_write_def Let_def del: length_take take_take)
qed

lemma fifo_push_ring:
  assumes ok: "fifo_ok Q" and n: "0 \<le> n" "n \<le> int (length buf)"
    and res: "fifo_push Q buf n = Some (Q', k)"
  shows "int k = min n (fifo_getspace Q)"
    and "Q' = Q\<lparr>f_q := ring_write (f_q Q) (f_max_size Q) (f_tail Q) (take k buf),
                f_tail := (f_tail Q + int k) mod f_max_size Q, f_size := f_size Q + int k\<rparr>"
proof -
  show k: "int k = min n (fifo_getspace Q)"
    using res n ok
    by (auto simp: fifo_push_def Let_def fifo_getspace_def fifo_ok_def split: if_splits)
  have k': "0 \<le> int k" "int k \<le> int (length buf)" and m: "f_tail Q \<le> f_max_size Q" "0 < f_max_size Q"
    using k n ok less_imp_le [OF pos_mod_bound [of "f_max_size Q" "f_head Q + f_size Q"]]
    by (auto simp: fifo_getspace_def fifo_ok_def)
  have "fifo_push Q buf n = Some (Q\<lparr>f_q := ring_write (f_q Q) (f_max_size Q) (f_tail Q) (take k buf),
      f_tail := modulo (f_tail Q + int k) (f_max_size Q), f_size := f_size Q + int k\<rparr>, k)"
    using res k push_copy_ring_write [OF k' m(1), of "f_q Q"]
    by (simp add: fifo_push_def Let_def fifo_getspace_def flip: k split: if_splits)
  then show "Q' = Q\<lparr>f_q := ring_write (f_q Q) (f_max_size Q) (f_tail Q) (take k buf),
                f_tail := (f_tail Q + int k) mod f_max_size Q, f_size := f_size Q + int k\<rparr>"
    using res m(2) by (simp add: ring_simps)
qed

lemma fifo_push_correct:
  assumes "fifo_ok Q" "0 \<le> n" "n \<le> int (length buf)" "fifo_push Q buf n = Some (Q', k)"
  shows "fifo_ok Q'" and "fifo_bytes Q' = fifo_bytes Q @ take k buf"
    and "int k = min n (fifo_getspace Q)"
    and "fifo_getspace Q' = fifo_getspace Q - int k"
proof -
  note eq = fifo_push_ring [OF assms]
  show k: "int k = min n (fifo_getspace Q)" by (rule eq(1))
  have len: "length (take k buf) = k" "f_size Q + int k \<le> f_max_size Q"
    using k assms(1-3) by (auto simp: fifo_getspace_def fifo_ok_def)
  show "fifo_ok Q'"
    using assms(1) len by (auto simp: eq(2) fifo_ok_def mod_add_left_eq mod_add_right_eq algebra_simps)
  show "fifo_bytes Q' = fifo_bytes Q @ take k buf"
    using assms(1) len ring_ring_write [of "f_q Q" "f_max_size Q" "f_size Q" "take k buf" "f_head Q"]
    by (simp add: eq(2) fifo_bytes_def fifo_ok_def)
  show "fifo_getspace Q' = fifo_getspace Q - int k"
    by (simp add: eq(2) fifo_getspace_def)
qed

lemma fifo_pop_correct:
  assumes ok: "fifo_ok Q" and n: "0 \<le> n" and res: "fifo_pop Q n = Some (Q', buf)"
  shows "fifo_ok Q'" and "fifo_bytes Q = buf @ fifo_bytes Q'"
    and "length buf = nat (min n (f_size Q))"
proof -
  let ?k = "min n (f_size Q)"
  have k: "0 \<le> ?k" "?k \<le> f_size Q" using n ok by (auto simp: fifo_ok_def)
  have m: "0 < f_max_size Q" "length (f_q Q) = nat (f_max_size Q)" "f_size Q \<le> f_max_size Q"
    "0 \<le> f_head Q" "f_head Q < f_max_size Q" using ok by (auto simp: fifo_ok_def)
  have buf: "buf = ring_read (f_q Q) (f_max_size Q) (f_head Q) ?k"
    and Q': "Q' = Q\<lparr>f_head := (f_head Q + ?k) mod f_max_size Q, f_size := f_size Q - ?k\<rparr>"
    using res m(1) by (auto simp: fifo_pop_def ring_read_def Let_def ring_simps split: if_splits)
  have ring: "buf = ring (f_q Q) (f_max_size Q) (f_head Q) ?k"
    using k m by (simp only: buf ring_read_eq_ring)
  show "length buf = nat (min n (f_size Q))" by (simp add: ring)
  show "fifo_ok Q'"
    using ok k by (auto simp: Q' fifo_ok_def mod_add_left_eq)
  show "fifo_bytes Q = buf @ fifo_bytes Q'"
    using k ring_split [of ?k "f_size Q - ?k" "f_q Q" "f_max_size Q" "f_head Q"]
    by (simp add: ring fifo_bytes_def Q' ring_start_mod)
qed

lemma fifo_push_None: "fifo_push Q buf n = None \<longleftrightarrow> f_size Q = f_max_size Q \<and> \<not> f_released Q"
  by (simp add: fifo_push_def Let_def)

lemma fifo_pop_None: "fifo_pop Q n = None \<longleftrightarrow> f_size Q = 0 \<and> \<not> f_released Q"
  by (simp add: fifo_pop_def Let_def)

lemma fifo_space_nonneg: "fifo_ok Q \<Longrightarrow> 0 \<le> fifo_getspace Q"
  by (simp add: fifo_ok_def fifo_getspace_def)

section \<open>Interface: a bounded byte stream and its writer loop\<close>

text \<open>
  The loop in which \<open>writeAndFreeBlock\<close> and \<open>partial_write\<close> of \<open>src/clictcp.c\<close> write one
  payload: push what is left until nothing is left; a push of no byte means that the queue
  was released.  \<open>Waits\<close> is a push that blocks.
\<close>

datatype 'q push_res = Pushed 'q | Released 'q | Waits 'q

function push_loop :: "('q \<Rightarrow> bytes \<Rightarrow> int \<Rightarrow> ('q \<times> nat) option) \<Rightarrow> 'q \<Rightarrow> bytes \<Rightarrow> 'q push_res" where
  "push_loop put Q buf =
    (if buf = [] then Pushed Q
     else case put Q buf (int (length buf)) of
       None \<Rightarrow> Waits Q
     | Some (Q', push_tmp) \<Rightarrow>
         (if push_tmp = 0 then Released Q' else push_loop put Q' (drop push_tmp buf)))"
  by pat_completeness auto
termination
  by (relation "measure (\<lambda>(put, Q, buf). length buf)") auto

declare push_loop.simps [simp del]

locale byte_stream =
  fixes inv :: "'q \<Rightarrow> bool" and content :: "'q \<Rightarrow> bytes" and space :: "'q \<Rightarrow> int"
    and put :: "'q \<Rightarrow> bytes \<Rightarrow> int \<Rightarrow> ('q \<times> nat) option"
  assumes put_inv: "inv Q \<Longrightarrow> 0 \<le> n \<Longrightarrow> n \<le> int (length buf) \<Longrightarrow> put Q buf n = Some (Q', k) \<Longrightarrow> inv Q'"
    and put_content: "inv Q \<Longrightarrow> 0 \<le> n \<Longrightarrow> n \<le> int (length buf) \<Longrightarrow> put Q buf n = Some (Q', k) \<Longrightarrow>
      content Q' = content Q @ take k buf"
    and put_space: "inv Q \<Longrightarrow> 0 \<le> n \<Longrightarrow> n \<le> int (length buf) \<Longrightarrow> put Q buf n = Some (Q', k) \<Longrightarrow>
      int k = min n (space Q) \<and> space Q' = space Q - int k"
    and put_room: "inv Q \<Longrightarrow> 0 < space Q \<Longrightarrow> put Q buf n \<noteq> None"
begin

lemma push_loop_cases:
  assumes "inv Q" "buf \<noteq> []"
  obtains "put Q buf (int (length buf)) = None" "space Q \<le> 0" "push_loop put Q buf = Waits Q"
  | Q' where "put Q buf (int (length buf)) = Some (Q', 0)" "inv Q'" "content Q' = content Q"
      "space Q \<le> 0" "push_loop put Q buf = Released Q'"
  | Q' k where "0 < k" "k \<le> length buf" "int k \<le> space Q" "inv Q'" "content Q' = content Q @ take k buf"
      "space Q' = space Q - int k" "push_loop put Q buf = push_loop put Q' (drop k buf)"
proof (cases "put Q buf (int (length buf))")
  case None
  then have "\<not> 0 < space Q" using put_room [OF assms(1)] by blast
  then show ?thesis using None that(1) assms by (simp add: push_loop.simps)
next
  case (Some r)
  obtain Q' k where r: "put Q buf (int (length buf)) = Some (Q', k)"
    using Some by (cases r) auto
  note facts = put_inv [OF assms(1) _ _ r] put_content [OF assms(1) _ _ r] put_space [OF assms(1) _ _ r]
  have sp: "int k = min (int (length buf)) (space Q)" using facts(3) by simp
  show ?thesis
  proof (cases "k = 0")
    case True
    have "0 < length buf" using assms(2) by simp
    then have "space Q \<le> 0" using sp True by linarith
    with True show ?thesis using that(2) [of Q'] facts r assms by (simp add: push_loop.simps)
  next
    case False
    have le: "k \<le> length buf" "int k \<le> space Q" using sp by linarith+
    have "push_loop put Q buf = push_loop put Q' (drop k buf)"
      using False r assms(2) by (simp add: push_loop.simps [of put Q buf])
    then show ?thesis using that(3) [of k Q'] False le facts by simp
  qed
qed

lemma push_loop_Pushed:
  "inv Q \<Longrightarrow> push_loop put Q buf = Pushed Q' \<Longrightarrow> inv Q' \<and> content Q' = content Q @ buf"
proof (induction "length buf" arbitrary: Q buf rule: less_induct)
  case less
  show ?case
  proof (cases "buf = []")
    case True
    with less.prems show ?thesis by (simp add: push_loop.simps)
  next
    case False
    show ?thesis
    proof (rule push_loop_cases [OF less.prems(1) False])
      fix Q1 k
      assume a: "0 < k" "inv Q1" "content Q1 = content Q @ take k buf"
        "push_loop put Q buf = push_loop put Q1 (drop k buf)"
      then have "inv Q' \<and> content Q' = content Q1 @ drop k buf"
        using less.hyps [of "drop k buf" Q1] less.prems(2) False by simp
      with a show ?thesis by simp
    qed (use less.prems(2) in auto)
  qed
qed

lemma push_loop_room:
  "inv Q \<Longrightarrow> int (length buf) \<le> space Q \<Longrightarrow> \<exists>Q'. push_loop put Q buf = Pushed Q'"
proof (induction "length buf" arbitrary: Q buf rule: less_induct)
  case less
  show ?case
  proof (cases "buf = []")
    case True
    then show ?thesis by (simp add: push_loop.simps)
  next
    case False
    then have "0 < space Q" using less.prems(2) by (cases buf) auto
    with less show ?thesis
      by - (rule push_loop_cases [OF less.prems(1) False], auto)
  qed
qed

text \<open>A writer that stops early has written a prefix.\<close>

lemma push_loop_prefix:
  "inv Q \<Longrightarrow> push_loop put Q buf = Waits Q' \<or> push_loop put Q buf = Released Q' \<Longrightarrow>
    inv Q' \<and> (\<exists>k < length buf. content Q' = content Q @ take k buf)"
proof (induction "length buf" arbitrary: Q buf rule: less_induct)
  case less
  have ne: "buf \<noteq> []" using less.prems by (auto simp: push_loop.simps)
  show ?case
  proof (rule push_loop_cases [OF less.prems(1) ne])
    assume "push_loop put Q buf = Waits Q"
    then show ?thesis using less.prems ne by (auto intro!: exI [of _ 0])
  next
    fix Q1 assume "push_loop put Q buf = Released Q1" "inv Q1" "content Q1 = content Q"
    then show ?thesis using less.prems ne by (auto intro!: exI [of _ 0])
  next
    fix Q1 k
    assume a: "0 < k" "k \<le> length buf" "inv Q1" "content Q1 = content Q @ take k buf"
      "push_loop put Q buf = push_loop put Q1 (drop k buf)"
    then obtain j where "inv Q'" "j < length (drop k buf)" "content Q' = content Q1 @ take j (drop k buf)"
      using less.hyps [of "drop k buf" Q1] less.prems ne by auto
    then show ?thesis using a by (auto simp: take_add intro!: exI [of _ "k + j"])
  qed
qed

end

interpretation fq: byte_stream fifo_ok fifo_bytes fifo_getspace fifo_push
proof
  fix Q n buf Q' k
  assume a: "fifo_ok Q" "0 \<le> n" "n \<le> int (length buf)" "fifo_push Q buf n = Some (Q', k)"
  show "fifo_ok Q'" and "fifo_bytes Q' = fifo_bytes Q @ take k buf"
    and "int k = min n (fifo_getspace Q) \<and> fifo_getspace Q' = fifo_getspace Q - int k"
    using fifo_push_correct [OF a] by simp_all
next
  fix Q buf n
  assume "fifo_ok Q" "0 < fifo_getspace Q"
  then show "fifo_push Q buf n \<noteq> None" by (auto simp: fifo_push_None fifo_getspace_def)
qed

text \<open>
  While the queue is not released a push that returns has made progress, so the writer
  never takes the early exit.
\<close>

locale open_stream = byte_stream +
  assumes put_pos: "inv Q \<Longrightarrow> 0 < n \<Longrightarrow> put Q buf n = Some (Q', k) \<Longrightarrow> 0 < k"
begin

lemma push_loop_open: "inv Q \<Longrightarrow> push_loop put Q buf \<noteq> Released Q'"
proof (induction "length buf" arbitrary: Q buf rule: less_induct)
  case less
  show ?case
  proof (cases "buf = []")
    case True
    then show ?thesis by (simp add: push_loop.simps)
  next
    case False
    then have "0 < int (length buf)" by simp
    then have pos: "put Q buf (int (length buf)) \<noteq> Some (Q1, 0)" for Q1
      using put_pos [OF less.prems] by blast
    show ?thesis
    proof (rule push_loop_cases [OF less.prems False])
      fix Q1 assume "put Q buf (int (length buf)) = Some (Q1, 0)"
      with pos show ?thesis by blast
    next
      fix Q1 k assume "0 < k" "inv Q1" "push_loop put Q buf = push_loop put Q1 (drop k buf)"
      with less.hyps [of "drop k buf" Q1] False show ?thesis by simp
    qed simp
  qed
qed

lemma push_loop_result:
  assumes "inv Q"
  obtains Q' where "push_loop put Q buf = Pushed Q'" "inv Q'" "content Q' = content Q @ buf"
  | Q' where "push_loop put Q buf = Waits Q'"
proof (cases "push_loop put Q buf")
  case (Pushed Q')
  with push_loop_Pushed [OF assms] that(1) show ?thesis by blast
next
  case (Released Q')
  with push_loop_open [OF assms] show ?thesis by blast
next
  case (Waits Q')
  with that(2) show ?thesis by blast
qed

end

lemma fifo_push_frame:
  "fifo_push Q buf n = Some (Q', k) \<Longrightarrow> f_released Q' = f_released Q \<and> f_max_size Q' = f_max_size Q"
  by (auto simp: fifo_push_def Let_def split: if_splits)

definition fifo_open :: "fifo \<Rightarrow> bool" where
  "fifo_open Q \<longleftrightarrow> fifo_ok Q \<and> \<not> f_released Q"

interpretation fo: open_stream fifo_open fifo_bytes fifo_getspace fifo_push
proof
  fix Q n buf Q' k
  assume a: "fifo_open Q" "0 \<le> n" "n \<le> int (length buf)" "fifo_push Q buf n = Some (Q', k)"
  then have ok: "fifo_ok Q" by (simp add: fifo_open_def)
  show "fifo_open Q'" and "fifo_bytes Q' = fifo_bytes Q @ take k buf"
    and "int k = min n (fifo_getspace Q) \<and> fifo_getspace Q' = fifo_getspace Q - int k"
    using fifo_push_correct [OF ok a(2-4)] fifo_push_frame [OF a(4)] a(1)
    by (simp_all add: fifo_open_def)
next
  fix Q buf n
  assume "fifo_open Q" "0 < fifo_getspace Q"
  then show "fifo_push Q buf n \<noteq> None"
    by (auto simp: fifo_open_def fifo_push_None fifo_getspace_def)
next
  fix Q n buf Q' k
  assume a: "fifo_open Q" "0 < n" "fifo_push Q buf n = Some (Q', k)"
  then have "f_size Q < f_max_size Q"
    by (auto simp: fifo_open_def fifo_ok_def fifo_push_def split: if_splits)
  with a show "0 < k" by (auto simp: fifo_push_def Let_def split: if_splits)
qed

section \<open>Producer and consumer\<close>

text \<open>
  The threads that share the queue: steps are the operations that do not block, in any
  order.  The two lists record what the producer pushed and the consumer popped.
\<close>

inductive fifo_run :: "nat \<Rightarrow> fifo \<Rightarrow> bytes \<Rightarrow> bytes \<Rightarrow> bool" for cap where
  run_init: "fifo_run cap (fifo_init cap) [] []"
| run_push: "fifo_run cap Q ins outs \<Longrightarrow> 0 \<le> n \<Longrightarrow> n \<le> int (length buf) \<Longrightarrow>
    fifo_push Q buf n = Some (Q', k) \<Longrightarrow> fifo_run cap Q' (ins @ take k buf) outs"
| run_pop: "fifo_run cap Q ins outs \<Longrightarrow> 0 \<le> n \<Longrightarrow> fifo_pop Q n = Some (Q', buf) \<Longrightarrow>
    fifo_run cap Q' ins (outs @ buf)"
| run_release: "fifo_run cap Q ins outs \<Longrightarrow> fifo_run cap (fifo_release Q) ins outs"

lemma fifo_run_inv:
  assumes "fifo_run cap Q ins outs" and "0 < cap"
  shows "fifo_ok Q \<and> ins = outs @ fifo_bytes Q"
  using assms
proof (induction rule: fifo_run.induct)
  case run_init
  then show ?case by (simp add: fifo_init_ok fifo_init_bytes)
next
  case (run_push Q ins outs n buf Q' k)
  then show ?case using fifo_push_correct(1,2) [of Q n buf Q' k] by simp
next
  case (run_pop Q ins outs n Q' buf)
  then show ?case using fifo_pop_correct(1,2) [of Q n Q' buf] by simp
next
  case (run_release Q ins outs)
  then show ?case by simp
qed

end
