(* ===== verification/Decoder.thy ===== *)
theory Decoder
  imports LinComb Fifo SkbPool
begin

text \<open>
  The decoder's blocks, \<open>Coded_Block_t\<close> of \<open>src/util.h\<close>, and the elimination of
  \<open>src/clictcp.c\<close>: \<open>shift_row\<close>, \<open>isEmpty\<close>, \<open>normalize\<close>, \<open>initCodedBlock\<close>, the loop of
  \<open>bldack\<close> and \<open>unwrap\<close>.  The block keeps an upper triangular system: row \<open>r\<close> holds the
  coefficients of packets \<open>r\<close>, \<open>r + 1\<close>, ...  A row whose first entry is -1 (the byte 255,
  \<open>char\<close> being signed) is empty.  \<open>None\<close> stands for an access outside an array or through
  NULL, which C leaves undefined.
\<close>

section \<open>Blocks\<close>

record coded_block =
  cb_dofs :: nat
  cb_len :: nat
  cb_rows :: "bytes list"
  cb_content :: "bytes option list"
  cb_row_len :: "nat list"
  cb_max_coding_wnd :: nat
  cb_dofs_pushed :: nat
  cb_max_packet_index :: nat
  cb_skb :: "addr list"

definition initCodedBlock :: "coded_block \<Rightarrow> coded_block" where
  "initCodedBlock blk = blk\<lparr>
    cb_dofs := 0,
    cb_len := BLOCK_SIZE,
    cb_max_coding_wnd := 0,
    cb_dofs_pushed := 0,
    cb_max_packet_index := 0,
    cb_rows := map (\<lambda>row. row[0 := 255]) (cb_rows blk),
    cb_row_len := replicate BLOCK_SIZE 0,
    cb_content := replicate BLOCK_SIZE None\<rparr>"

section \<open>Rows of coefficients\<close>

function shift_scan :: "bytes \<Rightarrow> nat \<Rightarrow> nat \<Rightarrow> nat" where
  "shift_scan buf shift len =
    (if shift < len \<and> buf ! shift = 0 then shift_scan buf (shift + 1) len else shift)"
  by pat_completeness auto
termination by (relation "measure (\<lambda>(buf, shift, len). len - shift)") auto

declare shift_scan.simps [simp del]

fun shift_copy :: "bytes \<Rightarrow> nat \<Rightarrow> nat list \<Rightarrow> bytes" where
  "shift_copy buf shift [] = buf"
| "shift_copy buf shift (i # is) = shift_copy (buf[i := buf ! (shift + i)]) shift is"

definition shift_row :: "bytes \<Rightarrow> nat \<Rightarrow> nat \<times> bytes" where
  "shift_row buf len =
    (if len = 0 then (0, buf)
     else
       let shift = shift_scan buf 0 len in
       if shift = 0 then (shift, buf)
       else
         let buf = shift_copy buf shift [0..<len - shift] in
         (shift, memcpy_at buf (len - shift) (replicate shift 0)))"

definition isEmpty :: "bytes \<Rightarrow> nat \<Rightarrow> bool" where
  "isEmpty coefficients sz = (fold (\<lambda>c result. result OR c) (take sz coefficients) 0 = 0)"

definition normalize :: "bytes \<Rightarrow> bytes \<Rightarrow> nat \<Rightarrow> bytes \<times> bytes" where
  "normalize coefficients payload sz =
    (if coefficients ! 0 \<noteq> 1 then
       let pivot = inv_vec ! unat (coefficients ! 0);
           logpivot = xFFlog pivot
       in (map (\<lambda>c. fastFFmult c logpivot) (take sz coefficients) @ drop sz coefficients,
           map (\<lambda>w. fastFFmult w logpivot) payload)
     else (coefficients, payload))"

text \<open>The coefficient part of the subtraction: entries 1 to \<open>row_len - 1\<close>.\<close>

fun subtract_row :: "bytes \<Rightarrow> bytes \<Rightarrow> u8 \<Rightarrow> nat list \<Rightarrow> bytes" where
  "subtract_row coeff row logpivot [] = coeff"
| "subtract_row coeff row logpivot (i # is) =
    subtract_row (coeff[i := coeff ! i XOR fastFFmult (row ! i) logpivot]) row logpivot is"

section \<open>The elimination loop of bldack\<close>

text \<open>An innovative packet goes into the empty row \<open>start\<close>.\<close>

definition insert_row ::
  "coded_block \<Rightarrow> addr \<Rightarrow> nat \<Rightarrow> nat \<Rightarrow> bytes \<Rightarrow> bytes \<Rightarrow> coded_block" where
  "insert_row blk skb num_packets start coeff payload =
    (let num_packets = min num_packets (BLOCK_SIZE - start);
         (coeff, payload) = normalize coeff payload num_packets
     in blk\<lparr>
       cb_row_len := (cb_row_len blk)[start := num_packets],
       cb_rows := (cb_rows blk)
         [start := memcpy_at (memcpy_at (cb_rows blk ! start) 0 (replicate num_packets 0)) 0
           (take num_packets coeff)],
       cb_content := (cb_content blk)[start := Some payload],
       cb_skb := (cb_skb blk)[start := skb],
       cb_max_coding_wnd := max (cb_max_coding_wnd blk) num_packets,
       cb_dofs := cb_dofs blk + 1\<rparr>)"

text \<open>
  The loop; the flag in its result is \<open>save_skb\<close>.  \<open>start\<close> is a \<open>uint8_t\<close>.
\<close>

lemma shift_scan_le: "s \<le> n \<Longrightarrow> s \<le> shift_scan buf s n \<and> shift_scan buf s n \<le> n"
proof (induction buf s n rule: shift_scan.induct)
  case (1 buf s n)
  then show ?case
    by (cases "s < n \<and> buf ! s = 0") (auto simp: shift_scan.simps [of buf s n])
qed

lemma shift_scan_zero: "s \<le> i \<Longrightarrow> i < shift_scan buf s n \<Longrightarrow> buf ! i = 0"
proof (induction buf s n rule: shift_scan.induct)
  case (1 buf s n)
  then show ?case
    by (cases "s < n \<and> buf ! s = 0"; cases "i = s") (auto simp: shift_scan.simps [of buf s n])
qed

lemma shift_scan_stop: "shift_scan buf s n < n \<Longrightarrow> buf ! shift_scan buf s n \<noteq> 0"
proof (induction buf s n rule: shift_scan.induct)
  case (1 buf s n)
  then show ?case
    by (cases "s < n \<and> buf ! s = 0") (auto simp: shift_scan.simps [of buf s n])
qed

lemma shift_row_pos:
  assumes "shift_row buf n = (s, buf')" "0 < n" "buf ! 0 = 0"
  shows "0 < s \<and> s \<le> n"
proof -
  have "shift_scan buf 0 n = shift_scan buf 1 n" using assms by (subst shift_scan.simps) simp
  then have "1 \<le> shift_scan buf 0 n \<and> shift_scan buf 0 n \<le> n"
    using shift_scan_le [of 1 n buf] assms(2) by simp
  then show ?thesis using assms by (auto simp: shift_row_def Let_def)
qed

lemma subtract_row_0: "0 \<notin> set is \<Longrightarrow> subtract_row coeff row l is ! 0 = coeff ! 0"
  by (induction "is" arbitrary: coeff) auto

lemma length_subtract_row [simp]: "length (subtract_row coeff row l is) = length coeff"
  by (induction "is" arbitrary: coeff) auto

lemma length_shift_copy [simp]: "length (shift_copy buf s is) = length buf"
  by (induction "is" arbitrary: buf) auto

lemma isEmpty_0 [simp]: "isEmpty c 0"
  by (simp add: isEmpty_def)

lemma eliminate_shift:
  assumes "\<not> isEmpty coeff n" "n \<le> length coeff"
    "(s, c') = shift_row (subtract_row (coeff[0 := 0]) row l [1..<m]) n"
  shows "0 < s \<and> s \<le> n"
proof -
  have n: "0 < n" using assms(1) by (cases n) auto
  then have "subtract_row (coeff[0 := 0]) row l [1..<m] ! 0 = 0"
    using assms(2) by (cases coeff) (simp_all add: subtract_row_0)
  then show ?thesis using shift_row_pos assms(3) n by metis
qed

function eliminate ::
  "coded_block \<Rightarrow> addr \<Rightarrow> nat \<Rightarrow> nat \<Rightarrow> bytes \<Rightarrow> bytes \<Rightarrow> (coded_block \<times> bool) option" where
  "eliminate blk skb num_packets start coeff payload =
    (if BLOCK_SIZE < num_packets \<or> length coeff < num_packets then None
     else if isEmpty coeff num_packets then Some (blk, False)
     else if BLOCK_SIZE \<le> start then None
     else if cb_rows blk ! start ! 0 = 255 then
       Some (insert_row blk skb num_packets start coeff payload, True)
     else if length coeff < cb_row_len blk ! start then None
     else
       case cb_content blk ! start of
         None \<Rightarrow> None
       | Some content \<Rightarrow>
           let pivot = coeff ! 0;
               logpivot = xFFlog pivot;
               coeff = subtract_row (coeff[0 := 0]) (cb_rows blk ! start) logpivot
                 [1..<cb_row_len blk ! start];
               payload = axpy payload logpivot content
           in case shift_row coeff num_packets of
                (shift, coeff) \<Rightarrow>
                  eliminate blk skb num_packets ((start + shift) mod 256) coeff payload)"
  by pat_completeness auto
termination
proof (relation "measure (\<lambda>(blk, skb, n, start, c, p). BLOCK_SIZE - start)", goal_cases)
  case 1
  then show ?case by simp
next
  case (2 blk skb n start coeff payload x2 x xa xb xc xd y)
  then have "0 < xd \<and> xd \<le> n" by (intro eliminate_shift [of coeff n xd y]) auto
  then show ?case using 2(1,3) by (auto simp: BLOCK_SIZE_def)
qed

declare eliminate.simps [simp del]

text \<open>
  What \<open>bldack\<close> does with a packet for a block that is not yet full.  \<open>stack\<close> is the
  indeterminate content of the local array \<open>coeff\<close>.
\<close>

definition bld_coeffs :: "bytes \<Rightarrow> data_pckt \<Rightarrow> bytes" where
  "bld_coeffs stack msg =
    (if d_flag msg = flag_code CODED then
       memcpy_at stack 0
         (packet_coeffs (d_packet_coeff msg) (d_blockno msg) (unat (d_num_packets msg)))
     else stack[0 := 1])"

definition bld_eliminate ::
  "bytes \<Rightarrow> coded_block \<Rightarrow> addr \<Rightarrow> data_pckt \<Rightarrow> (coded_block \<times> bool) option" where
  "bld_eliminate stack blk skb msg =
    (let num_packets = unat (d_num_packets msg) in
     if BLOCK_SIZE < num_packets then None
     else
       case shift_row (bld_coeffs stack msg) num_packets of
         (shift, coeff) \<Rightarrow>
           eliminate blk skb num_packets ((unat (d_start_packet msg) + shift) mod 256) coeff
             (d_payload msg))"

section \<open>Back substitution\<close>

text \<open>One row: \<open>C\<close> is the array of contents, \<open>offs\<close> the offsets still to be visited.\<close>

fun unwrap_offs :: "bytes \<Rightarrow> nat \<Rightarrow> nat list \<Rightarrow> bytes option list \<Rightarrow> bytes option list option" where
  "unwrap_offs rs row [] C = Some C"
| "unwrap_offs rs row (off # offs) C =
    (if rs ! off = 0 then unwrap_offs rs row offs C
     else if length C \<le> row + off then None
     else case (C ! row, C ! (row + off)) of
       (Some w, Some v) \<Rightarrow> unwrap_offs rs row offs (C[row := Some (axpy w (xFFlog (rs ! off)) v)])
     | _ \<Rightarrow> None)"

fun unwrap_rows :: "coded_block \<Rightarrow> nat list \<Rightarrow> coded_block option" where
  "unwrap_rows blk [] = Some blk"
| "unwrap_rows blk (row # rows) =
    (if BLOCK_SIZE \<le> row then None
     else case unwrap_offs (cb_rows blk ! row) row [1..<cb_row_len blk ! row] (cb_content blk) of
       None \<Rightarrow> None
     | Some C \<Rightarrow>
         unwrap_rows (blk\<lparr>cb_content := C, cb_row_len := (cb_row_len blk)[row := 1]\<rparr>) rows)"

definition unwrap :: "coded_block \<Rightarrow> coded_block option" where
  "unwrap blk = unwrap_rows blk (rev [cb_dofs_pushed blk..<cb_max_packet_index blk - 1])"

end
