(* ===== verification/Elimination.thy ===== *)
theory Elimination
  imports Decoder
begin

text \<open>
  Correctness of the decoder's linear algebra.  \<open>block_inv P L blk\<close> is the invariant of a
  block that receives combinations of the packets \<open>P\<close> with payloads of \<open>L\<close> bytes; the
  elimination of a packet that fits keeps it, and back substitution in a block whose rows
  are all present leaves the packets themselves.
\<close>

section \<open>Rows\<close>

lemma shift_copy_nth:
  "sorted_wrt (<) is \<Longrightarrow> 0 < s \<Longrightarrow> (\<And>i. i \<in> set is \<Longrightarrow> s + i < length buf) \<Longrightarrow> k < length buf \<Longrightarrow>
    shift_copy buf s is ! k = (if k \<in> set is then buf ! (s + k) else buf ! k)"
proof (induction "is" arbitrary: buf)
  case Nil
  then show ?case by simp
next
  case (Cons i js)
  have later: "j \<noteq> i \<and> s + j \<noteq> i" if "j \<in> set js" for j
    using Cons.prems(1) that by fastforce
  have "i < length buf" using Cons.prems(3) [of i] by simp
  with Cons later show ?case by (auto simp: nth_list_update)
qed

lemma shift_row_nth:
  assumes "shift_row buf n = (s, buf')" "n \<le> length buf"
  shows "s \<le> n" and "length buf' = length buf"
    and "i < s \<Longrightarrow> buf ! i = 0"
    and "i < n - s \<Longrightarrow> buf' ! i = buf ! (s + i)"
    and "n - s \<le> i \<Longrightarrow> i < n \<Longrightarrow> buf' ! i = 0"
    and "s < n \<Longrightarrow> buf' ! 0 \<noteq> 0"
proof -
  let ?s = "shift_scan buf 0 n"
  have le: "?s \<le> n" using shift_scan_le [of 0 n buf] by simp
  have s: "s = (if n = 0 then 0 else ?s)"
    using assms(1) by (auto simp: shift_row_def Let_def split: if_splits)
  show sn: "s \<le> n" using s le by auto
  show zero: "i < s \<Longrightarrow> buf ! i = 0" for i using s shift_scan_zero [of 0 i buf n] by (auto split: if_splits)
  have buf': "buf' = (if s = 0 then buf else
      memcpy_at (shift_copy buf s [0..<n - s]) (n - s) (replicate s 0))"
    using assms(1) s by (auto simp: shift_row_def Let_def split: if_splits)
  show len: "length buf' = length buf" using buf' assms(2) sn by auto
  have cp: "shift_copy buf s [0..<n - s] ! k = (if k < n - s then buf ! (s + k) else buf ! k)"
    if "0 < s" "k < length buf" for k
    using that assms(2) by (subst shift_copy_nth) (auto simp: sorted_wrt_upt)
  show low: "i < n - s \<Longrightarrow> buf' ! i = buf ! (s + i)" for i
    using cp [of i] buf' assms(2) sn by (auto simp: nth_memcpy_at)
  show "n - s \<le> i \<Longrightarrow> i < n \<Longrightarrow> buf' ! i = 0"
    using buf' assms(2) sn by (auto simp: nth_memcpy_at)
  show "s < n \<Longrightarrow> buf' ! 0 \<noteq> 0"
    using low [of 0] s shift_scan_stop [of buf 0 n] by (auto split: if_splits)
qed

lemma fold_or_eq_0: "fold (\<lambda>c r. r OR c) cs (r :: u8) = 0 \<longleftrightarrow> r = 0 \<and> (\<forall>c \<in> set cs. c = 0)"
  by (induction cs arbitrary: r) (auto simp: or_eq_0_iff)

lemma isEmpty_iff: "n \<le> length cs \<Longrightarrow> isEmpty cs n \<longleftrightarrow> (\<forall>i<n. cs ! i = 0)"
  by (simp add: isEmpty_def fold_or_eq_0 all_set_conv_all_nth)

lemma subtract_row_nth:
  "distinct is \<Longrightarrow> k < length cs \<Longrightarrow> subtract_row cs rs l is ! k =
    (if k \<in> set is then cs ! k XOR fastFFmult (rs ! k) l else cs ! k)"
proof (induction "is" arbitrary: cs)
  case Nil
  then show ?case by simp
next
  case (Cons i js)
  then show ?case by (cases "k = i") auto
qed

lemma normalize_unit:
  assumes "normalize cs ws n = (cs', ws')" "0 < n" "n \<le> length cs" "cs ! 0 \<noteq> 0"
    and "row_sat P r n cs ws"
  shows "cs' ! 0 = 1" "length cs' = length cs" "length ws' = length ws" "row_sat P r n cs' ws'"
    and "i < n \<Longrightarrow> cs ! i = 0 \<Longrightarrow> cs' ! i = 0"
proof -
  let ?v = "inv_vec ! unat (cs ! 0)"
  have v: "?v \<noteq> 0" by (rule inv_vec_nonzero [OF assms(4)])
  have scaled: "cs' ! i = fastFFmult (cs ! i) (xFFlog ?v)" if "cs ! 0 \<noteq> 1" "i < n" for i
    using assms that by (auto simp: normalize_def Let_def nth_append)
  have "row_sat P r n cs' ws' \<and> cs' ! 0 = 1 \<and> length cs' = length cs \<and> length ws' = length ws \<and>
    (\<forall>i<n. cs ! i = 0 \<longrightarrow> cs' ! i = 0)"
  proof (cases "cs ! 0 = 1")
    case True
    with assms show ?thesis by (simp add: normalize_def)
  next
    case False
    have "ws' = map (\<lambda>w. fastFFmult w (xFFlog ?v)) ws"
      using assms(1) False by (auto simp: normalize_def Let_def)
    moreover have "cs' ! 0 = 1"
      using scaled [of 0] False assms(2,4) v by (simp add: fastFFmult_eq inv_vec_inverse)
    moreover have "length cs' = length cs"
      using assms(1,3) False by (auto simp: normalize_def Let_def)
    moreover have "fastFFmult 0 l = 0" for l by (simp add: fastFFmult_def)
    ultimately show ?thesis
      using row_sat_scale [OF assms(5) v, of cs'] scaled False by auto
  qed
  then show "cs' ! 0 = 1" "length cs' = length cs" "length ws' = length ws" "row_sat P r n cs' ws'"
    and "i < n \<Longrightarrow> cs ! i = 0 \<Longrightarrow> cs' ! i = 0" by auto
qed

section \<open>The invariant of a block\<close>

definition occ :: "coded_block \<Rightarrow> nat \<Rightarrow> bool" where
  "occ blk r \<longleftrightarrow> cb_rows blk ! r ! 0 \<noteq> 255"

definition solved :: "coded_block \<Rightarrow> nat \<Rightarrow> bool" where
  "solved blk r \<longleftrightarrow> (\<forall>i. 1 \<le> i \<longrightarrow> i < cb_row_len blk ! r \<longrightarrow> cb_rows blk ! r ! i = 0)"

definition row_inv :: "(nat \<Rightarrow> nat \<Rightarrow> u8) \<Rightarrow> nat \<Rightarrow> coded_block \<Rightarrow> nat \<Rightarrow> bool" where
  "row_inv P L blk r \<longleftrightarrow>
    cb_rows blk ! r ! 0 = 1 \<and> 0 < cb_row_len blk ! r \<and> r + cb_row_len blk ! r \<le> BLOCK_SIZE \<and>
    cb_row_len blk ! r \<le> cb_max_coding_wnd blk \<and> r < cb_max_packet_index blk \<and>
    (\<forall>i < cb_row_len blk ! r. cb_max_packet_index blk \<le> r + i \<longrightarrow> cb_rows blk ! r ! i = 0) \<and>
    (\<exists>w. cb_content blk ! r = Some w \<and> length w = L \<and>
      row_sat P r (cb_row_len blk ! r) (cb_rows blk ! r) w)"

definition shape_ok :: "coded_block \<Rightarrow> bool" where
  "shape_ok blk \<longleftrightarrow> length (cb_rows blk) = BLOCK_SIZE \<and>
    (\<forall>r < BLOCK_SIZE. length (cb_rows blk ! r) = BLOCK_SIZE) \<and>
    length (cb_content blk) = BLOCK_SIZE \<and> length (cb_row_len blk) = BLOCK_SIZE \<and>
    length (cb_skb blk) = BLOCK_SIZE"

definition block_inv :: "(nat \<Rightarrow> nat \<Rightarrow> u8) \<Rightarrow> nat \<Rightarrow> coded_block \<Rightarrow> bool" where
  "block_inv P L blk \<longleftrightarrow> shape_ok blk \<and> cb_len blk = BLOCK_SIZE \<and>
    cb_max_packet_index blk \<le> BLOCK_SIZE \<and>
    cb_dofs blk = card {r. r < BLOCK_SIZE \<and> occ blk r} \<and>
    (\<forall>r < BLOCK_SIZE. occ blk r \<longrightarrow> row_inv P L blk r) \<and>
    cb_dofs_pushed blk \<le> cb_max_packet_index blk \<and>
    (\<forall>r < cb_dofs_pushed blk. occ blk r \<and> solved blk r)"

lemma init_shape: "shape_ok blk \<Longrightarrow> shape_ok (initCodedBlock blk)"
  by (simp add: shape_ok_def initCodedBlock_def)

lemma init_not_occ: "shape_ok blk \<Longrightarrow> r < BLOCK_SIZE \<Longrightarrow> \<not> occ (initCodedBlock blk) r"
proof -
  assume a: "shape_ok blk" "r < BLOCK_SIZE"
  then have "0 < length (cb_rows blk ! r)" by (simp add: shape_ok_def BLOCK_SIZE_def)
  with a show ?thesis by (auto simp: shape_ok_def initCodedBlock_def occ_def)
qed

lemma init_block_inv: "shape_ok blk \<Longrightarrow> block_inv P L (initCodedBlock blk)"
proof -
  assume s: "shape_ok blk"
  have "{r. r < BLOCK_SIZE \<and> occ (initCodedBlock blk) r} = {}"
    using init_not_occ [OF s] by blast
  moreover have "cb_dofs (initCodedBlock blk) = 0" "cb_len (initCodedBlock blk) = BLOCK_SIZE"
    "cb_max_packet_index (initCodedBlock blk) = 0" "cb_dofs_pushed (initCodedBlock blk) = 0"
    by (simp_all add: initCodedBlock_def)
  ultimately show ?thesis
    using init_shape [OF s] init_not_occ [OF s] by (auto simp: block_inv_def)
qed

text \<open>The number of degrees of freedom is at most \<open>max_packet_index\<close>; when it is reached
  every row below is present.\<close>

lemma block_inv_occ_below:
  "block_inv P L blk \<Longrightarrow> {r. r < BLOCK_SIZE \<and> occ blk r} \<subseteq> {..<cb_max_packet_index blk}"
  by (auto simp: block_inv_def row_inv_def)

lemma block_inv_dofs_le: "block_inv P L blk \<Longrightarrow> cb_dofs blk \<le> cb_max_packet_index blk"
  using card_mono [OF _ block_inv_occ_below] by (fastforce simp: block_inv_def)

lemma block_inv_full:
  assumes inv: "block_inv P L blk" and full: "cb_dofs blk = cb_max_packet_index blk"
    and r: "r < cb_max_packet_index blk"
  shows "occ blk r"
proof -
  have "card {r. r < BLOCK_SIZE \<and> occ blk r} = card {..<cb_max_packet_index blk}"
    using inv full by (simp add: block_inv_def)
  then have "{r. r < BLOCK_SIZE \<and> occ blk r} = {..<cb_max_packet_index blk}"
    by (intro card_subset_eq block_inv_occ_below [OF inv]) simp_all
  with r show ?thesis by blast
qed

lemma block_inv_complete:
  assumes "block_inv P L blk" "cb_dofs blk = BLOCK_SIZE"
  shows "cb_max_packet_index blk = BLOCK_SIZE"
  using block_inv_dofs_le [OF assms(1)] assms by (simp add: block_inv_def)

section \<open>Insertion of an innovative row\<close>

lemma insert_row_fields:
  assumes "normalize coeff payload (min n (BLOCK_SIZE - start)) = (c', w')"
  shows "insert_row blk skb n start coeff payload = blk\<lparr>
    cb_row_len := (cb_row_len blk)[start := min n (BLOCK_SIZE - start)],
    cb_rows := (cb_rows blk)[start :=
      memcpy_at (memcpy_at (cb_rows blk ! start) 0 (replicate (min n (BLOCK_SIZE - start)) 0)) 0
        (take (min n (BLOCK_SIZE - start)) c')],
    cb_content := (cb_content blk)[start := Some w'],
    cb_skb := (cb_skb blk)[start := skb],
    cb_max_coding_wnd := max (cb_max_coding_wnd blk) (min n (BLOCK_SIZE - start)),
    cb_dofs := cb_dofs blk + 1\<rparr>"
  using assms by (simp add: insert_row_def Let_def)

lemma card_occ_insert:
  assumes "start < BLOCK_SIZE" "\<not> occ blk start" "occ blk' start"
    and "\<And>r. r < BLOCK_SIZE \<Longrightarrow> r \<noteq> start \<Longrightarrow> occ blk' r = occ blk r"
  shows "card {r. r < BLOCK_SIZE \<and> occ blk' r} = Suc (card {r. r < BLOCK_SIZE \<and> occ blk r})"
proof -
  have "{r. r < BLOCK_SIZE \<and> occ blk' r} = insert start {r. r < BLOCK_SIZE \<and> occ blk r}"
    using assms by auto
  moreover have "start \<notin> {r. r < BLOCK_SIZE \<and> occ blk r}" using assms(2) by simp
  moreover have "finite {r. r < BLOCK_SIZE \<and> occ blk r}" by simp
  ultimately show ?thesis by simp
qed

lemma insert_row_inv:
  assumes inv: "block_inv P L blk" and start: "start < BLOCK_SIZE" "\<not> occ blk start"
    and n: "0 < n" "n \<le> BLOCK_SIZE" and c: "length coeff = BLOCK_SIZE" "coeff ! 0 \<noteq> 0"
    and sat: "row_sat P start n coeff payload" and L: "length payload = L"
    and beyond: "\<And>i. i < n \<Longrightarrow> cb_max_packet_index blk \<le> start + i \<Longrightarrow> coeff ! i = 0"
    and b': "blk' = insert_row blk skb n start coeff payload"
  shows "block_inv P L blk'" and "cb_dofs blk' = cb_dofs blk + 1" and "occ blk' start"
    and "cb_max_packet_index blk' = cb_max_packet_index blk"
    and "cb_dofs_pushed blk' = cb_dofs_pushed blk"
    and "cb_max_coding_wnd blk' \<le> max (cb_max_coding_wnd blk) n"
    and "\<And>r. occ blk r \<Longrightarrow> occ blk' r \<and> cb_content blk' ! r = cb_content blk ! r"
proof -
  define m where "m = min n (BLOCK_SIZE - start)"
  obtain c' w' where norm: "normalize coeff payload m = (c', w')" by fastforce
  have m: "0 < m" "m \<le> n" "m \<le> length coeff" "start + m \<le> BLOCK_SIZE"
    using n start c by (auto simp: m_def)
  have sh: "shape_ok blk" and mp: "cb_max_packet_index blk \<le> BLOCK_SIZE"
    using inv by (auto simp: block_inv_def)
  have lrow: "length (cb_rows blk ! start) = BLOCK_SIZE" using sh start by (simp add: shape_ok_def)
  have tail: "coeff ! i = 0" if "m \<le> i" "i < n" for i
    using that beyond [of i] mp start by (auto simp: m_def)
  have sat_m: "row_sat P start m coeff payload"
    using row_sat_shrink [OF m(2) tail] sat by blast
  note nu = normalize_unit [OF norm m(1,3) c(2) sat_m]
  define row where "row = memcpy_at (memcpy_at (cb_rows blk ! start) 0 (replicate m 0)) 0 (take m c')"
  have row: "length row = BLOCK_SIZE" "\<And>i. i < m \<Longrightarrow> row ! i = c' ! i"
    using lrow m c nu(2) by (auto simp: row_def nth_memcpy_at)
  have b: "blk' = blk\<lparr>cb_row_len := (cb_row_len blk)[start := m], cb_rows := (cb_rows blk)[start := row],
    cb_content := (cb_content blk)[start := Some w'], cb_skb := (cb_skb blk)[start := skb],
    cb_max_coding_wnd := max (cb_max_coding_wnd blk) m, cb_dofs := cb_dofs blk + 1\<rparr>"
    using insert_row_fields [of coeff payload n start c' w' blk skb] norm b'
    by (simp add: m_def row_def)
  have lens: "start < length (cb_rows blk)" "start < length (cb_content blk)"
    "start < length (cb_row_len blk)"
    using sh start by (simp_all add: shape_ok_def)
  show occs: "occ blk' start" using lens row m nu(1) by (simp add: b occ_def)
  have other: "occ blk' r = occ blk r" if "r \<noteq> start" for r using that by (simp add: b occ_def)
  have lt: "start < cb_max_packet_index blk" using beyond [of 0] c(2) n by fastforce
  have row_s: "row_inv P L blk' start"
    unfolding row_inv_def
    using lens row m nu L lt beyond row_sat_cong [OF nu(4), of row]
    by (simp add: b)
  have row_o: "row_inv P L blk' r" if "r \<noteq> start" "row_inv P L blk r" for r
    using that by (auto simp: b row_inv_def max_def)
  have sh': "shape_ok blk'" using sh row lrow start by (auto simp: b shape_ok_def nth_list_update)
  have card: "card {r. r < BLOCK_SIZE \<and> occ blk' r} = Suc (card {r. r < BLOCK_SIZE \<and> occ blk r})"
    using card_occ_insert start occs other by blast
  have pushed: "solved blk' r" if "r < cb_dofs_pushed blk" for r
  proof -
    have "occ blk r \<and> solved blk r" using that inv by (simp add: block_inv_def)
    then have "r \<noteq> start" using start by blast
    with \<open>occ blk r \<and> solved blk r\<close> show ?thesis by (simp add: solved_def b)
  qed
  show "cb_dofs blk' = cb_dofs blk + 1" "cb_max_packet_index blk' = cb_max_packet_index blk"
    "cb_dofs_pushed blk' = cb_dofs_pushed blk" "cb_max_coding_wnd blk' \<le> max (cb_max_coding_wnd blk) n"
    using m by (simp_all add: b)
  show "occ blk' r \<and> cb_content blk' ! r = cb_content blk ! r" if "occ blk r" for r
    using that start other occs by (cases "r = start") (auto simp: b)
  show "block_inv P L blk'"
    unfolding block_inv_def
  proof (intro conjI allI impI)
    show "cb_dofs blk' = card {r. r < BLOCK_SIZE \<and> occ blk' r}"
      using inv card by (simp add: b block_inv_def)
    show "row_inv P L blk' r" if "r < BLOCK_SIZE" "occ blk' r" for r
      using that row_s row_o [of r] other [of r] inv by (cases "r = start") (auto simp: block_inv_def)
    show "occ blk' r" "solved blk' r" if "r < cb_dofs_pushed blk'" for r
      using that inv pushed [of r] other [of r] occs by (auto simp: b block_inv_def)
  qed (use sh' inv in \<open>auto simp: b block_inv_def\<close>)
qed

section \<open>The elimination loop\<close>

text \<open>
  A packet fits a block if no stored row has more coefficients than the packet mixes;
  a packet of one coefficient always does.
\<close>

definition fits :: "coded_block \<Rightarrow> nat \<Rightarrow> bool" where
  "fits blk n \<longleftrightarrow> n = 1 \<or> cb_max_coding_wnd blk \<le> n"

definition elim_post ::
  "(nat \<Rightarrow> nat \<Rightarrow> u8) \<Rightarrow> nat \<Rightarrow> coded_block \<Rightarrow> nat \<Rightarrow> coded_block \<Rightarrow> bool \<Rightarrow> bool" where
  "elim_post P L blk n blk' sv \<longleftrightarrow> block_inv P L blk' \<and> (\<not> sv \<longrightarrow> blk' = blk) \<and>
    cb_dofs blk' = cb_dofs blk + (if sv then 1 else 0) \<and>
    cb_max_packet_index blk' = cb_max_packet_index blk \<and>
    cb_dofs_pushed blk' = cb_dofs_pushed blk \<and>
    cb_max_coding_wnd blk' \<le> max (cb_max_coding_wnd blk) n \<and>
    (\<forall>r. occ blk r \<longrightarrow> occ blk' r \<and> cb_content blk' ! r = cb_content blk ! r)"

lemma eliminate_insert:
  assumes "n \<le> BLOCK_SIZE" "n \<le> length coeff" "\<not> isEmpty coeff n" "start < BLOCK_SIZE" "\<not> occ blk start"
  shows "eliminate blk skb n start coeff payload = Some (insert_row blk skb n start coeff payload, True)"
  using assms by (subst eliminate.simps) (simp add: occ_def)

lemma eliminate_empty:
  "n \<le> BLOCK_SIZE \<Longrightarrow> n \<le> length coeff \<Longrightarrow> isEmpty coeff n \<Longrightarrow>
    eliminate blk skb n start coeff payload = Some (blk, False)"
  by (subst eliminate.simps) simp

lemma eliminate_step:
  assumes "n \<le> BLOCK_SIZE" "length coeff = BLOCK_SIZE" "\<not> isEmpty coeff n" "start < BLOCK_SIZE"
    and "occ blk start" "cb_row_len blk ! start \<le> BLOCK_SIZE" "cb_content blk ! start = Some w"
    and "shift_row (subtract_row (coeff[0 := 0]) (cb_rows blk ! start) (xFFlog (coeff ! 0))
      [1..<cb_row_len blk ! start]) n = (s, coeff')" and "s \<le> n"
  shows "eliminate blk skb n start coeff payload =
    eliminate blk skb n (start + s) coeff' (axpy payload (xFFlog (coeff ! 0)) w)"
proof -
  have "(start + s) mod 256 = start + s" using assms(1,4,9) by (simp add: BLOCK_SIZE_def)
  with assms show ?thesis by (subst eliminate.simps) (simp add: occ_def Let_def)
qed

lemma subtract_coeffs:
  assumes "length coeff = BLOCK_SIZE" "coeff ! 0 \<noteq> 0" "k < BLOCK_SIZE"
  shows "subtract_row (coeff[0 := 0]) rs (xFFlog (coeff ! 0)) [1..<m] ! k =
    (if k = 0 then 0 else if k < m then coeff ! k XOR FFmult (rs ! k) (coeff ! 0) else coeff ! k)"
  using assms by (simp add: subtract_row_nth fastFFmult_eq)

lemma row_inv_fits:
  "row_inv P L blk r \<Longrightarrow> cb_max_coding_wnd blk \<le> n \<Longrightarrow> cb_row_len blk ! r \<le> n"
  by (auto simp: row_inv_def)

lemma eliminate_subtract_sat:
  assumes row: "row_inv P L blk start" and m: "cb_row_len blk ! start \<le> n"
    and n: "n \<le> BLOCK_SIZE" and c: "length coeff = BLOCK_SIZE" "coeff ! 0 \<noteq> 0"
    and sat: "row_sat P start n coeff payload" "length payload = L"
    and w: "cb_content blk ! start = Some w"
    and beyond: "\<And>i. i < n \<Longrightarrow> cb_max_packet_index blk \<le> start + i \<Longrightarrow> coeff ! i = 0"
    and sh: "shift_row (subtract_row (coeff[0 := 0]) (cb_rows blk ! start) (xFFlog (coeff ! 0))
      [1..<cb_row_len blk ! start]) n = (s, coeff')"
  shows "row_sat P (start + s) n coeff' (axpy payload (xFFlog (coeff ! 0)) w)"
    and "length (axpy payload (xFFlog (coeff ! 0)) w) = L"
    and "i < n \<Longrightarrow> cb_max_packet_index blk \<le> start + s + i \<Longrightarrow> coeff' ! i = 0"
proof -
  let ?rs = "cb_rows blk ! start" and ?m = "cb_row_len blk ! start"
  let ?d = "subtract_row (coeff[0 := 0]) ?rs (xFFlog (coeff ! 0)) [1..<?m]"
  have r: "?rs ! 0 = 1" "0 < ?m" "length w = L" "row_sat P start ?m ?rs w"
    and rz: "\<And>i. i < ?m \<Longrightarrow> cb_max_packet_index blk \<le> start + i \<Longrightarrow> ?rs ! i = 0"
    using row w by (auto simp: row_inv_def)
  have ld: "n \<le> length ?d" using n c by simp
  have d: "?d ! k = (if k = 0 then 0 else if k < ?m then coeff ! k XOR FFmult (?rs ! k) (coeff ! 0) else coeff ! k)"
    if "k < n" for k
    using subtract_coeffs [OF c, of k] that n by simp
  note sr = shift_row_nth [OF sh ld]
  show "length (axpy payload (xFFlog (coeff ! 0)) w) = L" using sat(2) r(3) by simp
  have "row_sat P start n ?d (axpy payload (xFFlog (coeff ! 0)) w)"
    by (rule row_sat_subtract [OF sat(1) r(4) r(2) m c(2) r(1)])
      (use d r sat m in \<open>auto simp: not_less\<close>)
  then show "row_sat P (start + s) n coeff' (axpy payload (xFFlog (coeff ! 0)) w)"
    by (rule row_sat_shift) (use sr in auto)
  have dz: "?d ! k = 0" if "k < n" "cb_max_packet_index blk \<le> start + k" for k
    using d [OF that(1)] rz [of k] beyond [of k] that by auto
  show "coeff' ! i = 0" if "i < n" "cb_max_packet_index blk \<le> start + s + i"
    using sr(4,5) [of i] dz [of "s + i"] that by (cases "i < n - s") auto
qed

lemma eliminate_correct:
  assumes inv: "block_inv P L blk" and n: "0 < n" "n \<le> BLOCK_SIZE" and fit: "fits blk n"
  shows "length coeff = BLOCK_SIZE \<Longrightarrow> isEmpty coeff n \<or> coeff ! 0 \<noteq> 0 \<Longrightarrow>
    row_sat P start n coeff payload \<Longrightarrow> length payload = L \<Longrightarrow>
    (\<And>i. i < n \<Longrightarrow> cb_max_packet_index blk \<le> start + i \<Longrightarrow> coeff ! i = 0) \<Longrightarrow>
    \<exists>blk' sv. eliminate blk skb n start coeff payload = Some (blk', sv) \<and> elim_post P L blk n blk' sv"
proof (induction "BLOCK_SIZE - start" arbitrary: start coeff payload rule: less_induct)
  case less
  note c = less.prems(1) and sat = less.prems(3) and L = less.prems(4) and beyond = less.prems(5)
  have keep: "elim_post P L blk n blk False" using inv by (simp add: elim_post_def)
  show ?case
  proof (cases "isEmpty coeff n")
    case True
    then have "eliminate blk skb n start coeff payload = Some (blk, False)"
      using eliminate_empty n c by simp
    with keep show ?thesis by blast
  next
    case False
    then have c0: "coeff ! 0 \<noteq> 0" using less.prems(2) by simp
    have mpi: "cb_max_packet_index blk \<le> BLOCK_SIZE" using inv by (simp add: block_inv_def)
    have start: "start < BLOCK_SIZE" using beyond [of 0] c0 n mpi by fastforce
    show ?thesis
    proof (cases "occ blk start")
      case False
      note ins = insert_row_inv [OF inv start False n c c0 sat L beyond refl]
      have "eliminate blk skb n start coeff payload = Some (insert_row blk skb n start coeff payload, True)"
        by (rule eliminate_insert) (use n c False \<open>\<not> isEmpty coeff n\<close> start in auto)
      with ins show ?thesis by (auto simp: elim_post_def)
    next
      case True
      then have row: "row_inv P L blk start" using inv start by (simp add: block_inv_def)
      then obtain w where w: "cb_content blk ! start = Some w" and rl: "cb_row_len blk ! start \<le> BLOCK_SIZE"
        by (auto simp: row_inv_def)
      let ?d = "subtract_row (coeff[0 := 0]) (cb_rows blk ! start) (xFFlog (coeff ! 0))
        [1..<cb_row_len blk ! start]"
      obtain s coeff' where sh: "shift_row ?d n = (s, coeff')" by fastforce
      have s: "0 < s \<and> s \<le> n" using eliminate_shift [OF False] sh n c by metis
      have ld: "n \<le> length ?d" using n c by simp
      note sr = shift_row_nth [OF sh ld]
      have step: "eliminate blk skb n start coeff payload =
          eliminate blk skb n (start + s) coeff' (axpy payload (xFFlog (coeff ! 0)) w)"
        by (rule eliminate_step) (use n c False start True rl w sh s in auto)
      have c': "length coeff' = BLOCK_SIZE" using sr(2) c by simp
      have ne: "isEmpty coeff' n \<or> coeff' ! 0 \<noteq> 0"
        using sr(1,5,6) c' n by (cases "s < n") (auto simp: isEmpty_iff)
      show ?thesis
      proof (cases "n = 1")
        case True
        then have "isEmpty coeff' n" using sr(5) s c' n by (auto simp: isEmpty_iff)
        then have "eliminate blk skb n start coeff payload = Some (blk, False)"
          using step eliminate_empty n c' by simp
        with keep show ?thesis by blast
      next
        case False
        then have m: "cb_row_len blk ! start \<le> n" using fit row_inv_fits [OF row] by (simp add: fits_def)
        note es = eliminate_subtract_sat [OF row m n(2) c c0 sat L w beyond sh]
        show ?thesis unfolding step
          by (rule less.hyps) (use s start c' ne es in auto)
      qed
    qed
  qed
qed

lemma bld_coeffs_nth:
  assumes "pkt_ok P L m" "length stack = BLOCK_SIZE"
  shows "length (bld_coeffs stack m) = BLOCK_SIZE"
    and "i < unat (d_num_packets m) \<Longrightarrow> bld_coeffs stack m ! i = pkt_coeffs m ! i"
proof -
  have n: "unat (d_num_packets m) \<le> BLOCK_SIZE" using assms(1) by (auto simp: pkt_ok_def)
  then show "length (bld_coeffs stack m) = BLOCK_SIZE"
    using assms(2) by (simp add: bld_coeffs_def)
  assume i: "i < unat (d_num_packets m)"
  show "bld_coeffs stack m ! i = pkt_coeffs m ! i"
  proof (cases "d_flag m = flag_code CODED")
    case True
    then show ?thesis using n i assms(2) by (simp add: bld_coeffs_def pkt_coeffs_def nth_memcpy_at)
  next
    case False
    then have "i = 0" using assms(1) i by (simp add: pkt_ok_def)
    with False assms(2) show ?thesis by (simp add: bld_coeffs_def pkt_coeffs_def BLOCK_SIZE_def)
  qed
qed

text \<open>The whole elimination of a packet that keeps the contract.\<close>

lemma bld_eliminate_correct:
  assumes inv: "block_inv P L blk" and ok: "pkt_ok P L m" and st: "length stack = BLOCK_SIZE"
    and fit: "fits blk (unat (d_num_packets m))"
    and mpi: "unat (d_start_packet m) + unat (d_num_packets m) \<le> cb_max_packet_index blk"
  obtains blk' sv where "bld_eliminate stack blk skb m = Some (blk', sv)"
    "elim_post P L blk (unat (d_num_packets m)) blk' sv"
proof -
  let ?n = "unat (d_num_packets m)" and ?r = "unat (d_start_packet m)"
  let ?c = "bld_coeffs stack m"
  have n: "0 < ?n" "?r + ?n \<le> BLOCK_SIZE" and L: "length (d_payload m) = L"
    and sat0: "row_sat P ?r ?n (pkt_coeffs m) (d_payload m)"
    using ok by (auto simp: pkt_ok_def unat_gt_0 word_neq_0_conv)
  note bc = bld_coeffs_nth [OF ok st]
  have sat: "row_sat P ?r ?n ?c (d_payload m)" by (rule row_sat_cong [OF sat0]) (rule bc(2))
  obtain s c' where sh: "shift_row ?c ?n = (s, c')" by fastforce
  have ln: "?n \<le> length ?c" using n bc(1) by simp
  note sr = shift_row_nth [OF sh ln]
  have r: "(?r + s) mod 256 = ?r + s" using n sr(1) by (simp add: BLOCK_SIZE_def)
  have "\<exists>blk' sv. eliminate blk skb ?n (?r + s) c' (d_payload m) = Some (blk', sv) \<and>
      elim_post P L blk ?n blk' sv"
  proof (rule eliminate_correct [OF inv n(1) _ fit _ _ _ L])
    show "?n \<le> BLOCK_SIZE" "length c' = BLOCK_SIZE" using n sr(2) bc(1) by simp_all
    show "isEmpty c' ?n \<or> c' ! 0 \<noteq> 0"
      using sr(1,2,5,6) ln by (cases "s < ?n") (auto simp: isEmpty_iff)
    show "row_sat P (?r + s) ?n c' (d_payload m)"
      by (rule row_sat_shift [OF sat]) (use sr in auto)
    show "c' ! i = 0" if "i < ?n" "cb_max_packet_index blk \<le> ?r + s + i" for i
      using that mpi sr(1,5) by auto
  qed
  then show ?thesis using that sh r n(2) by (auto simp: bld_eliminate_def Let_def)
qed

section \<open>Back substitution\<close>

definition has_packet :: "(nat \<Rightarrow> nat \<Rightarrow> u8) \<Rightarrow> nat \<Rightarrow> bytes option list \<Rightarrow> nat \<Rightarrow> bool" where
  "has_packet P L C r \<longleftrightarrow> r < length C \<and> (\<exists>w. C ! r = Some w \<and> length w = L \<and> (\<forall>j<L. w ! j = P r j))"

lemma gf256_cancel: "(a + b) + a = (b :: gf256)"
  by (simp add: add.commute [of a] add.assoc)

lemma unwrap_offs_correct:
  "distinct offs \<Longrightarrow> 0 \<notin> set offs \<Longrightarrow> row < length C \<Longrightarrow> C ! row = Some w \<Longrightarrow> length w = L \<Longrightarrow>
    (\<And>i. i \<in> set offs \<Longrightarrow> rs ! i \<noteq> 0 \<Longrightarrow> has_packet P L C (row + i)) \<Longrightarrow>
    (\<And>j. j < L \<Longrightarrow> gf_of (w ! j) = g j + (\<Sum>i\<in>set offs. gf_of (rs ! i) * gf_of (P (row + i) j))) \<Longrightarrow>
    \<exists>w'. unwrap_offs rs row offs C = Some (C[row := Some w']) \<and> length w' = L \<and>
      (\<forall>j<L. gf_of (w' ! j) = g j)"
proof (induction offs arbitrary: C w)
  case Nil
  have "C[row := Some w] = C" using Nil.prems(4) by (metis list_update_id)
  with Nil.prems show ?case by (intro exI [of _ w]) simp
next
  case (Cons off offs)
  show ?case
  proof (cases "rs ! off = 0")
    case True
    then have "\<exists>w'. unwrap_offs rs row offs C = Some (C[row := Some w']) \<and> length w' = L \<and>
        (\<forall>j<L. gf_of (w' ! j) = g j)"
      using Cons.prems by (intro Cons.IH [of C w]) (auto simp: gf_simps)
    with True show ?thesis by simp
  next
    case False
    then obtain v where v: "row + off < length C" "C ! (row + off) = Some v" "length v = L"
      "\<forall>j<L. v ! j = P (row + off) j"
      using Cons.prems(6) [of off] by (auto simp: has_packet_def)
    let ?w = "axpy w (xFFlog (rs ! off)) v" and ?C = "C[row := Some (axpy w (xFFlog (rs ! off)) v)]"
    have "\<exists>w'. unwrap_offs rs row offs ?C = Some (?C[row := Some w']) \<and> length w' = L \<and>
        (\<forall>j<L. gf_of (w' ! j) = g j)"
    proof (rule Cons.IH [of _ ?w])
      show "has_packet P L ?C (row + i)" if "i \<in> set offs" "rs ! i \<noteq> 0" for i
        using Cons.prems(2) Cons.prems(6) [of i] that by (auto simp: has_packet_def nth_list_update)
      fix j assume j: "j < L"
      have "off \<notin> set offs" using Cons.prems(1) by simp
      then have "gf_of (w ! j) = gf_of (rs ! off) * gf_of (v ! j) +
          (g j + (\<Sum>i\<in>set offs. gf_of (rs ! i) * gf_of (P (row + i) j)))"
        using Cons.prems(7) [OF j] v(4) j by (simp add: ac_simps)
      then show "gf_of (?w ! j) = g j + (\<Sum>i\<in>set offs. gf_of (rs ! i) * gf_of (P (row + i) j))"
        using gf_axpy [OF False, where j = j and ws = w and vs = v] j v(3) Cons.prems(5) gf256_cancel by simp
    qed (use Cons.prems v in auto)
    with False v Cons.prems show ?thesis by auto
  qed
qed

lemma sum_split_first: "0 < (m::nat) \<Longrightarrow> (\<Sum>i<m. f i) = f 0 + (\<Sum>i\<in>{1..<m}. f i :: gf256)"
  by (simp add: lessThan_atLeast0 sum.atLeast_Suc_lessThan)

lemma unwrap_one:
  assumes inv: "block_inv P L blk" and row: "row < BLOCK_SIZE" "occ blk row"
    and above: "\<And>r. row < r \<Longrightarrow> r < cb_max_packet_index blk \<Longrightarrow> has_packet P L (cb_content blk) r"
  shows "\<exists>w'. unwrap_offs (cb_rows blk ! row) row [1..<cb_row_len blk ! row] (cb_content blk) =
      Some ((cb_content blk)[row := Some w']) \<and> length w' = L \<and> (\<forall>j<L. w' ! j = P row j)"
proof -
  let ?rs = "cb_rows blk ! row" and ?m = "cb_row_len blk ! row"
  have r: "row_inv P L blk row" using inv row by (simp add: block_inv_def)
  obtain w where w: "cb_content blk ! row = Some w" "length w = L" "row_sat P row ?m ?rs w"
    using r by (auto simp: row_inv_def)
  have m: "0 < ?m" "?rs ! 0 = 1" using r by (auto simp: row_inv_def)
  have len: "row < length (cb_content blk)" using inv row by (simp add: block_inv_def shape_ok_def)
  have "\<exists>w'. unwrap_offs ?rs row [1..<?m] (cb_content blk) = Some ((cb_content blk)[row := Some w']) \<and>
      length w' = L \<and> (\<forall>j<L. gf_of (w' ! j) = gf_of (P row j))"
  proof (rule unwrap_offs_correct [where P = P, OF _ _ len w(1,2)])
    show "has_packet P L (cb_content blk) (row + i)" if "i \<in> set [1..<?m]" "?rs ! i \<noteq> 0" for i
      using above [of "row + i"] that r by (auto simp: row_inv_def not_less [symmetric])
    show "gf_of (w ! j) = gf_of (P row j) +
        (\<Sum>i\<in>set [1..<?m]. gf_of (?rs ! i) * gf_of (P (row + i) j))" if "j < L" for j
      using row_satD [OF w(3)] that w(2) sum_split_first [OF m(1)] m(2) by (simp add: gf_simps)
  qed simp_all
  then show ?thesis by simp
qed

lemma unwrap_one_inv:
  assumes inv: "block_inv P L blk" and row: "row < BLOCK_SIZE" "occ blk row"
    and w: "length w = L" "\<forall>j<L. w ! j = P row j"
    and b: "blk' = blk\<lparr>cb_content := (cb_content blk)[row := Some w], cb_row_len := (cb_row_len blk)[row := 1]\<rparr>"
  shows "block_inv P L blk'"
proof -
  have r: "row_inv P L blk row" using inv row by (simp add: block_inv_def)
  have sh: "length (cb_content blk) = BLOCK_SIZE" "length (cb_row_len blk) = BLOCK_SIZE"
    using inv by (simp_all add: block_inv_def shape_ok_def)
  have occ: "occ blk' r = occ blk r" for r by (simp add: b occ_def)
  have "row_sat P row 1 (cb_rows blk ! row) w"
    using row_sat_unit [of 1 "cb_rows blk ! row" P row w] r w by (simp add: row_inv_def)
  then have new: "row_inv P L blk' row"
    using r row sh w by (auto simp: row_inv_def b)
  have other: "row_inv P L blk' r" if "r \<noteq> row" "row_inv P L blk r" for r
    using that by (simp add: row_inv_def b)
  have solv: "solved blk' r" if "solved blk r" for r
    using that sh row by (cases "r = row") (auto simp: solved_def b)
  show ?thesis
    unfolding block_inv_def
  proof (intro conjI allI impI)
    show "shape_ok blk'" using inv by (simp add: b block_inv_def shape_ok_def)
    show "row_inv P L blk' r" if "r < BLOCK_SIZE" "occ blk' r" for r
      using that new other [of r] inv by (cases "r = row") (auto simp: occ block_inv_def)
    show "cb_dofs blk' = card {r. r < BLOCK_SIZE \<and> occ blk' r}"
      using inv by (simp add: b block_inv_def occ_def)
    have "cb_dofs_pushed blk' = cb_dofs_pushed blk" by (simp add: b)
    then show "occ blk' r" "solved blk' r" if "r < cb_dofs_pushed blk'" for r
      using that inv solv [of r] occ [of r] by (simp_all add: block_inv_def)
  qed (use inv in \<open>simp_all add: b block_inv_def\<close>)
qed

lemma unwrap_rows_correct:
  assumes "block_inv P L blk" and "\<And>r. r < cb_max_packet_index blk \<Longrightarrow> occ blk r"
    and "hi < cb_max_packet_index blk" and "lo \<le> hi"
    and "\<And>r. hi \<le> r \<Longrightarrow> r < cb_max_packet_index blk \<Longrightarrow> has_packet P L (cb_content blk) r"
  shows "\<exists>C R. unwrap_rows blk (rev [lo..<hi]) = Some (blk\<lparr>cb_content := C, cb_row_len := R\<rparr>) \<and>
    block_inv P L (blk\<lparr>cb_content := C, cb_row_len := R\<rparr>) \<and>
    (\<forall>r. lo \<le> r \<longrightarrow> r < cb_max_packet_index blk \<longrightarrow> has_packet P L C r) \<and>
    (\<forall>r. lo \<le> r \<longrightarrow> r < hi \<longrightarrow> R ! r = 1) \<and>
    (\<forall>r. r < lo \<or> hi \<le> r \<longrightarrow> C ! r = cb_content blk ! r \<and> R ! r = cb_row_len blk ! r)"
  using assms
proof (induction hi arbitrary: blk)
  case 0
  then show ?case by (intro exI [of _ "cb_content blk"] exI [of _ "cb_row_len blk"]) simp
next
  case (Suc hi)
  show ?case
  proof (cases "lo = Suc hi")
    case True
    with Suc.prems show ?thesis by (intro exI [of _ "cb_content blk"] exI [of _ "cb_row_len blk"]) simp
  next
    case False
    with Suc.prems(4) have lo: "lo \<le> hi" by simp
    have hi: "hi < cb_max_packet_index blk" "hi < BLOCK_SIZE" "occ blk hi"
      using Suc.prems(1,3) Suc.prems(2) [of hi] by (auto simp: block_inv_def)
    obtain w' where w': "unwrap_offs (cb_rows blk ! hi) hi [1..<cb_row_len blk ! hi] (cb_content blk) =
        Some ((cb_content blk)[hi := Some w'])" "length w' = L" "\<forall>j<L. w' ! j = P hi j"
      using unwrap_one [OF Suc.prems(1) hi(2,3)] Suc.prems(5) by auto
    define b1 where "b1 = blk\<lparr>cb_content := (cb_content blk)[hi := Some w'],
      cb_row_len := (cb_row_len blk)[hi := 1]\<rparr>"
    have len: "length (cb_content blk) = BLOCK_SIZE" "length (cb_row_len blk) = BLOCK_SIZE"
      using Suc.prems(1) by (simp_all add: block_inv_def shape_ok_def)
    have "\<exists>C R. unwrap_rows b1 (rev [lo..<hi]) = Some (b1\<lparr>cb_content := C, cb_row_len := R\<rparr>) \<and>
      block_inv P L (b1\<lparr>cb_content := C, cb_row_len := R\<rparr>) \<and>
      (\<forall>r. lo \<le> r \<longrightarrow> r < cb_max_packet_index b1 \<longrightarrow> has_packet P L C r) \<and>
      (\<forall>r. lo \<le> r \<longrightarrow> r < hi \<longrightarrow> R ! r = 1) \<and>
      (\<forall>r. r < lo \<or> hi \<le> r \<longrightarrow> C ! r = cb_content b1 ! r \<and> R ! r = cb_row_len b1 ! r)"
    proof (rule Suc.IH)
      show "block_inv P L b1"
        by (rule unwrap_one_inv [OF Suc.prems(1) hi(2,3) w'(2,3)]) (simp add: b1_def)
      show "occ b1 r" if "r < cb_max_packet_index b1" for r
        using that Suc.prems(2) [of r] by (simp add: b1_def occ_def)
      show "has_packet P L (cb_content b1) r" if "hi \<le> r" "r < cb_max_packet_index b1" for r
        using that Suc.prems(5) [of r] w'(2,3) len hi(2)
        by (cases "r = hi") (auto simp: b1_def has_packet_def)
    qed (use lo hi in \<open>simp_all add: b1_def\<close>)
    then obtain C R where CR: "unwrap_rows b1 (rev [lo..<hi]) = Some (blk\<lparr>cb_content := C, cb_row_len := R\<rparr>)"
      "block_inv P L (blk\<lparr>cb_content := C, cb_row_len := R\<rparr>)"
      "\<forall>r. lo \<le> r \<longrightarrow> r < cb_max_packet_index blk \<longrightarrow> has_packet P L C r"
      "\<forall>r. lo \<le> r \<longrightarrow> r < hi \<longrightarrow> R ! r = 1"
      "\<forall>r. r < lo \<or> hi \<le> r \<longrightarrow> C ! r = cb_content b1 ! r \<and> R ! r = cb_row_len b1 ! r"
      by (auto simp: b1_def)
    have "unwrap_rows blk (rev [lo..<Suc hi]) = unwrap_rows b1 (rev [lo..<hi])"
      using lo hi(2) w'(1) by (simp add: b1_def)
    moreover have "\<forall>r. lo \<le> r \<longrightarrow> r < Suc hi \<longrightarrow> R ! r = 1"
      using CR(4,5) len hi(2) by (auto simp: b1_def less_Suc_eq)
    moreover have "\<forall>r. r < lo \<or> Suc hi \<le> r \<longrightarrow> C ! r = cb_content blk ! r \<and> R ! r = cb_row_len blk ! r"
      using CR(5) lo by (auto simp: b1_def)
    ultimately show ?thesis using CR(1-3) by metis
  qed
qed

lemma solved_has_packet:
  assumes inv: "block_inv P L blk" and r: "r < BLOCK_SIZE" "occ blk r" "solved blk r"
  shows "has_packet P L (cb_content blk) r"
proof -
  have row: "row_inv P L blk r" using inv r by (simp add: block_inv_def)
  then obtain w where w: "cb_content blk ! r = Some w" "length w = L"
    "row_sat P r (cb_row_len blk ! r) (cb_rows blk ! r) w" by (auto simp: row_inv_def)
  have "\<forall>j < length w. w ! j = P r j"
    by (rule row_sat_unit [THEN iffD1, OF _ _ _ w(3)])
      (use row r(3) in \<open>auto simp: row_inv_def solved_def\<close>)
  moreover have "r < length (cb_content blk)" using inv r(1) by (simp add: block_inv_def shape_ok_def)
  ultimately show ?thesis using w by (simp add: has_packet_def)
qed

lemma last_row_solved:
  "block_inv P L blk \<Longrightarrow> r < BLOCK_SIZE \<Longrightarrow> occ blk r \<Longrightarrow> Suc r = cb_max_packet_index blk \<Longrightarrow> solved blk r"
  by (auto simp: block_inv_def row_inv_def solved_def)

text \<open>
  When a block has as many degrees of freedom as packets, \<open>unwrap\<close> recovers every packet.
\<close>

lemma unwrap_correct:
  assumes inv: "block_inv P L blk" and full: "cb_dofs blk = cb_max_packet_index blk"
  obtains C R where "unwrap blk = Some (blk\<lparr>cb_content := C, cb_row_len := R\<rparr>)"
    "block_inv P L (blk\<lparr>cb_content := C, cb_row_len := R\<rparr>)"
    "\<And>r. r < cb_max_packet_index blk \<Longrightarrow> has_packet P L C r"
    "\<And>r. r < cb_max_packet_index blk \<Longrightarrow> solved (blk\<lparr>cb_content := C, cb_row_len := R\<rparr>) r"
proof -
  let ?mpi = "cb_max_packet_index blk" and ?lo = "cb_dofs_pushed blk"
  have occ: "\<And>r. r < ?mpi \<Longrightarrow> occ blk r" by (rule block_inv_full [OF inv full])
  have mpi: "?mpi \<le> BLOCK_SIZE" "?lo \<le> ?mpi" and pushed: "\<And>r. r < ?lo \<Longrightarrow> solved blk r"
    using inv by (auto simp: block_inv_def)
  show ?thesis
  proof (cases "?lo < ?mpi")
    case False
    then have s: "solved blk r" if "r < ?mpi" for r using that pushed mpi by simp
    then have h: "has_packet P L (cb_content blk) r" if "r < ?mpi" for r
      using that occ mpi by (intro solved_has_packet [OF inv]) auto
    have "unwrap blk = Some blk" using False by (simp add: unwrap_def)
    then show ?thesis using that [where C = "cb_content blk" and R = "cb_row_len blk"] inv s h by simp
  next
    case True
    let ?hi = "?mpi - 1"
    have hi: "?hi < ?mpi" "?lo \<le> ?hi" using True by auto
    have "solved blk ?hi" by (rule last_row_solved [OF inv]) (use hi occ mpi True in auto)
    then have last: "has_packet P L (cb_content blk) ?hi"
      using hi occ mpi by (intro solved_has_packet [OF inv]) auto
    have "\<exists>C R. unwrap_rows blk (rev [?lo..<?hi]) = Some (blk\<lparr>cb_content := C, cb_row_len := R\<rparr>) \<and>
      block_inv P L (blk\<lparr>cb_content := C, cb_row_len := R\<rparr>) \<and>
      (\<forall>r. ?lo \<le> r \<longrightarrow> r < ?mpi \<longrightarrow> has_packet P L C r) \<and>
      (\<forall>r. ?lo \<le> r \<longrightarrow> r < ?hi \<longrightarrow> R ! r = 1) \<and>
      (\<forall>r. r < ?lo \<or> ?hi \<le> r \<longrightarrow> C ! r = cb_content blk ! r \<and> R ! r = cb_row_len blk ! r)"
    proof (rule unwrap_rows_correct [OF inv occ hi])
      show "has_packet P L (cb_content blk) r" if "?hi \<le> r" "r < ?mpi" for r
        using that last by (cases "r = ?hi") auto
    qed
    then obtain C R where CR: "unwrap_rows blk (rev [?lo..<?hi]) = Some (blk\<lparr>cb_content := C, cb_row_len := R\<rparr>)"
      "block_inv P L (blk\<lparr>cb_content := C, cb_row_len := R\<rparr>)"
      "\<forall>r. ?lo \<le> r \<longrightarrow> r < ?hi \<longrightarrow> R ! r = 1"
      "\<forall>r. r < ?lo \<or> ?hi \<le> r \<longrightarrow> C ! r = cb_content blk ! r \<and> R ! r = cb_row_len blk ! r"
      by blast
    let ?b = "blk\<lparr>cb_content := C, cb_row_len := R\<rparr>"
    have s: "solved ?b r" if "r < ?mpi" for r
    proof -
      consider "r < ?lo" | "?lo \<le> r" "r < ?hi" | "r = ?hi" using \<open>r < ?mpi\<close> by linarith
      then show ?thesis
        using CR(3,4) pushed \<open>solved blk ?hi\<close> by cases (auto simp: solved_def)
    qed
    have h: "has_packet P L C r" if "r < ?mpi" for r
      using solved_has_packet [OF CR(2), of r] s [OF that] occ [OF that] mpi that by (simp add: occ_def)
    show ?thesis by (rule that [OF _ CR(2) h s]) (use CR(1) in \<open>simp_all add: unwrap_def\<close>)
  qed
qed

end
