(* ===== verification/Receiver.thy ===== *)
theory Receiver
  imports Elimination
begin

text \<open>
  The receiving side of the data path in \<open>src/clictcp.c\<close>: \<open>unmarshallData\<close>,
  \<open>partial_write\<close>, \<open>writeAndFreeBlock\<close> and \<open>bldack\<close>, over the window of
  \<open>NUM_BLOCKS\<close> coded blocks and the queue \<open>usr_cache\<close> of decoded bytes.  \<open>Fault\<close> is an
  access that C leaves undefined, \<open>Blocks\<close> a thread that waits in \<open>fifo_push\<close> for the
  application to read.  The delays and logs that are only measured are left out.
\<close>

section \<open>State\<close>

datatype 'a outcome = Fault | Blocks fifo | Done 'a

primrec obind :: "'a outcome \<Rightarrow> ('a \<Rightarrow> 'b outcome) \<Rightarrow> 'b outcome" where
  "obind Fault f = Fault"
| "obind (Blocks Q) f = Blocks Q"
| "obind (Done x) f = f x"

definition of_opt :: "'a option \<Rightarrow> 'a outcome" where
  "of_opt r = (case r of None \<Rightarrow> Fault | Some x \<Rightarrow> Done x)"

lemma of_opt_simps [simp]: "of_opt None = Fault" "of_opt (Some x) = Done x"
  by (simp_all add: of_opt_def)

lemma obind_Done: "obind x f = Done y \<longleftrightarrow> (\<exists>z. x = Done z \<and> f z = Done y)"
  by (cases x) auto

record decoder =
  dc_blocks :: "coded_block list"
  dc_curr_block :: u32
  dc_usr_cache :: fifo
  dc_pool :: skb_pool
  dc_total_loss :: u32
  dc_last_seqno :: u32
  dc_old_blk_pkts :: nat
  dc_nxt_blk_pkts :: nat
  dc_ndofs :: nat
  dc_acks :: nat

text \<open>The index \<open>blockno % NUM_BLOCKS\<close>.\<close>

definition slot :: "u32 \<Rightarrow> nat" where
  "slot blockno = unat blockno mod NUM_BLOCKS"

section \<open>unmarshallData\<close>

definition note_index :: "data_pckt \<Rightarrow> decoder \<Rightarrow> decoder" where
  "note_index msg d =
    (if dc_curr_block d \<le> d_blockno msg then
       let k = slot (d_blockno msg); blk = dc_blocks d ! k in
       d\<lparr>dc_blocks := (dc_blocks d)[k := blk\<lparr>cb_max_packet_index :=
         max (unat (d_start_packet msg) + unat (d_num_packets msg)) (cb_max_packet_index blk)\<rparr>]\<rparr>
     else d)"

definition unmarshallData :: "bool \<Rightarrow> bytes \<Rightarrow> decoder \<Rightarrow> data_pckt \<times> decoder" where
  "unmarshallData le buf d =
    (let msg = ntohpData le (data_of_mem le buf) in (msg, note_index msg d))"

section \<open>Handing data to the application\<close>

text \<open>The common part: read the length from the payload and push the data.\<close>

definition push_payload :: "fifo \<Rightarrow> bytes \<Rightarrow> (fifo \<times> bool) outcome" where
  "push_payload Q w =
    (if length w < 2 + payload_len w then Fault
     else case push_loop fifo_push Q (payload_data w) of
       Pushed Q \<Rightarrow> Done (Q, False)
     | Released Q \<Rightarrow> Done (Q, True)
     | Waits Q \<Rightarrow> Blocks Q)"

text \<open>
  The loop of \<open>partial_write\<close>; the number in the result is the new \<open>dofs_pushed\<close>, absent
  when the function returns because the queue was released.
\<close>

function partial_loop :: "coded_block \<Rightarrow> fifo \<Rightarrow> nat \<Rightarrow> (fifo \<times> nat option) outcome" where
  "partial_loop blk Q start =
    (if BLOCK_SIZE \<le> start then Fault
     else if cb_rows blk ! start ! 0 = 255 then Done (Q, Some start)
     else if \<exists>i \<in> set [1..<cb_row_len blk ! start]. cb_rows blk ! start ! i \<noteq> 0
       then Done (Q, Some start)
     else
       obind (of_opt (cb_content blk ! start)) (\<lambda>w.
         if int (payload_len w) \<le> fifo_getspace Q then
           (case push_payload Q w of
              Done (Q, released) \<Rightarrow>
                if released then Done (Q, None) else partial_loop blk Q (start + 1)
            | Blocks Q \<Rightarrow> Blocks Q
            | Fault \<Rightarrow> Fault)
         else Done (Q, Some start)))"
  by pat_completeness auto
termination by (relation "measure (\<lambda>(blk, Q, start). BLOCK_SIZE - start)") auto

declare partial_loop.simps [simp del]

text \<open>\<open>int blockno\<close> is negative, and so is its remainder, from block 2^31 on.\<close>

definition partial_write :: "decoder \<Rightarrow> decoder outcome" where
  "partial_write d =
    (if sint (dc_curr_block d) < 0 then Fault
     else
       let k = slot (dc_curr_block d); blk = dc_blocks d ! k; start = cb_dofs_pushed blk in
       obind (if cb_dofs blk = cb_max_packet_index blk then of_opt (unwrap blk) else Done blk) (\<lambda>blk.
       obind (partial_loop blk (dc_usr_cache d) start) (\<lambda>(Q, pushed).
         Done (d\<lparr>dc_usr_cache := Q,
                 dc_blocks := (dc_blocks d)[k :=
                   (case pushed of None \<Rightarrow> blk | Some n \<Rightarrow> blk\<lparr>cb_dofs_pushed := n\<rparr>)]\<rparr>))))"

fun write_rows :: "bytes option list \<Rightarrow> nat list \<Rightarrow> fifo \<Rightarrow> (fifo \<times> bool) outcome" where
  "write_rows C [] Q = Done (Q, False)"
| "write_rows C (i # is) Q =
    obind (of_opt (C ! i)) (\<lambda>w.
    obind (push_payload Q w) (\<lambda>(Q, released).
      if released then Done (Q, True) else write_rows C is Q))"

definition writeAndFreeBlock :: "coded_block \<Rightarrow> fifo \<Rightarrow> skb_pool \<Rightarrow> (fifo \<times> skb_pool) outcome" where
  "writeAndFreeBlock blk Q pool =
    obind (write_rows (cb_content blk) [cb_dofs_pushed blk..<cb_len blk] Q) (\<lambda>(Q, released).
      Done (Q, if released then pool else fold free_skb (take (cb_len blk) (cb_skb blk)) pool))"

text \<open>The loop that decodes every block that has become complete, in order.\<close>

definition open_blocks :: "coded_block list \<Rightarrow> nat" where
  "open_blocks bs = length (filter (\<lambda>b. cb_dofs b = cb_len b) bs)"

lemma open_blocks_init:
  "k < length bs \<Longrightarrow> cb_dofs (bs ! k) = cb_len (bs ! k) \<Longrightarrow>
    open_blocks (bs[k := initCodedBlock blk]) < open_blocks bs"
proof (induction bs arbitrary: k)
  case Nil
  then show ?case by simp
next
  case (Cons b bs)
  then show ?case
    by (cases k) (auto simp: open_blocks_def initCodedBlock_def BLOCK_SIZE_def)
qed

function decode_loop :: "decoder \<Rightarrow> decoder outcome" where
  "decode_loop d =
    (let k = slot (dc_curr_block d); blk = dc_blocks d ! k in
     if length (dc_blocks d) \<le> k then Fault
     else if cb_dofs blk \<noteq> cb_len blk then Done d
     else
       case obind (of_opt (unwrap blk)) (\<lambda>blk.
              obind (writeAndFreeBlock blk (dc_usr_cache d) (dc_pool d)) (\<lambda>r. Done (blk, r))) of
         Fault \<Rightarrow> Fault
       | Blocks Q \<Rightarrow> Blocks Q
       | Done (blk, Q, pool) \<Rightarrow>
           decode_loop (d\<lparr>dc_blocks := (dc_blocks d)[k := initCodedBlock blk], dc_usr_cache := Q,
             dc_pool := pool, dc_curr_block := dc_curr_block d + 1\<rparr>))"
  by pat_completeness auto
termination
  by (relation "measure (\<lambda>d. open_blocks (dc_blocks d))") (auto simp: open_blocks_init)

declare decode_loop.simps [simp del]

section \<open>bldack\<close>

text \<open>
  The first part: loss accounting and elimination.  The flag is \<open>save_skb\<close>.  The check
  against \<open>curr_block + NUM_BLOCKS\<close> is made in 32 bits.
\<close>

definition place_packet :: "bytes \<Rightarrow> addr \<Rightarrow> data_pckt \<Rightarrow> decoder \<Rightarrow> (decoder \<times> bool) outcome" where
  "place_packet stack skb msg d =
    (let d = (if dc_last_seqno d + 1 < d_seqno msg
              then d\<lparr>dc_total_loss := dc_total_loss d + (d_seqno msg - (dc_last_seqno d + 1))\<rparr> else d);
         d = d\<lparr>dc_last_seqno := c_MAX (d_seqno msg) (dc_last_seqno d)\<rparr>;
         blockno = d_blockno msg; k = slot blockno; blk = dc_blocks d ! k
     in
     if blockno < dc_curr_block d then Done (d\<lparr>dc_old_blk_pkts := dc_old_blk_pkts d + 1\<rparr>, False)
     else if dc_curr_block d + of_nat NUM_BLOCKS \<le> blockno then Done (d, False)
     else if cb_dofs blk < cb_len blk then
       obind (of_opt (bld_eliminate stack blk skb msg)) (\<lambda>(blk', save_skb).
         Done (d\<lparr>dc_blocks := (dc_blocks d)[k := blk'],
                 dc_ndofs := dc_ndofs d + (if cb_dofs blk' = cb_dofs blk then 1 else 0)\<rparr>, save_skb))
     else Done (d\<lparr>dc_nxt_blk_pkts := dc_nxt_blk_pkts d + 1\<rparr>, False))"

text \<open>The loop that finds the block the acknowledgement asks for.\<close>

lemma unat_succ: "(b :: u32) < x \<Longrightarrow> unat (b + 1) = Suc (unat b)"
proof -
  assume "b < x"
  moreover have "unat x < 2 ^ 32" using unsigned_less [of x] by simp
  ultimately have "unat b + unat (1 :: u32) < 2 ^ LENGTH(32)" by (simp add: word_less_nat_alt)
  then show ?thesis using unat_add_lem [of b 1] by simp
qed

function ack_scan :: "decoder \<Rightarrow> u32 \<Rightarrow> nat \<Rightarrow> u32 \<times> nat" where
  "ack_scan d blockno dof_rec =
    (if dof_rec = cb_len (dc_blocks d ! slot blockno) \<and> blockno < dc_curr_block d + of_nat NUM_BLOCKS
     then ack_scan d (blockno + 1) (cb_dofs (dc_blocks d ! slot (blockno + 1)))
     else (blockno, dof_rec))"
  by pat_completeness auto
termination
proof (relation "measure (\<lambda>(d, b, r). unat (dc_curr_block d + of_nat NUM_BLOCKS) - unat b)", goal_cases)
  case 1
  then show ?case by simp
next
  case (2 d b r)
  then have lt: "b < dc_curr_block d + of_nat NUM_BLOCKS" by simp
  then have "unat b < unat (dc_curr_block d + of_nat NUM_BLOCKS)" by (simp add: word_less_nat_alt)
  with unat_succ [OF lt] show ?case by simp
qed

declare ack_scan.simps [simp del]

text \<open>
  The acknowledgement: block and degrees of freedom; 0 degrees when the whole window is
  complete.  The time stamp is the packet's plus the processing delay, computed in floating
  point from the clock: here an argument.
\<close>

definition build_ack :: "u64 \<Rightarrow> decoder \<Rightarrow> data_pckt \<Rightarrow> ack_pckt" where
  "build_ack tstamp d msg =
    (let (blockno, dof_rec) = ack_scan d (dc_curr_block d) (cb_dofs (dc_blocks d ! slot (dc_curr_block d)));
         dof_rec = (if dc_curr_block d + of_nat NUM_BLOCKS \<le> blockno then 0 else dof_rec)
     in (ackPacket (d_seqno msg + 1) blockno (of_nat dof_rec) tstamp))"

text \<open>
  The whole of \<open>bldack\<close> for the packet \<open>msg\<close> in the buffer \<open>skb\<close>; the acknowledgement it
  sends is returned with the new state.
\<close>

definition bldack ::
  "(skb_pool \<Rightarrow> addr option) \<Rightarrow> bytes \<Rightarrow> u64 \<Rightarrow> addr \<Rightarrow> data_pckt \<Rightarrow> decoder \<Rightarrow> (decoder \<times> ack_pckt) outcome" where
  "bldack malloc stack tstamp skb msg d =
    obind (place_packet stack skb msg d) (\<lambda>(d, save_skb).
    (case alloc_skb (malloc (dc_pool d)) (dc_pool d) of
       (pool, None) \<Rightarrow> Fault
     | (pool, Some ackskb) \<Rightarrow>
         let ack = build_ack tstamp d msg;
             d = d\<lparr>dc_pool := free_skb ackskb pool, dc_acks := dc_acks d + 1\<rparr>;
             blk = dc_blocks d ! slot (dc_curr_block d)
         in obind (if cb_dofs blk < cb_len blk then partial_write d else Done d) (\<lambda>d.
            obind (decode_loop d) (\<lambda>d.
              Done (if save_skb then d else d\<lparr>dc_pool := free_skb skb (dc_pool d)\<rparr>, ack)))))"

section \<open>The stream the packets carry\<close>

text \<open>\<open>P b k\<close> is packet \<open>k\<close> of block \<open>b\<close> as a function of the byte index.\<close>

definition packet :: "(nat \<Rightarrow> nat \<Rightarrow> u8) \<Rightarrow> nat \<Rightarrow> nat \<Rightarrow> bytes" where
  "packet P L k = map (P k) [0..<L]"

definition packets_data :: "(nat \<Rightarrow> nat \<Rightarrow> u8) \<Rightarrow> nat \<Rightarrow> nat \<Rightarrow> nat \<Rightarrow> bytes" where
  "packets_data P L m n = concat (map (\<lambda>k. payload_data (packet P L k)) [m..<n])"

definition lens_ok :: "(nat \<Rightarrow> nat \<Rightarrow> u8) \<Rightarrow> nat \<Rightarrow> bool" where
  "lens_ok P L \<longleftrightarrow> (\<forall>k. 2 + payload_len (packet P L k) \<le> L)"

lemma packet_iff: "length w = L \<and> (\<forall>j<L. w ! j = P r j) \<longleftrightarrow> w = packet P L r"
  by (auto simp: packet_def intro: nth_equalityI)

lemma has_packet_eq: "has_packet P L C r \<longleftrightarrow> r < length C \<and> C ! r = Some (packet P L r)"
  by (simp add: has_packet_def packet_iff)

lemma packets_data_append:
  assumes "l \<le> m" "m \<le> n"
  shows "packets_data P L l m @ packets_data P L m n = packets_data P L l n"
proof -
  have "[l..<n] = [l..<m] @ [m..<n]" using upt_add_eq_append [of l m "n - m"] assms by simp
  then show ?thesis by (simp add: packets_data_def)
qed

lemma packets_data_Cons: "m < n \<Longrightarrow>
  packets_data P L m n = payload_data (packet P L m) @ packets_data P L (Suc m) n"
  by (simp add: packets_data_def upt_conv_Cons)

lemma packets_data_empty [simp]: "packets_data P L m m = []"
  by (simp add: packets_data_def)

lemma push_payload_packet:
  assumes "fifo_open Q" "lens_ok P L"
  obtains Q' where "push_payload Q (packet P L k) = Done (Q', False)" "fifo_open Q'"
      "fifo_bytes Q' = fifo_bytes Q @ payload_data (packet P L k)"
  | Q' where "push_payload Q (packet P L k) = Blocks Q'" "fifo_getspace Q < int (payload_len (packet P L k))"
proof -
  have len: "2 + payload_len (packet P L k) \<le> length (packet P L k)"
    using assms(2) by (simp add: lens_ok_def) (simp add: packet_def)
  then have pl: "length (payload_data (packet P L k)) = payload_len (packet P L k)"
    by (simp add: payload_data_def)
  show ?thesis
  proof (rule fo.push_loop_result [OF assms(1), of "payload_data (packet P L k)"])
    fix Q' assume "push_loop fifo_push Q (payload_data (packet P L k)) = Pushed Q'" "fifo_open Q'"
      "fifo_bytes Q' = fifo_bytes Q @ payload_data (packet P L k)"
    then show ?thesis using that(1) [of Q'] len by (simp add: push_payload_def)
  next
    fix Q' assume w: "push_loop fifo_push Q (payload_data (packet P L k)) = Waits Q'"
    have "\<not> int (payload_len (packet P L k)) \<le> fifo_getspace Q"
      using fo.push_loop_room [OF assms(1), of "payload_data (packet P L k)"] w pl by auto
    then show ?thesis using that(2) [of Q'] w len by (simp add: push_payload_def)
  qed
qed

end
