(* ===== verification/Delivery.thy ===== *)
theory Delivery
  imports Receiver
begin

text \<open>
  Correctness of the receiving side: what reaches the application is the sender's stream.
  The invariant \<open>window_inv\<close> says that every slot of the window holds combinations of the
  packets of the block it stands for; each step of the decoder keeps it and appends to the
  queue exactly the data of the packets that \<open>dofs_pushed\<close> and \<open>curr_block\<close> pass.
\<close>

section \<open>partial_write and writeAndFreeBlock\<close>

lemma partial_loop_correct:
  assumes inv: "block_inv P L blk" and gap: "\<exists>r < BLOCK_SIZE. \<not> occ blk r" and lens: "lens_ok P L"
  shows "fifo_open Q \<Longrightarrow> (\<And>r. r < start \<Longrightarrow> occ blk r \<and> solved blk r) \<Longrightarrow>
    \<exists>Q' n. partial_loop blk Q start = Done (Q', Some n) \<and> fifo_open Q' \<and> start \<le> n \<and>
      (\<forall>r<n. occ blk r \<and> solved blk r) \<and> n < BLOCK_SIZE \<and>
      fifo_bytes Q' = fifo_bytes Q @ packets_data P L start n \<and>
      (\<not> occ blk n \<or> \<not> solved blk n \<or> fifo_getspace Q' < int (payload_len (packet P L n)))"
proof (induction "BLOCK_SIZE - start" arbitrary: Q start rule: less_induct)
  case less
  have start: "start < BLOCK_SIZE" using gap less.prems(2) by (meson not_le order_less_le_trans)
  have solved_iff: "(\<exists>i \<in> set [1..<cb_row_len blk ! start]. cb_rows blk ! start ! i \<noteq> 0) \<longleftrightarrow> \<not> solved blk start"
    by (auto simp: solved_def)
  show ?case
  proof (cases "occ blk start \<and> solved blk start")
    case False
    then have "partial_loop blk Q start = Done (Q, Some start)"
      using start solved_iff by (auto simp: partial_loop.simps [of blk Q start] occ_def)
    with less.prems start False show ?thesis by auto
  next
    case True
    then have C: "cb_content blk ! start = Some (packet P L start)"
      using solved_has_packet [OF inv start] by (simp add: has_packet_eq)
    have step: "partial_loop blk Q start =
      (if int (payload_len (packet P L start)) \<le> fifo_getspace Q then
        (case push_payload Q (packet P L start) of
           Done (Q, released) \<Rightarrow> if released then Done (Q, None) else partial_loop blk Q (start + 1)
         | Blocks Q \<Rightarrow> Blocks Q | Fault \<Rightarrow> Fault)
       else Done (Q, Some start))"
      using start True solved_iff C by (simp add: partial_loop.simps [of blk Q start] occ_def)
    show ?thesis
    proof (cases "int (payload_len (packet P L start)) \<le> fifo_getspace Q")
      case False
      with step less.prems start True show ?thesis by auto
    next
      case room: True
      obtain Q1 where Q1: "push_payload Q (packet P L start) = Done (Q1, False)" "fifo_open Q1"
        "fifo_bytes Q1 = fifo_bytes Q @ payload_data (packet P L start)"
        using push_payload_packet [OF less.prems(1) lens, of start] room by auto
      have "\<exists>Q' n. partial_loop blk Q1 (start + 1) = Done (Q', Some n) \<and> fifo_open Q' \<and> start + 1 \<le> n \<and>
        (\<forall>r<n. occ blk r \<and> solved blk r) \<and> n < BLOCK_SIZE \<and>
        fifo_bytes Q' = fifo_bytes Q1 @ packets_data P L (start + 1) n \<and>
        (\<not> occ blk n \<or> \<not> solved blk n \<or> fifo_getspace Q' < int (payload_len (packet P L n)))"
        by (rule less.hyps) (use start Q1 less.prems(2) True in \<open>auto simp: less_Suc_eq\<close>)
      then obtain Q' n where r: "partial_loop blk Q1 (start + 1) = Done (Q', Some n)" "fifo_open Q'"
        "start + 1 \<le> n" "\<forall>r<n. occ blk r \<and> solved blk r" "n < BLOCK_SIZE"
        "fifo_bytes Q' = fifo_bytes Q1 @ packets_data P L (start + 1) n"
        "\<not> occ blk n \<or> \<not> solved blk n \<or> fifo_getspace Q' < int (payload_len (packet P L n))"
        by blast
      have "packets_data P L start n = payload_data (packet P L start) @ packets_data P L (start + 1) n"
        using r(3) by (simp add: packets_data_Cons)
      then show ?thesis using step room Q1 r by (intro exI [of _ Q'] exI [of _ n]) simp
    qed
  qed
qed

lemma write_rows_correct:
  "lens_ok P L \<Longrightarrow> fifo_open Q \<Longrightarrow> (\<And>r. m \<le> r \<Longrightarrow> r < n \<Longrightarrow> C ! r = Some (packet P L r)) \<Longrightarrow>
    (\<exists>Q'. write_rows C [m..<n] Q = Done (Q', False) \<and> fifo_open Q' \<and>
      fifo_bytes Q' = fifo_bytes Q @ packets_data P L m n) \<or>
    (\<exists>Q'. write_rows C [m..<n] Q = Blocks Q')"
proof (induction "n - m" arbitrary: m Q)
  case 0
  then show ?case by (simp add: packets_data_def)
next
  case (Suc x)
  then have mn: "m < n" by simp
  then have C: "C ! m = Some (packet P L m)" using Suc.prems(3) by simp
  show ?case
  proof (rule push_payload_packet [OF Suc.prems(2,1), of m])
    fix Q1 assume Q1: "push_payload Q (packet P L m) = Done (Q1, False)" "fifo_open Q1"
      "fifo_bytes Q1 = fifo_bytes Q @ payload_data (packet P L m)"
    then have step: "write_rows C [m..<n] Q = write_rows C [Suc m..<n] Q1"
      using C mn by (simp add: upt_conv_Cons)
    have "(\<exists>Q'. write_rows C [Suc m..<n] Q1 = Done (Q', False) \<and> fifo_open Q' \<and>
      fifo_bytes Q' = fifo_bytes Q1 @ packets_data P L (Suc m) n) \<or>
      (\<exists>Q'. write_rows C [Suc m..<n] Q1 = Blocks Q')"
      by (rule Suc.hyps) (use Suc Q1 in auto)
    then show ?thesis unfolding step using Q1(3) packets_data_Cons [OF mn, of P L] by auto
  next
    fix Q1 assume "push_payload Q (packet P L m) = Blocks Q1"
    then show ?thesis using C mn by (simp add: upt_conv_Cons)
  qed
qed

lemma pushed_frame:
  "row_inv P L (b\<lparr>cb_dofs_pushed := n\<rparr>) r = row_inv P L b r"
  "occ (b\<lparr>cb_dofs_pushed := n\<rparr>) r = occ b r" "solved (b\<lparr>cb_dofs_pushed := n\<rparr>) r = solved b r"
  "shape_ok (b\<lparr>cb_dofs_pushed := n\<rparr>) = shape_ok b"
  by (simp_all add: row_inv_def occ_def solved_def shape_ok_def)

lemma block_inv_pushed:
  assumes "block_inv P L b" "n \<le> cb_max_packet_index b" "\<forall>r<n. occ b r \<and> solved b r"
  shows "block_inv P L (b\<lparr>cb_dofs_pushed := n\<rparr>)"
  using assms by (simp add: block_inv_def pushed_frame)

lemma partial_write_block:
  assumes inv: "block_inv P L blk" and lens: "lens_ok P L" and Q: "fifo_open Q"
    and part: "cb_dofs blk < BLOCK_SIZE"
  obtains blk1 Q' n where
    "(if cb_dofs blk = cb_max_packet_index blk then of_opt (unwrap blk) else Done blk) = Done blk1"
    "partial_loop blk1 Q (cb_dofs_pushed blk) = Done (Q', Some n)"
    "block_inv P L (blk1\<lparr>cb_dofs_pushed := n\<rparr>)" "cb_dofs blk1 = cb_dofs blk" "fifo_open Q'"
    "cb_dofs_pushed blk \<le> n" "fifo_bytes Q' = fifo_bytes Q @ packets_data P L (cb_dofs_pushed blk) n"
    "cb_max_coding_wnd blk1 = cb_max_coding_wnd blk" "cb_max_packet_index blk1 = cb_max_packet_index blk"
    "\<not> occ blk1 n \<or> \<not> solved blk1 n \<or> fifo_getspace Q' < int (payload_len (packet P L n))"
    "\<And>r. occ blk1 r = occ blk r"
proof -
  let ?r = "if cb_dofs blk = cb_max_packet_index blk then of_opt (unwrap blk) else Done blk"
  have "\<exists>C R. ?r = Done (blk\<lparr>cb_content := C, cb_row_len := R\<rparr>) \<and>
      block_inv P L (blk\<lparr>cb_content := C, cb_row_len := R\<rparr>)"
  proof (cases "cb_dofs blk = cb_max_packet_index blk")
    case True
    show ?thesis by (rule unwrap_correct [OF inv True]) (use True in auto)
  next
    case False
    with inv show ?thesis
      by (intro exI [of _ "cb_content blk"] exI [of _ "cb_row_len blk"]) simp
  qed
  then obtain C R where CR: "?r = Done (blk\<lparr>cb_content := C, cb_row_len := R\<rparr>)"
    "block_inv P L (blk\<lparr>cb_content := C, cb_row_len := R\<rparr>)" by blast
  define b1 where "b1 = blk\<lparr>cb_content := C, cb_row_len := R\<rparr>"
  have inv1: "block_inv P L b1" and same: "cb_dofs b1 = cb_dofs blk" "cb_dofs_pushed b1 = cb_dofs_pushed blk"
    "cb_max_coding_wnd b1 = cb_max_coding_wnd blk" "cb_max_packet_index b1 = cb_max_packet_index blk"
    and occ: "\<And>r. occ b1 r = occ blk r"
    using CR(2) by (simp_all add: b1_def occ_def)
  have "\<exists>r < BLOCK_SIZE. \<not> occ b1 r"
  proof (rule ccontr)
    assume "\<not> (\<exists>r < BLOCK_SIZE. \<not> occ b1 r)"
    then have "{r. r < BLOCK_SIZE \<and> occ b1 r} = {..<BLOCK_SIZE}" by auto
    then have "cb_dofs b1 = BLOCK_SIZE" using inv1 by (simp add: block_inv_def)
    with part same show False by simp
  qed
  moreover have "occ b1 r \<and> solved b1 r" if "r < cb_dofs_pushed blk" for r
    using inv1 that same by (simp add: block_inv_def)
  ultimately obtain Q' n where r: "partial_loop b1 Q (cb_dofs_pushed blk) = Done (Q', Some n)" "fifo_open Q'"
    "cb_dofs_pushed blk \<le> n" "\<forall>r<n. occ b1 r \<and> solved b1 r" "n < BLOCK_SIZE"
    "fifo_bytes Q' = fifo_bytes Q @ packets_data P L (cb_dofs_pushed blk) n"
    "\<not> occ b1 n \<or> \<not> solved b1 n \<or> fifo_getspace Q' < int (payload_len (packet P L n))"
    using partial_loop_correct [OF inv1 _ lens Q, of "cb_dofs_pushed blk"] by blast
  have "n \<le> cb_max_packet_index b1"
  proof (cases n)
    case (Suc k)
    then have "occ b1 k" "k < BLOCK_SIZE" using r(4,5) by simp_all
    then show ?thesis using inv1 Suc by (auto simp: block_inv_def row_inv_def)
  qed simp
  then have "block_inv P L (b1\<lparr>cb_dofs_pushed := n\<rparr>)"
    by (rule block_inv_pushed [OF inv1 _ r(4)])
  then show ?thesis by (rule that [OF CR(1) [folded b1_def] r(1)]) (use r same occ in auto)
qed

section \<open>The window\<close>

abbreviation cur_blk :: "decoder \<Rightarrow> coded_block" where
  "cur_blk d \<equiv> dc_blocks d ! slot (dc_curr_block d)"

definition window_inv :: "(nat \<Rightarrow> nat \<Rightarrow> nat \<Rightarrow> u8) \<Rightarrow> nat \<Rightarrow> decoder \<Rightarrow> bool" where
  "window_inv Ps L d \<longleftrightarrow> length (dc_blocks d) = NUM_BLOCKS \<and> fifo_open (dc_usr_cache d) \<and>
    (\<forall>b. unat (dc_curr_block d) \<le> b \<longrightarrow> b < unat (dc_curr_block d) + NUM_BLOCKS \<longrightarrow>
      block_inv (Ps b) L (dc_blocks d ! (b mod NUM_BLOCKS)) \<and>
      (b \<noteq> unat (dc_curr_block d) \<longrightarrow> cb_dofs_pushed (dc_blocks d ! (b mod NUM_BLOCKS)) = 0))"

text \<open>The sender's stream up to packet \<open>n\<close> of block \<open>c\<close>; block numbers start at 1.\<close>

definition stream_to :: "(nat \<Rightarrow> nat \<Rightarrow> nat \<Rightarrow> u8) \<Rightarrow> nat \<Rightarrow> nat \<Rightarrow> nat \<Rightarrow> bytes" where
  "stream_to Ps L c n =
    concat (map (\<lambda>b. packets_data (Ps b) L 0 BLOCK_SIZE) [1..<c]) @ packets_data (Ps c) L 0 n"

definition pos :: "(nat \<Rightarrow> nat \<Rightarrow> nat \<Rightarrow> u8) \<Rightarrow> nat \<Rightarrow> decoder \<Rightarrow> bytes" where
  "pos Ps L d = stream_to Ps L (unat (dc_curr_block d)) (cb_dofs_pushed (cur_blk d))"

text \<open>A step that appends to the queue what it appends to the position in the stream.\<close>

definition delivers :: "(nat \<Rightarrow> nat \<Rightarrow> nat \<Rightarrow> u8) \<Rightarrow> nat \<Rightarrow> decoder \<Rightarrow> decoder \<Rightarrow> bool" where
  "delivers Ps L d d' \<longleftrightarrow> window_inv Ps L d' \<and>
    (\<exists>x. fifo_bytes (dc_usr_cache d') = fifo_bytes (dc_usr_cache d) @ x \<and> pos Ps L d' = pos Ps L d @ x)"

lemma delivers_trans: "delivers Ps L d d' \<Longrightarrow> delivers Ps L d' d'' \<Longrightarrow> delivers Ps L d d''"
  unfolding delivers_def by (metis append.assoc)

lemma delivers_refl: "window_inv Ps L d \<Longrightarrow> delivers Ps L d d"
  by (simp add: delivers_def)

lemma delivers_frame:
  assumes "delivers Ps L d d'" "dc_blocks d'' = dc_blocks d'" "dc_curr_block d'' = dc_curr_block d'"
    "dc_usr_cache d'' = dc_usr_cache d'"
  shows "delivers Ps L d d''"
  using assms by (simp add: delivers_def window_inv_def pos_def)

lemma slot_less: "slot b < NUM_BLOCKS"
  by (simp add: slot_def NUM_BLOCKS_def)

lemma window_cur:
  "window_inv Ps L d \<Longrightarrow> block_inv (Ps (unat (dc_curr_block d))) L (cur_blk d)"
  by (simp add: window_inv_def slot_def NUM_BLOCKS_def)

lemma window_slots_distinct:
  fixes b c :: nat
  assumes "c \<le> b" "b < c + NUM_BLOCKS" "c \<le> b'" "b' < c + NUM_BLOCKS" "b mod NUM_BLOCKS = b' mod NUM_BLOCKS"
  shows "b = b'"
proof (rule ccontr)
  assume "b \<noteq> b'"
  then consider "b < b'" | "b' < b" by linarith
  then show False
  proof cases
    case 1
    then have "NUM_BLOCKS dvd b' - b" using assms(5) mod_eq_dvd_iff_nat [of b b' NUM_BLOCKS] by simp
    then show False using 1 assms by (auto dest!: dvd_imp_le)
  next
    case 2
    then have "NUM_BLOCKS dvd b - b'" using assms(5) mod_eq_dvd_iff_nat [of b' b NUM_BLOCKS] by simp
    then show False using 2 assms by (auto dest!: dvd_imp_le)
  qed
qed

text \<open>Replacing the block of one slot.\<close>

lemma window_update:
  assumes inv: "window_inv Ps L d" and b: "unat (dc_curr_block d) \<le> b" "b < unat (dc_curr_block d) + NUM_BLOCKS"
    and blk: "block_inv (Ps b) L blk" and Q: "fifo_open Q"
    and pushed: "b \<noteq> unat (dc_curr_block d) \<Longrightarrow> cb_dofs_pushed blk = 0"
    and d': "dc_blocks d' = (dc_blocks d)[b mod NUM_BLOCKS := blk]"
      "dc_curr_block d' = dc_curr_block d" "dc_usr_cache d' = Q"
  shows "window_inv Ps L d'"
proof -
  have len: "length (dc_blocks d) = NUM_BLOCKS" using inv by (simp add: window_inv_def)
  have other: "dc_blocks d' ! (b' mod NUM_BLOCKS) = dc_blocks d ! (b' mod NUM_BLOCKS)"
    if "unat (dc_curr_block d) \<le> b'" "b' < unat (dc_curr_block d) + NUM_BLOCKS" "b' \<noteq> b" for b'
  proof -
    have "b' mod NUM_BLOCKS \<noteq> b mod NUM_BLOCKS"
      using window_slots_distinct [OF that(1,2) b] that(3) by blast
    then show ?thesis by (simp add: d'(1))
  qed
  have at: "dc_blocks d' ! (b mod NUM_BLOCKS) = blk" using len by (simp add: d'(1) NUM_BLOCKS_def)
  show ?thesis
    unfolding window_inv_def
  proof (intro conjI allI impI)
    fix b' assume b': "unat (dc_curr_block d') \<le> b'" "b' < unat (dc_curr_block d') + NUM_BLOCKS"
    show "block_inv (Ps b') L (dc_blocks d' ! (b' mod NUM_BLOCKS))"
      using inv b' other [of b'] at blk d'(2) by (cases "b' = b") (simp_all add: window_inv_def)
    assume "b' \<noteq> unat (dc_curr_block d')"
    then show "cb_dofs_pushed (dc_blocks d' ! (b' mod NUM_BLOCKS)) = 0"
      using inv b' other [of b'] at pushed d'(2) by (cases "b' = b") (simp_all add: window_inv_def)
  qed (use len Q d' in simp_all)
qed

lemma sint_eq_unat: "unat (w :: u32) < 2 ^ 31 \<Longrightarrow> sint w = int (unat w)"
proof -
  assume "unat w < 2 ^ 31"
  then have "int (unat w) < int (2 ^ 31)" by (simp only: of_nat_less_iff)
  then have "uint w < 2 ^ 31" by simp
  moreover have "- (2 ^ 31) \<le> uint w" by (rule order.trans [of _ 0]) simp_all
  ultimately show ?thesis by (simp add: sint_uint signed_take_bit_int_eq_self)
qed

lemma sint_nonneg: "unat (w :: u32) < 2 ^ 31 \<Longrightarrow> \<not> sint w < 0"
  using sint_eq_unat [of w] by linarith

lemma partial_write_correct:
  assumes inv: "window_inv Ps L d" and lens: "\<And>b. lens_ok (Ps b) L"
    and part: "cb_dofs (cur_blk d) < BLOCK_SIZE" and range: "unat (dc_curr_block d) < 2 ^ 31"
  obtains d' where "partial_write d = Done d'" "delivers Ps L d d'" "dc_curr_block d' = dc_curr_block d"
    "cb_dofs (cur_blk d') = cb_dofs (cur_blk d)"
    "\<And>k. k \<noteq> slot (dc_curr_block d) \<Longrightarrow> dc_blocks d' ! k = dc_blocks d ! k"
    "cb_max_coding_wnd (cur_blk d') = cb_max_coding_wnd (cur_blk d)"
    "dc_pool d' = dc_pool d" "dc_acks d' = dc_acks d"
proof -
  let ?c = "unat (dc_curr_block d)" and ?k = "slot (dc_curr_block d)"
  have open_q: "fifo_open (dc_usr_cache d)" using inv by (simp add: window_inv_def)
  have nonneg: "\<not> sint (dc_curr_block d) < 0" using range by (rule sint_nonneg)
  show ?thesis
  proof (rule partial_write_block [OF window_cur [OF inv] lens open_q part])
    fix blk1 Q' n
    assume u: "(if cb_dofs (cur_blk d) = cb_max_packet_index (cur_blk d) then of_opt (unwrap (cur_blk d))
        else Done (cur_blk d)) = Done blk1"
      and pl: "partial_loop blk1 (dc_usr_cache d) (cb_dofs_pushed (cur_blk d)) = Done (Q', Some n)"
      and bi: "block_inv (Ps ?c) L (blk1\<lparr>cb_dofs_pushed := n\<rparr>)" and dofs: "cb_dofs blk1 = cb_dofs (cur_blk d)"
      and Q': "fifo_open Q'" and n: "cb_dofs_pushed (cur_blk d) \<le> n"
      and bytes: "fifo_bytes Q' = fifo_bytes (dc_usr_cache d) @ packets_data (Ps ?c) L (cb_dofs_pushed (cur_blk d)) n"
      and mcw: "cb_max_coding_wnd blk1 = cb_max_coding_wnd (cur_blk d)"
    let ?d = "d\<lparr>dc_usr_cache := Q', dc_blocks := (dc_blocks d)[?k := blk1\<lparr>cb_dofs_pushed := n\<rparr>]\<rparr>"
    have pw: "partial_write d = Done ?d"
      using u pl nonneg by (simp add: partial_write_def Let_def)
    have len: "length (dc_blocks d) = NUM_BLOCKS" using inv by (simp add: window_inv_def)
    have cur: "cur_blk ?d = blk1\<lparr>cb_dofs_pushed := n\<rparr>" using len slot_less by simp
    have w: "window_inv Ps L ?d"
      by (rule window_update [OF inv _ _ bi Q']) (simp_all add: slot_def NUM_BLOCKS_def)
    have "pos Ps L ?d = pos Ps L d @ packets_data (Ps ?c) L (cb_dofs_pushed (cur_blk d)) n"
      using cur packets_data_append [of 0 "cb_dofs_pushed (cur_blk d)" n "Ps ?c" L] n
      by (simp add: pos_def stream_to_def)
    then have "delivers Ps L d ?d" using w bytes by (simp add: delivers_def)
    then show ?thesis by (rule that [OF pw]) (use cur dofs mcw in simp_all)
  qed
qed

section \<open>Decoding complete blocks\<close>

lemma pos_next:
  assumes "1 \<le> c"
  shows "stream_to Ps L (Suc c) 0 = stream_to Ps L c BLOCK_SIZE"
  using assms by (simp add: stream_to_def)

lemma decode_one:
  assumes inv: "window_inv Ps L d" and lens: "\<And>b. lens_ok (Ps b) L"
    and full: "cb_dofs (cur_blk d) = BLOCK_SIZE"
  obtains blk Q where "unwrap (cur_blk d) = Some blk" "cb_skb blk = cb_skb (cur_blk d)" "cb_len blk = BLOCK_SIZE"
    "cb_dofs_pushed blk = cb_dofs_pushed (cur_blk d)" "shape_ok blk"
    "write_rows (cb_content blk) [cb_dofs_pushed blk..<cb_len blk] (dc_usr_cache d) = Done (Q, False)"
    "fifo_open Q" "fifo_bytes Q = fifo_bytes (dc_usr_cache d) @
      packets_data (Ps (unat (dc_curr_block d))) L (cb_dofs_pushed (cur_blk d)) BLOCK_SIZE"
  | blk Q where "unwrap (cur_blk d) = Some blk"
    "write_rows (cb_content blk) [cb_dofs_pushed blk..<cb_len blk] (dc_usr_cache d) = Blocks Q"
proof -
  let ?P = "Ps (unat (dc_curr_block d))"
  note bi = window_cur [OF inv]
  have mpi: "cb_max_packet_index (cur_blk d) = BLOCK_SIZE" by (rule block_inv_complete [OF bi full])
  have eq: "cb_dofs (cur_blk d) = cb_max_packet_index (cur_blk d)" using full mpi by simp
  have open_q: "fifo_open (dc_usr_cache d)" using inv by (simp add: window_inv_def)
  show ?thesis
  proof (rule unwrap_correct [OF bi eq])
    fix C R
    let ?blk = "cur_blk d\<lparr>cb_content := C, cb_row_len := R\<rparr>"
    assume u: "unwrap (cur_blk d) = Some ?blk" and inv': "block_inv ?P L ?blk"
      and has: "\<And>r. r < cb_max_packet_index (cur_blk d) \<Longrightarrow> has_packet ?P L C r"
    have sh: "shape_ok ?blk" and len: "cb_len ?blk = BLOCK_SIZE" using inv' by (simp_all add: block_inv_def)
    have C: "C ! r = Some (packet ?P L r)" if "r < BLOCK_SIZE" for r
      using has that mpi by (simp add: has_packet_eq)
    have "(\<exists>Q'. write_rows C [cb_dofs_pushed ?blk..<BLOCK_SIZE] (dc_usr_cache d) = Done (Q', False) \<and>
        fifo_open Q' \<and> fifo_bytes Q' = fifo_bytes (dc_usr_cache d) @
          packets_data ?P L (cb_dofs_pushed ?blk) BLOCK_SIZE) \<or>
      (\<exists>Q'. write_rows C [cb_dofs_pushed ?blk..<BLOCK_SIZE] (dc_usr_cache d) = Blocks Q')"
      by (rule write_rows_correct [OF lens open_q]) (rule C)
    then show ?thesis
      using that(1) [OF u _ _ _ sh] that(2) [OF u] len by auto
  qed
qed

lemma window_advance:
  assumes inv: "window_inv Ps L d" and range: "unat (dc_curr_block d) + NUM_BLOCKS < 2 ^ 31"
    and sh: "shape_ok blk" and Q: "fifo_open Q"
    and d': "dc_blocks d' = (dc_blocks d)[slot (dc_curr_block d) := initCodedBlock blk]"
      "dc_curr_block d' = dc_curr_block d + 1" "dc_usr_cache d' = Q"
  shows "window_inv Ps L d'" and "unat (dc_curr_block d') = Suc (unat (dc_curr_block d))"
    and "cb_dofs_pushed (cur_blk d') = 0"
proof -
  let ?c = "unat (dc_curr_block d)"
  have one: "?c + unat (1 :: u32) < 2 ^ LENGTH(32)" using range by simp
  show c': "unat (dc_curr_block d') = Suc ?c" using unat_add_lem [of "dc_curr_block d" 1] one d'(2) by simp
  have len: "length (dc_blocks d) = NUM_BLOCKS" using inv by (simp add: window_inv_def)
  have new: "dc_blocks d' ! (?c mod NUM_BLOCKS) = initCodedBlock blk"
    using len by (simp add: d'(1) slot_def NUM_BLOCKS_def)
  have old: "dc_blocks d' ! (b mod NUM_BLOCKS) = dc_blocks d ! (b mod NUM_BLOCKS)"
    if "?c < b" "b < ?c + NUM_BLOCKS" for b
  proof -
    have "?c mod NUM_BLOCKS \<noteq> b mod NUM_BLOCKS"
      using window_slots_distinct [of ?c ?c b] that by (auto simp: NUM_BLOCKS_def)
    then show ?thesis by (simp add: d'(1) slot_def)
  qed
  have all: "block_inv (Ps b) L (dc_blocks d' ! (b mod NUM_BLOCKS)) \<and>
      cb_dofs_pushed (dc_blocks d' ! (b mod NUM_BLOCKS)) = 0"
    if "Suc ?c \<le> b" "b < Suc ?c + NUM_BLOCKS" for b
  proof (cases "b = ?c + NUM_BLOCKS")
    case True
    then have "b mod NUM_BLOCKS = ?c mod NUM_BLOCKS" by simp
    then show ?thesis using new init_block_inv [OF sh] by (simp add: initCodedBlock_def)
  next
    case False
    then have "?c < b" "b < ?c + NUM_BLOCKS" using that by auto
    then show ?thesis using old [of b] inv by (simp add: window_inv_def)
  qed
  then show "window_inv Ps L d'" using len Q c' d' by (auto simp: window_inv_def)
  show "cb_dofs_pushed (cur_blk d') = 0"
    using all [of "Suc ?c"] c' by (simp add: slot_def NUM_BLOCKS_def)
qed

lemma decode_loop_correct:
  assumes lens: "\<And>b. lens_ok (Ps b) L"
  shows "window_inv Ps L d \<Longrightarrow> 1 \<le> unat (dc_curr_block d) \<Longrightarrow>
    unat (dc_curr_block d) + open_blocks (dc_blocks d) + NUM_BLOCKS < 2 ^ 31 \<Longrightarrow>
    (\<exists>d'. decode_loop d = Done d' \<and> delivers Ps L d d' \<and> cb_dofs (cur_blk d') \<noteq> BLOCK_SIZE \<and>
      unat (dc_curr_block d) \<le> unat (dc_curr_block d')) \<or>
    (\<exists>Q. decode_loop d = Blocks Q)"
proof (induction "open_blocks (dc_blocks d)" arbitrary: d rule: less_induct)
  case less
  let ?k = "slot (dc_curr_block d)" and ?c = "unat (dc_curr_block d)"
  have len: "length (dc_blocks d) = NUM_BLOCKS" and k: "?k < length (dc_blocks d)"
    using less.prems(1) slot_less by (simp_all add: window_inv_def)
  have blen: "cb_len (cur_blk d) = BLOCK_SIZE" using window_cur [OF less.prems(1)] by (simp add: block_inv_def)
  show ?case
  proof (cases "cb_dofs (cur_blk d) = BLOCK_SIZE")
    case False
    then have "decode_loop d = Done d" using k blen by (simp add: decode_loop.simps [of d] Let_def)
    then show ?thesis using delivers_refl [OF less.prems(1)] False by blast
  next
    case True
    show ?thesis
    proof (rule decode_one [OF less.prems(1) lens True])
      fix blk Q
      assume u: "unwrap (cur_blk d) = Some blk" and len': "cb_len blk = BLOCK_SIZE" and sh: "shape_ok blk"
        and w: "write_rows (cb_content blk) [cb_dofs_pushed blk..<cb_len blk] (dc_usr_cache d) = Done (Q, False)"
        and Q: "fifo_open Q" and bytes: "fifo_bytes Q = fifo_bytes (dc_usr_cache d) @
          packets_data (Ps ?c) L (cb_dofs_pushed (cur_blk d)) BLOCK_SIZE"
      define d1 where "d1 = d\<lparr>dc_blocks := (dc_blocks d)[?k := initCodedBlock blk], dc_usr_cache := Q,
        dc_pool := fold free_skb (take (cb_len blk) (cb_skb blk)) (dc_pool d),
        dc_curr_block := dc_curr_block d + 1\<rparr>"
      have step: "decode_loop d = decode_loop d1"
        using k True blen u w by (simp add: decode_loop.simps [of d] Let_def writeAndFreeBlock_def d1_def)
      have "?c + NUM_BLOCKS < 2 ^ 31" using less.prems(3) by simp
      note adv = window_advance [OF less.prems(1) this sh Q, of d1]
      have w1: "window_inv Ps L d1" "unat (dc_curr_block d1) = Suc ?c" "cb_dofs_pushed (cur_blk d1) = 0"
        using adv by (simp_all add: d1_def)
      have small: "open_blocks (dc_blocks d1) < open_blocks (dc_blocks d)"
        using open_blocks_init [OF k] True blen by (simp add: d1_def)
      have "cb_dofs_pushed (cur_blk d) \<le> BLOCK_SIZE"
        using window_cur [OF less.prems(1)] by (auto simp: block_inv_def)
      then have "pos Ps L d1 = pos Ps L d @ packets_data (Ps ?c) L (cb_dofs_pushed (cur_blk d)) BLOCK_SIZE"
        using w1(2,3) pos_next [OF less.prems(2), of Ps L]
          packets_data_append [of 0 "cb_dofs_pushed (cur_blk d)" BLOCK_SIZE "Ps ?c" L]
        by (simp add: pos_def stream_to_def)
      then have del: "delivers Ps L d d1"
        using w1(1) bytes by (simp add: delivers_def d1_def)
      have "(\<exists>d'. decode_loop d1 = Done d' \<and> delivers Ps L d1 d' \<and> cb_dofs (cur_blk d') \<noteq> BLOCK_SIZE \<and>
          unat (dc_curr_block d1) \<le> unat (dc_curr_block d')) \<or> (\<exists>Q. decode_loop d1 = Blocks Q)"
        by (rule less.hyps [OF small w1(1)]) (use w1(2) less.prems(3) small in auto)
      then show ?thesis unfolding step using delivers_trans [OF del] w1(2) by auto
    next
      fix blk Q
      assume "unwrap (cur_blk d) = Some blk"
        "write_rows (cb_content blk) [cb_dofs_pushed blk..<cb_len blk] (dc_usr_cache d) = Blocks Q"
      then show ?thesis
        using k True blen by (simp add: decode_loop.simps [of d] Let_def writeAndFreeBlock_def)
    qed
  qed
qed

section \<open>One packet\<close>

text \<open>
  The packets a decoder is given: late ones of decoded blocks, and combinations of packets
  of a block of the window that fit the block.
\<close>

definition accepts :: "(nat \<Rightarrow> nat \<Rightarrow> nat \<Rightarrow> u8) \<Rightarrow> nat \<Rightarrow> decoder \<Rightarrow> data_pckt \<Rightarrow> bool" where
  "accepts Ps L d msg \<longleftrightarrow> d_blockno msg < dc_curr_block d \<or>
    (unat (d_blockno msg) < unat (dc_curr_block d) + NUM_BLOCKS \<and>
     pkt_ok (Ps (unat (d_blockno msg))) L msg \<and>
     fits (dc_blocks d ! slot (d_blockno msg)) (unat (d_num_packets msg)))"

lemma mpi_frame:
  assumes "cb_max_packet_index b \<le> m"
  shows "row_inv P L b r \<Longrightarrow> row_inv P L (b\<lparr>cb_max_packet_index := m\<rparr>) r"
    and "occ (b\<lparr>cb_max_packet_index := m\<rparr>) r = occ b r"
    and "solved (b\<lparr>cb_max_packet_index := m\<rparr>) r = solved b r"
    and "shape_ok (b\<lparr>cb_max_packet_index := m\<rparr>) = shape_ok b"
  using assms by (auto simp: row_inv_def occ_def solved_def shape_ok_def)

lemma block_inv_mpi:
  assumes "block_inv P L b" "cb_max_packet_index b \<le> m" "m \<le> BLOCK_SIZE"
  shows "block_inv P L (b\<lparr>cb_max_packet_index := m\<rparr>)"
  using assms mpi_frame [OF assms(2)] by (simp add: block_inv_def)

lemma note_index_correct:
  assumes inv: "window_inv Ps L d" and acc: "accepts Ps L d msg"
  shows "delivers Ps L d (note_index msg d)" "accepts Ps L (note_index msg d) msg"
    and "dc_curr_block (note_index msg d) = dc_curr_block d"
    and "dc_curr_block d \<le> d_blockno msg \<Longrightarrow> unat (d_start_packet msg) + unat (d_num_packets msg) \<le>
      cb_max_packet_index (dc_blocks (note_index msg d) ! slot (d_blockno msg))"
    and "\<And>k. cb_dofs (dc_blocks (note_index msg d) ! k) = cb_dofs (dc_blocks d ! k)"
proof -
  let ?k = "slot (d_blockno msg)" and ?b = "unat (d_blockno msg)" and ?d = "note_index msg d"
  let ?blk = "dc_blocks d ! ?k"
  let ?m = "max (unat (d_start_packet msg) + unat (d_num_packets msg)) (cb_max_packet_index ?blk)"
  have len: "?k < length (dc_blocks d)" using inv slot_less by (simp add: window_inv_def)
  show c: "dc_curr_block ?d = dc_curr_block d" by (simp add: note_index_def Let_def)
  have old: "?d = d" if "d_blockno msg < dc_curr_block d" using that by (simp add: note_index_def)
  have new: "dc_blocks ?d = (dc_blocks d)[?k := ?blk\<lparr>cb_max_packet_index := ?m\<rparr>]"
      "dc_usr_cache ?d = dc_usr_cache d" if "dc_curr_block d \<le> d_blockno msg"
    using that by (simp_all add: note_index_def Let_def)
  show "cb_dofs (dc_blocks ?d ! k) = cb_dofs (dc_blocks d ! k)" for k
    using old new(1) len by (cases "d_blockno msg < dc_curr_block d"; cases "k = ?k") auto
  show "unat (d_start_packet msg) + unat (d_num_packets msg) \<le> cb_max_packet_index (dc_blocks ?d ! ?k)"
    if "dc_curr_block d \<le> d_blockno msg" using new(1) [OF that] len by simp
  show "accepts Ps L ?d msg"
    using acc c new(1) len by (cases "d_blockno msg < dc_curr_block d") (auto simp: accepts_def fits_def not_less)
  show "delivers Ps L d ?d"
  proof (cases "d_blockno msg < dc_curr_block d")
    case True
    then show ?thesis using old delivers_refl [OF inv] by simp
  next
    case False
    then have le: "dc_curr_block d \<le> d_blockno msg" by simp
    then have b: "unat (dc_curr_block d) \<le> ?b" by (simp add: word_le_nat_alt)
    have b': "?b < unat (dc_curr_block d) + NUM_BLOCKS" and "?m \<le> BLOCK_SIZE"
      and bi: "block_inv (Ps ?b) L ?blk"
      and p0: "?b \<noteq> unat (dc_curr_block d) \<Longrightarrow> cb_dofs_pushed ?blk = 0"
      using acc False inv b by (auto simp: accepts_def pkt_ok_def window_inv_def slot_def block_inv_def)
    then have bi': "block_inv (Ps ?b) L (?blk\<lparr>cb_max_packet_index := ?m\<rparr>)"
      by (intro block_inv_mpi) auto
    have w: "window_inv Ps L ?d"
      by (rule window_update [OF inv b b' bi', of "dc_usr_cache d"])
        (use inv p0 new [OF le] c in \<open>auto simp: window_inv_def slot_def\<close>)
    have "cb_dofs_pushed (cur_blk ?d) = cb_dofs_pushed (cur_blk d)"
      using new(1) [OF le] len c by (cases "slot (dc_curr_block d) = ?k") auto
    then show ?thesis using w new(2) [OF le] c by (simp add: delivers_def pos_def)
  qed
qed

lemma place_packet_correct:
  assumes inv: "window_inv Ps L d" and acc: "accepts Ps L d msg" and st: "length stack = BLOCK_SIZE"
    and range: "unat (dc_curr_block d) + NUM_BLOCKS < 2 ^ 31"
    and mpi: "dc_curr_block d \<le> d_blockno msg \<Longrightarrow> unat (d_start_packet msg) + unat (d_num_packets msg) \<le>
      cb_max_packet_index (dc_blocks d ! slot (d_blockno msg))"
  obtains d' sv where "place_packet stack skb msg d = Done (d', sv)" "delivers Ps L d d'"
    "dc_curr_block d' = dc_curr_block d" "dc_pool d' = dc_pool d"
    "\<And>k. cb_dofs (dc_blocks d ! k) \<le> cb_dofs (dc_blocks d' ! k)"
proof -
  let ?k = "slot (d_blockno msg)" and ?b = "unat (d_blockno msg)" and ?blk = "dc_blocks d ! slot (d_blockno msg)"
  define d0 where "d0 = (if dc_last_seqno d + 1 < d_seqno msg
    then d\<lparr>dc_total_loss := dc_total_loss d + (d_seqno msg - (dc_last_seqno d + 1))\<rparr> else d)
      \<lparr>dc_last_seqno := c_MAX (d_seqno msg) (dc_last_seqno (if dc_last_seqno d + 1 < d_seqno msg
        then d\<lparr>dc_total_loss := dc_total_loss d + (d_seqno msg - (dc_last_seqno d + 1))\<rparr> else d))\<rparr>"
  have d0: "dc_blocks d0 = dc_blocks d" "dc_curr_block d0 = dc_curr_block d" "dc_usr_cache d0 = dc_usr_cache d"
    "dc_pool d0 = dc_pool d" by (simp_all add: d0_def)
  have place: "place_packet stack skb msg d =
    (if d_blockno msg < dc_curr_block d then Done (d0\<lparr>dc_old_blk_pkts := dc_old_blk_pkts d0 + 1\<rparr>, False)
     else if dc_curr_block d + of_nat NUM_BLOCKS \<le> d_blockno msg then Done (d0, False)
     else if cb_dofs ?blk < cb_len ?blk then
       obind (of_opt (bld_eliminate stack ?blk skb msg)) (\<lambda>(blk', save_skb).
         Done (d0\<lparr>dc_blocks := (dc_blocks d)[?k := blk'],
                 dc_ndofs := dc_ndofs d0 + (if cb_dofs blk' = cb_dofs ?blk then 1 else 0)\<rparr>, save_skb))
     else Done (d0\<lparr>dc_nxt_blk_pkts := dc_nxt_blk_pkts d0 + 1\<rparr>, False))"
    unfolding place_packet_def d0_def [symmetric] Let_def d0 by (simp only: d0_def)
  have same: "delivers Ps L d d'" if "dc_blocks d' = dc_blocks d" "dc_curr_block d' = dc_curr_block d"
      "dc_usr_cache d' = dc_usr_cache d" for d'
    by (rule delivers_frame [OF delivers_refl [OF inv] that])
  have len: "?k < length (dc_blocks d)" using inv slot_less by (simp add: window_inv_def)
  show ?thesis
  proof (cases "d_blockno msg < dc_curr_block d")
    case True
    then have "place_packet stack skb msg d = Done (d0\<lparr>dc_old_blk_pkts := dc_old_blk_pkts d0 + 1\<rparr>, False)"
      using place by simp
    then show ?thesis by (rule that) (use d0 in \<open>auto intro: same\<close>)
  next
    case False
    note nlt = False
    then have le: "dc_curr_block d \<le> d_blockno msg" by simp
    then have b: "unat (dc_curr_block d) \<le> ?b" by (simp add: word_le_nat_alt)
    have b': "?b < unat (dc_curr_block d) + NUM_BLOCKS" and ok: "pkt_ok (Ps ?b) L msg"
      and fit: "fits ?blk (unat (d_num_packets msg))" using acc False by (auto simp: accepts_def)
    have "unat (dc_curr_block d) + unat (of_nat NUM_BLOCKS :: u32) < 2 ^ LENGTH(32)"
      using range by (simp add: NUM_BLOCKS_def)
    then have "unat (dc_curr_block d + of_nat NUM_BLOCKS) = unat (dc_curr_block d) + NUM_BLOCKS"
      using unat_add_lem [of "dc_curr_block d" "of_nat NUM_BLOCKS"] by (simp add: NUM_BLOCKS_def)
    then have far: "\<not> dc_curr_block d + of_nat NUM_BLOCKS \<le> d_blockno msg"
      using b' by (simp add: word_le_nat_alt)
    have bi: "block_inv (Ps ?b) L ?blk"
      and p0: "?b \<noteq> unat (dc_curr_block d) \<Longrightarrow> cb_dofs_pushed ?blk = 0"
      using inv b b' by (auto simp: window_inv_def slot_def)
    show ?thesis
    proof (cases "cb_dofs ?blk < cb_len ?blk")
      case False
      then have "place_packet stack skb msg d = Done (d0\<lparr>dc_nxt_blk_pkts := dc_nxt_blk_pkts d0 + 1\<rparr>, False)"
        using place nlt far False by simp
      then show ?thesis by (rule that) (use d0 in \<open>auto intro: same\<close>)
    next
      case True
      obtain blk' sv where el: "bld_eliminate stack ?blk skb msg = Some (blk', sv)"
        and post: "elim_post (Ps ?b) L ?blk (unat (d_num_packets msg)) blk' sv"
        by (rule bld_eliminate_correct [OF bi ok st fit mpi [OF le]])
      let ?d = "d0\<lparr>dc_blocks := (dc_blocks d)[?k := blk'],
                 dc_ndofs := dc_ndofs d0 + (if cb_dofs blk' = cb_dofs ?blk then 1 else 0)\<rparr>"
      have res: "place_packet stack skb msg d = Done (?d, sv)" using place nlt far True el by simp
      have w: "window_inv Ps L ?d"
        by (rule window_update [OF inv b b', of blk' "dc_usr_cache d"])
          (use post p0 inv d0 in \<open>auto simp: elim_post_def window_inv_def slot_def\<close>)
      have "cb_dofs_pushed (cur_blk ?d) = cb_dofs_pushed (cur_blk d)"
        using post len d0 by (cases "slot (dc_curr_block d) = ?k") (auto simp: elim_post_def)
      then have "delivers Ps L d ?d" using w d0 by (simp add: delivers_def pos_def)
      then show ?thesis
      proof (rule that [OF res])
        show "cb_dofs (dc_blocks d ! k) \<le> cb_dofs (dc_blocks ?d ! k)" for k
          using post len by (cases "k = ?k") (auto simp: elim_post_def)
      qed (simp_all add: d0)
    qed
  qed
qed

section \<open>bldack as a whole\<close>

lemma open_blocks_le: "open_blocks bs \<le> length bs"
  by (simp add: open_blocks_def)

text \<open>What a call does to the stream; it never faults, it may wait for the application.\<close>

lemma bldack_correct:
  assumes inv: "window_inv Ps L d" and lens: "\<And>b. lens_ok (Ps b) L"
    and acc: "accepts Ps L d msg" and st: "length stack = BLOCK_SIZE"
    and range: "1 \<le> unat (dc_curr_block d)" "unat (dc_curr_block d) + 2 * NUM_BLOCKS < 2 ^ 31"
    and malloc: "\<And>p. malloc p \<noteq> None"
  shows "(\<exists>d' ack. bldack malloc stack ts skb msg (note_index msg d) = Done (d', ack) \<and> delivers Ps L d d' \<and>
      cb_dofs (cur_blk d') < BLOCK_SIZE \<and> unat (dc_curr_block d) \<le> unat (dc_curr_block d')) \<or>
    (\<exists>Q. bldack malloc stack ts skb msg (note_index msg d) = Blocks Q)"
proof -
  let ?d0 = "note_index msg d"
  note ni = note_index_correct [OF inv acc]
  have inv0: "window_inv Ps L ?d0" using ni(1) by (simp add: delivers_def)
  obtain d1 sv where pl: "place_packet stack skb msg ?d0 = Done (d1, sv)" and del1: "delivers Ps L ?d0 d1"
    and c1: "dc_curr_block d1 = dc_curr_block ?d0"
    by (rule place_packet_correct [OF inv0 ni(2) st, of skb]) (use ni range in auto)
  obtain pool a where al: "alloc_skb (malloc (dc_pool d1)) (dc_pool d1) = (pool, Some a)"
    using alloc_skb_succeeds [OF malloc] by blast
  define d2 where "d2 = d1\<lparr>dc_pool := free_skb a pool, dc_acks := dc_acks d1 + 1\<rparr>"
  have del2: "delivers Ps L d d2"
    by (rule delivers_frame [OF delivers_trans [OF ni(1) del1]]) (simp_all add: d2_def)
  have c2: "dc_curr_block d2 = dc_curr_block d" using c1 ni(3) by (simp add: d2_def)
  have inv2: "window_inv Ps L d2" using del2 by (simp add: delivers_def)
  have bl: "cb_len (cur_blk d2) = BLOCK_SIZE" using window_cur [OF inv2] by (simp add: block_inv_def)
  have "\<exists>d3. (if cb_dofs (cur_blk d2) < cb_len (cur_blk d2) then partial_write d2 else Done d2) = Done d3 \<and>
      delivers Ps L d2 d3 \<and> dc_curr_block d3 = dc_curr_block d2"
  proof (cases "cb_dofs (cur_blk d2) < cb_len (cur_blk d2)")
    case True
    then have part: "cb_dofs (cur_blk d2) < BLOCK_SIZE" using bl by simp
    have "unat (dc_curr_block d2) < 2 ^ 31" using range c2 by simp
    with True show ?thesis by (auto intro: partial_write_correct [OF inv2 lens part])
  next
    case False
    then show ?thesis using delivers_refl [OF inv2] by simp
  qed
  then obtain d3 where pw: "(if cb_dofs (cur_blk d2) < cb_len (cur_blk d2) then partial_write d2 else Done d2) = Done d3"
    and del3: "delivers Ps L d2 d3" and c3: "dc_curr_block d3 = dc_curr_block d2" by blast
  have inv3: "window_inv Ps L d3" using del3 by (simp add: delivers_def)
  have "open_blocks (dc_blocks d3) \<le> NUM_BLOCKS"
    using open_blocks_le [of "dc_blocks d3"] inv3 by (simp add: window_inv_def)
  then have "unat (dc_curr_block d3) + open_blocks (dc_blocks d3) + NUM_BLOCKS < 2 ^ 31"
    using range c2 c3 by simp
  then have dl: "(\<exists>d4. decode_loop d3 = Done d4 \<and> delivers Ps L d3 d4 \<and> cb_dofs (cur_blk d4) \<noteq> BLOCK_SIZE \<and>
      unat (dc_curr_block d3) \<le> unat (dc_curr_block d4)) \<or> (\<exists>Q. decode_loop d3 = Blocks Q)"
    using decode_loop_correct [OF lens inv3] range c2 c3 by simp
  have eq: "bldack malloc stack ts skb msg ?d0 = obind (decode_loop d3) (\<lambda>d.
      Done (if sv then d else d\<lparr>dc_pool := free_skb skb (dc_pool d)\<rparr>, build_ack ts d1 msg))"
    using pl al pw
    by (cases "cb_dofs (cur_blk d2) < cb_len (cur_blk d2)") (simp_all add: bldack_def Let_def d2_def)
  from dl show ?thesis
  proof
    assume "\<exists>d4. decode_loop d3 = Done d4 \<and> delivers Ps L d3 d4 \<and> cb_dofs (cur_blk d4) \<noteq> BLOCK_SIZE \<and>
      unat (dc_curr_block d3) \<le> unat (dc_curr_block d4)"
    then obtain d4 where d4: "decode_loop d3 = Done d4" "delivers Ps L d3 d4"
      "cb_dofs (cur_blk d4) \<noteq> BLOCK_SIZE" "unat (dc_curr_block d3) \<le> unat (dc_curr_block d4)" by blast
    let ?d = "if sv then d4 else d4\<lparr>dc_pool := free_skb skb (dc_pool d4)\<rparr>"
    have del: "delivers Ps L d ?d"
      by (rule delivers_frame [OF delivers_trans [OF delivers_trans [OF del2 del3] d4(2)]]) simp_all
    have bi: "block_inv (Ps (unat (dc_curr_block d4))) L (cur_blk d4)"
      using d4(2) by (intro window_cur) (simp add: delivers_def)
    then have "cb_max_packet_index (cur_blk d4) \<le> BLOCK_SIZE" by (simp add: block_inv_def)
    with block_inv_dofs_le [OF bi] have "cb_dofs (cur_blk d4) \<le> BLOCK_SIZE" by simp
    then have "cb_dofs (cur_blk ?d) < BLOCK_SIZE" using d4(3) by simp
    moreover have "unat (dc_curr_block d) \<le> unat (dc_curr_block ?d)" using d4(4) c2 c3 by simp
    ultimately show ?thesis using eq d4(1) del by auto
  next
    assume "\<exists>Q. decode_loop d3 = Blocks Q"
    then show ?thesis using eq by auto
  qed
qed

section \<open>A run of the receiver\<close>

text \<open>
  The decoder as \<open>create_clictcp_sock\<close> sets it up; \<open>raw\<close> is the fresh memory.
\<close>

definition decoder_init :: "coded_block list \<Rightarrow> skb_pool \<Rightarrow> decoder" where
  "decoder_init raw pool =
    \<lparr>dc_blocks = map initCodedBlock raw, dc_curr_block = 1,
     dc_usr_cache = fifo_init (NUM_BLOCKS * BLOCK_SIZE * PAYLOAD_SIZE), dc_pool = pool,
     dc_total_loss = 0, dc_last_seqno = 0, dc_old_blk_pkts = 0, dc_nxt_blk_pkts = 0,
     dc_ndofs = 0, dc_acks = 0\<rparr>"

text \<open>
  Packets arrive in any order, any number of times or not at all, and the application reads
  at any time; \<open>outs\<close> is what it has read.  \<open>malloc\<close> succeeds, and a run covers the block
  numbers below 2^31.  A packet may be unmarshalled and then discarded, and buffers are
  taken from the pool and given back for other uses.
\<close>

inductive dec_run :: "(nat \<Rightarrow> nat \<Rightarrow> nat \<Rightarrow> u8) \<Rightarrow> nat \<Rightarrow> coded_block list \<Rightarrow> decoder \<Rightarrow> bytes \<Rightarrow> bool"
  for Ps L raw where
  dec_start: "dec_run Ps L raw (decoder_init raw pool) []"
| dec_recv: "dec_run Ps L raw d outs \<Longrightarrow> accepts Ps L d msg \<Longrightarrow> length stack = BLOCK_SIZE \<Longrightarrow>
    unat (dc_curr_block d) + 2 * NUM_BLOCKS < 2 ^ 31 \<Longrightarrow> (\<And>p. malloc p \<noteq> None) \<Longrightarrow>
    bldack malloc stack ts skb msg (note_index msg d) = Done (d', ack) \<Longrightarrow> dec_run Ps L raw d' outs"
| dec_read: "dec_run Ps L raw d outs \<Longrightarrow> 0 \<le> n \<Longrightarrow> fifo_pop (dc_usr_cache d) n = Some (Q, buf) \<Longrightarrow>
    dec_run Ps L raw (d\<lparr>dc_usr_cache := Q\<rparr>) (outs @ buf)"
| dec_note: "dec_run Ps L raw d outs \<Longrightarrow> accepts Ps L d msg \<Longrightarrow> dec_run Ps L raw (note_index msg d) outs"
| dec_pool: "dec_run Ps L raw d outs \<Longrightarrow> dec_run Ps L raw (d\<lparr>dc_pool := p\<rparr>) outs"

lemma init_window:
  assumes "length raw = NUM_BLOCKS" "\<forall>blk \<in> set raw. shape_ok blk"
  shows "window_inv Ps L (decoder_init raw pool)"
proof -
  have "block_inv (Ps b) L (initCodedBlock (raw ! (b mod NUM_BLOCKS)))" for b
    using assms by (intro init_block_inv) (simp add: NUM_BLOCKS_def)
  moreover have "fifo_open (fifo_init (NUM_BLOCKS * BLOCK_SIZE * PAYLOAD_SIZE))"
    using fifo_init_ok [of "NUM_BLOCKS * BLOCK_SIZE * PAYLOAD_SIZE"]
    by (simp add: fifo_open_def fifo_init_def NUM_BLOCKS_def BLOCK_SIZE_def PAYLOAD_SIZE_eq)
  moreover have "b mod NUM_BLOCKS < length raw" for b using assms(1) by (simp add: NUM_BLOCKS_def)
  ultimately show ?thesis
    using assms(1) by (simp add: window_inv_def decoder_init_def initCodedBlock_def)
qed

lemma fifo_pop_open: "fifo_open Q \<Longrightarrow> 0 \<le> n \<Longrightarrow> fifo_pop Q n = Some (Q', buf) \<Longrightarrow>
    fifo_open Q' \<and> fifo_bytes Q = buf @ fifo_bytes Q'"
  using fifo_pop_correct(1,2) [of Q n Q' buf]
  by (auto simp: fifo_open_def fifo_pop_def Let_def split: if_splits)

lemma dec_run_inv:
  assumes "dec_run Ps L raw d outs" "length raw = NUM_BLOCKS" "\<forall>blk \<in> set raw. shape_ok blk"
    "\<And>b. lens_ok (Ps b) L"
  shows "window_inv Ps L d \<and> 1 \<le> unat (dc_curr_block d) \<and>
    outs @ fifo_bytes (dc_usr_cache d) = pos Ps L d"
  using assms(1)
proof (induction rule: dec_run.induct)
  case (dec_start pool)
  have "slot 1 < length raw" using assms(2) slot_less by simp
  then have "pos Ps L (decoder_init raw pool) = []"
    by (simp add: pos_def stream_to_def decoder_init_def initCodedBlock_def)
  then show ?case using init_window [OF assms(2,3)]
    by (simp add: decoder_init_def fifo_init_bytes)
next
  case (dec_recv d outs msg stack malloc ts skb d' ack)
  have "delivers Ps L d d'" "unat (dc_curr_block d) \<le> unat (dc_curr_block d')"
    using bldack_correct [of Ps L d msg stack malloc ts skb] dec_recv assms(4) by auto
  then show ?case using dec_recv.IH unfolding delivers_def by (metis append.assoc order.trans)
next
  case (dec_read d outs n Q buf)
  then have Q: "fifo_open Q" "fifo_bytes (dc_usr_cache d) = buf @ fifo_bytes Q"
    using fifo_pop_open [of "dc_usr_cache d" n Q buf] by (auto simp: window_inv_def)
  with dec_read.IH show ?case by (simp add: window_inv_def pos_def)
next
  case (dec_note d outs msg)
  then have "delivers Ps L d (note_index msg d)" "dc_curr_block (note_index msg d) = dc_curr_block d"
    using note_index_correct(1,3) by blast+
  then show ?case using dec_note.IH unfolding delivers_def by (metis append.assoc)
next
  case (dec_pool d outs p)
  then show ?case by (simp add: window_inv_def pos_def)
qed

text \<open>The stream up to a position is a prefix of the stream up to any later block.\<close>

lemma stream_to_prefix:
  assumes "n \<le> BLOCK_SIZE" "1 \<le> c" "c < c'"
  shows "\<exists>x. stream_to Ps L c' 0 = stream_to Ps L c n @ x"
proof -
  have "[1..<c'] = [1..<c] @ c # [Suc c..<c']"
    using upt_add_eq_append [of 1 c "c' - c"] assms by (simp add: upt_conv_Cons)
  moreover have "packets_data (Ps c) L 0 BLOCK_SIZE = packets_data (Ps c) L 0 n @ packets_data (Ps c) L n BLOCK_SIZE"
    using packets_data_append [of 0 n BLOCK_SIZE "Ps c" L] assms(1) by simp
  ultimately show ?thesis by (simp add: stream_to_def)
qed

text \<open>What a run has read is a prefix of the stream.\<close>

lemma dec_run_stream:
  assumes "dec_run Ps L raw d outs" "length raw = NUM_BLOCKS" "\<forall>blk \<in> set raw. shape_ok blk" "\<forall>b. lens_ok (Ps b) L"
  obtains x where "outs @ fifo_bytes (dc_usr_cache d) = pos Ps L d"
    "stream_to Ps L (Suc (unat (dc_curr_block d))) 0 = outs @ x"
proof -
  have inv: "window_inv Ps L d" "1 \<le> unat (dc_curr_block d)" "outs @ fifo_bytes (dc_usr_cache d) = pos Ps L d"
    using dec_run_inv [OF assms(1-3)] assms(4) by blast+
  then have "cb_dofs_pushed (cur_blk d) \<le> BLOCK_SIZE"
    using window_cur [OF inv(1)] by (simp add: block_inv_def)
  then obtain x where "stream_to Ps L (Suc (unat (dc_curr_block d))) 0 = pos Ps L d @ x"
    using stream_to_prefix inv(2) unfolding pos_def by blast
  then have "stream_to Ps L (Suc (unat (dc_curr_block d))) 0 = outs @ fifo_bytes (dc_usr_cache d) @ x"
    using inv(3) by simp
  then show ?thesis using that inv(3) by blast
qed

end
