(* ===== verification/EndToEnd.thy ===== *)
theory EndToEnd
  imports Delivery Encoder
begin

text \<open>
  The two ends together.  The blocks that \<open>readBlock\<close> fills are what the decoder's
  theorems call the packets \<open>P\<close>; every packet a coding job queues keeps the contract
  \<open>pkt_ok\<close>, also when the block grows afterwards; and what a full block carries is the
  data that was read into it.  The section on acknowledgements says which block the
  receiver asks for.
\<close>

section \<open>The sender's block as the receiver sees it\<close>

definition block_packed :: "block \<Rightarrow> coder \<Rightarrow> bool" where
  "block_packed blk S \<longleftrightarrow> (\<forall>w \<in> set (contents blk S).
    \<exists>data. length data \<le> PAYLOAD_SIZE - 2 \<and> w = pack_payload data)"

lemma block_packed_init: "block_packed block_init S"
  by (simp add: block_packed_def contents_def block_init_def)

lemma payload_len_zeros: "payload_len (replicate PAYLOAD_SIZE 0) = 0"
  by (simp add: payload_len_def of_be16_def PAYLOAD_SIZE_eq)

lemma payload_len_pack:
  assumes "length data \<le> PAYLOAD_SIZE - 2"
  shows "payload_len (pack_payload data) = length data"
proof -
  have "take 2 (pack_payload data) = be16 (of_nat (length data))"
    by (simp add: pack_payload_def memcpy_at_def)
  then show ?thesis
    using assms by (simp add: payload_len_def unsigned_of_nat take_bit_nat_eq_self PAYLOAD_SIZE_eq)
qed

lemma packet_of_contents:
  assumes "block_ok blk S" "k < b_len blk"
  shows "packet (packet_of blk S) PAYLOAD_SIZE k = contents blk S ! k"
proof -
  have "length (contents blk S ! k) = PAYLOAD_SIZE" by (rule contents_nth [OF assms])
  then show ?thesis using assms(2) by (auto simp: packet_def packet_of_def intro: nth_equalityI)
qed

lemma packet_of_beyond: "b_len blk \<le> k \<Longrightarrow> packet (packet_of blk S) PAYLOAD_SIZE k = replicate PAYLOAD_SIZE 0"
  by (auto simp: packet_def packet_of_def intro: nth_equalityI)

lemma packet_of_lens:
  assumes ok: "block_ok blk S" and pk: "block_packed blk S"
  shows "lens_ok (packet_of blk S) PAYLOAD_SIZE"
  unfolding lens_ok_def
proof
  fix k
  show "2 + payload_len (packet (packet_of blk S) PAYLOAD_SIZE k) \<le> PAYLOAD_SIZE"
  proof (cases "k < b_len blk")
    case True
    then have "contents blk S ! k \<in> set (contents blk S)" by simp
    then obtain data where d: "length data \<le> PAYLOAD_SIZE - 2" "contents blk S ! k = pack_payload data"
      using pk unfolding block_packed_def by blast
    have "payload_len (packet (packet_of blk S) PAYLOAD_SIZE k) = length data"
      using packet_of_contents [OF ok True] d payload_len_pack by simp
    then show ?thesis using d(1) by (simp add: PAYLOAD_SIZE_eq)
  next
    case False
    then show ?thesis using packet_of_beyond [of blk k S] payload_len_zeros by (simp add: PAYLOAD_SIZE_eq)
  qed
qed

text \<open>Reading keeps the format.\<close>

lemma readBlock_packed:
  assumes "readBlock malloc blk S buf = (blk', S', rest)" "block_ok blk S" "pool_good (k_pool S)"
    and "\<forall>p. fresh p (malloc p)" "block_packed blk S"
  shows "block_packed blk' S'"
  using assms
proof (induction malloc blk S buf rule: readBlock.induct)
  case (1 malloc blk S buf)
  have fr: "fresh p (malloc p)" for p using 1(5) by blast
  obtain p r where al: "alloc_skb (malloc (k_pool S)) (k_pool S) = (p, r)" by fastforce
  consider "\<not> (b_len blk < BLOCK_SIZE \<and> buf \<noteq> [])" | "b_len blk < BLOCK_SIZE \<and> buf \<noteq> []" "r = None"
    | a where "b_len blk < BLOCK_SIZE \<and> buf \<noteq> []" "r = Some a" by blast
  then show ?case
  proof cases
    case 1
    then show ?thesis using \<open>readBlock malloc blk S buf = (blk', S', rest)\<close> \<open>block_packed blk S\<close>
      by (auto simp: readBlock.simps [of malloc blk S buf])
  next
    case 2
    then have "blk' = blk" "S' = S\<lparr>k_pool := p\<rparr>"
      using \<open>readBlock malloc blk S buf = (blk', S', rest)\<close> al
      by (simp_all add: readBlock.simps [of malloc blk S buf])
    then show ?thesis using \<open>block_packed blk S\<close> by (simp add: block_packed_def contents_def cong: option.case_cong)
  next
    case 3
    define n where "n = min (PAYLOAD_SIZE - 2) (length buf)"
    define tmp where "tmp = pack_payload (take n buf)"
    define S1 where "S1 = set_payload (S\<lparr>k_pool := p\<rparr>) a tmp"
    have al': "pool_good p" "\<not> p_used (k_pool S) a" "p_used p = (p_used (k_pool S))(a := True)"
      using alloc_good [OF 1(4) fr] al 3 by blast+
    have len: "length (take n buf) \<le> PAYLOAD_SIZE - 2" by (simp add: n_def)
    have tmp: "length tmp = PAYLOAD_SIZE" using payload_data_pack [OF len] by (simp add: tmp_def)
    note put = put_skb_ok [OF 1(3) conjunct1 [OF 3(1)] al'(2,3) tmp S1_def]
    have rec: "readBlock malloc (put_skb blk a) S1 (drop n buf) = (blk', S', rest)"
      using 1(2) 3 al by (simp add: readBlock.simps [of malloc blk S buf] n_def tmp_def S1_def Let_def)
    have good: "pool_good (k_pool S1)" using al' by (simp add: S1_def set_payload_def)
    have packed: "block_packed (put_skb blk a) S1"
      unfolding block_packed_def put(2)
    proof
      fix w assume "w \<in> set (contents blk S @ [tmp])"
      then consider "w \<in> set (contents blk S)" | "w = tmp" by auto
      then show "\<exists>data. length data \<le> PAYLOAD_SIZE - 2 \<and> w = pack_payload data"
      proof cases
        case 1
        then show ?thesis using \<open>block_packed blk S\<close> unfolding block_packed_def by blast
      next
        case 2
        then show ?thesis using len unfolding tmp_def by blast
      qed
    qed
    show ?thesis
      by (rule 1(1) [OF 3(1) al [symmetric] 3(2) n_def tmp_def]) 
        (use rec put(1) good packed 1(5) in \<open>simp_all add: S1_def\<close>)
  qed
qed

text \<open>What a receiver delivers for a complete block is what was read into it.\<close>

lemma packets_data_block:
  assumes ok: "block_ok blk S"
  shows "packets_data (packet_of blk S) PAYLOAD_SIZE 0 BLOCK_SIZE = block_bytes blk S"
proof -
  let ?P = "packet_of blk S"
  have le: "b_len blk \<le> BLOCK_SIZE" using ok by (simp add: block_ok_def)
  have "map (\<lambda>k. payload_data (packet ?P PAYLOAD_SIZE k)) [0..<b_len blk] = map payload_data (contents blk S)"
    using packet_of_contents [OF ok] by (intro nth_equalityI) simp_all
  then have "packets_data ?P PAYLOAD_SIZE 0 (b_len blk) = block_bytes blk S"
    by (simp add: packets_data_def block_bytes_def)
  moreover have "payload_data (replicate PAYLOAD_SIZE 0) = []"
    by (simp add: payload_data_def payload_len_zeros)
  then have "packets_data ?P PAYLOAD_SIZE (b_len blk) BLOCK_SIZE = []"
    by (simp add: packets_data_def packet_of_beyond)
  ultimately show ?thesis
    using packets_data_append [of 0 "b_len blk" BLOCK_SIZE ?P PAYLOAD_SIZE] le by simp
qed

text \<open>A packet coded when the block was shorter stays a combination of the longer block.\<close>

lemma pkt_ok_grow:
  assumes "pkt_ok P L m" "\<And>k. k < n \<Longrightarrow> P' k = P k"
    and "unat (d_start_packet m) + unat (d_num_packets m) \<le> n"
  shows "pkt_ok P' L m"
proof -
  let ?r = "unat (d_start_packet m)" and ?n = "unat (d_num_packets m)"
  have sat: "row_sat P ?r ?n (pkt_coeffs m) (d_payload m)" using assms(1) by (simp add: pkt_ok_def)
  have "P' (?r + i) = P (?r + i)" if "i < ?n" for i using that assms(2,3) by simp
  then have "row_sat P' ?r ?n (pkt_coeffs m) (d_payload m)"
    using sat by (simp add: row_sat_def)
  with assms(1) show ?thesis by (simp add: pkt_ok_def)
qed

section \<open>Acknowledgements\<close>

text \<open>
  The acknowledgement names the first block of the window that is not complete, with the
  degrees of freedom received for it.
\<close>

lemma ack_scan_spec:
  assumes "ack_scan d b r = (b', r')" "r = cb_dofs (dc_blocks d ! slot b)" "b \<le> dc_curr_block d + of_nat NUM_BLOCKS"
  shows "b \<le> b' \<and> b' \<le> dc_curr_block d + of_nat NUM_BLOCKS \<and> r' = cb_dofs (dc_blocks d ! slot b') \<and>
    (\<forall>c. b \<le> c \<longrightarrow> c < b' \<longrightarrow> cb_dofs (dc_blocks d ! slot c) = cb_len (dc_blocks d ! slot c)) \<and>
    (b' < dc_curr_block d + of_nat NUM_BLOCKS \<longrightarrow> r' \<noteq> cb_len (dc_blocks d ! slot b'))"
  using assms
proof (induction d b r rule: ack_scan.induct)
  case (1 d b r)
  show ?case
  proof (cases "r = cb_len (dc_blocks d ! slot b) \<and> b < dc_curr_block d + of_nat NUM_BLOCKS")
    case False
    then have "b' = b" "r' = r" using 1(2) by (auto simp: ack_scan.simps [of d b r])
    then show ?thesis using 1(3,4) False by (auto simp: ack_scan.simps [of d b r])
  next
    case True
    then have step: "ack_scan d (b + 1) (cb_dofs (dc_blocks d ! slot (b + 1))) = (b', r')"
      using 1(2) by (subst (asm) ack_scan.simps) simp
    have suc: "unat (b + 1) = Suc (unat b)" using unat_succ True by blast
    then have le: "b + 1 \<le> dc_curr_block d + of_nat NUM_BLOCKS"
      using True by (simp add: word_le_nat_alt word_less_nat_alt)
    note IH = 1(1) [OF True step refl le]
    have "c = b \<or> b + 1 \<le> c" if "b \<le> c" for c
      using that suc by (auto simp: word_le_nat_alt word_unat_eq_iff)
    then show ?thesis using IH True 1(3) suc by (auto simp: word_le_nat_alt word_less_nat_alt)
  qed
qed

end
