(* ===== verification/SendStream.thy ===== *)
theory SendStream
  imports Sender EndToEnd
begin

text \<open>
  What the sending side guarantees: \<open>send_ctcp\<close> stores the application's bytes in order in
  the window of blocks, and \<open>handle_ack\<close> moves the window as far as the acknowledgement
  says.  \<open>sender_inv\<close> is the invariant of the window, \<open>s_stream\<close> the bytes it holds.
\<close>

section \<open>The window of blocks\<close>

definition blk_at :: "server \<Rightarrow> nat \<Rightarrow> block" where
  "blk_at sk b = s_blocks sk ! (b mod NUM_BLOCKS)"

definition sender_inv :: "server \<Rightarrow> bool" where
  "sender_inv sk \<longleftrightarrow>
    length (s_blocks sk) = NUM_BLOCKS \<and> pool_good (k_pool (s_coder sk)) \<and>
    (\<forall>b. block_ok (blk_at sk b) (s_coder sk)) \<and>
    s_curr_block sk \<le> s_maxblockno sk \<and> unat (s_maxblockno sk) \<le> unat (s_curr_block sk) + NUM_BLOCKS \<and>
    unat (s_curr_block sk) + 2 * NUM_BLOCKS < 2 ^ 31 \<and>
    (\<forall>b. unat (s_curr_block sk) \<le> b \<longrightarrow> b < unat (s_maxblockno sk) \<longrightarrow> b_len (blk_at sk b) = BLOCK_SIZE) \<and>
    (\<forall>b. unat (s_maxblockno sk) < b \<longrightarrow> b < unat (s_curr_block sk) + NUM_BLOCKS \<longrightarrow> b_len (blk_at sk b) = 0)"

definition s_stream :: "server \<Rightarrow> bytes" where
  "s_stream sk = concat (map (\<lambda>b. block_bytes (blk_at sk b) (s_coder sk))
    [unat (s_curr_block sk)..<unat (s_curr_block sk) + NUM_BLOCKS])"

lemma create_inv: "pool_good (k_pool coder0) \<Longrightarrow> sender_inv (create_srvctcp_sock c coder0)"
  by (simp add: sender_inv_def create_srvctcp_sock_def blk_at_def block_init_ok NUM_BLOCKS_def)
    (simp add: block_init_def)

lemma block_bytes_empty: "b_len blk = 0 \<Longrightarrow> block_bytes blk S = []"
  by (simp add: block_bytes_def contents_def)

lemma readBlock_full:
  "b_len blk = BLOCK_SIZE \<Longrightarrow> readBlock malloc blk S buf = (blk, S, buf)"
  by (simp add: readBlock.simps [of malloc blk S buf])

lemma readBlock_length: "readBlock m k s b = (k', s', r) \<Longrightarrow> length r \<le> length b"
proof (induction m k s b rule: readBlock.induct)
  case (1 m k s b)
  obtain p x where al: "alloc_skb (m (k_pool s)) (k_pool s) = (p, x)" by fastforce
  consider "\<not> (b_len k < BLOCK_SIZE \<and> b \<noteq> [])" | "b_len k < BLOCK_SIZE \<and> b \<noteq> []" "x = None"
    | a where "b_len k < BLOCK_SIZE \<and> b \<noteq> []" "x = Some a" by blast
  then show ?case
  proof cases
    case 3
    define n where "n = min (PAYLOAD_SIZE - 2) (length b)"
    have "readBlock m (put_skb k a) (set_payload (s\<lparr>k_pool := p\<rparr>) a (pack_payload (take n b))) (drop n b)
        = (k', s', r)"
      using 1(2) 3 al by (simp add: readBlock.simps [of m k s b] Let_def n_def)
    then have "length r \<le> length (drop n b)"
      by (intro 1(1) [OF 3(1) al [symmetric] 3(2) n_def refl])
    then show ?thesis by simp
  qed (use 1(2) al in \<open>auto simp: readBlock.simps [of m k s b]\<close>)
qed

lemma readBlock_progress:
  assumes "b_len blk < BLOCK_SIZE" "buf \<noteq> []" "malloc (k_pool S) \<noteq> None"
    and "readBlock malloc blk S buf = (blk', S', rest)"
  shows "length rest < length buf"
proof -
  obtain p a where al: "alloc_skb (malloc (k_pool S)) (k_pool S) = (p, Some a)"
    using alloc_skb_succeeds [OF assms(3)] by blast
  define n where "n = min (PAYLOAD_SIZE - 2) (length buf)"
  have "readBlock malloc (put_skb blk a) (set_payload (S\<lparr>k_pool := p\<rparr>) a (pack_payload (take n buf))) (drop n buf)
      = (blk', S', rest)"
    using assms al by (simp add: readBlock.simps [of malloc blk S buf] Let_def n_def)
  then have "length rest \<le> length (drop n buf)" by (rule readBlock_length)
  moreover have "0 < n" using assms(2) by (simp add: n_def PAYLOAD_SIZE_eq)
  ultimately show ?thesis using assms(2) by (cases buf) auto
qed

text \<open>Reading into the newest block.\<close>

lemma send_step_stored:
  assumes inv: "sender_inv sk" and fr: "\<forall>p. fresh p (malloc p)" and ok: "\<forall>p. malloc p \<noteq> None"
    and step: "send_step malloc sk buf = Stored sk' rest"
  shows "sender_inv sk' \<and> s_stream sk' @ rest = s_stream sk @ buf"
proof -
  let ?i = "s_maxblockno sk" and ?c = "unat (s_curr_block sk)" and ?m = "unat (s_maxblockno sk)"
  let ?blk = "blk_at sk ?m"
  have slot: "bslot ?i = ?m mod NUM_BLOCKS" by (simp add: bslot_def)
  obtain blk' S' r where rd: "readBlock malloc ?blk (s_coder sk) buf = (blk', S', r)"
    by (cases "readBlock malloc ?blk (s_coder sk) buf") auto
  have prog: "r = rest" "length rest < length buf"
    and b': "s_blocks sk' = (s_blocks sk)[?m mod NUM_BLOCKS := blk']" "s_coder sk' = S'"
      "s_curr_block sk' = s_curr_block sk" "s_maxblockno sk' = s_maxblockno sk"
    using step rd by (auto simp: send_step_def Let_def blk_at_def slot split: if_splits option.splits)
  have okb: "block_ok (blk_at sk b) (s_coder sk)" and good: "pool_good (k_pool (s_coder sk))" for b
    using inv by (simp_all add: sender_inv_def)
  have len: "?m mod NUM_BLOCKS < length (s_blocks sk)" using inv by (simp add: sender_inv_def NUM_BLOCKS_def)
  have win: "?c \<le> ?m" "?m < ?c + NUM_BLOCKS"
  proof -
    show cm: "?c \<le> ?m" using inv by (simp add: sender_inv_def word_le_nat_alt)
    show "?m < ?c + NUM_BLOCKS"
    proof (rule ccontr)
      assume "\<not> ?m < ?c + NUM_BLOCKS"
      then have m: "?m = ?c + NUM_BLOCKS" using inv by (simp add: sender_inv_def)
      then have "blk_at sk ?m = blk_at sk ?c" by (simp add: blk_at_def)
      moreover have "b_len (blk_at sk ?c) = BLOCK_SIZE"
        using inv m by (simp add: sender_inv_def NUM_BLOCKS_def)
      ultimately show False using rd prog readBlock_full [of ?blk malloc "s_coder sk" buf] by simp
    qed
  qed
  note rc = readBlock_correct [OF rd okb good fr]
  have fra: "frame (s_coder sk) S'" using rc by blast
  have at_m: "blk_at sk' ?m = blk'" using len by (simp add: blk_at_def b')
  have at_o: "blk_at sk' b = blk_at sk b" if "b mod NUM_BLOCKS \<noteq> ?m mod NUM_BLOCKS" for b
    using that by (simp add: blk_at_def b')
  have ne: "b mod NUM_BLOCKS \<noteq> ?m mod NUM_BLOCKS" if "?c \<le> b" "b < ?c + NUM_BLOCKS" "b \<noteq> ?m" for b
    using window_slots_distinct [OF that(1,2) win] that(3) by blast
  have ok': "block_ok (blk_at sk' b) S'" for b
  proof (cases "b mod NUM_BLOCKS = ?m mod NUM_BLOCKS")
    case True
    then have "blk_at sk' b = blk'" using at_m by (simp add: blk_at_def)
    then show ?thesis using rc by simp
  next
    case False
    then show ?thesis using at_o [OF False] frame_block(1) [OF okb fra] by simp
  qed
  have "sender_inv sk'"
    using inv rc ok' at_o ne b' win by (simp add: sender_inv_def)
  moreover
  have split: "[?c..<?c + NUM_BLOCKS] = [?c..<?m] @ ?m # [Suc ?m..<?c + NUM_BLOCKS]"
    using win upt_add_eq_append [of ?c ?m "?c + NUM_BLOCKS - ?m"] by (simp add: upt_conv_Cons)
  have low: "map (\<lambda>b. block_bytes (blk_at sk' b) S') [?c..<?m] =
      map (\<lambda>b. block_bytes (blk_at sk b) (s_coder sk)) [?c..<?m]"
    using at_o ne win frame_block(2) [OF okb fra] by (auto simp: block_bytes_def)
  have high: "concat (map (\<lambda>b. block_bytes (blk_at s b) T) [Suc ?m..<?c + NUM_BLOCKS]) = []"
    if "\<And>b. ?m < b \<Longrightarrow> b < ?c + NUM_BLOCKS \<Longrightarrow> b_len (blk_at s b) = 0" for s T
    using that by (auto simp: block_bytes_empty)
  have e1: "\<And>b. ?m < b \<Longrightarrow> b < ?c + NUM_BLOCKS \<Longrightarrow> b_len (blk_at sk b) = 0"
    using inv by (simp add: sender_inv_def)
  have e2: "\<And>b. ?m < b \<Longrightarrow> b < ?c + NUM_BLOCKS \<Longrightarrow> b_len (blk_at sk' b) = 0"
    using e1 at_o ne win by simp
  have h1: "concat (map (\<lambda>b. block_bytes (blk_at sk b) (s_coder sk)) [Suc ?m..<?c + NUM_BLOCKS]) = []"
    by (rule high) (rule e1)
  have h2: "concat (map (\<lambda>b. block_bytes (blk_at sk' b) S') [Suc ?m..<?c + NUM_BLOCKS]) = []"
    by (rule high) (rule e2)
  have "block_bytes blk' S' @ rest = block_bytes ?blk (s_coder sk) @ buf" using rc prog(1) by simp
  then have "s_stream sk' @ rest = s_stream sk @ buf"
    unfolding s_stream_def b' split map_append list.map concat_append concat.simps low h1 h2 at_m
    by simp
  ultimately show ?thesis by blast
qed

lemma send_step_next:
  assumes inv: "sender_inv sk" and ok: "\<forall>p. malloc p \<noteq> None" and ne: "buf \<noteq> []"
    and step: "send_step malloc sk buf = NextBlock sk'"
  shows "sender_inv sk' \<and> s_stream sk' = s_stream sk"
proof -
  let ?i = "s_maxblockno sk" and ?c = "unat (s_curr_block sk)" and ?m = "unat (s_maxblockno sk)"
  let ?blk = "blk_at sk ?m"
  have slot: "bslot ?i = ?m mod NUM_BLOCKS" by (simp add: bslot_def)
  obtain blk' S' r where rd: "readBlock malloc ?blk (s_coder sk) buf = (blk', S', r)"
    by (cases "readBlock malloc ?blk (s_coder sk) buf") auto
  have noprog: "\<not> length r < length buf"
    using step rd by (auto simp: send_step_def Let_def blk_at_def slot split: if_splits option.splits)
  have "b_len ?blk \<le> BLOCK_SIZE" using inv by (simp add: sender_inv_def block_ok_def)
  then have full: "b_len ?blk = BLOCK_SIZE"
    using readBlock_progress [OF _ ne _ rd] ok noprog by fastforce
  have same: "blk' = ?blk" "S' = s_coder sk" "r = buf"
    using rd readBlock_full [OF full, of malloc "s_coder sk" buf] by simp_all
  have sk': "sk' = sk\<lparr>s_maxblockno := s_maxblockno sk + 1\<rparr>" and lt: "s_maxblockno sk < s_curr_block sk + of_nat NUM_BLOCKS"
    using step rd same by (auto simp: send_step_def Let_def blk_at_def slot split: if_splits option.splits)
  have range: "?c + 2 * NUM_BLOCKS < 2 ^ 31" using inv by (simp add: sender_inv_def)
  have suc: "unat (s_maxblockno sk + 1) = Suc ?m" using unat_succ [OF lt] .
  have "unat (s_curr_block sk + of_nat NUM_BLOCKS) = ?c + NUM_BLOCKS"
    using range unat_add_lem [of "s_curr_block sk" "of_nat NUM_BLOCKS"] by (simp add: NUM_BLOCKS_def)
  then have m: "?m < ?c + NUM_BLOCKS" using lt by (simp add: word_less_nat_alt)
  have at: "blk_at sk' b = blk_at sk b" for b by (simp add: blk_at_def sk')
  have "sender_inv sk'"
    using inv suc m full at by (auto simp: sender_inv_def sk' word_le_nat_alt less_Suc_eq)
  moreover have "s_stream sk' = s_stream sk" by (simp add: s_stream_def at) (simp add: sk')
  ultimately show ?thesis by blast
qed

lemma send_ctcp_correct:
  assumes "send_ctcp malloc sk buf = Some (sk', rest, e)" "sender_inv sk"
    "\<forall>p. fresh p (malloc p)" "\<forall>p. malloc p \<noteq> None"
  shows "sender_inv sk' \<and> s_stream sk' @ rest = s_stream sk @ buf \<and> (e = AllSent \<longleftrightarrow> rest = [])"
  using assms
proof (induction malloc sk buf rule: send_ctcp.induct)
  case (1 malloc sk buf)
  note run = 1(3) and inv = 1(4)
  consider "buf = []" | "buf \<noteq> []" "s_status sk \<noteq> ACTIVE"
    | "buf \<noteq> []" "s_status sk = ACTIVE" by blast
  then show ?case
  proof cases
    case 1
    then show ?thesis using run inv
      by (simp add: send_ctcp.simps [of malloc sk "[]"])
  next
    case 2
    then have "sk' = sk\<lparr>s_error := CLIHUP\<rparr>" "rest = buf" "e = HangUp"
      using run by (simp_all add: send_ctcp.simps [of malloc sk buf])
    then show ?thesis using inv 2(1)
      by (simp add: sender_inv_def s_stream_def blk_at_def)
  next
    case 3
    note unfold = send_ctcp.simps [of malloc sk buf]
    show ?thesis
    proof (cases "send_step malloc sk buf")
      case (Stored sk1 rest1)
      then have "send_ctcp malloc sk1 rest1 = Some (sk', rest, e)"
        using run 3 by (simp add: unfold)
      moreover have "sender_inv sk1 \<and> s_stream sk1 @ rest1 = s_stream sk @ buf"
        by (rule send_step_stored [OF _ _ _ Stored]) (use 1 in auto)
      ultimately show ?thesis using 1(1) [OF 3(1) _ Stored] 3 1 by fastforce
    next
      case (NextBlock sk1)
      then have "send_ctcp malloc sk1 buf = Some (sk', rest, e)"
        using run 3 by (simp add: unfold)
      moreover have "sender_inv sk1 \<and> s_stream sk1 = s_stream sk"
        by (rule send_step_next [OF _ _ 3(1) NextBlock]) (use 1 in auto)
      ultimately show ?thesis using 1(2) [OF 3(1) _ NextBlock] 3 1 by fastforce
    next
      case Full
      then have "sk' = sk" "rest = buf" "e = MustWait"
        using run 3 by (simp_all add: unfold)
      then show ?thesis using 1 3 by simp
    next
      case PoolWaits
      then show ?thesis using run 3 by (simp add: unfold)
    qed
  qed
qed

section \<open>Acknowledgements at the sender\<close>

lemma free_blocks_curr: "s_curr_block (free_blocks b pin sk) = max (s_curr_block sk) b"
proof (induction b pin sk rule: free_blocks.induct)
  case (1 b pin sk)
  show ?case
  proof (cases "s_curr_block sk < b")
    case True
    then have "unat (s_curr_block sk + 1) = Suc (unat (s_curr_block sk))" by (rule unat_succ)
    then have "s_curr_block sk + 1 \<le> b" using True by (simp add: word_le_nat_alt word_less_nat_alt)
    moreover have "s_curr_block sk \<le> b" using True by simp
    ultimately show ?thesis using 1 True
      by (simp add: free_blocks.simps [of b pin sk] free_block_step_fields max_def)
  next
    case False
    then show ?thesis by (simp add: free_blocks.simps [of b pin sk] max_def)
  qed
qed

lemma free_blocks_max:
  "s_curr_block sk \<le> s_maxblockno sk \<Longrightarrow>
    s_curr_block (free_blocks b pin sk) \<le> s_maxblockno (free_blocks b pin sk)"
proof (induction b pin sk rule: free_blocks.induct)
  case (1 b pin sk)
  then show ?case
    by (cases "s_curr_block sk < b") (simp_all add: free_blocks.simps [of b pin sk] free_block_step_fields)
qed

text \<open>Freeing blocks touches the paths only in their counters.\<close>

definition path_same :: "path \<Rightarrow> path \<Rightarrow> bool" where
  "path_same p q \<longleftrightarrow> snd_nxt p = snd_nxt q \<and> snd_una p = snd_una q \<and> snd_cwnd p = snd_cwnd q"

lemma upd_path_nth:
  "i < length (s_paths sk) \<Longrightarrow> s_paths (upd_path i f sk) ! j = (if j = i then f (s_paths sk ! i) else s_paths sk ! j)"
  by (simp add: upd_path_def)

lemma upd_path_other [simp]: "s_curr_block (upd_path i f sk) = s_curr_block sk"
  "s_maxblockno (upd_path i f sk) = s_maxblockno sk" "length (s_paths (upd_path i f sk)) = length (s_paths sk)"
  "s_dof_req_latest (upd_path i f sk) = s_dof_req_latest sk" "s_blocks (upd_path i f sk) = s_blocks sk"
  "s_badacks (upd_path i f sk) = s_badacks sk" "s_cfg (upd_path i f sk) = s_cfg sk"
  by (simp_all add: upd_path_def)

lemma free_block_step_paths:
  assumes "pin < length (s_paths sk)"
  shows "length (s_paths (free_block_step pin sk)) = length (s_paths sk)"
    and "path_same (s_paths (free_block_step pin sk) ! pin) (s_paths sk ! pin)"
  using assms by (simp_all add: free_block_step_def Let_def split_def path_same_def upd_path_def)

lemma free_blocks_paths:
  "pin < length (s_paths sk) \<Longrightarrow> length (s_paths (free_blocks b pin sk)) = length (s_paths sk) \<and>
    path_same (s_paths (free_blocks b pin sk) ! pin) (s_paths sk ! pin)"
proof (induction b pin sk rule: free_blocks.induct)
  case (1 b pin sk)
  show ?case
  proof (cases "s_curr_block sk < b")
    case True
    note st = free_block_step_paths [OF 1(2)]
    have "free_blocks b pin sk = free_blocks b pin (free_block_step pin sk)"
      using True by (simp add: free_blocks.simps [of b pin sk])
    then show ?thesis using 1(1) [OF True] 1(2) st by (simp add: path_same_def)
  next
    case False
    then show ?thesis by (simp add: free_blocks.simps [of b pin sk] path_same_def)
  qed
qed

text \<open>
  After the loop over the blocks the current block is not behind the acknowledged one, so
  the second half of the test for a bad ack never holds: an ack is rejected exactly when it
  acknowledges a packet that was not sent.
\<close>

definition acked_state :: "real \<Rightarrow> ack_pckt \<Rightarrow> nat \<Rightarrow> server \<Rightarrow> server" where
  "acked_state tstamp ack pin sk =
    (let sk1 = upd_path pin (rtt_update tstamp) sk; sk2 = free_blocks (a_blockno ack) pin sk1
     in update_dof_req (s_curr_block sk1 = s_curr_block sk2) (a_dof_rec ack) sk2)"

lemma acked_state_facts:
  assumes "pin < length (s_paths sk)"
  shows "s_curr_block (acked_state t ack pin sk) = max (s_curr_block sk) (a_blockno ack)"
    and "length (s_paths (acked_state t ack pin sk)) = length (s_paths sk)"
    and "path_same (s_paths (acked_state t ack pin sk) ! pin) (s_paths sk ! pin)"
    and "0 \<le> s_dof_req_latest (acked_state t ack pin sk)"
    and "s_curr_block sk \<le> s_maxblockno sk \<Longrightarrow>
      s_curr_block (acked_state t ack pin sk) \<le> s_maxblockno (acked_state t ack pin sk)"
proof -
  let ?sk1 = "upd_path pin (rtt_update t) sk"
  have len: "pin < length (s_paths ?sk1)" using assms by simp
  note fb = free_blocks_paths [OF len, of "a_blockno ack"]
  have p1: "path_same (s_paths ?sk1 ! pin) (s_paths sk ! pin)"
    using assms by (simp add: upd_path_nth path_same_def srv_simps)
  show "s_curr_block (acked_state t ack pin sk) = max (s_curr_block sk) (a_blockno ack)"
    by (simp add: acked_state_def Let_def update_dof_req_def free_blocks_curr)
  show "length (s_paths (acked_state t ack pin sk)) = length (s_paths sk)"
    using fb by (simp add: acked_state_def Let_def update_dof_req_def)
  show "path_same (s_paths (acked_state t ack pin sk) ! pin) (s_paths sk ! pin)"
    using fb p1 by (simp add: acked_state_def Let_def update_dof_req_def path_same_def)
  show "0 \<le> s_dof_req_latest (acked_state t ack pin sk)"
    by (simp add: acked_state_def Let_def update_dof_req_def)
  show "s_curr_block (acked_state t ack pin sk) \<le> s_maxblockno (acked_state t ack pin sk)"
    if "s_curr_block sk \<le> s_maxblockno sk"
    using free_blocks_max [of ?sk1 "a_blockno ack" pin] that
    by (simp add: acked_state_def Let_def update_dof_req_def)
qed

lemma handle_ack_cases:
  assumes "pin < length (s_paths sk)"
  shows "handle_ack now t ack pin sk =
    (let sk' = acked_state t ack pin sk in
     if snd_nxt (s_paths sk ! pin) < a_ackno ack then
       (upd_path pin (\<lambda>p. if snd_una p < a_ackno ack then p\<lparr>snd_una := a_ackno ack\<rparr> else p)
          (sk'\<lparr>s_badacks := s_badacks sk' + 1\<rparr>), False)
     else (ack_path now (a_ackno ack) pin sk', True))"
proof -
  have "\<not> s_curr_block (acked_state t ack pin sk) < a_blockno ack"
    using acked_state_facts(1) [OF assms, of t ack] by simp
  moreover have "snd_nxt (s_paths (acked_state t ack pin sk) ! pin) = snd_nxt (s_paths sk ! pin)"
    using acked_state_facts(3) [OF assms, of t ack] by (simp add: path_same_def)
  ultimately show ?thesis
    unfolding handle_ack_def Let_def acked_state_def [symmetric, unfolded Let_def] upd_path_other(1)
    by (simp add: acked_state_def Let_def)
qed

lemma handle_ack_curr:
  assumes "pin < length (s_paths sk)" "handle_ack now t ack pin sk = (sk', ok)"
  shows "s_curr_block sk' = max (s_curr_block sk) (a_blockno ack)"
proof -
  have "s_curr_block (ack_path now a pin sk0) = s_curr_block sk0" for a sk0
    by (simp add: ack_path_def Let_def)
  then show ?thesis
    using assms acked_state_facts(1) [OF assms(1), of t ack]
    by (auto simp: handle_ack_cases [OF assms(1)] Let_def split: if_splits)
qed

lemma handle_ack_bad:
  assumes pin: "pin < length (s_paths sk)" and bad: "snd_nxt (s_paths sk ! pin) < a_ackno ack"
    and una: "snd_una (s_paths sk ! pin) \<le> snd_nxt (s_paths sk ! pin)"
    and res: "handle_ack now t ack pin sk = (sk', ok)"
  shows "\<not> ok" "s_badacks sk' = s_badacks (acked_state t ack pin sk) + 1"
    and "snd_una (s_paths sk' ! pin) = a_ackno ack" "snd_nxt (s_paths sk' ! pin) = snd_nxt (s_paths sk ! pin)"
    and "snd_cwnd (s_paths sk' ! pin) = snd_cwnd (s_paths sk ! pin)"
proof -
  note f = acked_state_facts [OF pin, of t ack]
  have "snd_una (s_paths sk ! pin) < a_ackno ack" using una bad by simp
  then show "\<not> ok" "s_badacks sk' = s_badacks (acked_state t ack pin sk) + 1"
    "snd_una (s_paths sk' ! pin) = a_ackno ack" "snd_nxt (s_paths sk' ! pin) = snd_nxt (s_paths sk ! pin)"
    "snd_cwnd (s_paths sk' ! pin) = snd_cwnd (s_paths sk ! pin)"
    using res bad f(2,3) pin
    by (auto simp: handle_ack_cases [OF pin] Let_def path_same_def upd_path_nth)
qed

lemma handle_ack_good:
  assumes pin: "pin < length (s_paths sk)" and good: "\<not> snd_nxt (s_paths sk ! pin) < a_ackno ack"
    and res: "handle_ack now t ack pin sk = (sk', ok)"
  shows "ok" "snd_una (s_paths sk' ! pin) = max (snd_una (s_paths sk ! pin)) (a_ackno ack)"
    and "snd_nxt (s_paths sk' ! pin) = snd_nxt (s_paths sk ! pin)" "idle (s_paths sk' ! pin) = 0"
    and "2 \<le> snd_cwnd (s_paths sk' ! pin)" "snd_cwnd (s_paths sk' ! pin) \<le> of_nat MAX_CWND"
proof -
  note f = acked_state_facts [OF pin, of t ack]
  let ?s = "acked_state t ack pin sk"
  have len: "pin < length (s_paths ?s)" using f(2) pin by simp
  have r: "sk' = ack_path now (a_ackno ack) pin ?s" "ok"
    using res good by (simp_all add: handle_ack_cases [OF pin] Let_def)
  show ok by (rule r(2))
  define q where "q = (s_paths ?s ! pin)\<lparr>idle := 0\<rparr>"
  have q: "snd_una q = snd_una (s_paths sk ! pin)" "snd_nxt q = snd_nxt (s_paths sk ! pin)" "idle q = 0"
    using f(3) by (simp_all add: q_def path_same_def)
  define q' where "q' = (if a_ackno ack \<le> snd_una q then q else good_ack (a_ackno ack) q)"
  have q': "snd_una q' = max (snd_una q) (a_ackno ack)" "snd_nxt q' = snd_nxt q" "idle q' = 0"
    using q(3) by (auto simp: q'_def srv_simps max_def)
  have "s_paths sk' ! pin = advance_cwnd now (s_cfg ?s) q'"
    using len by (auto simp: r(1) ack_path_def Let_def upd_path_def q_def q'_def)
  then show "snd_una (s_paths sk' ! pin) = max (snd_una (s_paths sk ! pin)) (a_ackno ack)"
    "snd_nxt (s_paths sk' ! pin) = snd_nxt (s_paths sk ! pin)" "idle (s_paths sk' ! pin) = 0"
    "2 \<le> snd_cwnd (s_paths sk' ! pin)" "snd_cwnd (s_paths sk' ! pin) \<le> of_nat MAX_CWND"
    using q q' advance_cwnd_bounds by (simp_all add: srv_simps)
qed

text \<open>
  A rejected ack still moves \<open>snd_una\<close>, beyond \<open>snd_nxt\<close>: the number of packets in flight,
  an unsigned difference, wraps, and the window the path may fill grows by the overshoot.
\<close>

lemma bad_ack_window:
  assumes nxt: "snd_nxt q = n" and una: "snd_una q = a" and w: "unat (snd_cwnd q) \<le> 1000"
    and over: "unat n < unat a" "unat a - unat n \<le> 1000000"
  shows "path_win q = int (unat (snd_cwnd q)) + int (unat a - unat n)"
proof -
  have "n - a = - (a - n)" by simp
  then have eq: "snd_cwnd q - (n - a) = snd_cwnd q + (a - n)" by (simp only: diff_minus_eq_add)
  have d: "unat (a - n) = unat a - unat n" using over(1) by (simp add: unat_sub word_le_nat_alt)
  moreover have "unat (snd_cwnd q) + unat (a - n) < 2 ^ LENGTH(32)" using w over d by simp
  ultimately have u: "unat (snd_cwnd q - (n - a)) = unat (snd_cwnd q) + (unat a - unat n)"
    unfolding eq using unat_add_lem [of "snd_cwnd q" "a - n"] by simp
  then have "unat (snd_cwnd q - (n - a)) < 2 ^ 31" using w over by simp
  then have "sint (snd_cwnd q - (n - a)) = int (unat (snd_cwnd q - (n - a)))"
    by (rule sint_eq_unat)
  then show ?thesis using u by (simp only: path_win_def nxt una of_nat_add)
qed

section \<open>The loop around sendto\<close>

text \<open>Once \<open>errno\<close> is ENOBUFS, calls that succeed do not end the loop.\<close>

lemma sendto_loop_stuck: "sendto_loop ENOBUFS (replicate n None) = None"
  by (induction n) simp_all

lemma sendto_loop_once: "errno \<noteq> ENOBUFS \<Longrightarrow> sendto_loop errno (None # rs) = Some 1"
  by simp

end
