(* ===== verification/CliConn.thy ===== *)
theory CliConn
  imports Delivery
begin

text \<open>
  Connection management of \<open>src/clictcp.c\<close>: \<open>create_clictcp_sock\<close>, \<open>connect_ctcp\<close>,
  \<open>read_ctcp\<close>, the thread \<open>handle_connection\<close>, \<open>remove_substream\<close>, \<open>send_flag\<close>,
  \<open>send_over\<close>, \<open>poll_flag\<close> and \<open>close_clictcp\<close>, around the decoder of \<open>Receiver\<close>.  The
  arrays indexed by a substream are one list of records, of the length \<open>substreams\<close>;
  \<open>Fault\<close> is an index outside it, or NULL followed.  What the outside decides (the result
  of \<open>poll\<close>, the packets read, the clock, whether a packet can be sent) is an argument.
  \<open>None\<close> is a loop for which the list of outcomes was too short.
\<close>

section \<open>State\<close>

datatype clipath = SYN_SENT | SYN_ACK_RECV | ESTABLISHED_c | FIN_SENT_c | FIN_ACK_RECV_c | FIN_RECV_c | FIN_ACK_SENT_c | CLOSING_c
datatype cli_status = ACTIVE_c | CLOSED_c
datatype cli_err = NONE_c | CLOSE_ERR_c | SRVHUP

definition MAX_SUBSTREAMS :: nat where "MAX_SUBSTREAMS = 5"
definition INIT_IDLE_TIME :: real where "INIT_IDLE_TIME = 0.5"
definition POLL_MAX_TRIES :: nat where "POLL_MAX_TRIES = 10"
definition IDLE_MAX_COUNT :: nat where "IDLE_MAX_COUNT = 7"
definition AF_INET :: nat where "AF_INET = 2"

record substream =
  u_ifc :: bool
  u_sockfd :: nat
  u_state :: clipath
  u_lastrcvt :: real
  u_idle_time :: real
  u_idle_count :: nat

record client =
  c_dec :: decoder
  c_subs :: "substream list"
  c_family :: nat
  c_status :: cli_status
  c_error :: cli_err
  c_pkts :: nat
  c_sent :: "(nat \<times> ack_pckt) list"

record cli_env =
  y_now :: real
  y_ts :: u64
  y_sent :: "nat \<Rightarrow> bool"
  y_malloc :: "skb_pool \<Rightarrow> addr option"

definition set_pool :: "skb_pool \<Rightarrow> client \<Rightarrow> client" where
  "set_pool p csk = csk\<lparr>c_dec := (c_dec csk)\<lparr>dc_pool := p\<rparr>\<rparr>"

definition set_sub :: "nat \<Rightarrow> (substream \<Rightarrow> substream) \<Rightarrow> client \<Rightarrow> client" where
  "set_sub i f csk = csk\<lparr>c_subs := (c_subs csk)[i := f (c_subs csk ! i)]\<rparr>"

definition set_all :: "clipath \<Rightarrow> client \<Rightarrow> client" where
  "set_all st csk = csk\<lparr>c_subs := map (\<lambda>p. p\<lparr>u_state := st\<rparr>) (c_subs csk)\<rparr>"

definition hang_up :: "client \<Rightarrow> client" where
  "hang_up csk = csk\<lparr>c_status := CLOSED_c, c_dec := (c_dec csk)\<lparr>dc_usr_cache := fifo_release (dc_usr_cache (c_dec csk))\<rparr>\<rparr>"

text \<open>
  A new socket.  \<open>ifcs\<close> tells for every lease whether an interface is bound and which
  descriptor it has; \<open>junk\<close> is what the path states and times hold before they are set.
\<close>

definition create_clictcp_sock :: "coded_block list \<Rightarrow> skb_pool \<Rightarrow> substream \<Rightarrow> (bool \<times> nat) list \<Rightarrow> nat \<Rightarrow> client" where
  "create_clictcp_sock raw pool junk ifcs family =
    \<lparr>c_dec = decoder_init raw pool,
     c_subs = map (\<lambda>(ifc, fd). junk\<lparr>u_ifc := ifc, u_sockfd := fd, u_idle_time := INIT_IDLE_TIME, u_idle_count := 0\<rparr>) ifcs,
     c_family = family, c_status = ACTIVE_c, c_error = NONE_c, c_pkts = 0, c_sent = []\<rparr>"

section \<open>Sending control packets\<close>

text \<open>A substream without interface sends on the socket of the first one.\<close>

definition send_over :: "cli_env \<Rightarrow> nat \<Rightarrow> ack_pckt \<Rightarrow> client \<Rightarrow> client \<times> bool" where
  "send_over ev i ack csk =
    (if \<not> u_ifc (c_subs csk ! i) then
       if y_sent ev i then (csk\<lparr>c_sent := c_sent csk @ [(u_sockfd (c_subs csk ! 0), ack)]\<rparr>, True) else (csk, False)
     else if c_family csk \<noteq> AF_INET then (csk, False)
     else if y_sent ev i then (csk\<lparr>c_sent := c_sent csk @ [(u_sockfd (c_subs csk ! i), ack)]\<rparr>, True)
     else (csk, False))"

definition cli_send_flag :: "cli_env \<Rightarrow> nat \<Rightarrow> flag \<Rightarrow> u64 \<Rightarrow> client \<Rightarrow> (client \<times> bool) outcome" where
  "cli_send_flag ev path_id fl ts csk =
    (case alloc_skb (y_malloc ev (dc_pool (c_dec csk))) (dc_pool (c_dec csk)) of
       (pool, None) \<Rightarrow> Fault
     | (pool, Some ackskb) \<Rightarrow>
         let ack = (ackPacket 0 0 0 ts)\<lparr>a_flag := flag_code fl\<rparr>;
             (csk', ok) = send_over ev path_id ack csk
         in Done (set_pool (free_skb ackskb pool) csk', ok))"

text \<open>
  The loops that send a flag on a list of substreams; \<open>f\<close> is what happens to a substream,
  always or only when the packet could be sent.
\<close>

fun cli_send_flags :: "cli_env \<Rightarrow> flag \<Rightarrow> u64 \<Rightarrow> bool \<Rightarrow> (substream \<Rightarrow> substream) \<Rightarrow> nat list \<Rightarrow> client \<Rightarrow> client outcome" where
  "cli_send_flags ev fl ts always f [] csk = Done csk"
| "cli_send_flags ev fl ts always f (i # is) csk =
    obind (cli_send_flag ev i fl ts csk) (\<lambda>(csk, ok).
      cli_send_flags ev fl ts always f is (if always \<or> ok then set_sub i f csk else csk))"

definition remove_substream :: "nat \<Rightarrow> client \<Rightarrow> client" where
  "remove_substream pin csk =
    (if u_state (c_subs csk ! pin) \<noteq> CLOSING_c then csk
     else csk\<lparr>c_subs := take pin (c_subs csk) @ drop (Suc pin) (c_subs csk)\<rparr>)"

definition lose_substream :: "nat \<Rightarrow> client \<Rightarrow> client" where
  "lose_substream i csk = remove_substream i (set_sub i (\<lambda>p. p\<lparr>u_state := CLOSING_c\<rparr>) csk)"

section \<open>poll_flag\<close>

text \<open>What the loop finds at one substream.\<close>

datatype visit = NotReady | RecvError | RecvEmpty | Recvd data_pckt

datatype poll = PollFails | PollTimeout | PollReady "visit list"

definition note_packet :: "data_pckt \<Rightarrow> client \<Rightarrow> client" where
  "note_packet m csk = csk\<lparr>c_dec := note_index m (c_dec csk)\<rparr>"

text \<open>
  The result is the new state, the returned number, the flag and the time stamp the two
  pointers then refer to.
\<close>

fun poll_scan :: "u32 \<Rightarrow> u64 \<Rightarrow> nat \<Rightarrow> visit list \<Rightarrow> client \<Rightarrow> client \<times> int \<times> u32 \<times> u64" where
  "poll_scan fl ts cur [] csk = (csk, -1, fl, ts)"
| "poll_scan fl ts cur (v # vs) csk =
    (if cur < length (c_subs csk) then
       (case v of
          NotReady \<Rightarrow> poll_scan fl ts (cur + 1) vs csk
        | RecvError \<Rightarrow> (lose_substream cur csk, -1, fl, ts)
        | RecvEmpty \<Rightarrow> (csk, -1, fl, ts)
        | Recvd m \<Rightarrow>
            if d_flag m = fl then (note_packet m csk, int cur, fl, d_tstamp m)
            else (note_packet m csk, -2, d_flag m, ts))
     else (csk, -1, fl, ts))"

definition poll_flag :: "u32 \<Rightarrow> u64 \<Rightarrow> poll \<Rightarrow> client \<Rightarrow> client \<times> int \<times> u32 \<times> u64" where
  "poll_flag fl ts p csk = (case p of PollReady vs \<Rightarrow> poll_scan fl ts 0 vs csk | _ \<Rightarrow> (csk, -1, fl, ts))"

section \<open>connect\<close>

fun connect_loop :: "cli_env \<Rightarrow> nat \<Rightarrow> int \<Rightarrow> u64 \<Rightarrow> client \<Rightarrow> poll list \<Rightarrow> (client \<times> nat \<times> int \<times> u64) option outcome" where
  "connect_loop ev rv path_ix ts csk [] = Done None"
| "connect_loop ev rv path_ix ts csk (p # ps) =
    obind (if path_ix = -1
           then obind (cli_send_flags ev SYN (y_ts ev) False (\<lambda>q. q\<lparr>u_state := SYN_SENT, u_lastrcvt := y_now ev\<rparr>)
                         [0..<length (c_subs csk)] csk) (\<lambda>csk. Done (csk, 1))
           else Done (csk, rv)) (\<lambda>(csk, rv).
      (case poll_flag (flag_code SYN_ACK) ts p csk of
         (csk, path_ix, fl, ts) \<Rightarrow>
           if path_ix < 0 \<and> rv < POLL_MAX_TRIES then connect_loop ev rv path_ix ts csk ps
           else Done (Some (csk, rv, path_ix, ts))))"

text \<open>The flag is whether a socket, and not NULL, is returned.\<close>

definition connect_ctcp :: "cli_env \<Rightarrow> client \<Rightarrow> poll list \<Rightarrow> (client \<times> bool) option outcome" where
  "connect_ctcp ev csk ps =
    obind (connect_loop ev 0 (-1) 0 csk ps) (\<lambda>r.
      (case r of
         None \<Rightarrow> Done None
       | Some (csk, rv, path_ix, ts) \<Rightarrow>
           if POLL_MAX_TRIES \<le> rv then Done (Some (csk, False))
           else
             let i = nat path_ix;
                 csk = set_sub i (\<lambda>q. q\<lparr>u_state := SYN_ACK_RECV, u_lastrcvt := y_now ev\<rparr>) csk
             in obind (cli_send_flag ev i NORMAL ts csk) (\<lambda>(csk, ok).
                  Done (Some (if ok then set_sub i (\<lambda>q. q\<lparr>u_state := ESTABLISHED_c\<rparr>) csk else csk, True)))))"

section \<open>read\<close>

text \<open>\<open>None\<close>: the thread waits for data.  The bytes read are absent where the code returns -1.\<close>

definition read_ctcp :: "client \<Rightarrow> int \<Rightarrow> (client \<times> bytes option) option" where
  "read_ctcp csk count =
    (if c_status csk \<noteq> ACTIVE_c then Some (csk\<lparr>c_error := SRVHUP\<rparr>, None)
     else case fifo_pop (dc_usr_cache (c_dec csk)) count of
       None \<Rightarrow> None
     | Some (Q, buf) \<Rightarrow>
         let csk = csk\<lparr>c_dec := (c_dec csk)\<lparr>dc_usr_cache := Q\<rparr>\<rparr> in
         if buf = [] then Some (csk\<lparr>c_error := SRVHUP\<rparr>, None) else Some (csk, Some buf))"

section \<open>A packet at the client\<close>

text \<open>
  The answer to a FIN: \<open>poll_rv\<close> is the result of the last poll, and only after -1 the
  FIN-ACKs are sent again.
\<close>

fun cli_fin_loop :: "cli_env \<Rightarrow> u64 \<Rightarrow> nat \<Rightarrow> int \<Rightarrow> client \<Rightarrow> poll list \<Rightarrow> (client \<times> nat) option outcome" where
  "cli_fin_loop ev ts tries poll_rv csk [] = Done None"
| "cli_fin_loop ev ts tries poll_rv csk (p # ps) =
    obind (if poll_rv = -1
           then obind (cli_send_flags ev FIN_ACK ts True (\<lambda>q. q\<lparr>u_state := FIN_ACK_SENT_c\<rparr>) [0..<length (c_subs csk)] csk)
                  (\<lambda>csk. Done (csk, tries + 1))
           else Done (csk, tries)) (\<lambda>(csk, tries).
      (case poll_flag (flag_code FIN_ACK) ts p csk of
         (csk, poll_rv, fl, ts') \<Rightarrow>
           if poll_rv < 0 \<and> tries < POLL_MAX_TRIES then cli_fin_loop ev ts tries poll_rv csk ps
           else Done (Some (csk, tries))))"

definition cli_fin :: "cli_env \<Rightarrow> nat \<Rightarrow> u64 \<Rightarrow> poll list \<Rightarrow> client \<Rightarrow> client option outcome" where
  "cli_fin ev i ts ps csk =
    obind (cli_fin_loop ev ts 0 (-1) (set_sub i (\<lambda>q. q\<lparr>u_state := FIN_RECV_c\<rparr>) csk) ps) (\<lambda>r.
      Done (map_option (\<lambda>(csk, tries).
        hang_up (if POLL_MAX_TRIES \<le> tries then csk else set_all CLOSING_c csk)) r))"

definition cli_fin_ack :: "cli_env \<Rightarrow> nat \<Rightarrow> u64 \<Rightarrow> client \<Rightarrow> client outcome" where
  "cli_fin_ack ev i ts csk =
    (if u_state (c_subs csk ! i) = FIN_SENT_c \<or> u_state (c_subs csk ! i) = FIN_ACK_RECV_c then
       let csk = set_sub i (\<lambda>q. q\<lparr>u_state := FIN_ACK_RECV_c\<rparr>) csk in
       obind (cli_send_flags ev FIN_ACK ts True (\<lambda>q. q\<lparr>u_state := CLOSING_c\<rparr>) [0..<length (c_subs csk)] csk)
         (\<lambda>csk. Done (hang_up csk))
     else Done csk)"

definition cli_syn_ack :: "cli_env \<Rightarrow> nat \<Rightarrow> u64 \<Rightarrow> client \<Rightarrow> client outcome" where
  "cli_syn_ack ev i ts csk =
    (if u_state (c_subs csk ! i) = SYN_SENT \<or> u_state (c_subs csk ! i) = SYN_ACK_RECV \<or>
        u_state (c_subs csk ! i) = ESTABLISHED_c then
       obind (cli_send_flag ev i NORMAL ts csk) (\<lambda>(csk, ok).
         Done (if ok then set_sub i (\<lambda>q. q\<lparr>u_state := ESTABLISHED_c\<rparr>) csk else csk))
     else Done csk)"

text \<open>
  \<open>bldack\<close> and the sending of its acknowledgement; \<open>ack_ts\<close> is the time stamp it computes.
\<close>

definition cli_decode :: "cli_env \<Rightarrow> bytes \<Rightarrow> u64 \<Rightarrow> nat \<Rightarrow> addr \<Rightarrow> data_pckt \<Rightarrow> client \<Rightarrow> client outcome" where
  "cli_decode ev stack ack_ts i skb msg csk =
    obind (bldack (y_malloc ev) stack ack_ts skb msg (c_dec csk)) (\<lambda>(d, ack).
      Done (fst (send_over ev i ack (csk\<lparr>c_dec := d\<rparr>))))"

definition cli_data :: "cli_env \<Rightarrow> bytes \<Rightarrow> u64 \<Rightarrow> nat \<Rightarrow> addr \<Rightarrow> data_pckt \<Rightarrow> client \<Rightarrow> client outcome" where
  "cli_data ev stack ack_ts i skb msg csk =
    (if u_state (c_subs csk ! i) = ESTABLISHED_c then cli_decode ev stack ack_ts i skb msg csk
     else if u_state (c_subs csk ! i) = SYN_ACK_RECV \<or> u_state (c_subs csk ! i) = SYN_SENT then
       cli_decode ev stack ack_ts i skb msg (set_sub i (\<lambda>q. q\<lparr>u_state := ESTABLISHED_c\<rparr>) csk)
     else Done csk)"

text \<open>
  The \<open>switch\<close> over the flag; the second component tells that \<open>ready\<close> was set to 0.
\<close>

definition cli_packet :: "cli_env \<Rightarrow> bytes \<Rightarrow> u64 \<Rightarrow> nat \<Rightarrow> addr \<Rightarrow> data_pckt \<Rightarrow> poll list \<Rightarrow> client \<Rightarrow> (client \<times> bool) option outcome" where
  "cli_packet ev stack ack_ts i skb msg ps csk =
    (let plain = (\<lambda>r. obind r (\<lambda>csk. Done (Some (csk, False)))) in
     if d_flag msg = flag_code FIN then
       obind (cli_fin ev i (d_tstamp msg) ps csk) (\<lambda>r. Done (map_option (\<lambda>csk. (csk, True)) r))
     else if d_flag msg = flag_code FIN_ACK then plain (cli_fin_ack ev i (d_tstamp msg) csk)
     else if d_flag msg = flag_code SYN_ACK then plain (cli_syn_ack ev i (d_tstamp msg) csk)
     else if d_flag msg = flag_code SYN then plain (Done csk)
     else plain (cli_data ev stack ack_ts i skb msg csk))"

section \<open>handle_connection\<close>

text \<open>
  One turn of the inner loop at substream \<open>i\<close>: a buffer is taken from the pool; without one
  the read fails.
\<close>

record cli_visit =
  i_env :: cli_env
  i_stack :: bytes
  i_ack_ts :: u64
  i_rcvt :: real
  i_visit :: visit
  i_polls :: "poll list"

datatype visit_end = Skipped | Handled bool | Lost | Stopped

definition client_visit :: "cli_visit \<Rightarrow> nat \<Rightarrow> client \<Rightarrow> (client \<times> visit_end) option outcome" where
  "client_visit x i csk =
    (case alloc_skb (y_malloc (i_env x) (dc_pool (c_dec csk))) (dc_pool (c_dec csk)) of
       (pool, skb) \<Rightarrow>
         let csk = set_pool pool csk in
         (case (i_visit x, skb) of
            (NotReady, _) \<Rightarrow> Done (Some (csk, Skipped))
          | (Recvd msg, Some a) \<Rightarrow>
              let csk = (set_sub i (\<lambda>q. q\<lparr>u_lastrcvt := i_rcvt x, u_idle_time := INIT_IDLE_TIME, u_idle_count := 0\<rparr>) csk)
                          \<lparr>c_pkts := c_pkts csk + 1\<rparr>
              in obind (cli_packet (i_env x) (i_stack x) (i_ack_ts x) i a msg (i_polls x) (note_packet msg csk)) (\<lambda>r.
                   Done (map_option (\<lambda>(csk, z). (csk, Handled z)) r))
          | (RecvEmpty, Some a) \<Rightarrow> Done (Some (csk, Stopped))
          | _ \<Rightarrow> Done (Some (lose_substream i csk, Lost))))"

text \<open>
  The inner loop: \<open>cur\<close> is \<open>curr_substream\<close>, \<open>ready\<close> the result of \<open>poll\<close>.  After an
  error \<open>cur\<close> is one less, and the next access is at -1 if it was the first substream.
\<close>

fun read_loop :: "int \<Rightarrow> int \<Rightarrow> client \<Rightarrow> cli_visit list \<Rightarrow> (client \<times> int) option outcome" where
  "read_loop cur ready csk [] = Done None"
| "read_loop cur ready csk (x # xs) =
    (if cur < 0 \<or> int (length (c_subs csk)) \<le> cur then Fault
     else obind (client_visit x (nat cur) csk) (\<lambda>r.
       (case r of
          None \<Rightarrow> Done None
        | Some (csk, Lost) \<Rightarrow> Done (Some (csk, cur - 1))
        | Some (csk, Stopped) \<Rightarrow> Done (Some (csk, cur))
        | Some (csk, e) \<Rightarrow>
            let ready = (case e of Skipped \<Rightarrow> ready | Handled z \<Rightarrow> (if z then 0 else ready) - 1);
                cur = (if cur + 1 = int (length (c_subs csk)) then 0 else cur + 1)
            in if 0 < ready then read_loop cur ready csk xs else Done (Some (csk, cur)))))"

section \<open>Idle substreams\<close>

text \<open>What is sent again; the flag tells that the substream was removed.\<close>

definition idle_send :: "cli_env \<Rightarrow> nat \<Rightarrow> client \<Rightarrow> (client \<times> bool) outcome" where
  "idle_send ev k csk =
    (let again = (\<lambda>fl. obind (cli_send_flag ev k fl (y_ts ev) csk) (\<lambda>(csk, ok). Done (csk, False))) in
     case u_state (c_subs csk ! k) of
       SYN_SENT \<Rightarrow> again SYN
     | SYN_ACK_RECV \<Rightarrow> again NORMAL
     | FIN_SENT_c \<Rightarrow> again FIN
     | FIN_RECV_c \<Rightarrow> again FIN_ACK
     | FIN_ACK_SENT_c \<Rightarrow> again FIN_ACK
     | FIN_ACK_RECV_c \<Rightarrow>
         obind (cli_send_flag ev k FIN_ACK (y_ts ev) csk) (\<lambda>(csk, ok). Done (lose_substream k csk, True))
     | _ \<Rightarrow> Done (csk, False))"

definition idle_bump :: "cli_env \<Rightarrow> nat \<Rightarrow> client \<Rightarrow> client outcome" where
  "idle_bump ev k csk =
    (let csk = set_sub k (\<lambda>p. p\<lparr>u_idle_time := 2 * u_idle_time p, u_idle_count := u_idle_count p + 1\<rparr>) csk;
         p = c_subs csk ! k
     in if IDLE_MAX_COUNT \<le> u_idle_count p then
          if u_state p = SYN_ACK_RECV \<or> u_state p = ESTABLISHED_c then
            obind (cli_send_flag ev k FIN (y_ts ev) csk) (\<lambda>(csk, ok).
              Done (set_sub k (\<lambda>p. p\<lparr>u_state := FIN_SENT_c\<rparr>) csk))
          else Done (lose_substream k csk)
        else Done csk)"

lemma obind_cong [fundef_cong]:
  assumes "x = y" "\<And>z. y = Done z \<Longrightarrow> f z = g z"
  shows "obind x f = obind y g"
  using assms by (cases y) simp_all

lemma send_over_fields [simp]:
  "c_subs (fst (send_over ev i a csk)) = c_subs csk" "c_dec (fst (send_over ev i a csk)) = c_dec csk"
  "c_status (fst (send_over ev i a csk)) = c_status csk" "c_error (fst (send_over ev i a csk)) = c_error csk"
  by (simp_all add: send_over_def)

text \<open>A control packet changes the log and the pool only.\<close>

lemma cli_send_flag_frame:
  assumes "cli_send_flag ev i fl ts csk = Done (csk', ok)"
  shows "c_subs csk' = c_subs csk" "c_status csk' = c_status csk" "c_error csk' = c_error csk"
    and "\<exists>p. c_dec csk' = (c_dec csk)\<lparr>dc_pool := p\<rparr>"
proof -
  obtain pool a where "alloc_skb (y_malloc ev (dc_pool (c_dec csk))) (dc_pool (c_dec csk)) = (pool, Some a)"
    and r: "csk' = set_pool (free_skb a pool) (fst (send_over ev i ((ackPacket 0 0 0 ts)\<lparr>a_flag := flag_code fl\<rparr>) csk))"
    using assms by (auto simp: cli_send_flag_def Let_def split: prod.splits option.splits)
  show "c_subs csk' = c_subs csk" "c_status csk' = c_status csk" "c_error csk' = c_error csk"
    "\<exists>p. c_dec csk' = (c_dec csk)\<lparr>dc_pool := p\<rparr>"
    by (auto simp: r set_pool_def)
qed

lemma set_sub_fields [simp]: "length (c_subs (set_sub i f csk)) = length (c_subs csk)"
  "c_dec (set_sub i f csk) = c_dec csk" "c_status (set_sub i f csk) = c_status csk" "c_error (set_sub i f csk) = c_error csk"
  by (simp_all add: set_sub_def)

lemma lose_substream_length: "k < length (c_subs csk) \<Longrightarrow> length (c_subs (lose_substream k csk)) = length (c_subs csk) - 1"
  by (simp add: lose_substream_def remove_substream_def set_sub_def min_def)

lemma lose_substream_le: "length (c_subs (lose_substream k csk)) \<le> length (c_subs csk)"
  by (simp add: lose_substream_def remove_substream_def set_sub_def min_def)

lemma lose_substream_fields [simp]: "c_dec (lose_substream k csk) = c_dec csk"
  "c_status (lose_substream k csk) = c_status csk"
  by (simp_all add: lose_substream_def remove_substream_def set_sub_def)

lemma idle_send_length:
  "idle_send ev k csk = Done (csk', rm) \<Longrightarrow> k < length (c_subs csk) \<Longrightarrow>
    length (c_subs csk') = length (c_subs csk) - (if rm then 1 else 0)"
  by (auto simp: idle_send_def obind_Done lose_substream_length dest: cli_send_flag_frame(1) split: clipath.splits)

lemma idle_bump_length: "idle_bump ev k csk = Done csk' \<Longrightarrow> length (c_subs csk') \<le> length (c_subs csk)"
  using lose_substream_le [of k "set_sub k f csk" for f]
  by (auto simp: idle_bump_def Let_def obind_Done dest!: cli_send_flag_frame(1) split: if_splits)

text \<open>
  The loop over the substreams.  When a substream was removed \<open>k\<close> is decremented, and the
  idle time of the one before it is doubled: an access at -1 if it was the first.  At the
  end of the turn \<open>k\<close> is incremented, also if the substream has gone.
\<close>

function idle_loop :: "cli_env \<Rightarrow> nat \<Rightarrow> client \<Rightarrow> client outcome" where
  "idle_loop ev k csk =
    (if k < length (c_subs csk) then
       let p = c_subs csk ! k in
       if y_now ev - u_lastrcvt p \<le> u_idle_time p \<or> u_state p = ESTABLISHED_c then idle_loop ev (k + 1) csk
       else obind (idle_send ev k csk) (\<lambda>(csk', removed).
         if removed \<and> k = 0 then Fault
         else obind (idle_bump ev (if removed then k - 1 else k) csk') (\<lambda>csk''.
           idle_loop ev (if removed then k else k + 1) csk''))
     else Done csk)"
  by pat_completeness auto
termination
proof (relation "measure (\<lambda>(ev, k, csk). length (c_subs csk) - k)", goal_cases)
  case (3 ev k csk x z csk' removed w)
  then have "length (c_subs csk') = length (c_subs csk) - (if removed then 1 else 0)" "length (c_subs w) \<le> length (c_subs csk')"
    using idle_send_length idle_bump_length by blast+
  with 3 show ?case by (auto split: if_splits)
qed auto

declare idle_loop.simps [simp del]

section \<open>Turns of the thread\<close>

text \<open>The result of \<open>poll\<close>: an error, and whether it is an interrupt; or the number of ready sockets.\<close>

datatype poll_res = PollErr bool | PollNone | PollSome int

definition cli_turn :: "cli_env \<Rightarrow> poll_res \<Rightarrow> cli_visit list \<Rightarrow> int \<Rightarrow> client \<Rightarrow> (client \<times> int) option outcome" where
  "cli_turn ev pr xs cur csk =
    (if pr = PollErr True \<and> c_status csk = CLOSED_c then Done (Some (csk, cur))
     else obind (case pr of PollSome n \<Rightarrow> read_loop cur n csk xs | _ \<Rightarrow> Done (Some (csk, cur))) (\<lambda>r.
       (case r of
          None \<Rightarrow> Done None
        | Some (csk, cur) \<Rightarrow>
            obind (if c_status csk \<noteq> CLOSED_c then idle_loop ev 0 csk else Done csk) (\<lambda>csk.
              Done (Some (if c_subs csk = [] then hang_up csk else csk, cur))))))"

fun handle_connection :: "(cli_env \<times> poll_res \<times> cli_visit list) list \<Rightarrow> int \<Rightarrow> client \<Rightarrow> (client \<times> int) option outcome" where
  "handle_connection [] cur csk = Done None"
| "handle_connection ((ev, pr, xs) # ts) cur csk =
    obind (cli_turn ev pr xs cur csk) (\<lambda>r.
      (case r of
         None \<Rightarrow> Done None
       | Some (csk, cur) \<Rightarrow>
           if c_status csk = ACTIVE_c then handle_connection ts cur csk else Done (Some (csk, cur))))"

section \<open>close\<close>

text \<open>
  The exchange of FINs: \<open>index\<close> and \<open>fl\<close> are what the last poll returned.
\<close>

fun cli_close_loop :: "cli_env \<Rightarrow> nat \<Rightarrow> int \<Rightarrow> u32 \<Rightarrow> u64 \<Rightarrow> client \<Rightarrow> poll list \<Rightarrow> (client \<times> nat \<times> int \<times> u64) option outcome" where
  "cli_close_loop ev tries index fl ts csk [] = Done None"
| "cli_close_loop ev tries index fl ts csk (p # ps) =
    (let all = [0..<length (c_subs csk)] in
     obind (if index = -1 then
              obind (cli_send_flags ev FIN (y_ts ev) False (\<lambda>q. q\<lparr>u_state := FIN_SENT_c\<rparr>) all csk) (\<lambda>csk. Done (csk, tries + 1))
            else if index = -2 \<and> fl = flag_code FIN then
              obind (cli_send_flags ev FIN_ACK ts False (\<lambda>q. q\<lparr>u_state := CLOSING_c\<rparr>) all csk) (\<lambda>csk. Done (csk, tries))
            else Done (csk, tries)) (\<lambda>(csk, tries).
       (case poll_flag (flag_code FIN_ACK) ts p csk of
          (csk, index, fl, ts) \<Rightarrow>
            if index < 0 \<and> tries < POLL_MAX_TRIES then cli_close_loop ev tries index fl ts csk ps
            else Done (Some (csk, tries, index, ts)))))"

text \<open>
  \<open>close_clictcp\<close> up to the release of its memory; \<open>joined\<close> is what the socket has become
  when its thread has ended.
\<close>

definition close_clictcp :: "cli_env \<Rightarrow> (client \<Rightarrow> client) \<Rightarrow> poll list \<Rightarrow> client \<Rightarrow> client option outcome" where
  "close_clictcp ev joined ps csk =
    (let old = c_status csk; csk = joined (hang_up csk) in
     if old \<noteq> CLOSED_c then
       obind (cli_close_loop ev 0 (-1) 0 (y_ts ev) csk ps) (\<lambda>r.
         (case r of
            None \<Rightarrow> Done None
          | Some (csk, tries, index, ts) \<Rightarrow>
              obind (if POLL_MAX_TRIES \<le> tries then Done (csk\<lparr>c_error := CLOSE_ERR_c\<rparr>)
                     else if u_state (c_subs csk ! nat index) \<noteq> CLOSING_c then
                       cli_send_flags ev FIN_ACK ts False (\<lambda>q. q\<lparr>u_state := CLOSING_c\<rparr>) [0..<length (c_subs csk)]
                         (set_sub (nat index) (\<lambda>q. q\<lparr>u_state := FIN_ACK_RECV_c\<rparr>) csk)
                     else Done csk) (\<lambda>csk. Done (Some (csk\<lparr>c_status := CLOSED_c\<rparr>)))))
     else Done (Some csk))"

section \<open>The data path through the connection management\<close>

text \<open>
  What may be read on a substream: a control packet as the server's \<open>send_flag\<close> makes
  them, or a packet of data that the decoder accepts.
\<close>

definition sound_packet :: "(nat \<Rightarrow> nat \<Rightarrow> nat \<Rightarrow> u8) \<Rightarrow> nat \<Rightarrow> decoder \<Rightarrow> data_pckt \<Rightarrow> bool" where
  "sound_packet Ps L d m \<longleftrightarrow>
    (if is_control m then d_start_packet m = 0 \<and> d_num_packets m = 0 else accepts Ps L d m)"

definition sound_visit :: "(nat \<Rightarrow> nat \<Rightarrow> nat \<Rightarrow> u8) \<Rightarrow> nat \<Rightarrow> decoder \<Rightarrow> cli_visit \<Rightarrow> bool" where
  "sound_visit Ps L d x \<longleftrightarrow> length (i_stack x) = BLOCK_SIZE \<and> (\<forall>p. y_malloc (i_env x) p \<noteq> None) \<and>
    unat (dc_curr_block d) + 2 * NUM_BLOCKS < 2 ^ 31 \<and>
    (case i_visit x of Recvd m \<Rightarrow> sound_packet Ps L d m | _ \<Rightarrow> True)"

text \<open>
  Runs of the client: packets and read errors on any substream, idle substreams, reads by
  the application, in any order, as long as the connection is active.
\<close>

inductive cli_run :: "(nat \<Rightarrow> nat \<Rightarrow> nat \<Rightarrow> u8) \<Rightarrow> nat \<Rightarrow> coded_block list \<Rightarrow> client \<Rightarrow> bytes \<Rightarrow> bool"
  for Ps L raw where
  cr_start: "c_dec csk = decoder_init raw pool \<Longrightarrow> cli_run Ps L raw csk []"
| cr_visit: "cli_run Ps L raw csk outs \<Longrightarrow> c_status csk = ACTIVE_c \<Longrightarrow> i < length (c_subs csk) \<Longrightarrow>
    sound_visit Ps L (c_dec csk) x \<Longrightarrow> client_visit x i csk = Done (Some (csk', e)) \<Longrightarrow> cli_run Ps L raw csk' outs"
| cr_idle: "cli_run Ps L raw csk outs \<Longrightarrow> c_status csk = ACTIVE_c \<Longrightarrow> idle_loop ev 0 csk = Done csk' \<Longrightarrow>
    cli_run Ps L raw csk' outs"
| cr_none: "cli_run Ps L raw csk outs \<Longrightarrow> c_subs csk = [] \<Longrightarrow> cli_run Ps L raw (hang_up csk) outs"
| cr_read: "cli_run Ps L raw csk outs \<Longrightarrow> 0 \<le> n \<Longrightarrow> read_ctcp csk n = Some (csk', r) \<Longrightarrow>
    cli_run Ps L raw csk' (outs @ (case r of None \<Rightarrow> [] | Some buf \<Rightarrow> buf))"

text \<open>What the control operations do to the decoder: its pool changes, no more.\<close>

definition dec_same :: "client \<Rightarrow> client \<Rightarrow> bool" where
  "dec_same csk csk' \<longleftrightarrow> c_status csk' = c_status csk \<and> (\<exists>p. c_dec csk' = (c_dec csk)\<lparr>dc_pool := p\<rparr>)"

lemma dec_same_refl [simp]: "dec_same csk csk"
  by (simp add: dec_same_def) (metis decoder.surjective decoder.update_convs(4) old.unit.exhaust)

lemma dec_same_trans: "dec_same a b \<Longrightarrow> dec_same b c \<Longrightarrow> dec_same a c"
  by (auto simp: dec_same_def)

lemma dec_same_sub [simp]: "dec_same csk (set_sub i f csk')  \<longleftrightarrow> dec_same csk csk'"
  "dec_same csk (lose_substream i csk') \<longleftrightarrow> dec_same csk csk'"
  by (simp_all add: dec_same_def)

lemma dec_same_send: "cli_send_flag ev i fl ts csk = Done (csk', ok) \<Longrightarrow> dec_same csk csk'"
  using cli_send_flag_frame [of ev i fl ts csk csk' ok] by (simp add: dec_same_def)

lemma dec_same_sends: "cli_send_flags ev fl ts al f is csk = Done csk' \<Longrightarrow> dec_same csk csk'"
proof (induction "is" arbitrary: csk)
  case (Cons i js)
  then obtain csk1 ok where s: "cli_send_flag ev i fl ts csk = Done (csk1, ok)"
    and r: "cli_send_flags ev fl ts al f js (if al \<or> ok then set_sub i f csk1 else csk1) = Done csk'"
    by (auto simp: obind_Done)
  from Cons.IH [OF r] have "dec_same csk1 csk'" by (auto simp: dec_same_def split: if_splits)
  with dec_same_send [OF s] show ?case by (rule dec_same_trans)
qed simp

lemma dec_same_idle_send: "idle_send ev k csk = Done (csk', rm) \<Longrightarrow> dec_same csk csk'"
  by (auto simp: idle_send_def obind_Done dest: dec_same_send split: clipath.splits)

lemma dec_same_idle_bump: "idle_bump ev k csk = Done csk' \<Longrightarrow> dec_same csk csk'"
  by (auto simp: idle_bump_def Let_def obind_Done dest!: dec_same_send split: if_splits) (simp_all add: dec_same_def)

lemma dec_same_idle: "idle_loop ev k csk = Done csk' \<Longrightarrow> dec_same csk csk'"
proof (induction ev k csk rule: idle_loop.induct)
  case (1 ev k csk)
  let ?p = "c_subs csk ! k"
  show ?case
  proof (cases "k < length (c_subs csk) \<and> \<not> (y_now ev - u_lastrcvt ?p \<le> u_idle_time ?p \<or> u_state ?p = ESTABLISHED_c)")
    case False
    then show ?thesis
      using 1(1) 1(3) by (cases "k < length (c_subs csk)") (auto simp: idle_loop.simps [of ev k csk] Let_def)
  next
    case True
    then obtain csk1 rm csk2 where s: "idle_send ev k csk = Done (csk1, rm)" "\<not> (rm \<and> k = 0)"
      "idle_bump ev (if rm then k - 1 else k) csk1 = Done csk2" "idle_loop ev (if rm then k else k + 1) csk2 = Done csk'"
      using 1(3) by (auto simp: idle_loop.simps [of ev k csk] Let_def obind_Done split: if_splits)
    from 1(2) [OF _ refl _ s(1) refl s(2,3,4)] True have "dec_same csk2 csk'" by simp
    with dec_same_idle_send [OF s(1)] dec_same_idle_bump [OF s(3)] dec_same_trans show ?thesis by blast
  qed
qed

lemma note_index_control:
  assumes "d_start_packet m = 0" "d_num_packets m = 0"
  shows "note_index m d = d"
  using assms by (simp add: note_index_def Let_def)

lemma dec_same_run: "dec_same csk csk' \<Longrightarrow> dec_run Ps L raw (c_dec csk) outs \<Longrightarrow> dec_run Ps L raw (c_dec csk') outs"
  by (auto simp: dec_same_def intro: dec_pool)

lemma cli_data_run:
  assumes "cli_data ev stack ts i a m csk = Done csk'" "c_dec csk = note_index m d" "dec_run Ps L raw d outs"
    "accepts Ps L d m" "length stack = BLOCK_SIZE" "\<And>p. y_malloc ev p \<noteq> None"
    "unat (dc_curr_block d) + 2 * NUM_BLOCKS < 2 ^ 31"
  shows "dec_run Ps L raw (c_dec csk') outs"
proof -
  have dec: "dec_run Ps L raw (c_dec csk') outs" if "cli_decode ev stack ts i a m csk1 = Done csk'" "c_dec csk1 = c_dec csk" for csk1
  proof -
    obtain d' ack where "bldack (y_malloc ev) stack ts a m (note_index m d) = Done (d', ack)" "c_dec csk' = d'"
      using \<open>cli_decode ev stack ts i a m csk1 = Done csk'\<close> \<open>c_dec csk1 = c_dec csk\<close> assms(2)
      by (auto simp: cli_decode_def obind_Done)
    then show ?thesis using dec_recv [OF assms(3-5) assms(7,6)] by simp
  qed
  have "dec_run Ps L raw (c_dec csk) outs" using dec_note [OF assms(3,4)] assms(2) by simp
  then show ?thesis
    using assms(1) dec [of csk] dec [of "set_sub i (\<lambda>q. q\<lparr>u_state := ESTABLISHED_c\<rparr>) csk"]
    by (auto simp: cli_data_def split: if_splits)
qed

lemma hang_up_status [simp]: "c_status (hang_up csk) = CLOSED_c"
  by (simp add: hang_up_def)

lemma cli_packet_run:
  assumes pk: "cli_packet ev stack ts i a m ps csk = Done (Some (csk', z))" and st: "c_status csk' = ACTIVE_c"
    and d: "c_dec csk = note_index m d" and run: "dec_run Ps L raw d outs" and sound: "sound_packet Ps L d m"
    and rest: "length stack = BLOCK_SIZE" "\<And>p. y_malloc ev p \<noteq> None" "unat (dc_curr_block d) + 2 * NUM_BLOCKS < 2 ^ 31"
  shows "dec_run Ps L raw (c_dec csk') outs"
proof (cases "is_control m")
  case False
  then have "cli_data ev stack ts i a m csk = Done csk'"
    using pk by (auto simp: cli_packet_def is_control_def Let_def obind_Done)
  from cli_data_run [OF this d run _ rest(1,2,3)] sound False show ?thesis by (simp add: sound_packet_def)
next
  case True
  then have same: "c_dec csk = d" using sound d note_index_control by (simp add: sound_packet_def)
  have "dec_same csk csk'"
  proof -
    have "d_flag m \<noteq> flag_code FIN"
      using pk st by (auto simp: cli_packet_def Let_def obind_Done cli_fin_def)
    then consider "cli_fin_ack ev i (d_tstamp m) csk = Done csk'" | "cli_syn_ack ev i (d_tstamp m) csk = Done csk'" | "csk' = csk"
      using pk True by (auto simp: cli_packet_def is_control_def Let_def obind_Done split: if_splits)
    then show ?thesis
      by cases (use st in \<open>auto simp: cli_fin_ack_def cli_syn_ack_def obind_Done Let_def dest!: dec_same_send split: if_splits\<close>)
  qed
  from dec_same_run [OF this] same run show ?thesis by simp
qed

lemma client_visit_run:
  assumes v: "client_visit x i csk = Done (Some (csk', e))" and st: "c_status csk' = ACTIVE_c"
    and run: "dec_run Ps L raw (c_dec csk) outs" and sound: "sound_visit Ps L (c_dec csk) x"
  shows "dec_run Ps L raw (c_dec csk') outs"
proof -
  obtain pool skb where al: "alloc_skb (y_malloc (i_env x) (dc_pool (c_dec csk))) (dc_pool (c_dec csk)) = (pool, skb)"
    by fastforce
  let ?d = "(c_dec csk)\<lparr>dc_pool := pool\<rparr>"
  have d: "dec_run Ps L raw ?d outs" by (rule dec_pool [OF run])
  show ?thesis
  proof (cases "\<exists>m a. i_visit x = Recvd m \<and> skb = Some a")
    case False
    then have "c_dec csk' = ?d"
      using v al by (auto simp: client_visit_def Let_def set_pool_def split: visit.splits option.splits)
    with d show ?thesis by simp
  next
    case True
    then obtain m a where m: "i_visit x = Recvd m" "skb = Some a" by blast
    define csk1 where "csk1 = note_packet m ((set_sub i (\<lambda>q. q\<lparr>u_lastrcvt := i_rcvt x, u_idle_time := INIT_IDLE_TIME, u_idle_count := 0\<rparr>)
      (set_pool pool csk))\<lparr>c_pkts := c_pkts csk + 1\<rparr>)"
    obtain z where "cli_packet (i_env x) (i_stack x) (i_ack_ts x) i a m (i_polls x) csk1 = Done (Some (csk', z))"
      using v by (auto simp: client_visit_def al m csk1_def Let_def obind_Done set_pool_def)
    moreover have "c_dec csk1 = note_index m ?d" by (simp add: csk1_def note_packet_def set_pool_def)
    moreover have "sound_packet Ps L ?d m"
      using sound m by (auto simp: sound_visit_def sound_packet_def accepts_def split: if_splits)
    ultimately show ?thesis
      using cli_packet_run [OF _ st _ d] sound by (simp add: sound_visit_def)
  qed
qed

lemma fifo_pop_active: "read_ctcp csk n = Some (csk', r) \<Longrightarrow> c_status csk' = c_status csk"
  by (auto simp: read_ctcp_def Let_def split: if_splits option.splits)

lemma cli_run_dec:
  "cli_run Ps L raw csk outs \<Longrightarrow> \<exists>d. dec_run Ps L raw d outs \<and> (c_status csk = ACTIVE_c \<longrightarrow> d = c_dec csk)"
proof (induction rule: cli_run.induct)
  case (cr_start csk pool)
  then show ?case using dec_start [of Ps L raw pool] by auto
next
  case (cr_visit csk outs i x csk' e)
  then have "dec_run Ps L raw (c_dec csk) outs" by auto
  with client_visit_run [OF cr_visit(5) _ this cr_visit(4)] show ?case
    by (cases "c_status csk' = ACTIVE_c") auto
next
  case (cr_idle csk outs ev csk')
  then have "dec_run Ps L raw (c_dec csk) outs" by auto
  from dec_same_run [OF dec_same_idle [OF cr_idle(3)] this] show ?case by blast
next
  case (cr_none csk outs)
  then show ?case by auto
next
  case (cr_read csk outs n csk' r)
  show ?case
  proof (cases "c_status csk = ACTIVE_c")
    case False
    with cr_read show ?thesis by (auto simp: read_ctcp_def)
  next
    case True
    then obtain Q buf where p: "fifo_pop (dc_usr_cache (c_dec csk)) n = Some (Q, buf)"
      "c_dec csk' = (c_dec csk)\<lparr>dc_usr_cache := Q\<rparr>" "(case r of None \<Rightarrow> [] | Some buf \<Rightarrow> buf) = buf"
      using cr_read(3) by (auto simp: read_ctcp_def Let_def split: option.splits if_splits)
    have "dec_run Ps L raw (c_dec csk) outs" using True cr_read(4) by blast
    from dec_read [OF this cr_read(2) p(1)] p(2,3) show ?thesis by (intro exI [of _ "c_dec csk'"]) simp
  qed
qed

section \<open>connect\<close>

text \<open>Without a SYN-ACK the loop of \<open>connect_ctcp\<close> goes on, however many polls time out.\<close>

definition has_syn_ack :: "poll \<Rightarrow> bool" where
  "has_syn_ack p = (case p of PollReady vs \<Rightarrow> list_ex (\<lambda>v. case v of Recvd m \<Rightarrow> d_flag m = flag_code SYN_ACK | _ \<Rightarrow> False) vs
    | _ \<Rightarrow> False)"

lemma poll_scan_negative:
  "\<not> list_ex (\<lambda>v. case v of Recvd m \<Rightarrow> d_flag m = fl | _ \<Rightarrow> False) vs \<Longrightarrow>
    poll_scan fl ts k vs csk = (csk', j, fl', ts') \<Longrightarrow> j < 0"
  by (induction fl ts k vs csk rule: poll_scan.induct) (auto split: visit.splits if_splits)

lemma poll_flag_negative:
  "\<not> has_syn_ack p \<Longrightarrow> poll_flag (flag_code SYN_ACK) ts p csk = (csk', j, fl', ts') \<Longrightarrow> j < 0"
  by (auto simp: poll_flag_def has_syn_ack_def dest: poll_scan_negative split: poll.splits)

lemma connect_loop_waits:
  "list_all (\<lambda>p. \<not> has_syn_ack p) ps \<Longrightarrow> rv < POLL_MAX_TRIES \<Longrightarrow> connect_loop ev rv ix ts csk ps \<noteq> Done (Some r)"
proof (induction ps arbitrary: rv ix ts csk)
  case (Cons p ps)
  show ?case
  proof
    assume "connect_loop ev rv ix ts csk (p # ps) = Done (Some r)"
    then obtain csk1 rv1 where x: "(if ix = -1
        then obind (cli_send_flags ev SYN (y_ts ev) False (\<lambda>q. q\<lparr>u_state := SYN_SENT, u_lastrcvt := y_now ev\<rparr>)
               [0..<length (c_subs csk)] csk) (\<lambda>csk. Done (csk, 1))
        else Done (csk, rv)) = Done (csk1, rv1)"
      and c: "(case poll_flag (flag_code SYN_ACK) ts p csk1 of
         (csk, path_ix, fl, ts) \<Rightarrow>
           if path_ix < 0 \<and> rv1 < POLL_MAX_TRIES then connect_loop ev rv1 path_ix ts csk ps
           else Done (Some (csk, rv1, path_ix, ts))) = Done (Some r)"
      by (simp only: connect_loop.simps obind_Done split_paired_Ex prod.case) blast
    have r: "rv1 < POLL_MAX_TRIES"
      using x Cons.prems(2) by (auto simp: obind_Done POLL_MAX_TRIES_def split: if_splits)
    obtain csk2 j fl' ts' where p: "poll_flag (flag_code SYN_ACK) ts p csk1 = (csk2, j, fl', ts')" by (metis prod_cases4)
    have "j < 0" using poll_flag_negative [OF _ p] Cons.prems(1) by simp
    with r c p Cons.IH [of rv1 j ts' csk2] Cons.prems(1) show False by simp
  qed
qed simp

section \<open>The index after a read error\<close>

lemma lose_first:
  assumes "c_subs csk \<noteq> []" "i_visit x = RecvError" "0 < n"
  shows "\<exists>csk'. read_loop 0 n csk (x # xs) = Done (Some (csk', -1)) \<and> length (c_subs csk') = length (c_subs csk) - 1 \<and>
    read_loop (-1) n' csk' (y # ys) = Fault"
proof -
  obtain pool skb where al: "alloc_skb (y_malloc (i_env x) (dc_pool (c_dec csk))) (dc_pool (c_dec csk)) = (pool, skb)"
    by fastforce
  have "client_visit x 0 csk = Done (Some (lose_substream 0 (set_pool pool csk), Lost))"
    by (simp add: client_visit_def al assms(2) Let_def split: option.splits)
  moreover have "length (c_subs (lose_substream 0 (set_pool pool csk))) = length (c_subs csk) - 1"
    using assms(1) lose_substream_length [of 0 "set_pool pool csk"] by (simp add: set_pool_def)
  ultimately show ?thesis using assms(1) by simp
qed

section \<open>Bytes that are left when the server closes\<close>

lemma poll_flag_cache:
  "poll_flag fl ts p csk = (csk', j, fl', ts') \<Longrightarrow> dc_usr_cache (c_dec csk') = dc_usr_cache (c_dec csk)"
proof -
  have "poll_scan fl ts k vs csk = (csk', j, fl', ts') \<Longrightarrow> dc_usr_cache (c_dec csk') = dc_usr_cache (c_dec csk)" for k vs
    by (induction fl ts k vs csk rule: poll_scan.induct)
      (auto simp: note_packet_def note_index_def Let_def split: visit.splits if_splits)
  then show "poll_flag fl ts p csk = (csk', j, fl', ts') \<Longrightarrow> dc_usr_cache (c_dec csk') = dc_usr_cache (c_dec csk)"
    by (auto simp: poll_flag_def split: poll.splits)
qed

lemma dec_same_cache: "dec_same csk csk' \<Longrightarrow> dc_usr_cache (c_dec csk') = dc_usr_cache (c_dec csk)"
  by (auto simp: dec_same_def)

lemma cli_fin_loop_cache:
  "cli_fin_loop ev ts tries rv csk ps = Done (Some (csk', n)) \<Longrightarrow> dc_usr_cache (c_dec csk') = dc_usr_cache (c_dec csk)"
proof (induction ps arbitrary: tries rv csk)
  case (Cons p ps)
  from Cons.prems obtain csk1 tries1 where x: "(if rv = -1
        then obind (cli_send_flags ev FIN_ACK ts True (\<lambda>q. q\<lparr>u_state := FIN_ACK_SENT_c\<rparr>) [0..<length (c_subs csk)] csk)
               (\<lambda>csk. Done (csk, tries + 1))
        else Done (csk, tries)) = Done (csk1, tries1)"
      and c: "(case poll_flag (flag_code FIN_ACK) ts p csk1 of
         (csk, poll_rv, fl, ts') \<Rightarrow>
           if poll_rv < 0 \<and> tries1 < POLL_MAX_TRIES then cli_fin_loop ev ts tries1 poll_rv csk ps
           else Done (Some (csk, tries1))) = Done (Some (csk', n))"
    by (simp only: cli_fin_loop.simps obind_Done split_paired_Ex prod.case) blast
  have "dc_usr_cache (c_dec csk1) = dc_usr_cache (c_dec csk)"
    using x by (auto simp: obind_Done split: if_splits dest!: dec_same_sends dec_same_cache)
  moreover obtain csk2 j fl' ts' where p: "poll_flag (flag_code FIN_ACK) ts p csk1 = (csk2, j, fl', ts')" by (metis prod_cases4)
  ultimately show ?case
    using c Cons.IH [of tries1 j csk2] poll_flag_cache [OF p] by (auto simp: p split: if_splits)
qed simp

lemma fin_then_read:
  assumes "cli_fin ev i ts ps csk = Done (Some csk')"
  shows "read_ctcp csk' n = Some (csk'\<lparr>c_error := SRVHUP\<rparr>, None)"
    and "fifo_bytes (dc_usr_cache (c_dec csk')) = fifo_bytes (dc_usr_cache (c_dec csk))"
proof -
  obtain csk1 n where l: "cli_fin_loop ev ts 0 (-1) (set_sub i (\<lambda>q. q\<lparr>u_state := FIN_RECV_c\<rparr>) csk) ps = Done (Some (csk1, n))"
    and h: "csk' = hang_up (if POLL_MAX_TRIES \<le> n then csk1 else set_all CLOSING_c csk1)"
    using assms by (auto simp: cli_fin_def obind_Done)
  show "read_ctcp csk' n = Some (csk'\<lparr>c_error := SRVHUP\<rparr>, None)" for n
    by (simp add: read_ctcp_def h)
  show "fifo_bytes (dc_usr_cache (c_dec csk')) = fifo_bytes (dc_usr_cache (c_dec csk))"
    using cli_fin_loop_cache [OF l] by (simp add: h hang_up_def set_all_def fifo_bytes_def fifo_release_def)
qed

end
