(* ===== verification/Relay.thy ===== *)
theory Relay
  imports Socks SendStream CliConn
begin

text \<open>
  The relay of data between a SOCKS client and its target: \<open>handle_traffic\<close> of
  \<open>src/child_local.c\<close> and of \<open>src/child_remote.c\<close>, and the thread
  \<open>handle_ctcp_traffic\<close> of \<open>src/child_local.c\<close>.

  Both loops fill one buffer from either socket and then empty it to the other one.  They
  differ in how they write: the local proxy with \<open>write\<close>, the remote one with \<open>write\<close>
  to its target and with \<open>send_ctcp\<close> to the client.  The loop is therefore defined over
  the forwarding function, and its order of bytes is proved once, for every forwarding
  function that satisfies the locale \<open>forwarder\<close>.
\<close>

section \<open>One turn of the loop\<close>

text \<open>
  Socket 0 is the client, 1 the target.  \<open>rl_in i\<close> are the bytes read from socket \<open>i\<close>.
\<close>

record relay =
  rl_buf :: bytes
  rl_top :: nat
  rl_ptr :: nat
  rl_own :: int
  rl_in :: "int \<Rightarrow> bytes"

text \<open>
  What the system calls return in a turn, each once it is not interrupted; \<open>t_read\<close> is
  \<open>None\<close> for an error.  \<open>t_more\<close> is the environment of the forwarding function.
\<close>

record 'e turn_env =
  t_poll :: int
  t_revents0 :: u16
  t_revents1 :: u16
  t_read :: "bytes option"
  t_more :: 'e

text \<open>
  Forwarding: how many bytes were taken, or an error after some were taken, or a call that
  has not returned.
\<close>

datatype 's forward = Taken 's nat | Failed 's | Waiting

definition POLLERR :: u16 where "POLLERR = 8"
definition POLLHUP :: u16 where "POLLHUP = 16"

definition relay_init :: "bytes \<Rightarrow> relay" where
  "relay_init buf = \<lparr>rl_buf = buf, rl_top = 0, rl_ptr = 0, rl_own = -1, rl_in = (\<lambda>i. [])\<rparr>"

text \<open>The turn that reads: the buffer is as large as \<open>buf_size\<close>.\<close>

definition relay_read :: "'e turn_env \<Rightarrow> relay \<Rightarrow> relay \<times> int option" where
  "relay_read ev st =
    (let own = (if t_revents0 ev AND POLLIN = 0 then 1 else 0);
         st = st\<lparr>rl_top := 0, rl_ptr := 0, rl_own := own\<rparr>
     in case t_read ev of
       None \<Rightarrow> (st, Some ERR_SKFATAL)
     | Some xs \<Rightarrow>
         let got = take (length (rl_buf st)) xs
         in if got = [] then (st, Some ERR_NONE)
            else (st\<lparr>rl_buf := memcpy_at (rl_buf st) 0 got, rl_top := length got,
                     rl_in := (rl_in st)(own := rl_in st own @ got)\<rparr>, None))"

definition pending :: "relay \<Rightarrow> bytes" where
  "pending st = drop (rl_ptr st) (take (rl_top st) (rl_buf st))"

text \<open>\<open>None\<close> is a turn that waits in the forwarding function.\<close>

definition relay_step ::
  "('e \<Rightarrow> int \<Rightarrow> 's \<Rightarrow> bytes \<Rightarrow> 's forward) \<Rightarrow> 'e turn_env \<Rightarrow> relay \<Rightarrow> 's \<Rightarrow> (relay \<times> 's \<times> int option) option" where
  "relay_step fwd ev st s =
    (if t_poll ev < 0 \<or> t_revents0 ev AND POLLERR \<noteq> 0 \<or> t_revents1 ev AND POLLERR \<noteq> 0
     then Some (st, s, Some ERR_SKFATAL)
     else if t_poll ev = 0 then Some (st, s, Some ERR_CONIDLE)
     else if t_revents0 ev AND POLLHUP \<noteq> 0 \<or> t_revents1 ev AND POLLHUP \<noteq> 0
     then Some (st, s, Some ERR_NONE)
     else if rl_ptr st < rl_top st
     then case fwd (t_more ev) (rl_own st) s (pending st) of
         Taken s n \<Rightarrow> Some (st\<lparr>rl_ptr := rl_ptr st + n\<rparr>, s, None)
       | Failed s \<Rightarrow> Some (st, s, Some ERR_SKFATAL)
       | Waiting \<Rightarrow> None
     else case relay_read ev st of (st, res) \<Rightarrow> Some (st, s, res))"

text \<open>The loop; without a result it goes on after the last turn.\<close>

fun relay_loop ::
  "('e \<Rightarrow> int \<Rightarrow> 's \<Rightarrow> bytes \<Rightarrow> 's forward) \<Rightarrow> 'e turn_env list \<Rightarrow> relay \<Rightarrow> 's \<Rightarrow> (relay \<times> 's \<times> int option) option" where
  "relay_loop fwd [] st s = Some (st, s, None)"
| "relay_loop fwd (ev # evs) st s =
    (case relay_step fwd ev st s of
       None \<Rightarrow> None
     | Some (st, s, None) \<Rightarrow> relay_loop fwd evs st s
     | Some (st, s, Some res) \<Rightarrow> Some (st, s, Some res))"

section \<open>The two ways of forwarding\<close>

text \<open>\<open>write\<close> to the other socket; the state holds what was written to each.\<close>

definition tcp_write :: "int \<Rightarrow> int \<Rightarrow> (int \<Rightarrow> bytes) \<Rightarrow> bytes \<Rightarrow> (int \<Rightarrow> bytes) forward" where
  "tcp_write res own out xs =
    (let n = min (nat res) (length xs); dst = (if own = 0 then 1 else 0)
     in if res < 0 then Failed out else Taken (out(dst := out dst @ take n xs)) n)"

definition handle_traffic_local :: "int turn_env list \<Rightarrow> bytes \<Rightarrow> (relay \<times> (int \<Rightarrow> bytes) \<times> int option) option" where
  "handle_traffic_local evs buf = relay_loop tcp_write evs (relay_init buf) (\<lambda>i. [])"

text \<open>
  The loop around \<open>send_ctcp\<close>, over the allocators of its calls.  A result of -1, which is
  \<open>HangUp\<close>, ends it; a count goes on with the rest.
\<close>

fun ctcp_write :: "(skb_pool \<Rightarrow> addr option) list \<Rightarrow> server \<Rightarrow> bytes \<Rightarrow> (server \<times> bool) option" where
  "ctcp_write ms sk [] = Some (sk, True)"
| "ctcp_write [] sk xs = None"
| "ctcp_write (m # ms) sk xs =
    (case send_ctcp m sk xs of
       None \<Rightarrow> None
     | Some (sk, rest, HangUp) \<Rightarrow> Some (sk, False)
     | Some (sk, rest, _) \<Rightarrow> ctcp_write ms sk rest)"

text \<open>The environment of a turn: the result of \<open>write\<close>, and the allocators.\<close>

definition remote_write ::
  "int \<times> (skb_pool \<Rightarrow> addr option) list \<Rightarrow> int \<Rightarrow> bytes \<times> server \<Rightarrow> bytes \<Rightarrow> (bytes \<times> server) forward" where
  "remote_write e own s xs =
    (if own = 0
     then let n = min (nat (fst e)) (length xs)
       in if fst e < 0 then Failed s else Taken (fst s @ take n xs, snd s) n
     else case ctcp_write (snd e) (snd s) xs of
       None \<Rightarrow> Waiting
     | Some (sk, True) \<Rightarrow> Taken (fst s, sk) (length xs)
     | Some (sk, False) \<Rightarrow> Failed (fst s, sk))"

definition handle_traffic_remote ::
  "(int \<times> (skb_pool \<Rightarrow> addr option) list) turn_env list \<Rightarrow> bytes \<Rightarrow> server \<Rightarrow>
    (relay \<times> (bytes \<times> server) \<times> int option) option" where
  "handle_traffic_remote evs buf sk = relay_loop remote_write evs (relay_init buf) ([], sk)"

section \<open>The order of the bytes\<close>

text \<open>
  What a relay relies on: \<open>sent i\<close> is what has been forwarded of the bytes of socket \<open>i\<close>,
  and forwarding extends it by a prefix of what it is given and leaves the other direction
  alone.
\<close>

locale forwarder =
  fixes fwd :: "'e \<Rightarrow> int \<Rightarrow> 's \<Rightarrow> bytes \<Rightarrow> 's forward"
    and sent :: "int \<Rightarrow> 's \<Rightarrow> bytes"
    and good :: "'s \<Rightarrow> bool"
    and env_ok :: "'e \<Rightarrow> bool"
  assumes taken: "good s \<Longrightarrow> env_ok e \<Longrightarrow> own = 0 \<or> own = 1 \<Longrightarrow> fwd e own s xs = Taken s' n \<Longrightarrow>
      good s' \<and> n \<le> length xs \<and> sent own s' = sent own s @ take n xs \<and> sent (1 - own) s' = sent (1 - own) s"
    and failed: "good s \<Longrightarrow> env_ok e \<Longrightarrow> own = 0 \<or> own = 1 \<Longrightarrow> fwd e own s xs = Failed s' \<Longrightarrow>
      good s' \<and> (\<exists>n \<le> length xs. sent own s' = sent own s @ take n xs) \<and> sent (1 - own) s' = sent (1 - own) s"
begin

text \<open>While the loop runs, nothing is lost, repeated or reordered.\<close>

definition in_order :: "bytes \<Rightarrow> bytes \<Rightarrow> relay \<Rightarrow> 's \<Rightarrow> bool" where
  "in_order h0 h1 st s \<longleftrightarrow> good s \<and> rl_top st \<le> length (rl_buf st) \<and> rl_ptr st \<le> rl_top st \<and>
    (rl_ptr st < rl_top st \<longrightarrow> rl_own st = 0 \<or> rl_own st = 1) \<and>
    h0 @ rl_in st 0 = sent 0 s @ (if rl_own st = 0 then pending st else []) \<and>
    h1 @ rl_in st 1 = sent 1 s @ (if rl_own st = 1 then pending st else [])"

text \<open>After it has ended, what was sent is a prefix of what was read.\<close>

definition prefixes :: "bytes \<Rightarrow> bytes \<Rightarrow> relay \<Rightarrow> 's \<Rightarrow> bool" where
  "prefixes h0 h1 st s \<longleftrightarrow> good s \<and> (\<exists>x. h0 @ rl_in st 0 = sent 0 s @ x) \<and> (\<exists>x. h1 @ rl_in st 1 = sent 1 s @ x)"

lemma in_order_prefixes: "in_order h0 h1 st s \<Longrightarrow> prefixes h0 h1 st s"
  by (auto simp: in_order_def prefixes_def)

lemma pending_take: "n \<le> length (pending st) \<Longrightarrow> pending st = take n (pending st) @ pending (st\<lparr>rl_ptr := rl_ptr st + n\<rparr>)"
  by (simp add: pending_def add.commute flip: drop_drop)

lemma relay_write_order:
  assumes ord: "in_order h0 h1 st s" and ptr: "rl_ptr st < rl_top st" and env: "env_ok e"
    and w: "fwd e (rl_own st) s (pending st) = Taken s' n"
  shows "in_order h0 h1 (st\<lparr>rl_ptr := rl_ptr st + n\<rparr>) s'"
proof -
  let ?st = "st\<lparr>rl_ptr := rl_ptr st + n\<rparr>"
  have own: "rl_own st = 0 \<or> rl_own st = 1" and good: "good s" using ord ptr by (simp_all add: in_order_def)
  note t = taken [OF good env own w]
  have "length (pending st) = rl_top st - rl_ptr st" using ord by (simp add: pending_def in_order_def)
  moreover have "n \<le> length (pending st)" using t by blast
  ultimately have len: "rl_ptr st + n \<le> rl_top st" using ptr by linarith
  have split: "pending st = take n (pending st) @ pending ?st" using t pending_take by blast
  have "h0 @ rl_in st 0 = sent 0 s' @ (if rl_own st = 0 then pending ?st else [])"
    using own
  proof
    assume o: "rl_own st = 0"
    then have "h0 @ rl_in st 0 = sent 0 s @ pending st" using ord by (simp add: in_order_def)
    also have "\<dots> = (sent 0 s @ take n (pending st)) @ pending ?st" by (subst split) simp
    finally show ?thesis using t o by simp
  qed (use ord t in \<open>simp add: in_order_def\<close>)
  moreover have "h1 @ rl_in st 1 = sent 1 s' @ (if rl_own st = 1 then pending ?st else [])"
    using own
  proof
    assume o: "rl_own st = 1"
    then have "h1 @ rl_in st 1 = sent 1 s @ pending st" using ord by (simp add: in_order_def)
    also have "\<dots> = (sent 1 s @ take n (pending st)) @ pending ?st" by (subst split) simp
    finally show ?thesis using t o by simp
  qed (use ord t in \<open>simp add: in_order_def\<close>)
  ultimately show ?thesis using ord t len own by (simp add: in_order_def)
qed

lemma relay_fail_order:
  assumes ord: "in_order h0 h1 st s" and ptr: "rl_ptr st < rl_top st" and env: "env_ok e"
    and w: "fwd e (rl_own st) s (pending st) = Failed s'"
  shows "prefixes h0 h1 st s'"
proof -
  have own: "rl_own st = 0 \<or> rl_own st = 1" and good: "good s" using ord ptr by (simp_all add: in_order_def)
  obtain n where t: "good s'" "sent (rl_own st) s' = sent (rl_own st) s @ take n (pending st)"
      "sent (1 - rl_own st) s' = sent (1 - rl_own st) s"
    using failed [OF good env own w] by blast
  have split: "pending st = take n (pending st) @ drop n (pending st)" by simp
  from own show ?thesis
  proof
    assume o: "rl_own st = 0"
    then have "h0 @ rl_in st 0 = sent 0 s @ pending st" using ord by (simp add: in_order_def)
    also have "\<dots> = sent 0 s' @ drop n (pending st)" using t(2) o by (subst split) simp
    finally have "\<exists>x. h0 @ rl_in st 0 = sent 0 s' @ x" by blast
    moreover have "h1 @ rl_in st 1 = sent 1 s'" using ord t(3) o by (simp add: in_order_def)
    ultimately show ?thesis using t(1) by (simp add: prefixes_def)
  next
    assume o: "rl_own st = 1"
    then have "h1 @ rl_in st 1 = sent 1 s @ pending st" using ord by (simp add: in_order_def)
    also have "\<dots> = sent 1 s' @ drop n (pending st)" using t(2) o by (subst split) simp
    finally have "\<exists>x. h1 @ rl_in st 1 = sent 1 s' @ x" by blast
    moreover have "h0 @ rl_in st 0 = sent 0 s'" using ord t(3) o by (simp add: in_order_def)
    ultimately show ?thesis using t(1) by (simp add: prefixes_def)
  qed
qed

lemma relay_read_order:
  assumes ord: "in_order h0 h1 st s" and ptr: "\<not> rl_ptr st < rl_top st" and rd: "relay_read ev st = (st', res)"
  shows "in_order h0 h1 st' s"
proof -
  have empty: "pending st = []" using ptr by (simp add: pending_def)
  then have all: "h0 @ rl_in st 0 = sent 0 s" "h1 @ rl_in st 1 = sent 1 s" using ord by (simp_all add: in_order_def split: if_splits)
  define own :: int where "own = (if t_revents0 ev AND POLLIN = 0 then 1 else 0)"
  define st0 where "st0 = st\<lparr>rl_top := 0, rl_ptr := 0, rl_own := own\<rparr>"
  have st0: "in_order h0 h1 st0 s" using ord all by (simp add: in_order_def st0_def pending_def)
  show ?thesis
  proof (cases "t_read ev")
    case None
    then have "st' = st0" using rd by (simp add: relay_read_def Let_def own_def st0_def)
    then show ?thesis using st0 by simp
  next
    case (Some xs)
    define got where "got = take (length (rl_buf st)) xs"
    have r: "relay_read ev st = (if got = [] then (st0, Some ERR_NONE)
        else (st0\<lparr>rl_buf := memcpy_at (rl_buf st) 0 got, rl_top := length got,
                  rl_in := (rl_in st)(own := rl_in st own @ got)\<rparr>, None))"
      using Some by (simp add: relay_read_def Let_def own_def st0_def got_def)
    have len: "length got \<le> length (rl_buf st)" by (simp add: got_def)
    moreover have "take (length got) (memcpy_at (rl_buf st) 0 got) = got" by (simp add: memcpy_at_def)
    moreover have "own = 0 \<or> own = 1" by (simp add: own_def)
    ultimately show ?thesis
      using st0 all rd unfolding r by (auto simp: in_order_def st0_def pending_def split: if_splits)
  qed
qed

lemma relay_step_order:
  assumes ord: "in_order h0 h1 st s" and env: "env_ok (t_more ev)" and step: "relay_step fwd ev st s = Some (st', s', res)"
  shows "if res = None then in_order h0 h1 st' s' else prefixes h0 h1 st' s'"
proof -
  have "st' = st \<and> s' = s \<and> res \<noteq> None \<or>
      (if rl_ptr st < rl_top st
       then case fwd (t_more ev) (rl_own st) s (pending st) of
           Taken s n \<Rightarrow> Some (st\<lparr>rl_ptr := rl_ptr st + n\<rparr>, s, None)
         | Failed s \<Rightarrow> Some (st, s, Some ERR_SKFATAL)
         | Waiting \<Rightarrow> None
       else case relay_read ev st of (st, res) \<Rightarrow> Some (st, s, res)) = Some (st', s', res)"
    using step unfolding relay_step_def by (smt (verit) option.distinct(1) option.inject prod.inject)
  then show ?thesis
  proof (elim disjE)
    assume "st' = st \<and> s' = s \<and> res \<noteq> None"
    then show ?thesis using ord in_order_prefixes by simp
  next
    assume body: "(if rl_ptr st < rl_top st
       then case fwd (t_more ev) (rl_own st) s (pending st) of
           Taken s n \<Rightarrow> Some (st\<lparr>rl_ptr := rl_ptr st + n\<rparr>, s, None)
         | Failed s \<Rightarrow> Some (st, s, Some ERR_SKFATAL)
         | Waiting \<Rightarrow> None
       else case relay_read ev st of (st, res) \<Rightarrow> Some (st, s, res)) = Some (st', s', res)"
    show ?thesis
    proof (cases "rl_ptr st < rl_top st")
      case True
      then show ?thesis
      proof (cases "fwd (t_more ev) (rl_own st) s (pending st)")
        case (Taken s1 n)
        then show ?thesis using True body relay_write_order [OF ord True env Taken] by auto
      next
        case (Failed s1)
        then show ?thesis using True body relay_fail_order [OF ord True env Failed] by auto
      next
        case Waiting
        then show ?thesis using True body by simp
      qed
    next
      case False
      obtain st1 r where r: "relay_read ev st = (st1, r)" by fastforce
      show ?thesis using False body r relay_read_order [OF ord False r] in_order_prefixes by auto
    qed
  qed
qed

lemma relay_loop_order:
  assumes "in_order h0 h1 st s" "\<forall>ev \<in> set evs. env_ok (t_more ev)" "relay_loop fwd evs st s = Some (st', s', res)"
  shows "if res = None then in_order h0 h1 st' s' else prefixes h0 h1 st' s'"
  using assms
proof (induction evs arbitrary: st s)
  case (Cons ev evs)
  obtain st1 s1 r where step: "relay_step fwd ev st s = Some (st1, s1, r)"
    using Cons.prems(3) by (cases "relay_step fwd ev st s") auto
  from relay_step_order [OF Cons.prems(1) _ step] Cons.prems(2)
  have 1: "if r = None then in_order h0 h1 st1 s1 else prefixes h0 h1 st1 s1" by simp
  show ?case
  proof (cases r)
    case None
    with Cons.IH [of st1 s1] Cons.prems(2,3) step 1 show ?thesis by simp
  next
    case (Some x)
    with Cons.prems(3) step 1 show ?thesis by auto
  qed
qed simp

lemma relay_init_order: "good s \<Longrightarrow> in_order (sent 0 s) (sent 1 s) (relay_init buf) s"
  by (simp add: in_order_def relay_init_def)

end

section \<open>Both proxies forward in order\<close>

interpretation tw: forwarder tcp_write "\<lambda>i out. out (1 - i)" "\<lambda>_. True" "\<lambda>_. True"
  by unfold_locales (auto simp: tcp_write_def Let_def split: if_splits)

lemma ctcp_write_stream:
  assumes "ctcp_write ms sk xs = Some (sk', ok)" "sender_inv sk" "\<forall>m \<in> set ms. (\<forall>p. fresh p (m p)) \<and> (\<forall>p. m p \<noteq> None)"
  shows "sender_inv sk' \<and> (\<exists>rest. s_stream sk' @ rest = s_stream sk @ xs \<and> (ok \<longrightarrow> rest = []))"
  using assms
proof (induction ms sk xs rule: ctcp_write.induct)
  case (3 m ms sk x xs)
  obtain sk1 rest e where r: "send_ctcp m sk (x # xs) = Some (sk1, rest, e)"
    using "3.prems"(1) by (auto split: option.splits)
  have c: "sender_inv sk1" "s_stream sk1 @ rest = s_stream sk @ x # xs"
    using send_ctcp_correct [OF r "3.prems"(2)] "3.prems"(3) by auto
  show ?case
  proof (cases "e = HangUp")
    case True
    with r c "3.prems"(1) show ?thesis by auto
  next
    case False
    then have "ctcp_write ms sk1 rest = Some (sk', ok)" using r "3.prems"(1) by (cases e) simp_all
    moreover have "sender_inv sk' \<and> (\<exists>rest'. s_stream sk' @ rest' = s_stream sk1 @ rest \<and> (ok \<longrightarrow> rest' = []))"
      using "3.IH" r False calculation c(1) "3.prems"(3) by (cases e) auto
    ultimately show ?thesis using c(2) by metis
  qed
qed auto

lemma prefix_take: "a @ rest = b @ xs \<Longrightarrow> length b \<le> length a \<Longrightarrow> \<exists>n \<le> length xs. a = b @ take n xs"
proof -
  assume eq: "a @ rest = b @ xs" and le: "length b \<le> length a"
  have "a = take (length a) (b @ xs)" using eq by (metis append_eq_conv_conj)
  then have "a = b @ take (length a - length b) xs" using le by simp
  moreover have "length a - length b \<le> length xs" using arg_cong [OF eq, of length] by simp
  ultimately show ?thesis by blast
qed

lemma send_ctcp_rest:
  "send_ctcp m sk buf = Some (sk', rest, e) \<Longrightarrow> length rest \<le> length buf"
proof (induction m sk buf rule: send_ctcp.induct)
  case (1 m sk buf)
  show ?case
  proof (cases "buf = [] \<or> s_status sk \<noteq> ACTIVE")
    case True
    with 1(3) show ?thesis by (auto simp: send_ctcp.simps [of m sk buf] split: if_splits)
  next
    case False
    then have b: "buf \<noteq> []" "\<not> s_status sk \<noteq> ACTIVE" by simp_all
    show ?thesis
    proof (cases "send_step m sk buf")
      case (Stored sk1 r1)
      then have "length rest \<le> length r1" using 1(1) [OF b Stored] 1(3) b by (simp add: send_ctcp.simps [of m sk buf])
      with send_step_Stored [OF Stored] show ?thesis by simp
    next
      case (NextBlock sk1)
      then show ?thesis using 1(2) [OF b NextBlock] 1(3) b by (simp add: send_ctcp.simps [of m sk buf])
    qed (use 1(3) b in \<open>simp_all add: send_ctcp.simps [of m sk buf]\<close>)
  qed
qed

lemma ctcp_write_rest:
  assumes "ctcp_write ms sk xs = Some (sk', ok)" "sender_inv sk" "\<forall>m \<in> set ms. (\<forall>p. fresh p (m p)) \<and> (\<forall>p. m p \<noteq> None)"
  shows "length (s_stream sk) \<le> length (s_stream sk')"
  using assms
proof (induction ms sk xs rule: ctcp_write.induct)
  case (3 m ms sk x xs)
  obtain sk1 rest e where r: "send_ctcp m sk (x # xs) = Some (sk1, rest, e)"
    using "3.prems"(1) by (auto split: option.splits)
  have c: "sender_inv sk1" "s_stream sk1 @ rest = s_stream sk @ x # xs"
    using send_ctcp_correct [OF r "3.prems"(2)] "3.prems"(3) by auto
  have l: "length (s_stream sk) \<le> length (s_stream sk1)"
    using arg_cong [OF c(2), of length] send_ctcp_rest [OF r] by simp
  show ?case
  proof (cases "e = HangUp")
    case True
    with r l "3.prems"(1) show ?thesis by auto
  next
    case False
    then have "ctcp_write ms sk1 rest = Some (sk', ok)" using r "3.prems"(1) by (cases e) simp_all
    moreover have "length (s_stream sk1) \<le> length (s_stream sk')"
      using "3.IH" r False calculation c(1) "3.prems"(3) by (cases e) auto
    ultimately show ?thesis using l by simp
  qed
qed auto

text \<open>The remote proxy: its writes to the target, and the bytes in the window of blocks.\<close>

definition remote_sent :: "int \<Rightarrow> bytes \<times> server \<Rightarrow> bytes" where
  "remote_sent i s = (if i = 0 then fst s else s_stream (snd s))"

definition allocs_ok :: "int \<times> (skb_pool \<Rightarrow> addr option) list \<Rightarrow> bool" where
  "allocs_ok e \<longleftrightarrow> (\<forall>m \<in> set (snd e). (\<forall>p. fresh p (m p)) \<and> (\<forall>p. m p \<noteq> None))"

interpretation rw: forwarder remote_write remote_sent "\<lambda>s. sender_inv (snd s)" allocs_ok
proof
  fix s e own xs s' n
  assume a: "sender_inv (snd s)" "allocs_ok e" "own = 0 \<or> own = 1" and w: "remote_write e own s xs = Taken s' n"
  show "sender_inv (snd s') \<and> n \<le> length xs \<and> remote_sent own s' = remote_sent own s @ take n xs \<and>
    remote_sent (1 - own) s' = remote_sent (1 - own) s"
  proof (cases "own = 0")
    case True
    with a w show ?thesis by (auto simp: remote_write_def remote_sent_def Let_def split: if_splits)
  next
    case False
    then obtain sk where "ctcp_write (snd e) (snd s) xs = Some (sk, True)" "s' = (fst s, sk)" "n = length xs"
      using w by (auto simp: remote_write_def split: option.splits prod.splits bool.splits)
    with ctcp_write_stream [OF this(1) a(1)] a False show ?thesis
      by (simp add: remote_sent_def allocs_ok_def)
  qed
next
  fix s e own xs s'
  assume a: "sender_inv (snd s)" "allocs_ok e" "own = 0 \<or> own = 1" and w: "remote_write e own s xs = Failed s'"
  show "sender_inv (snd s') \<and> (\<exists>n \<le> length xs. remote_sent own s' = remote_sent own s @ take n xs) \<and>
    remote_sent (1 - own) s' = remote_sent (1 - own) s"
  proof (cases "own = 0")
    case True
    with a w have "s' = s" by (auto simp: remote_write_def Let_def split: if_splits)
    with a show ?thesis by (auto intro: exI [of _ 0])
  next
    case False
    then obtain sk where c: "ctcp_write (snd e) (snd s) xs = Some (sk, False)" "s' = (fst s, sk)"
      using w by (auto simp: remote_write_def split: option.splits prod.splits bool.splits)
    note st = ctcp_write_stream [OF c(1) a(1)] ctcp_write_rest [OF c(1) a(1)]
    have "\<exists>n \<le> length xs. s_stream sk = s_stream (snd s) @ take n xs"
      using st a(2) prefix_take by (metis allocs_ok_def)
    with st a False c(2) show ?thesis by (simp add: remote_sent_def allocs_ok_def)
  qed
qed

section \<open>The thread that delivers CTCP's bytes\<close>

text \<open>What \<open>poll\<close> and \<open>write\<close> return in a turn of the inner loop.\<close>

record drain_env =
  w_poll :: int
  w_revents :: u16
  w_res :: int

text \<open>
  The inner loop of \<open>handle_ctcp_traffic\<close>; \<open>False\<close> ends the thread, \<open>None\<close> is a thread that
  is still writing.
\<close>

fun ctcp_drain :: "drain_env list \<Rightarrow> bytes \<Rightarrow> bytes \<Rightarrow> (bytes \<times> bool) option" where
  "ctcp_drain ws [] out = Some (out, True)"
| "ctcp_drain [] xs out = None"
| "ctcp_drain (w # ws) xs out =
    (if w_poll w \<le> 0 then Some (out, False)
     else if w_revents w AND POLLHUP \<noteq> 0 then Some (out, False)
     else if w_res w < 0 then Some (out, False)
     else let n = min (nat (w_res w)) (length xs) in ctcp_drain ws (drop n xs) (out @ take n xs))"

text \<open>The outer loop, over the results of \<open>read_ctcp\<close>.\<close>

fun handle_ctcp_traffic :: "(bytes option \<times> drain_env list) list \<Rightarrow> bytes \<Rightarrow> (bytes \<times> bool) option" where
  "handle_ctcp_traffic [] out = Some (out, True)"
| "handle_ctcp_traffic ((r, ws) # turns) out =
    (case r of
       None \<Rightarrow> Some (out, False)
     | Some buf \<Rightarrow>
         case ctcp_drain ws buf out of
           None \<Rightarrow> None
         | Some (out, False) \<Rightarrow> Some (out, False)
         | Some (out, True) \<Rightarrow> handle_ctcp_traffic turns out)"

lemma ctcp_drain_prefix:
  "ctcp_drain ws xs out = Some (out', go) \<Longrightarrow> \<exists>rest. out @ xs = out' @ rest \<and> (go \<longrightarrow> rest = [])"
proof (induction ws xs out rule: ctcp_drain.induct)
  case (3 w ws x xs out)
  let ?n = "min (nat (w_res w)) (length (x # xs))"
  show ?case
  proof (cases "w_poll w \<le> 0 \<or> w_revents w AND POLLHUP \<noteq> 0 \<or> w_res w < 0")
    case True
    then have "out' = out \<and> \<not> go" using "3.prems" by (auto split: if_splits)
    then show ?thesis by auto
  next
    case False
    then have "ctcp_drain ws (drop ?n (x # xs)) (out @ take ?n (x # xs)) = Some (out', go)"
      using "3.prems" by (simp only: ctcp_drain.simps Let_def de_Morgan_disj not_not if_False simp_thms)
    with False "3.IH" show ?thesis by (metis append.assoc append_take_drop_id de_Morgan_disj)
  qed
qed auto

text \<open>The bytes read in all turns.\<close>

definition reads :: "(bytes option \<times> drain_env list) list \<Rightarrow> bytes" where
  "reads turns = concat (map (\<lambda>(r, ws). case r of None \<Rightarrow> [] | Some buf \<Rightarrow> buf) turns)"

lemma handle_ctcp_traffic_prefix:
  "handle_ctcp_traffic turns out = Some (out', go) \<Longrightarrow> \<exists>rest. out @ reads turns = out' @ rest \<and> (go \<longrightarrow> rest = [])"
proof (induction turns out rule: handle_ctcp_traffic.induct)
  case (2 r ws turns out)
  show ?case
  proof (cases r)
    case None
    with 2 show ?thesis by auto
  next
    case (Some buf)
    then obtain out1 g where d: "ctcp_drain ws buf out = Some (out1, g)" using 2(2) by (auto split: option.splits)
    obtain rest1 where r1: "out @ buf = out1 @ rest1" "g \<longrightarrow> rest1 = []" using ctcp_drain_prefix [OF d] by blast
    have rd: "out @ reads ((r, ws) # turns) = out1 @ rest1 @ reads turns" using r1(1) Some by (simp add: reads_def)
    show ?thesis
    proof (cases g)
      case True
      then have "handle_ctcp_traffic turns out1 = Some (out', go)" using 2(2) Some d by simp
      with 2(1) [OF Some d refl] True rd r1(2) show ?thesis by simp
    next
      case False
      with 2(2) Some d rd show ?thesis by auto
    qed
  qed
qed (auto simp: reads_def)

end
