(* ===== verification/ProxyMain.thy ===== *)
theory ProxyMain
  imports Socks Wire
begin

text \<open>
  The daemons that accept the clients of the proxies, \<open>src/proxy_local.c\<close> and
  \<open>src/proxy_remote.c\<close>: the filter of client addresses, the accept loop with its count of
  connections and its allocation of CTCP ports, and the configuration file.

  The filter and \<open>load_config\<close> are the same text in both files but for the table of
  variables.  Shifting by the width of the type is undefined in C and here \<open>None\<close>.
\<close>

section \<open>The filter\<close>

text \<open>
  \<open>le\<close> is the byte order of the host; an address is its four bytes as the network and
  \<open>gethostbyname\<close> have them.
\<close>

datatype filter_pol = FP_ALLOW | FP_DENY

definition filter_hit :: "bool \<Rightarrow> bytes \<Rightarrow> bytes \<Rightarrow> nat \<Rightarrow> bool" where
  "filter_hit le addr ex msk =
    (let adam = of_mem32 le addr;
         adam = adam XOR of_mem32 le ex;
         adam = adam AND htonl le (push_bit (32 - msk) 0xFFFFFFFF)
     in adam = 0)"

fun filter_loop :: "bool \<Rightarrow> bytes \<Rightarrow> (bytes \<times> int) list \<Rightarrow> bool \<Rightarrow> bool option" where
  "filter_loop le addr [] allow = Some allow"
| "filter_loop le addr ((ex, msk) # rest) allow =
    (if \<not> (1 \<le> msk \<and> msk \<le> 32) then None
     else if filter_hit le addr ex (nat msk) then Some (\<not> allow)
     else filter_loop le addr rest allow)"

definition client_allowed :: "bool \<Rightarrow> filter_pol \<Rightarrow> (bytes \<times> int) list \<Rightarrow> bytes \<Rightarrow> bool option" where
  "client_allowed le policy excepts addr = filter_loop le addr excepts (policy = FP_ALLOW)"

text \<open>Bytes of a word and its bits.\<close>

definition swap_bit :: "bool \<Rightarrow> nat \<Rightarrow> nat" where
  "swap_bit le i =
    (if le then if i < 8 then i + 24 else if i < 16 then i + 8 else if i < 24 then i - 8 else i - 24 else i)"

lemma swap_bit_range: "i < 32 \<Longrightarrow> swap_bit le i < 32"
  and swap_bit_twice: "i < 32 \<Longrightarrow> swap_bit le (swap_bit le i) = i"
  by (auto simp: swap_bit_def)

lemma bit_htonl:
  assumes i: "i < 32"
  shows "bit (htonl le w) i = bit w (swap_bit le i)"
proof (cases le)
  case True
  consider "i < 8" | "8 \<le> i" "i < 16" | "16 \<le> i" "i < 24" | "24 \<le> i" by linarith
  then show ?thesis
    by cases (use i True in \<open>auto simp: htonl_def of_be32_def be32_def swap_bit_def bit_or_iff bit_push_bit_iff
      bit_unsigned_iff bit_drop_bit_eq add.commute\<close>)
qed (simp add: htonl_def swap_bit_def)

lemma of_mem32_htonl: "length bs = 4 \<Longrightarrow> of_mem32 le bs = htonl le (of_be32 bs)"
  by (metis be32_of_be32 htonl_htonl htonl_of_mem32_be32)

lemma drop_bit_eq_iff:
  fixes a b :: u32
  shows "drop_bit k a = drop_bit k b \<longleftrightarrow> (\<forall>i < 32. k \<le> i \<longrightarrow> bit a i = bit b i)"
proof
  assume eq: "drop_bit k a = drop_bit k b"
  show "\<forall>i < 32. k \<le> i \<longrightarrow> bit a i = bit b i"
  proof (intro allI impI)
    fix i assume "k \<le> i"
    then show "bit a i = bit b i" using arg_cong [OF eq, of "\<lambda>w. bit w (i - k)"] by (simp add: bit_simps)
  qed
next
  assume eq: "\<forall>i < 32. k \<le> i \<longrightarrow> bit a i = bit b i"
  have same: "bit a (k + n) = bit b (k + n)" for n
    using eq bit_imp_le_length [of a "k + n"] bit_imp_le_length [of b "k + n"] by (cases "k + n < 32") auto
  show "drop_bit k a = drop_bit k b"
    by (intro bit_word_eqI) (use same in \<open>simp add: bit_drop_bit_eq\<close>)
qed

text \<open>The test compares the first \<open>msk\<close> bits.\<close>

lemma filter_hit_prefix:
  assumes len: "length addr = 4" "length ex = 4" and m: "1 \<le> msk" "msk \<le> 32"
  shows "filter_hit le addr ex msk \<longleftrightarrow> drop_bit (32 - msk) (of_be32 addr) = drop_bit (32 - msk) (of_be32 ex)"
proof -
  let ?a = "of_be32 addr" and ?f = "of_be32 ex" and ?k = "32 - msk"
  let ?m = "push_bit ?k 0xFFFFFFFF :: u32"
  have ones: "bit (0xFFFFFFFF :: u32) j" if "j < 32" for j
  proof -
    have "(0xFFFFFFFF :: u32) = - 1" by simp
    then show ?thesis using that by (simp only: bit_minus_1_iff possible_bit_word) simp
  qed
  have mbit: "bit ?m i \<longleftrightarrow> ?k \<le> i" if "i < 32" for i using that ones [of "i - ?k"] by (auto simp: bit_simps)
  have "filter_hit le addr ex msk \<longleftrightarrow> (htonl le ?a XOR htonl le ?f) AND htonl le ?m = 0"
    by (simp add: filter_hit_def Let_def of_mem32_htonl len)
  also have "\<dots> \<longleftrightarrow> (\<forall>i < 32. \<not> (bit (htonl le ?a) i \<noteq> bit (htonl le ?f) i \<and> bit (htonl le ?m) i))"
    by (auto simp: bit_eq_iff bit_simps)
  also have "\<dots> \<longleftrightarrow> (\<forall>i < 32. ?k \<le> swap_bit le i \<longrightarrow> bit ?a (swap_bit le i) = bit ?f (swap_bit le i))"
    by (auto simp: bit_htonl mbit swap_bit_range)
  also have "\<dots> \<longleftrightarrow> (\<forall>i < 32. ?k \<le> i \<longrightarrow> bit ?a i = bit ?f i)"
    by (metis swap_bit_range swap_bit_twice)
  finally show ?thesis by (simp only: drop_bit_eq_iff)
qed

lemma filter_loop_prefix:
  assumes "length addr = 4" "\<forall>(ex, m) \<in> set excepts. length ex = 4 \<and> 1 \<le> m \<and> m \<le> 32"
  shows "filter_loop le addr excepts allow = Some (allow \<noteq> (\<exists>(ex, m) \<in> set excepts.
    drop_bit (32 - nat m) (of_be32 addr) = drop_bit (32 - nat m) (of_be32 ex)))"
  using assms
proof (induction le addr excepts allow rule: filter_loop.induct)
  case (2 le addr ex m rest allow)
  then have "filter_hit le addr ex (nat m) \<longleftrightarrow> drop_bit (32 - nat m) (of_be32 addr) = drop_bit (32 - nat m) (of_be32 ex)"
    by (intro filter_hit_prefix) auto
  with 2 show ?case by auto
qed simp

section \<open>The accept loop\<close>

text \<open>
  A turn: children that have ended since the last one are reaped by the handler of SIGCHLD,
  then \<open>accept\<close> fails or gives a client, and \<open>fork\<close> succeeds or not.
\<close>

datatype accepted = AcceptFails | Client bytes bool

definition START_PORT :: int where "START_PORT = 8001"
definition MAX_PORT :: int where "MAX_PORT = 9999"

record daemon =
  con_cnt :: int
  next_port :: int
  children :: "int list"

definition daemon_init :: daemon where
  "daemon_init = \<lparr>con_cnt = 0, next_port = START_PORT, children = []\<rparr>"

text \<open>
  \<open>++con_cnt >= max_con_cnt || ++ctcp_port >= MAX_PORT\<close>: the port is not advanced when the
  first test holds.  What follows only writes to the log.
\<close>

definition count_child :: "int \<Rightarrow> daemon \<Rightarrow> daemon" where
  "count_child max_con_cnt d =
    (let d = d\<lparr>con_cnt := con_cnt d + 1\<rparr>
     in if max_con_cnt \<le> con_cnt d then d else d\<lparr>next_port := next_port d + 1\<rparr>)"

text \<open>\<open>SIGCHLD\<close> of \<open>handle_sig\<close>: the child at position \<open>i\<close> has ended.\<close>

definition reap :: "nat \<Rightarrow> daemon \<Rightarrow> daemon" where
  "reap i d =
    (if i < length (children d)
     then d\<lparr>con_cnt := con_cnt d - 1, children := take i (children d) @ drop (Suc i) (children d)\<rparr> else d)"

definition main_turn :: "int \<Rightarrow> (bytes \<Rightarrow> bool option) \<Rightarrow> accepted \<Rightarrow> daemon \<Rightarrow> daemon option" where
  "main_turn max_con_cnt allowed a d =
    (if max_con_cnt \<le> con_cnt d then Some d
     else case a of
       AcceptFails \<Rightarrow> Some d
     | Client addr forked \<Rightarrow>
         case allowed addr of
           None \<Rightarrow> None
         | Some False \<Rightarrow> Some d
         | Some True \<Rightarrow>
             if forked then Some (count_child max_con_cnt (d\<lparr>children := children d @ [next_port d]\<rparr>))
             else Some d)"

text \<open>The local proxy only counts its children.\<close>

definition main_turn_local :: "int \<Rightarrow> (bytes \<Rightarrow> bool option) \<Rightarrow> accepted \<Rightarrow> int \<Rightarrow> int option" where
  "main_turn_local max_con_cnt allowed a cnt =
    (if max_con_cnt \<le> cnt then Some cnt
     else case a of
       AcceptFails \<Rightarrow> Some cnt
     | Client addr forked \<Rightarrow>
         case allowed addr of
           None \<Rightarrow> None
         | Some ok \<Rightarrow> Some (if ok \<and> forked then cnt + 1 else cnt))"

text \<open>Runs of the daemon.\<close>

inductive daemon_run :: "int \<Rightarrow> (bytes \<Rightarrow> bool option) \<Rightarrow> daemon \<Rightarrow> bool" for max_con_cnt allowed where
  run_start: "daemon_run max_con_cnt allowed daemon_init"
| run_turn: "daemon_run max_con_cnt allowed d \<Longrightarrow> main_turn max_con_cnt allowed a d = Some d' \<Longrightarrow>
    daemon_run max_con_cnt allowed d'"
| run_reap: "daemon_run max_con_cnt allowed d \<Longrightarrow> daemon_run max_con_cnt allowed (reap i d)"

text \<open>The count is the number of children, and at most the maximum.\<close>

lemma daemon_count:
  assumes "daemon_run m allowed d" "0 \<le> m"
  shows "con_cnt d = int (length (children d)) \<and> con_cnt d \<le> m"
  using assms(1)
proof induction
  case run_start
  then show ?case using assms(2) by (simp add: daemon_init_def)
next
  case (run_turn d a d')
  then show ?case by (auto simp: main_turn_def count_child_def Let_def split: if_splits accepted.splits option.splits bool.splits)
next
  case (run_reap d i)
  then show ?case by (auto simp: reap_def)
qed

text \<open>
  Below the maximum the ports are handed out one after the other; the child that fills the
  daemon shares its port with the next one.
\<close>

lemma daemon_fills:
  assumes "allowed addr = Some True" "int k < m"
  shows "\<exists>d. daemon_run m allowed d \<and> con_cnt d = int k \<and> length (children d) = k \<and> next_port d = START_PORT + int k"
  using assms(2)
proof (induction k)
  case 0
  have "daemon_run m allowed daemon_init" by (rule run_start)
  then show ?case by (intro exI [of _ daemon_init]) (simp add: daemon_init_def)
next
  case (Suc k)
  then obtain d where d: "daemon_run m allowed d" "con_cnt d = int k" "length (children d) = k" "next_port d = START_PORT + int k"
    by auto
  let ?d = "count_child m (d\<lparr>children := children d @ [next_port d]\<rparr>)"
  have "main_turn m allowed (Client addr True) d = Some ?d"
    using d(2) Suc.prems assms(1) by (simp add: main_turn_def)
  then have "daemon_run m allowed ?d" using d(1) run_turn by blast
  then show ?case using d Suc.prems by (intro exI [of _ ?d]) (simp add: count_child_def)
qed

lemma port_twice:
  assumes "allowed addr = Some True" "2 \<le> m"
  shows "\<exists>d. daemon_run m allowed d \<and> \<not> distinct (children d)"
proof -
  obtain d where d: "daemon_run m allowed d" "con_cnt d = m - 1" "int (length (children d)) = m - 1"
    using daemon_fills [of allowed addr "nat (m - 1)" m] assms by auto
  let ?p = "next_port d"
  define d1 where "d1 = count_child m (d\<lparr>children := children d @ [?p]\<rparr>)"
  have d1: "con_cnt d1 = m" "next_port d1 = ?p" "children d1 = children d @ [?p]"
    using d(2) by (simp_all add: d1_def count_child_def)
  have "main_turn m allowed (Client addr True) d = Some d1"
    using d(2) assms(1) by (simp add: main_turn_def d1_def)
  then have r1: "daemon_run m allowed d1" using d(1) run_turn by blast
  obtain c cs where c: "children d = c # cs" using d(3) assms(2) by (cases "children d") auto
  define d2 where "d2 = reap 0 d1"
  have d2: "con_cnt d2 = m - 1" "next_port d2 = ?p" "children d2 = cs @ [?p]"
    using d1 c by (simp_all add: d2_def reap_def)
  have r2: "daemon_run m allowed d2" unfolding d2_def using r1 by (rule run_reap)
  define d3 where "d3 = count_child m (d2\<lparr>children := children d2 @ [next_port d2]\<rparr>)"
  have "main_turn m allowed (Client addr True) d2 = Some d3"
    using d2(1) assms(1) by (simp add: main_turn_def d3_def)
  then have "daemon_run m allowed d3" using r2 run_turn by blast
  moreover have "children d3 = cs @ [?p, ?p]" using d2 by (simp add: d3_def count_child_def)
  ultimately show ?thesis by (intro exI [of _ d3]) simp
qed

end
