(* ===== verification/ProxyConfig.thy ===== *)
theory ProxyConfig
  imports ProxyMain
begin

text \<open>
  The configuration file of the daemons: \<open>load_config\<close> of \<open>src/proxy_local.c\<close> and
  \<open>src/proxy_remote.c\<close>, which differ in the table of variables.

  A line is what \<open>fgets\<close> gives.  The arrays \<open>var\<close> and \<open>val\<close> of the function keep their
  contents from line to line and are therefore part of the state.  The globals that the
  table points to are maps from the name of the variable; a store into a variable is modelled
  as if it were of the type that the table says.
\<close>

section \<open>The table\<close>

text \<open>The letters 'n', 's' and 'a' of \<open>var_type\<close>; a string has the size of its array.\<close>

datatype var_kind = VNum | VStr nat | VAddr

definition common_vars :: "(bytes \<times> var_kind) list" where
  "common_vars =
    [(str ''PORT'', VNum), (str ''LOG_FILE'', VStr 256), (str ''PID_FILE'', VStr 256),
     (str ''BUFFER_SIZE'', VNum), (str ''BACKLOG'', VNum), (str ''NEGOTIATION_TIMEOUT'', VNum),
     (str ''CONNECTION_IDLE_TIMEOUT'', VNum), (str ''BIND_TIMEOUT'', VNum), (str ''SHUTDOWN_TIMEOUT'', VNum),
     (str ''MAX_CONNECTIONS'', VNum), (str ''UP_PROXY_ADDR'', VStr 256), (str ''UP_PROXY_PORT'', VNum),
     (str ''UP_PROXY_USER'', VStr 256), (str ''UP_PROXY_PASSWD'', VStr 256), (str ''BIND_ADDR'', VAddr),
     (str ''STATUS_DIR'', VStr 256), (str ''DEBUG'', VNum), (str ''CTCP_PROBE'', VNum), (str ''BLOCK_SIZE'', VNum),
     (str ''NUM_BLOCKS'', VNum), (str ''MAX_CODING_WND'', VNum)]"

definition vars_local :: "(bytes \<times> var_kind) list" where
  "vars_local = common_vars"

definition vars_remote :: "(bytes \<times> var_kind) list" where
  "vars_remote = common_vars @ [(str ''CONGESTION_CONTROL'', VStr 32), (str ''SLR_SCALING'', VNum)]"

definition MAX_FILTER_EXCEPTS :: nat where "MAX_FILTER_EXCEPTS = 256"

record config =
  cf_var :: bytes
  cf_val :: bytes
  cf_num :: "bytes \<Rightarrow> int option"
  cf_str :: "bytes \<Rightarrow> bytes option"
  cf_addr :: "bytes \<Rightarrow> bytes option"
  cf_policy :: filter_pol
  cf_excepts :: "(bytes \<times> int) list"
  cf_proxy_type :: int

section \<open>One line\<close>

text \<open>
  \<open>sscanf(buf,"%32s = %s",var,val)\<close>: white space of the format matches any white space, and a
  conversion that does not come about leaves its array alone.
\<close>

definition scan_line :: "bytes \<Rightarrow> bytes option \<times> bytes option" where
  "scan_line s =
    (let s = dropWhile is_space s;
         v = take 32 (takeWhile (\<lambda>c. \<not> is_space c) s);
         r = dropWhile is_space (drop (length v) s);
         r' = dropWhile is_space (tl r)
     in if s = [] then (None, None)
        else if r = [] \<or> hd r \<noteq> 61 \<or> r' = [] then (Some v, None)
        else (Some v, Some (takeWhile (\<lambda>c. \<not> is_space c) r')))"

text \<open>\<open>atoi\<close>; and \<open>%u\<close> read into an \<open>int\<close>.\<close>

definition atoi :: "bytes \<Rightarrow> int" where
  "atoi s = (case scan_int s of None \<Rightarrow> 0 | Some n \<Rightarrow> n)"

definition scan_unsigned :: "bytes \<Rightarrow> int option" where
  "scan_unsigned s =
    map_option (\<lambda>n. let u = n mod 2 ^ 32 in if u < 2 ^ 31 then u else u - 2 ^ 32) (scan_int s)"

text \<open>
  A filter exception: the mask after the slash, and the address before it.  An entry of the
  array of masks is 0 before it is written.  \<open>Ret None\<close> is the result \<open>ERR_READ\<close>.
\<close>

definition add_exception :: "(bytes \<Rightarrow> bytes option) \<Rightarrow> config \<Rightarrow> config option call" where
  "add_exception host cf =
    (let val = cf_val cf; slash = (47 \<in> set val); name = takeWhile (\<lambda>c. c \<noteq> 47) val;
         msk = (if slash then case scan_unsigned (tl (dropWhile (\<lambda>c. c \<noteq> 47) val)) of None \<Rightarrow> 0 | Some n \<Rightarrow> n else 32)
     in if MAX_FILTER_EXCEPTS \<le> length (cf_excepts cf) then Overrun
        else if slash \<and> 32 < msk then Ret None
        else case host name of
          None \<Rightarrow> Ret None
        | Some ip \<Rightarrow> Ret (Some (cf\<lparr>cf_val := name, cf_excepts := cf_excepts cf @ [(take 4 ip, msk)]\<rparr>)))"

definition set_proxy_type :: "config \<Rightarrow> config option" where
  "set_proxy_type cf =
    (if cf_val cf = str ''SOCKS5'' then Some (cf\<lparr>cf_proxy_type := PROXY_SOCKS5\<rparr>)
     else if cf_val cf = str ''SOCKS4'' then Some (cf\<lparr>cf_proxy_type := PROXY_SOCKS4\<rparr>)
     else if cf_val cf = str ''HTTPCONNECT'' then Some (cf\<lparr>cf_proxy_type := PROXY_HTTPCONNECT\<rparr>)
     else None)"

text \<open>Storing into a variable of the table.\<close>

definition set_var :: "(bytes \<Rightarrow> bytes option) \<Rightarrow> (bytes \<times> var_kind) list \<Rightarrow> config \<Rightarrow> config option call" where
  "set_var host vars cf =
    (case map_of vars (cf_var cf) of
       None \<Rightarrow> Ret None
     | Some VNum \<Rightarrow> Ret (Some (cf\<lparr>cf_num := (cf_num cf)(cf_var cf \<mapsto> atoi (cf_val cf))\<rparr>))
     | Some (VStr n) \<Rightarrow>
         if length (cf_val cf) + 1 \<le> n then Ret (Some (cf\<lparr>cf_str := (cf_str cf)(cf_var cf \<mapsto> cf_val cf)\<rparr>)) else Overrun
     | Some VAddr \<Rightarrow>
         (case host (cf_val cf) of
            None \<Rightarrow> Ret None
          | Some ip \<Rightarrow> Ret (Some (cf\<lparr>cf_addr := (cf_addr cf)(cf_var cf \<mapsto> take 4 ip)\<rparr>))))"

text \<open>What is done with \<open>var\<close> and \<open>val\<close> after a line was read.\<close>

definition apply_line :: "(bytes \<Rightarrow> bytes option) \<Rightarrow> (bytes \<times> var_kind) list \<Rightarrow> config \<Rightarrow> config option call" where
  "apply_line host vars cf =
    (if (cf_var cf \<noteq> [] \<and> cf_val cf = []) \<or> (cf_var cf = [] \<and> cf_val cf \<noteq> []) then Ret None
     else if cf_var cf = [] \<and> cf_val cf = [] then Ret (Some cf)
     else if cf_var cf = str ''FILTER_POLICY''
     then Ret (Some (if cf_val cf = str ''DENY'' then cf\<lparr>cf_policy := FP_DENY\<rparr> else cf))
     else if cf_var cf = str ''FILTER_EXCEPTION'' then add_exception host cf
     else if cf_var cf = str ''UP_PROXY_TYPE'' then Ret (set_proxy_type cf)
     else set_var host vars cf)"

text \<open>A line: its comment is cut off; a name of 32 characters does not fit into \<open>var\<close>.\<close>

definition config_line :: "(bytes \<Rightarrow> bytes option) \<Rightarrow> (bytes \<times> var_kind) list \<Rightarrow> bytes \<Rightarrow> config \<Rightarrow> config option call" where
  "config_line host vars buf cf =
    (let (v, w) = scan_line (takeWhile (\<lambda>c. c \<noteq> 0 \<and> c \<noteq> 35) buf);
         cf = (case v of None \<Rightarrow> cf | Some v \<Rightarrow> cf\<lparr>cf_var := v\<rparr>);
         cf = (case w of None \<Rightarrow> cf | Some w \<Rightarrow> cf\<lparr>cf_val := w\<rparr>)
     in if v \<noteq> None \<and> length (the v) \<ge> 32 then Overrun else apply_line host vars cf)"

section \<open>The file\<close>

fun config_lines ::
  "(bytes \<Rightarrow> bytes option) \<Rightarrow> (bytes \<times> var_kind) list \<Rightarrow> bytes list \<Rightarrow> config \<Rightarrow> config option call" where
  "config_lines host vars [] cf = Ret (Some cf)"
| "config_lines host vars (l # ls) cf =
    (case config_line host vars l cf of
       Overrun \<Rightarrow> Overrun | Stuck \<Rightarrow> Stuck
     | Ret None \<Rightarrow> Ret None
     | Ret (Some cf) \<Rightarrow> config_lines host vars ls cf)"

text \<open>
  The upstream proxy; a failure of \<open>proxy_new\<close> leaves \<open>up_proxy\<close> NULL.  The port is
  uninitialised if the file does not set it: \<open>port0\<close>.
\<close>

definition config_proxy :: "(bytes \<Rightarrow> bytes option) \<Rightarrow> int \<Rightarrow> config \<Rightarrow> t_proxy option" where
  "config_proxy host port0 cf =
    (let s = (\<lambda>n. case cf_str cf n of None \<Rightarrow> [] | Some v \<Rightarrow> v);
         port = word_of_int (case cf_num cf (str ''UP_PROXY_PORT'') of None \<Rightarrow> port0 | Some n \<Rightarrow> n);
         new = proxy_new True True True (host (s (str ''UP_PROXY_ADDR''))) (word_of_int (cf_proxy_type cf)) port
     in if cf_proxy_type cf = 0 then None
        else case (if s (str ''UP_PROXY_USER'') \<noteq> []
                   then new PROXY_FL_AUTH (Some (s (str ''UP_PROXY_USER''))) (Some (s (str ''UP_PROXY_PASSWD'')))
                   else new 0 None None) of
          Inl _ \<Rightarrow> None | Inr px \<Rightarrow> Some px)"

definition config_init :: config where
  "config_init = \<lparr>cf_var = [], cf_val = [], cf_num = Map.empty, cf_str = Map.empty, cf_addr = Map.empty,
    cf_policy = FP_ALLOW, cf_excepts = [], cf_proxy_type = 0\<rparr>"

text \<open>\<open>None\<close> for the file is one that cannot be opened.\<close>

definition load_config ::
  "(bytes \<Rightarrow> bytes option) \<Rightarrow> (bytes \<times> var_kind) list \<Rightarrow> int \<Rightarrow> bytes list option \<Rightarrow> (config \<times> t_proxy option) option call" where
  "load_config host vars port0 file =
    (case file of
       None \<Rightarrow> Ret None
     | Some ls \<Rightarrow>
         (case config_lines host vars ls config_init of
            Overrun \<Rightarrow> Overrun | Stuck \<Rightarrow> Stuck
          | Ret None \<Rightarrow> Ret None
          | Ret (Some cf) \<Rightarrow> Ret (Some (cf, config_proxy host port0 cf))))"

definition load_config_local :: "(bytes \<Rightarrow> bytes option) \<Rightarrow> int \<Rightarrow> bytes list option \<Rightarrow> (config \<times> t_proxy option) option call" where
  "load_config_local host = load_config host vars_local"

definition load_config_remote :: "(bytes \<Rightarrow> bytes option) \<Rightarrow> int \<Rightarrow> bytes list option \<Rightarrow> (config \<times> t_proxy option) option call" where
  "load_config_remote host = load_config host vars_remote"

section \<open>Numbers are read as they are printed\<close>

lemma digit_char:
  assumes "n < 10"
  shows "is_digit (48 + of_nat n)" "uint (48 + of_nat n :: u8) - 48 = int n"
proof -
  have "list_all (\<lambda>n. is_digit (48 + of_nat n) \<and> uint (48 + of_nat n :: u8) - 48 = int n) [0..<10]" by code_simp
  then have "\<forall>n \<in> set [0..<10]. is_digit (48 + of_nat n) \<and> uint (48 + of_nat n :: u8) - 48 = int n"
    by (simp only: list_all_iff)
  moreover have "n \<in> set [0..<10]" using assms by simp
  ultimately show "is_digit (48 + of_nat n)" "uint (48 + of_nat n :: u8) - 48 = int n" by blast+
qed

lemma digits_value_snoc: "digits_value (ds @ [c]) = 10 * digits_value ds + (uint c - 48)"
  by (simp add: digits_value_def)

lemma digits_read: "digits_value (digits n) = int n \<and> (\<forall>c \<in> set (digits n). is_digit c) \<and> digits n \<noteq> []"
proof (induction n rule: digits.induct)
  case (1 n)
  show ?case
  proof (cases "n < 10")
    case True
    then have "digits n = [] @ [48 + of_nat n]" by (simp add: digits.simps [of n])
    moreover have "digits_value ([] @ [48 + of_nat n]) = int n"
      unfolding digits_value_snoc digit_char(2) [OF True] by (simp add: digits_value_def)
    ultimately show ?thesis using digit_char(1) [OF True] by simp
  next
    case False
    have m: "n mod 10 < 10" by simp
    have "digits n = digits (n div 10) @ [48 + of_nat (n mod 10)]" using False by (simp add: digits.simps [of n])
    moreover have "digits_value (digits (n div 10) @ [48 + of_nat (n mod 10)]) = int n"
      unfolding digits_value_snoc digit_char(2) [OF m] using 1 [OF False] by (simp add: zdiv_int zmod_int)
    ultimately show ?thesis using digit_char(1) [OF m] 1 [OF False] by simp
  qed
qed

text \<open>The characters of a printed number.\<close>

lemma digit_no_space: "is_digit c \<Longrightarrow> \<not> is_space c \<and> c \<noteq> 45 \<and> c \<noteq> 43 \<and> c \<noteq> 0 \<and> c \<noteq> 35"
proof -
  have "list_all (\<lambda>n. is_digit (of_nat n) \<longrightarrow> \<not> is_space (of_nat n) \<and> of_nat n \<noteq> (45::u8) \<and> of_nat n \<noteq> (43::u8) \<and>
      of_nat n \<noteq> (0::u8) \<and> of_nat n \<noteq> (35::u8)) [0..<256]" by code_simp
  then have "\<forall>n \<in> set [0..<256]. is_digit (of_nat n) \<longrightarrow> \<not> is_space (of_nat n) \<and> of_nat n \<noteq> (45::u8) \<and> of_nat n \<noteq> (43::u8) \<and>
      of_nat n \<noteq> (0::u8) \<and> of_nat n \<noteq> (35::u8)" by (simp only: list_all_iff)
  moreover have "unat c \<in> set [0..<256]" using byte_less [of c] by simp
  ultimately show "is_digit c \<Longrightarrow> \<not> is_space c \<and> c \<noteq> 45 \<and> c \<noteq> 43 \<and> c \<noteq> 0 \<and> c \<noteq> 35" by (metis of_nat_unat ucast_id)
qed

lemma scan_show_int: "scan_int (show_int n) = Some n"
proof -
  define m where "m = nat \<bar>n\<bar>"
  note d = digits_read [of m]
  obtain c cs where c: "digits m = c # cs" using d by (cases "digits m") auto
  have all: "takeWhile is_digit (digits m) = digits m" using d by (simp add: takeWhile_eq_all_conv)
  have cs: "takeWhile is_digit cs = cs" using d c by simp
  have first: "\<not> is_space c" "c \<noteq> 45" "c \<noteq> 43" using d c digit_no_space [of c] by auto
  have minus: "\<not> is_space 45" by code_simp
  show ?thesis
  proof (cases "n < 0")
    case True
    then have "show_int n = 45 # digits m" by (simp add: show_int_def m_def)
    then show ?thesis using minus d c True by (simp add: scan_int_def Let_def m_def cs del: takeWhile_eq_all_conv)
  next
    case False
    then have "show_int n = digits m" by (simp add: show_int_def m_def)
    then show ?thesis using first d c False by (simp add: scan_int_def Let_def m_def cs del: takeWhile_eq_all_conv)
  qed
qed

lemma show_int_chars: "\<forall>c \<in> set (show_int n). \<not> is_space c \<and> c \<noteq> 0 \<and> c \<noteq> 35" "show_int n \<noteq> []"
proof -
  have minus: "\<not> is_space 45" by code_simp
  have "\<forall>c \<in> set (digits m). \<not> is_space c \<and> c \<noteq> 0 \<and> c \<noteq> 35" for m
    using digits_read [of m] digit_no_space by blast
  then show "\<forall>c \<in> set (show_int n). \<not> is_space c \<and> c \<noteq> 0 \<and> c \<noteq> 35" using minus by (auto simp: show_int_def)
  show "show_int n \<noteq> []" using digits_read by (simp add: show_int_def)
qed

section \<open>Lines\<close>

text \<open>A word of a line: no white space, no end of the string, no comment.\<close>

definition is_word :: "bytes \<Rightarrow> bool" where
  "is_word w \<longleftrightarrow> w \<noteq> [] \<and> (\<forall>c \<in> set w. \<not> is_space c \<and> c \<noteq> 0 \<and> c \<noteq> 35)"

definition assignment :: "bytes \<Rightarrow> bytes \<Rightarrow> bytes" where
  "assignment v w = v @ [32, 61, 32] @ w @ [10]"

lemma space_chars: "is_space 32" "is_space 10" "\<not> is_space 61"
  by code_simp+

lemma takeWhile_word: "\<forall>c \<in> set w. \<not> is_space c \<Longrightarrow> is_space b \<Longrightarrow> takeWhile (\<lambda>c. \<not> is_space c) (w @ b # r) = w"
  by (simp add: takeWhile_append2)

lemma dropWhile_word: "is_word w \<Longrightarrow> dropWhile is_space (w @ r) = w @ r"
  by (cases w) (auto simp: is_word_def)

lemma scan_assignment:
  assumes "is_word v" "is_word w" "length v < 32"
  shows "scan_line (assignment v w) = (Some v, Some w)"
proof -
  have v: "takeWhile (\<lambda>c. \<not> is_space c) (assignment v w) = v"
    using assms(1) space_chars by (simp add: assignment_def is_word_def takeWhile_append2)
  have w: "takeWhile (\<lambda>c. \<not> is_space c) (w @ [10]) = w"
    using assms(2) space_chars by (simp add: is_word_def takeWhile_append2)
  have "dropWhile is_space (assignment v w) = assignment v w"
    using dropWhile_word [OF assms(1)] by (simp add: assignment_def)
  moreover have "dropWhile is_space (drop (length v) (assignment v w)) = 61 # 32 # w @ [10]"
    using space_chars by (simp add: assignment_def)
  moreover have "dropWhile is_space (32 # w @ [10]) = w @ [10]"
    using dropWhile_word [OF assms(2)] space_chars by simp
  moreover have "assignment v w \<noteq> []" by (simp add: assignment_def)
  ultimately show ?thesis
    using assms(3) w by (simp add: scan_line_def v Let_def)
qed

lemma no_comment:
  assumes "is_word v" "is_word w"
  shows "takeWhile (\<lambda>c. c \<noteq> 0 \<and> c \<noteq> 35) (assignment v w) = assignment v w"
  using assms by (auto simp: assignment_def is_word_def takeWhile_eq_all_conv)

lemma config_assignment:
  assumes "is_word v" "is_word w" "length v < 32"
  shows "config_line host vars (assignment v w) cf = apply_line host vars (cf\<lparr>cf_var := v, cf_val := w\<rparr>)"
  using assms(3) by (simp add: config_line_def no_comment [OF assms(1,2)] scan_assignment [OF assms])

text \<open>A line without a word, or with a comment only: the last assignment is repeated.\<close>

lemma config_blank:
  assumes "\<forall>c \<in> set s. is_space c"
  shows "config_line host vars s cf = apply_line host vars cf"
    "config_line host vars (s @ 35 # r) cf = apply_line host vars cf"
proof -
  have "\<forall>c. is_space c \<longrightarrow> c \<noteq> 0 \<and> c \<noteq> 35" by (auto simp: is_space_def)
  then have t: "takeWhile (\<lambda>c. c \<noteq> 0 \<and> c \<noteq> 35) s = s" "takeWhile (\<lambda>c. c \<noteq> 0 \<and> c \<noteq> 35) (s @ 35 # r) = s"
    using assms by (auto simp: takeWhile_eq_all_conv takeWhile_append2)
  have n: "scan_line s = (None, None)"
    using assms by (simp add: scan_line_def)
  show "config_line host vars s cf = apply_line host vars cf" unfolding config_line_def t n by simp
  show "config_line host vars (s @ 35 # r) cf = apply_line host vars cf" unfolding config_line_def t n by simp
qed

lemma num_names: "list_all (\<lambda>(v, k). map_of vars_remote v = Some k \<and> v \<noteq> [] \<and> length v < 32 \<and>
    list_all (\<lambda>c. \<not> is_space c \<and> c \<noteq> 0 \<and> c \<noteq> 35) v \<and> v \<noteq> str ''FILTER_POLICY'' \<and> v \<noteq> str ''FILTER_EXCEPTION'' \<and>
    v \<noteq> str ''UP_PROXY_TYPE'') vars_remote"
  by code_simp

lemma var_names:
  assumes "(v, k) \<in> set vars_remote"
  shows "map_of vars_remote v = Some k" "is_word v" "length v < 32"
    "v \<noteq> str ''FILTER_POLICY''" "v \<noteq> str ''FILTER_EXCEPTION''" "v \<noteq> str ''UP_PROXY_TYPE''"
  using num_names assms by (auto simp: list_all_iff is_word_def)

lemma config_number:
  assumes "(v, VNum) \<in> set vars_remote"
  shows "config_line host vars_remote (assignment v (show_int n)) cf =
    Ret (Some (cf\<lparr>cf_var := v, cf_val := show_int n, cf_num := (cf_num cf)(v \<mapsto> n)\<rparr>))"
proof -
  note v = var_names [OF assms]
  have w: "is_word (show_int n)" using show_int_chars by (simp add: is_word_def)
  have "v \<noteq> []" using v(2) by (simp add: is_word_def)
  then show ?thesis
    using v show_int_chars(2) unfolding config_assignment [OF v(2) w v(3)]
    by (simp add: apply_line_def set_var_def atoi_def scan_show_int)
qed

text \<open>An exception with a mask of fewer bits, repeated by a blank line, comes back as one address.\<close>

lemma exception_twice:
  assumes "host name = Some ip" "length ip = 4" "is_word name" "47 \<notin> set name" "\<forall>c \<in> set s. is_space c"
    "length (cf_excepts cf) < 255" "0 \<le> n" "n \<le> 32"
  shows "config_lines host vars [assignment (str ''FILTER_EXCEPTION'') (name @ [47] @ show_int n), s] cf =
    Ret (Some (cf\<lparr>cf_var := str ''FILTER_EXCEPTION'', cf_val := name,
      cf_excepts := cf_excepts cf @ [(ip, n), (ip, 32)]\<rparr>))"
proof -
  let ?v = "str ''FILTER_EXCEPTION''" and ?w = "name @ [47] @ show_int n"
  have v: "is_word ?v" "length ?v < 32" "?v \<noteq> []" "?v \<noteq> str ''FILTER_POLICY''" by (code_simp)+
  have slash: "\<not> is_space 47" by code_simp
  have w: "is_word ?w" using assms(3) show_int_chars slash by (auto simp: is_word_def)
  have "\<forall>c \<in> set name. c \<noteq> 47" using assms(4) by auto
  then have nm: "takeWhile (\<lambda>c. c \<noteq> 47) ?w = name" "dropWhile (\<lambda>c. c \<noteq> 47) ?w = 47 # show_int n" "takeWhile (\<lambda>c. c \<noteq> 47) name = name"
    by (simp_all add: takeWhile_append2 dropWhile_append2 takeWhile_eq_all_conv)
  have u: "scan_unsigned (show_int n) = Some n" using assms(7,8) by (simp add: scan_unsigned_def scan_show_int)
  let ?cf1 = "cf\<lparr>cf_var := ?v, cf_val := name, cf_excepts := cf_excepts cf @ [(ip, n)]\<rparr>"
  have 1: "config_line host vars (assignment ?v ?w) cf = Ret (Some ?cf1)"
    unfolding config_assignment [OF v(1) w v(2)] apply_line_def add_exception_def
    using assms v u by (simp add: MAX_FILTER_EXCEPTS_def Let_def nm del: takeWhile_eq_all_conv append.simps)
  have 2: "config_line host vars s ?cf1 = Ret (Some (cf\<lparr>cf_var := ?v, cf_val := name,
      cf_excepts := cf_excepts cf @ [(ip, n), (ip, 32)]\<rparr>))"
    unfolding config_blank(1) [OF assms(5)] apply_line_def add_exception_def
    using assms v by (simp add: MAX_FILTER_EXCEPTS_def Let_def is_word_def nm del: takeWhile_eq_all_conv)
  show ?thesis by (simp only: config_lines.simps 1 2 call.case option.case)
qed

end
