(* ===== verification/Tunnel.thy ===== *)
theory Tunnel
  imports UpSession Relay ProxyConfig
begin

text \<open>
  The proxies together: the SOCKS dialogue between \<open>proxy_connect\<close> of \<open>src/up_proxy.c\<close> and
  \<open>negotiate\<close> of \<open>src/child_remote.c\<close>, and the delivery of the bytes of CTCP to the SOCKS
  client.
\<close>

section \<open>The dialogue\<close>

text \<open>The ports of the CTCP sockets have the four digits that the seven bytes have room for.\<close>

lemma digits_step: "10 \<le> n \<Longrightarrow> length (digits n) = Suc (length (digits (n div 10)))"
  by (simp add: digits.simps [of n])

lemma ctcp_port_digits:
  assumes "START_PORT \<le> p" "p \<le> MAX_PORT"
  shows "length (show_int p) = 4"
proof -
  define n where "n = nat p"
  have n: "1000 \<le> n" "n < 10000" using assms by (auto simp: START_PORT_def MAX_PORT_def n_def)
  then have "10 \<le> n div 10" "10 \<le> n div 10 div 10" "n div 10 div 10 div 10 < 10" by linarith+
  then have "length (digits n) = 4" using n by (simp add: digits_step) (simp add: digits.simps)
  moreover have "\<not> p < 0" using assms by (simp add: START_PORT_def)
  ultimately show ?thesis by (simp add: show_int_def n_def)
qed

text \<open>A poll at which the proxy's answer is there, and what is made of it.\<close>

definition answered :: "bytes \<Rightarrow> penv \<Rightarrow> penv" where
  "answered reply e = e\<lparr>e_read := Some reply\<rparr>"

lemma waitmet_reply:
  assumes "length (e_stack e) = 256" "length ps = 4"
  shows "cs_s5_waitmet (answered ([5, 0] @ ps @ [0]) e) c =
    pc_next PROXY_CS_S5_SENDREQ PROXY_CF_WAITWRITE (c\<lparr>pc_ctcp_port := Some (ps @ [0])\<rparr>)"
proof -
  let ?r = "[5, 0] @ ps @ [0]"
  have "take 7 ?r = ?r" using assms(2) by simp
  then have rd: "pc_read (answered ?r e) 7 = (memcpy_at (e_stack e) 0 ?r, 7)"
    using assms(2) by (simp add: pc_read_def answered_def)
  let ?b = "memcpy_at (e_stack e) 0 ?r"
  have b: "?b ! 0 = 5" "?b ! 1 = 0" "take 5 (drop 2 ?b) = ps @ [0]"
    using assms memcpy_at_starts [of ?r "e_stack e" 0] memcpy_at_starts [of ?r "e_stack e" 1]
    by (simp_all add: memcpy_at_def)
  show ?thesis unfolding cs_s5_waitmet_def rd by (simp add: b del: One_nat_def append.simps)
qed

text \<open>A proxy without authentication, and what a connection through it has sent.\<close>

definition plain_socks5 :: "t_proxy \<Rightarrow> bool" where
  "plain_socks5 px \<longleftrightarrow> px_type px = 1 \<and> px_flags px AND PROXY_FL_AUTH = 0 \<and> px_user px = None \<and> px_pwd px = None"

lemma plain_sent:
  assumes "proxy_connect ne es (Some px) (Some name) port PROXY_CMD_CONNECT = Ret (Some c)" "plain_socks5 px"
    "length name < 128" "\<forall>e \<in> set es. length (e_stack e) = 256"
  shows "pc_sent c = ([5, of_nat (length [0 :: u8])] @ [0]) @ s5_req 1 name port"
proof -
  have px: "px_type px = 1" "px_flags px AND PROXY_FL_AUTH = 0" "px_user px = None" "px_pwd px = None"
    using assms(2) by (simp_all add: plain_socks5_def)
  from socks5_connected [OF assms(1) px(1) assms(3) _ _ assms(4)] px show ?thesis
    by (auto simp: s5_methods_def proxy_consts)
qed

end
