(* ===== verification/Inputs.thy ===== *)
theory Inputs
  imports SendStream FastRand
begin

text \<open>
  Concrete inputs at which the properties of the root theory are applied, with the
  evaluations of the model that the applications need.
\<close>

section \<open>One byte at the sender\<close>

text \<open>An allocator that never fails: it returns an address beyond those of the pool.\<close>

definition w_malloc :: "skb_pool \<Rightarrow> addr option" where
  "w_malloc p = Some (Suc (sum_list (p_chunks p)))"

lemma w_malloc_some: "w_malloc p \<noteq> None"
  by (simp add: w_malloc_def)

lemma w_malloc_fresh: "fresh p (w_malloc p)"
proof -
  have "a \<in> set xs \<Longrightarrow> a < Suc (sum_list xs)" for a and xs :: "nat list"
    using member_le_sum_list [of a xs] by simp
  then show ?thesis unfolding fresh_def w_malloc_def by fastforce
qed

definition w_pkt :: "flag \<Rightarrow> u8 \<Rightarrow> u8 \<Rightarrow> u8 \<Rightarrow> bytes \<Rightarrow> data_pckt" where
  "w_pkt fl st n pc pay = \<lparr>d_tstamp = 0, d_flag = flag_code fl, d_seqno = 1, d_blockno = 1,
    d_start_packet = st, d_num_packets = n, d_packet_coeff = pc, d_payload = pay\<rparr>"

definition w_coder :: coder where
  "w_coder = \<lparr>k_pool = skb_pool_init, k_mem = (\<lambda>_. w_pkt NORMAL 0 0 0 [])\<rparr>"

lemma w_coder_good: "pool_good (k_pool w_coder)"
  using pool_init_ok by (auto simp: w_coder_def pool_good_def)

definition w_blk1 :: block where "w_blk1 = fst (readBlock w_malloc block_init w_coder [65])"
definition w_coder1 :: coder where "w_coder1 = fst (snd (readBlock w_malloc block_init w_coder [65]))"

lemma w_read1: "readBlock w_malloc block_init w_coder [65] = (w_blk1, w_coder1, [])"
    "contents w_blk1 w_coder1 = [pack_payload [65]]" "b_len w_blk1 = 1" "b_skb w_blk1 ! 0 = Some 1"
  by (simp_all add: w_blk1_def w_coder1_def readBlock.simps [of _ _ _ "[65]"] readBlock.simps [of _ _ _ "[]"]
      w_malloc_def w_coder_def Let_def alloc_skb_def skb_pool_init_def block_init_def BLOCK_SIZE_def
      PAYLOAD_SIZE_eq put_skb_def set_payload_def take_chunk_def contents_def numeral_eq_Suc)

text \<open>A job that asks for two packets of the block: an uncoded one and a coded one.\<close>

definition w_job :: coding_job_t where
  "w_job = \<lparr>j_blockno = 1, j_start = 0, j_dof_request = 2, j_coding_wnd = 0\<rparr>"

lemma w_draw: "draw_nonzero [3] 1 (Suc 0) = Some (3, packet_coeffs 3 1 1, [])"
  by code_simp

lemma w_alloc_any: "\<exists>p a. alloc_skb (w_malloc q) q = (p, Some a)"
  using alloc_skb_succeeds [OF w_malloc_some] by blast

lemma w_push_back:
  assumes "q_size q < q_max_size q"
  obtains q' where "q_push_back q x = Some q'" "q_size q' = q_size q + 1" "q_max_size q' = q_max_size q"
proof -
  obtain q' where q': "q_push_back q x = Some q'" using q_push_back_None [of q x] assms by force
  then have sz: "q_size q' = q_size q + 1" by (auto simp: q_push_back_def Let_def split: if_splits)
  show ?thesis by (rule that [OF q' sz q_max_size_frame(1) [OF q']])
qed

lemma w_coding: "\<exists>S q. coding_job w_malloc 1 w_job w_blk1 w_coder1 (q_init 64) [3] = Some (S, q, [])"
proof -
  have rows: "\<exists>S q. code_rows 1 w_blk1 [0] w_coder1 (q_init 64) = Some (S, q) \<and> q_size q = 1 \<and> q_max_size q = 64"
    by (rule w_push_back [of "q_init 64 :: addr qbuffer" 1]) (simp_all add: w_read1 Let_def q_init_def)
  moreover have "\<exists>S' q'. code_mixed w_malloc 1 w_blk1 (Suc 0) S q [3] = Some (S', q', [])"
    if sz: "q_size q = 1" "q_max_size q = 64" for S q
  proof -
    obtain p a where "alloc_skb (w_malloc (k_pool S)) (k_pool S) = (p, Some a)"
      using w_alloc_any by blast
    moreover obtain q' where "q_push_back q a = Some q'"
      using q_push_back_None [of q a] sz by force
    ultimately show ?thesis using w_draw by (simp add: w_read1 Let_def del: draw_nonzero.simps)
  qed
  moreover have "[0..min (0 + 2) (int 1) - 1] = [0]" "nat (max 0 (2 - (int 1 - 0))) = Suc 0" by simp_all
  ultimately show ?thesis by (fastforce simp: coding_job_def w_job_def w_read1 Let_def simp del: code_mixed.simps code_rows.simps)
qed

lemma w_blk1_ok: "block_ok w_blk1 w_coder1" "block_packed w_blk1 w_coder1" "pool_good (k_pool w_coder1)"
  using readBlock_correct [OF w_read1(1) block_init_ok w_coder_good] w_malloc_fresh
    readBlock_packed [OF w_read1(1) block_init_ok w_coder_good _ block_packed_init] by simp_all

text \<open>The server accepts the byte.\<close>

definition w_cfg :: cfg where "w_cfg = default_cfg 1 Aimd"

definition w_srv :: server where "w_srv = create_srvctcp_sock w_cfg w_coder"

lemma w_srv_inv: "sender_inv w_srv"
  unfolding w_srv_def by (rule create_inv [OF w_coder_good])

lemma w_srv_stream: "s_stream w_srv = []"
  by (simp add: s_stream_def w_srv_def create_srvctcp_sock_def blk_at_def block_bytes_def contents_def
      block_init_def NUM_BLOCKS_def)

lemma w_bslot1: "bslot 1 = 1"
  by (simp add: bslot_def NUM_BLOCKS_def)

lemma w_step: "\<exists>sk. send_step w_malloc w_srv [65] = Stored sk []"
proof -
  have add: "\<exists>w. addJob (thrpool_init 5) (Job j) LOW = Some w" for j :: coding_job_t
    using q_push_back_None [of "q_init (2 * 5)" "Job j"] by (force simp: addJob_def thrpool_init_def q_init_def)
  have "b_len block_init = 0" by (simp add: block_init_def)
  then show ?thesis
    using add [of "\<lparr>j_blockno = 1, j_start = 0, j_dof_request = 1, j_coding_wnd = 0\<rparr>"]
    by (auto simp: send_step_def w_srv_def create_srvctcp_sock_def w_bslot1 NUM_BLOCKS_def w_read1 Let_def
        THREADS_def)
qed

lemma w_send: "\<exists>sk. send_ctcp w_malloc w_srv [65] = Some (sk, [], AllSent)"
proof -
  obtain sk where "send_step w_malloc w_srv [65] = Stored sk []" using w_step by blast
  moreover have "s_status w_srv = ACTIVE" by (simp add: w_srv_def create_srvctcp_sock_def)
  ultimately show ?thesis by (simp add: send_ctcp.simps [of _ _ "[65]"] send_ctcp.simps [of _ _ "[]"])
qed

text \<open>A path just opened, and the server with it.\<close>

definition w_path0 :: path where
  "w_path0 = \<lparr>OnFly = [], tx_time = [], packets_sent = [], last_ack_time = 0, last_ack_time_user = 0,
    snd_nxt = 0, snd_una = 0, snd_cwnd = 0, snd_ssthresh = 0, idle = 0, srtt = 0, srtt_user
    = 0, rttvar = 0, mdev = 0, mdev_max = 0, rto = 0, slr = 0, slr_long = 0, slr_longstd =
    0, cli_addr = (2, 80, 1), total_loss = 0, minrtt = 0, maxrtt = 0, basertt = 0, p_rtt =
    0, avrgrtt = 0, vdecr = 0, v0 = 0, max_delta = 0, cntrtt = 0, dec_snd_nxt = 0, toggle =
    0, beg_snd_nxt = 0, beg_snd_una = 0, time_snd_nxt = 0, rate = 0, goodput = 0, losscnt =
    0, pathstate = ESTABLISHED\<rparr>"

definition w_path :: path where "w_path = init_stream w_cfg w_path0"

definition w_srv1 :: server where "w_srv1 = w_srv\<lparr>s_paths := [w_path]\<rparr>"

lemma w_path_fields: "snd_nxt w_path = 1" "snd_una w_path = 1" "snd_cwnd w_path = 8" "idle w_path = 0"
    "slr w_path = 0" "slr_long w_path = SLR_LONG_INIT" "s_paths w_srv1 = [w_path]"
  by (simp_all add: w_path_def init_stream_def w_cfg_def default_cfg_def w_srv1_def)

text \<open>The server with one packet in the queue of its block and one degree requested.\<close>

definition w_queue :: "addr qbuffer" where
  "w_queue = the (q_push_back (q_init 64) 1)"

definition w_srv2 :: server where
  "w_srv2 = w_srv1\<lparr>s_coded_q := (s_coded_q w_srv1)[1 := w_queue],
     s_dof_remain := (s_dof_remain w_srv1)[1 := 1], s_dof_req_latest := 1\<rparr>"

lemma w_queue_pop: "\<exists>q. q_pop w_queue = Some (q, Some 1)"
  by (simp add: w_queue_def q_push_back_def q_init_def q_pop_def Let_def modulo_def c_rem_def)

lemma w_srv2_fields: "s_paths w_srv2 = [w_path]" "s_curr_block w_srv2 = 1" "s_maxblockno w_srv2 = 1"
    "s_status w_srv2 = ACTIVE" "s_dof_req_latest w_srv2 = 1" "s_dof_remain w_srv2 ! 1 = 1"
    "s_coded_q w_srv2 ! 1 = w_queue" "length (s_dof_remain w_srv2) = 100" "s_cfg w_srv2 = w_cfg"
  by (simp_all add: w_srv2_def w_srv1_def w_srv_def create_srvctcp_sock_def NUM_BLOCKS_def)

lemma w_segs: "\<exists>sk. send_segs False 1 0 0 w_srv2 = Some sk"
proof -
  have slr: "scaled_slr w_cfg w_path = 0" by (simp add: scaled_slr_def w_path_fields Let_def)
  have win: "path_win w_path = 8" by (simp add: path_win_def w_path_fields)
  have fly: "curr_on_fly 1 1 w_path = 0" by (simp add: curr_on_fly_def w_path_fields)
  have dof: "dof_loop 0 0 1 8 0 = 1" by (simp add: dof_loop.simps [of _ _ _ _ 0] dof_loop.simps [of _ _ _ _ 1] del: One_nat_def)
  obtain sk where one: "send_one 1 0 1 0 w_srv2 = Some sk" and cb: "s_curr_block sk = 1"
    using w_queue_pop by (auto simp: send_one_def w_bslot1 w_srv2_fields Let_def simp del: One_nat_def)
  have run: "send_run 1 0 1 0 (Suc 0) w_srv2 = Some (sent_update 1 0 sk, 1)"
    using one by (simp add: w_bslot1 w_srv2_fields(6) [simplified])
  have seg: "seg_block 1 0 0 1 8 [0] w_srv2 = Some (sent_update 1 0 sk, 7, [0])"
    using run w_srv2_fields(6)
    by (simp add: seg_block_def w_srv2_fields(1-5,9) mean_on_fly_def slr dof request_job_def w_bslot1 Let_def
        del: send_run.simps One_nat_def) simp
  have upd: "s_curr_block (sent_update 1 0 sk) = 1" by (simp add: sent_update_def upd_path_def cb Let_def)
  have upt: "[0..<NUM_BLOCKS + 1] = 0 # 1 # [2..<101]" by (simp add: NUM_BLOCKS_def upt_conv_Cons)
  have "\<not> (2 :: u32) \<le> 1" by (simp add: word_le_nat_alt)
  then have "send_blocks 1 0 0 1 [0..<NUM_BLOCKS + 1] 8 [0] w_srv2 = Some (sent_update 1 0 sk)"
    unfolding upt by (simp add: w_srv2_fields seg upd)
  then show ?thesis by (simp add: send_segs_def w_srv2_fields win fly)
qed

definition w_ack :: "u32 \<Rightarrow> u32 \<Rightarrow> ack_pckt" where
  "w_ack ackno blockno = ackPacket ackno blockno 0 0"

definition w_path2 :: path where
  "w_path2 = w_path\<lparr>basertt := 2, srtt := 1\<rparr>"

section \<open>The byte at the receiver\<close>

definition w_blocks :: "nat \<Rightarrow> block" where
  "w_blocks b = (if b = 1 then w_blk1 else block_init)"

definition w_Ps :: "nat \<Rightarrow> nat \<Rightarrow> nat \<Rightarrow> u8" where
  "w_Ps b = packet_of (w_blocks b) w_coder1"

definition w_raw :: coded_block where
  "w_raw = \<lparr>cb_dofs = 0, cb_len = 0, cb_rows = replicate 32 (replicate 32 0),
    cb_content = replicate 32 None, cb_row_len = replicate 32 0, cb_max_coding_wnd = 0,
    cb_dofs_pushed = 0, cb_max_packet_index = 0, cb_skb = replicate 32 0\<rparr>"

definition w_stack :: bytes where "w_stack = replicate 32 0"

definition w_dec :: decoder where
  "w_dec = decoder_init (replicate NUM_BLOCKS w_raw) skb_pool_init"

definition w_msg :: data_pckt where "w_msg = w_pkt NORMAL 0 1 1 (pack_payload [65])"

lemma w_raw_shape: "shape_ok w_raw"
  by (simp add: shape_ok_def w_raw_def BLOCK_SIZE_def)

lemma w_blocks_ok: "block_ok (w_blocks b) w_coder1" "block_packed (w_blocks b) w_coder1"
  using w_blk1_ok block_init_ok block_packed_init by (simp_all add: w_blocks_def)

lemma w_Ps_lens: "lens_ok (w_Ps b) PAYLOAD_SIZE"
  unfolding w_Ps_def by (rule packet_of_lens [OF w_blocks_ok])

lemma w_pay: "length (pack_payload [65]) = PAYLOAD_SIZE" "payload_data (pack_payload [65]) = [65]"
    "payload_len (pack_payload [65]) = 1"
  using payload_data_pack [of "[65]"] payload_len_pack [of "[65]"] by (simp_all add: PAYLOAD_SIZE_eq)

lemma w_msg_ok: "pkt_ok (w_Ps 1) PAYLOAD_SIZE w_msg"
proof -
  have "pkt_coeffs w_msg = [1]" by (simp add: pkt_coeffs_def w_msg_def w_pkt_def)
  moreover have "w_Ps 1 0 j = pack_payload [65] ! j" for j
    by (simp add: w_Ps_def w_blocks_def packet_of_def w_read1)
  ultimately show ?thesis
    by (simp add: pkt_ok_def w_msg_def w_pkt_def row_sat_def BLOCK_SIZE_def gf_simps w_pay)
qed

lemma w_accepts: "accepts w_Ps PAYLOAD_SIZE w_dec w_msg"
  using w_msg_ok
  by (simp add: accepts_def fits_def)
    (simp add: w_msg_def w_pkt_def w_dec_def decoder_init_def NUM_BLOCKS_def)

definition w_cblk :: "bytes \<Rightarrow> coded_block" where
  "w_cblk pay = insert_row ((initCodedBlock w_raw)\<lparr>cb_max_packet_index := 1\<rparr>) 7 1 0 (w_stack[0 := 1]) pay"

lemma w_cblk_eval: "bld_eliminate w_stack ((initCodedBlock w_raw)\<lparr>cb_max_packet_index := 1\<rparr>) 7
      (w_pkt NORMAL 0 1 1 pay) = Some (w_cblk pay, True)"
  "cb_dofs (w_cblk pay) = 1" "cb_max_packet_index (w_cblk pay) = 1" "cb_len (w_cblk pay) = 32"
  "cb_rows (w_cblk pay) ! 0 ! 0 = 1" "cb_rows (w_cblk pay) ! 1 ! 0 = 255"
  "cb_row_len (w_cblk pay) ! 0 = 1" "cb_content (w_cblk pay) ! 0 = Some pay" "cb_dofs_pushed (w_cblk pay) = 0"
  by code_simp+

definition w_rblk :: coded_block where "w_rblk = w_cblk (pack_payload [65])"

lemmas w_rblk_eval = w_cblk_eval(2-) [of "pack_payload [65]", folded w_rblk_def]

lemma w_elim: "bld_eliminate w_stack ((initCodedBlock w_raw)\<lparr>cb_max_packet_index := 1\<rparr>) 7 w_msg = Some (w_rblk, True)"
  using w_cblk_eval(1) [of "pack_payload [65]"] by (simp add: w_msg_def w_rblk_def)

lemma w_slot1: "slot 1 = 1"
  by (simp add: slot_def NUM_BLOCKS_def)

lemma w_msg_fields: "d_seqno w_msg = 1" "d_blockno w_msg = 1" "d_start_packet w_msg = 0" "d_num_packets w_msg = 1"
  by (simp_all add: w_msg_def w_pkt_def)

lemma w_init_counts: "cb_dofs (initCodedBlock w_raw) = 0" "cb_len (initCodedBlock w_raw) = 32"
    "cb_max_packet_index (initCodedBlock w_raw) = 0"
  by (simp_all add: initCodedBlock_def BLOCK_SIZE_def)

lemma w_dec_fields: "dc_blocks w_dec = replicate 100 (initCodedBlock w_raw)" "dc_curr_block w_dec = 1"
    "dc_usr_cache w_dec = fifo_init 4624000" "dc_pool w_dec = skb_pool_init" "dc_last_seqno w_dec = 0"
  by (simp_all add: w_dec_def decoder_init_def NUM_BLOCKS_def BLOCK_SIZE_def PAYLOAD_SIZE_eq)

lemma w_note: "note_index w_msg w_dec = w_dec\<lparr>dc_blocks :=
    (replicate 100 (initCodedBlock w_raw))[1 := (initCodedBlock w_raw)\<lparr>cb_max_packet_index := 1\<rparr>]\<rparr>"
  by (simp add: note_index_def w_msg_fields w_dec_fields w_init_counts w_slot1 Let_def)

lemma w_place: "place_packet w_stack 7 w_msg (note_index w_msg w_dec) =
    Done (w_dec\<lparr>dc_blocks := (replicate 100 (initCodedBlock w_raw))[1 := w_rblk], dc_last_seqno := 1\<rparr>, True)"
  unfolding w_note
  by (simp add: place_packet_def w_msg_fields w_dec_fields w_init_counts w_slot1 Let_def w_rblk_eval w_elim
      c_MAX_eq_max NUM_BLOCKS_def word_le_nat_alt del: One_nat_def)

definition w_Q :: fifo where
  "w_Q = (fifo_init 4624000)\<lparr>f_q := memcpy_at (replicate 4624000 0) 0 [65], f_tail := 1, f_size := 1\<rparr>"

lemma w_push: "push_payload (fifo_init 4624000) (pack_payload [65]) = Done (w_Q, False)"
  by (simp add: push_payload_def w_pay PAYLOAD_SIZE_eq push_loop.simps [of _ _ "[65]"]
      push_loop.simps [of _ _ "[]"] fifo_push_def fifo_init_def w_Q_def modulo_def c_rem_def)

lemma w_partial: "partial_loop w_rblk (fifo_init 4624000) 0 = Done (w_Q, Some 1)"
proof -
  have "fifo_getspace (fifo_init 4624000) = 4624000" by (simp add: fifo_getspace_def fifo_init_def)
  then show ?thesis
    by (simp add: partial_loop.simps [of _ _ 0] partial_loop.simps [of _ _ 1] w_rblk_eval BLOCK_SIZE_def w_push
        w_pay del: One_nat_def)
qed

definition w_dec1 :: decoder where
  "w_dec1 = w_dec\<lparr>dc_blocks := (replicate 100 (initCodedBlock w_raw))[1 := w_rblk\<lparr>cb_dofs_pushed := 1\<rparr>],
    dc_last_seqno := 1, dc_usr_cache := w_Q, dc_acks := 1,
    dc_pool := free_skb 9 (fst (alloc_skb (Some 9) skb_pool_init))\<rparr>"

lemma w_alloc: "alloc_skb (Some 9) skb_pool_init = (fst (alloc_skb (Some 9) skb_pool_init), Some 9)"
  by (simp add: alloc_skb_def skb_pool_init_def Let_def)

lemma w_unwrap: "unwrap w_rblk = Some w_rblk"
  by (simp add: unwrap_def w_rblk_eval)

lemma w_bldack: "\<exists>ack. bldack (\<lambda>_. Some 9) w_stack 0 7 w_msg (note_index w_msg w_dec) = Done (w_dec1, ack)"
proof -
  let ?d = "w_dec\<lparr>dc_blocks := (replicate 100 (initCodedBlock w_raw))[1 := w_rblk], dc_last_seqno := 1,
    dc_pool := free_skb 9 (fst (alloc_skb (Some 9) skb_pool_init)), dc_acks := 1\<rparr>"
  have pw: "partial_write ?d = Done w_dec1"
    by (simp add: partial_write_def w_dec_fields w_slot1 w_rblk_eval w_unwrap w_partial Let_def w_dec1_def
        del: One_nat_def)
  have dl: "decode_loop w_dec1 = Done w_dec1"
    by (simp add: decode_loop.simps [of w_dec1] Let_def)
      (simp add: w_dec1_def w_dec_fields w_slot1 w_rblk_eval Let_def del: One_nat_def)
  have acks: "dc_acks w_dec = 0" by (simp add: w_dec_def decoder_init_def)
  show ?thesis
    using pw dl acks
    by (simp add: bldack_def w_place Let_def w_dec_fields w_slot1 w_rblk_eval del: One_nat_def)
      (subst w_alloc, simp add: w_slot1 w_rblk_eval del: One_nat_def)
qed

lemma w_read: "fifo_pop w_Q 1 = Some (w_Q\<lparr>f_head := 1, f_size := 0\<rparr>, [65])"
  by (simp add: fifo_pop_def w_Q_def fifo_init_def memcpy_at_def modulo_def c_rem_def)

text \<open>The packet arrives and the application reads its byte.\<close>

definition w_dec2 :: decoder where
  "w_dec2 = w_dec1\<lparr>dc_usr_cache := w_Q\<lparr>f_head := 1, f_size := 0\<rparr>\<rparr>"

lemma w_ranges: "unat (dc_curr_block w_dec) + 2 * NUM_BLOCKS < 2 ^ 31" "length w_stack = BLOCK_SIZE"
    "length (replicate NUM_BLOCKS w_raw) = NUM_BLOCKS" "1 \<le> unat (dc_curr_block w_dec)"
  by (simp_all add: w_dec_fields NUM_BLOCKS_def w_stack_def BLOCK_SIZE_def)

lemma w_run: "dec_run w_Ps PAYLOAD_SIZE (replicate NUM_BLOCKS w_raw) w_dec2 [65]"
proof -
  obtain ack where bl: "bldack (\<lambda>_. Some 9) w_stack 0 7 w_msg (note_index w_msg w_dec) = Done (w_dec1, ack)"
    using w_bldack by blast
  have start: "dec_run w_Ps PAYLOAD_SIZE (replicate NUM_BLOCKS w_raw) w_dec []"
    unfolding w_dec_def by (rule dec_start)
  have "dec_run w_Ps PAYLOAD_SIZE (replicate NUM_BLOCKS w_raw) w_dec1 []"
    by (rule dec_recv [OF start w_accepts w_ranges(2,1) _ bl]) simp
  moreover have "fifo_pop (dc_usr_cache w_dec1) 1 = Some (w_Q\<lparr>f_head := 1, f_size := 0\<rparr>, [65])"
    using w_read by (simp add: w_dec1_def)
  ultimately show ?thesis using dec_read [of w_Ps PAYLOAD_SIZE _ w_dec1 "[]" 1] unfolding w_dec2_def by fastforce
qed

lemma w_cblk0: "block_inv P L ((initCodedBlock w_raw)\<lparr>cb_max_packet_index := 1\<rparr>)"
  by (rule block_inv_mpi [OF init_block_inv [OF w_raw_shape]]) (simp_all add: w_init_counts BLOCK_SIZE_def)

lemma w_dec1_scan: "cb_dofs (dc_blocks w_dec1 ! slot 1) = 1" "cb_len (dc_blocks w_dec1 ! slot 1) = 32" "dc_curr_block w_dec1 = 1"
  by (simp_all add: w_dec1_def w_dec_fields w_slot1 w_rblk_eval)

section \<open>Three coded packets of one byte\<close>

definition w_P3 :: "nat \<Rightarrow> nat \<Rightarrow> u8" where
  "w_P3 k j = [10, 20, 30] ! k"

definition w_mixed :: "u8 \<Rightarrow> u8 \<Rightarrow> data_pckt" where
  "w_mixed n pc = w_pkt CODED 0 n pc [fold (\<lambda>i a. a XOR FFmult (packet_coeffs pc 1 (unat n) ! i) (w_P3 i 0)) [0..<unat n] 0]"

lemma w_mixed_ok: "0 < n \<Longrightarrow> n \<le> 3 \<Longrightarrow> pkt_ok w_P3 1 (w_mixed n pc)"
proof -
  have "gf_of (fold (\<lambda>i a. a XOR FFmult (cs ! i) (w_P3 i 0)) [0..<m] 0) = (\<Sum>i<m. gf_of (cs ! i) * gf_of (w_P3 i 0))" for cs m
    by (induction m) (simp_all add: gf_simps)
  moreover assume "0 < n" "n \<le> 3"
  ultimately show ?thesis
    by (auto simp: pkt_ok_def w_mixed_def w_pkt_def row_sat_def BLOCK_SIZE_def pkt_coeffs_def word_le_nat_alt)
qed

fun bld_feed :: "coded_block \<Rightarrow> data_pckt list \<Rightarrow> coded_block option" where
  "bld_feed blk [] = Some blk"
| "bld_feed blk (m # ms) =
    Option.bind (bld_eliminate w_stack blk 0 m) (\<lambda>(blk, save). bld_feed blk ms)"

definition w_blk3 :: coded_block where
  "w_blk3 = (initCodedBlock w_raw)\<lparr>cb_max_packet_index := 3\<rparr>"

definition w_full :: coded_block where
  "w_full = the (bld_feed w_blk3 [w_mixed 3 1, w_mixed 3 2, w_mixed 3 3])"

lemma w_feed: "bld_feed w_blk3 [w_mixed 3 1, w_mixed 3 2, w_mixed 3 3] = Some w_full"
  "cb_dofs w_full = 3" "cb_max_packet_index w_full = 3"
proof -
  let ?b = "bld_feed w_blk3 [w_mixed 3 1, w_mixed 3 2, w_mixed 3 3]"
  have "map_option (\<lambda>b. (cb_dofs b, cb_max_packet_index b)) ?b = Some (3, 3)" by code_simp
  then show "?b = Some w_full" "cb_dofs w_full = 3" "cb_max_packet_index w_full = 3"
    by (auto simp: w_full_def simp del: bld_feed.simps)
qed

lemma bld_feed_inv:
  "bld_feed blk ms = Some blk' \<Longrightarrow> block_inv P L blk \<Longrightarrow> cb_max_coding_wnd blk \<le> n \<Longrightarrow>
    \<forall>m \<in> set ms. pkt_ok P L m \<and> unat (d_num_packets m) = n \<and>
      unat (d_start_packet m) + n \<le> cb_max_packet_index blk \<Longrightarrow> block_inv P L blk'"
proof (induction ms arbitrary: blk)
  case (Cons m ms)
  have ok: "pkt_ok P L m" "unat (d_num_packets m) = n" "unat (d_start_packet m) + unat (d_num_packets m) \<le> cb_max_packet_index blk"
    using Cons.prems by auto
  have "fits blk (unat (d_num_packets m))" using ok(2) Cons.prems(3) by (simp add: fits_def)
  then obtain b sv where b: "bld_eliminate w_stack blk 0 m = Some (b, sv)" "elim_post P L blk n b sv"
    using bld_eliminate_correct [OF Cons.prems(2) ok(1) w_ranges(2) _ ok(3)] ok(2) by metis
  then show ?case using Cons.prems Cons.IH [of b] by (auto simp: elim_post_def)
qed simp

end
