(* ===== verification/SrvConn.thy ===== *)
theory SrvConn
  imports SendStream
begin

text \<open>
  Connection management of \<open>src/srvctcp.c\<close>: \<open>listen_srvctcp\<close>, the thread
  \<open>server_worker\<close> with the handling of SYN, FIN and of timeouts, \<open>removePath\<close>,
  \<open>send_flag\<close> and \<open>close_srvctcp\<close>.  What the outside world decides is the argument of each
  step: the outcome of \<open>select\<close> and of the read, the clock, whether \<open>sendto\<close> succeeds, the
  contents of memory that is not initialised.  All readings of the clock in one turn of a
  loop are one value.  \<open>None\<close> is a thread that waits for ever, or a run whose list of
  outcomes ends before the loop does.
\<close>

section \<open>Outcomes of a read\<close>

text \<open>
  \<open>timedread\<close> returns 0, a negative number or a positive one; in the last case the read
  fails or leaves a packet in the buffer.
\<close>

datatype 'm reading = ReadTimeout | SelectFails | RecvFails | Got sockaddr 'm

record srv_env =
  v_now :: real
  v_ts :: u64
  v_double :: "u64 \<Rightarrow> real"
  v_sent :: "nat \<Rightarrow> bool"
  v_stack :: data_pckt
  v_path :: path
  v_woken :: bool

definition CONTROL_MAX_RETRIES :: nat where "CONTROL_MAX_RETRIES = 10"

text \<open>A step may also read outside an array or follow NULL.\<close>

datatype 'a turn = Crash | Waits | Ran 'a

section \<open>Addresses and paths\<close>

definition sockaddr_cmp4 :: "sockaddr \<Rightarrow> sockaddr \<Rightarrow> int" where
  "sockaddr_cmp4 addr1 addr2 =
    (case (addr1, addr2) of ((family1, port1, ip1), (family2, port2, ip2)) \<Rightarrow>
       if family1 \<noteq> family2 then 1 else if port1 \<noteq> port2 then 1 else if ip1 \<noteq> ip2 then 1 else 0)"

text \<open>The search of the path a packet came from: the number of paths if there is none.\<close>

fun find_path :: "sockaddr \<Rightarrow> path list \<Rightarrow> nat" where
  "find_path a [] = 0"
| "find_path a (p # ps) = (if sockaddr_cmp4 a (cli_addr p) = 0 then 0 else Suc (find_path a ps))"

definition removePath :: "server \<Rightarrow> nat \<Rightarrow> server" where
  "removePath sk dead_index = sk\<lparr>s_paths := take dead_index (s_paths sk) @ drop (Suc dead_index) (s_paths sk)\<rparr>"

definition set_states :: "srvpath \<Rightarrow> server \<Rightarrow> server" where
  "set_states st sk = sk\<lparr>s_paths := map (\<lambda>p. p\<lparr>pathstate := st\<rparr>) (s_paths sk)\<rparr>"

text \<open>
  A control packet.  The sequence number and the payload are what the stack holds.  The
  flag is the result 0; the loop around \<open>sendto\<close> is \<open>sendto_loop\<close>.
\<close>

definition send_flag :: "srv_env \<Rightarrow> nat \<Rightarrow> flag \<Rightarrow> server \<Rightarrow> server \<times> bool" where
  "send_flag ev path_id fl sk =
    (let msg = (v_stack ev)\<lparr>d_flag := flag_code fl, d_blockno := s_curr_block sk, d_num_packets := 0,
           d_start_packet := 0, d_packet_coeff := 0, d_tstamp := v_ts ev\<rparr>
     in if v_sent ev path_id then (sk\<lparr>s_sent := s_sent sk @ [(path_id, msg)]\<rparr>, True) else (sk, False))"

fun send_flags :: "srv_env \<Rightarrow> flag \<Rightarrow> nat list \<Rightarrow> server \<Rightarrow> server" where
  "send_flags ev fl [] sk = sk"
| "send_flags ev fl (i # is) sk = send_flags ev fl is (fst (send_flag ev i fl sk))"

text \<open>\<open>tx_time[0]\<close> keeps the time of a SYN-ACK.\<close>

definition stamp_syn :: "real \<Rightarrow> path \<Rightarrow> path" where
  "stamp_syn now p = p\<lparr>tx_time := (tx_time p)[0 := now]\<rparr>"

section \<open>listen\<close>

text \<open>
  \<open>listen_srvctcp\<close> on a new socket; the flag is the result 0, after which the thread
  \<open>server_worker\<close> runs.
\<close>

definition worker_init :: "server \<Rightarrow> server" where
  "worker_init sk = sk\<lparr>s_dof_req_latest := int (b_len (s_blocks sk ! bslot (s_curr_block sk)))\<rparr>"

definition listen_srvctcp :: "srv_env \<Rightarrow> addr option \<Rightarrow> ack_pckt reading \<Rightarrow> server \<Rightarrow> server \<times> bool" where
  "listen_srvctcp ev m r sk =
    (case alloc_skb m (k_pool (s_coder sk)) of
       (pool, None) \<Rightarrow> (sk\<lparr>s_coder := (s_coder sk)\<lparr>k_pool := pool\<rparr>\<rparr>, False)
     | (pool, Some skb) \<Rightarrow>
         let with_pool = (\<lambda>sk pool. sk\<lparr>s_coder := (s_coder sk)\<lparr>k_pool := pool\<rparr>\<rparr>) in
         (case r of
            Got a ack \<Rightarrow>
              if a_flag ack = flag_code SYN then
                let stream = (init_stream (s_cfg sk) (v_path ev))\<lparr>cli_addr := a, pathstate := SYN_RECV\<rparr>;
                    (sk, ok) = send_flag ev 0 SYN_ACK (with_pool (sk\<lparr>s_paths := [stream]\<rparr>) pool);
                    sk = (if ok then upd_path 0 (\<lambda>p. (stamp_syn (v_now ev) p)\<lparr>pathstate := SYN_ACK_SENT\<rparr>) sk
                          else sk)
                in (with_pool sk (free_skb skb pool), True)
              else (with_pool sk (free_skb skb pool), False)
          | _ \<Rightarrow> (with_pool sk pool, False)))"

section \<open>A packet from an unknown path\<close>

definition add_path :: "srv_env \<Rightarrow> sockaddr \<Rightarrow> server \<Rightarrow> server" where
  "add_path ev a sk =
    (let n = length (s_paths sk);
         p = (init_stream (s_cfg sk) (v_path ev))\<lparr>cli_addr := a, pathstate := SYN_RECV,
               last_ack_time := v_now ev, last_ack_time_user := 0\<rparr>;
         sk = fst (send_flag ev n SYN_ACK (sk\<lparr>s_paths := s_paths sk @ [p]\<rparr>))
     in upd_path n (\<lambda>p. (stamp_syn (v_now ev) p)\<lparr>pathstate := SYN_ACK_SENT\<rparr>) sk)"

section \<open>A packet from a known path\<close>

definition establish :: "real \<Rightarrow> path \<Rightarrow> path" where
  "establish now p =
    (let p = p\<lparr>srtt := now - tx_time p ! 0, srtt_user := 0\<rparr>;
         p = p\<lparr>mdev := srtt p, mdev_max := RTO_MIN / 4, rttvar := RTO_MIN / 4\<rparr>
     in p\<lparr>tx_time := (tx_time p)[0 := 0], pathstate := ESTABLISHED\<rparr>)"

fun send_all :: "srv_env \<Rightarrow> nat list \<Rightarrow> server \<Rightarrow> server option" where
  "send_all ev [] sk = Some sk"
| "send_all ev (i # is) sk =
    (case send_segs (v_woken ev) (v_now ev) (v_ts ev) i sk of
       None \<Rightarrow> None
     | Some sk \<Rightarrow> send_all ev is sk)"

definition recv_normal :: "srv_env \<Rightarrow> nat \<Rightarrow> ack_pckt \<Rightarrow> server \<Rightarrow> server option" where
  "recv_normal ev i ack sk =
    (if pathstate (s_paths sk ! i) \<noteq> SYN_ACK_SENT \<and> pathstate (s_paths sk ! i) \<noteq> ESTABLISHED then Some sk
     else if pathstate (s_paths sk ! i) = SYN_ACK_SENT then
       send_segs (v_woken ev) (v_now ev) (v_ts ev) i (upd_path i (establish (v_now ev)) sk)
     else
       (case handle_ack (v_now ev) (v_double ev (a_tstamp ack)) ack i (sk\<lparr>s_ipkts := s_ipkts sk + 1\<rparr>) of
          (sk, True) \<Rightarrow> send_all ev [0..<length (s_paths sk)] sk
        | (sk, False) \<Rightarrow> Some sk))"

definition recv_syn :: "srv_env \<Rightarrow> nat \<Rightarrow> server \<Rightarrow> server" where
  "recv_syn ev i sk =
    (if pathstate (s_paths sk ! i) = SYN_ACK_SENT
     then upd_path i (stamp_syn (v_now ev)) (fst (send_flag ev i SYN_ACK sk)) else sk)"

text \<open>
  The loop after a FIN.  \<open>fl\<close> is the flag of the packet in the buffer, \<open>tries\<close> the failed
  attempts; an outcome comes with whether another thread has meanwhile closed the
  socket.  The last component is the final \<open>rto_max\<close>.
\<close>

definition fin_step :: "srv_env \<Rightarrow> u32 \<Rightarrow> nat \<Rightarrow> real \<Rightarrow> server \<Rightarrow> ack_pckt reading \<times> bool \<Rightarrow> u32 \<times> nat \<times> real \<times> server" where
  "fin_step ev fl tries rto_max sk e =
    (let sk = (if fl = flag_code FIN
               then set_states FIN_ACK_SENT (send_flags ev FIN_ACK [0..<length (s_paths sk)] sk) else sk);
         sk = (if snd e then sk\<lparr>s_status := CLOSED\<rparr> else sk)
     in case fst e of
          RecvFails \<Rightarrow> (fl, tries + 1, rto_max, sk\<lparr>s_error := CLOSE_ERR\<rparr>)
        | Got a ack \<Rightarrow>
            if a_flag ack = flag_code FIN_ACK
            then (a_flag ack, tries, rto_max, (set_states CLOSING sk)\<lparr>s_status := CLOSED, s_error := NONE\<rparr>)
            else if a_flag ack = flag_code FIN then (a_flag ack, tries + 1, rto_max, sk)
            else (a_flag ack, tries, rto_max, sk)
        | ReadTimeout \<Rightarrow> (fl, tries + 1, 2 * rto_max, sk\<lparr>s_error := CLOSE_ERR\<rparr>)
        | SelectFails \<Rightarrow> (fl, tries, rto_max, sk))"

fun fin_loop :: "srv_env \<Rightarrow> u32 \<Rightarrow> nat \<Rightarrow> real \<Rightarrow> server \<Rightarrow> (ack_pckt reading \<times> bool) list \<Rightarrow> (server \<times> real) option" where
  "fin_loop ev fl tries rto_max sk [] = None"
| "fin_loop ev fl tries rto_max sk (e # es) =
    (case fin_step ev fl tries rto_max sk e of
       (fl, tries, rto_max, sk) \<Rightarrow>
         if s_status sk \<noteq> CLOSED \<and> tries < CONTROL_MAX_RETRIES then fin_loop ev fl tries rto_max sk es
         else Some (sk, rto_max))"

definition rto_max_of :: "path list \<Rightarrow> real" where
  "rto_max_of ps = foldl (\<lambda>m p. if rto p > m then rto p else m) 0 ps"

definition recv_fin :: "srv_env \<Rightarrow> nat \<Rightarrow> ack_pckt \<Rightarrow> (ack_pckt reading \<times> bool) list \<Rightarrow> server \<Rightarrow> server option" where
  "recv_fin ev i ack rs sk =
    (if pathstate (s_paths sk ! i) \<noteq> CLOSING \<and> pathstate (s_paths sk ! i) \<noteq> FIN_ACK_RECV then
       let sk = (upd_path i (\<lambda>p. p\<lparr>pathstate := FIN_RECV\<rparr>) sk)\<lparr>s_status := SK_CLOSING\<rparr> in
       map_option (\<lambda>(sk, m). (set_states CLOSING sk)\<lparr>s_status := CLOSED\<rparr>)
         (fin_loop ev (a_flag ack) 0 (rto_max_of (s_paths sk)) sk rs)
     else Some sk)"

definition recv_known :: "srv_env \<Rightarrow> real \<Rightarrow> real \<Rightarrow> nat \<Rightarrow> ack_pckt \<Rightarrow> (ack_pckt reading \<times> bool) list \<Rightarrow> server \<Rightarrow> server option" where
  "recv_known ev rcvt rcvt_user i ack rs sk =
    (let sk = upd_path i (\<lambda>p. p\<lparr>last_ack_time := rcvt, last_ack_time_user := rcvt_user\<rparr>) sk in
     if a_flag ack = flag_code NORMAL then recv_normal ev i ack sk
     else if a_flag ack = flag_code SYN then Some (recv_syn ev i sk)
     else if a_flag ack = flag_code FIN then recv_fin ev i ack rs sk
     else Some sk)"

section \<open>Timeouts\<close>

text \<open>
  One turn of the loop that looks for paths that have timed out.  \<open>path_index\<close> is an
  \<open>int\<close>: it is -1 after the first path was removed.
\<close>

definition timeout_path :: "srv_env \<Rightarrow> real \<Rightarrow> nat \<Rightarrow> server \<Rightarrow> (server \<times> bool) option" where
  "timeout_path ev rcvt k sk =
    (let p = s_paths sk ! k in
     if rto p < rcvt - last_ack_time p then
       (case timeout (s_cfg sk) p of
          (p', True) \<Rightarrow>
            let sk = upd_path k (\<lambda>_. p') (sk\<lparr>s_timeouts := s_timeouts sk + 1\<rparr>) in
            if pathstate p' = ESTABLISHED then
              map_option (\<lambda>sk. (sk, False)) (send_segs (v_woken ev) (v_now ev) (v_ts ev) k sk)
            else if pathstate p' = SYN_RECV \<or> pathstate p' = SYN_ACK_SENT then
              Some (upd_path k (stamp_syn (v_now ev)) (fst (send_flag ev k SYN_ACK sk)), False)
            else Some (sk, False)
        | (p', False) \<Rightarrow> Some (removePath sk k, True))
     else Some (sk, False))"

text \<open>
  The loop: \<open>i\<close> runs up to the number of paths, which only decreases, so that the list of
  indices is that of the start, cut off by the test.  The remainder of a negative number
  is negative.
\<close>

fun timeout_loop :: "srv_env \<Rightarrow> real \<Rightarrow> nat list \<Rightarrow> int \<Rightarrow> server \<Rightarrow> (server \<times> int) turn" where
  "timeout_loop ev rcvt [] path_index sk = Ran (sk, path_index)"
| "timeout_loop ev rcvt (i # is) path_index sk =
    (if i < length (s_paths sk) then
       let path_index = c_rem (path_index + int i) (int (length (s_paths sk))) in
       if path_index < 0 then Crash
       else (case timeout_path ev rcvt (nat path_index) sk of
          None \<Rightarrow> Waits
        | Some (sk, removed) \<Rightarrow>
            timeout_loop ev rcvt is (if removed then path_index - 1 else path_index) sk)
     else Ran (sk, path_index))"

definition check_timeouts :: "srv_env \<Rightarrow> real \<Rightarrow> int \<Rightarrow> server \<Rightarrow> (server \<times> int) turn" where
  "check_timeouts ev rcvt path_index sk =
    (case (if s_status sk \<noteq> CLOSED then timeout_loop ev rcvt [0..<length (s_paths sk)] path_index sk
           else Ran (sk, path_index)) of
       Ran (sk, k) \<Rightarrow> Ran (if s_paths sk = [] then sk\<lparr>s_status := CLOSED, s_error := NONE\<rparr> else sk, k)
     | t \<Rightarrow> t)"

section \<open>server_worker\<close>

text \<open>
  One turn of the thread's loop.  A failed read and a new path go back to the loop's head,
  everything else goes on to the timeouts.
\<close>

definition server_turn :: "srv_env \<Rightarrow> ack_pckt reading \<Rightarrow> real \<Rightarrow> real \<Rightarrow> (ack_pckt reading \<times> bool) list \<Rightarrow> int \<Rightarrow> server \<Rightarrow>
    (server \<times> int) turn" where
  "server_turn ev r rcvt rcvt_user rs path_index sk =
    (case r of
       RecvFails \<Rightarrow> Ran (sk, path_index)
     | Got a ack \<Rightarrow>
         let i = find_path a (s_paths sk) in
         if length (s_paths sk) \<le> i then
           if a_flag ack = flag_code SYN \<and> length (s_paths sk) < MAX_CONNECT then Ran (add_path ev a sk, int i)
           else check_timeouts ev rcvt (int i) sk
         else
           (case recv_known ev rcvt rcvt_user i ack rs sk of
              None \<Rightarrow> Waits
            | Some sk \<Rightarrow> check_timeouts ev rcvt (int i) sk)
     | _ \<Rightarrow> check_timeouts ev rcvt path_index sk)"

text \<open>What a turn gets from outside.\<close>

record srv_event =
  e_env :: srv_env
  e_read :: "ack_pckt reading"
  e_rcvt :: real
  e_rcvt_user :: real
  e_fin :: "(ack_pckt reading \<times> bool) list"

definition event_turn :: "srv_event \<Rightarrow> int \<Rightarrow> server \<Rightarrow> (server \<times> int) turn" where
  "event_turn e = server_turn (e_env e) (e_read e) (e_rcvt e) (e_rcvt_user e) (e_fin e)"

fun server_loop :: "srv_event list \<Rightarrow> int \<Rightarrow> server \<Rightarrow> (server \<times> int) turn" where
  "server_loop [] path_index sk = Ran (sk, path_index)"
| "server_loop (e # es) path_index sk =
    (if s_status sk = CLOSED then Ran (sk, path_index)
     else case event_turn e path_index sk of
       Ran (sk, path_index) \<Rightarrow> server_loop es path_index sk
     | t \<Rightarrow> t)"

definition server_worker :: "srv_event list \<Rightarrow> server \<Rightarrow> (server \<times> int) turn" where
  "server_worker es sk = server_loop es 0 (worker_init sk)"

section \<open>close_srvctcp\<close>

text \<open>
  The wait for the blocks: \<open>later\<close> are the states found after each wait, which other threads
  change; a wait ends after at most 100 ms.
\<close>

function close_wait :: "nat \<Rightarrow> server \<Rightarrow> server list \<Rightarrow> server option" where
  "close_wait i sk later =
    (if i \<le> unat (s_maxblockno sk) \<and> s_status sk = ACTIVE then
       if s_dof_req_latest sk \<noteq> 0 \<and> unat (s_curr_block sk) \<le> i then
         (case later of [] \<Rightarrow> None | sk' # later \<Rightarrow> close_wait (i + 1) sk' later)
       else close_wait (i + 1) sk later
     else Some sk)"
  by pat_completeness auto
termination
  by (relation "measures [\<lambda>(i, sk, later). length later, \<lambda>(i, sk, later). Suc (unat (s_maxblockno sk)) - i]") auto

declare close_wait.simps [simp del]

text \<open>
  The exchange of FINs.  \<open>tries\<close> are the failed attempts; the flag in the result is
  \<open>success\<close>.
\<close>

definition close_fin_step :: "srv_env \<Rightarrow> nat \<Rightarrow> real \<Rightarrow> server \<Rightarrow> ack_pckt reading \<Rightarrow> nat \<times> real \<times> server \<times> bool" where
  "close_fin_step ev tries rto_max sk r =
    (let all = [0..<length (s_paths sk)];
         sk = set_states FIN_SENT (send_flags ev FIN all sk)
     in case r of
          Got a ack \<Rightarrow>
            if a_flag ack = flag_code FIN then
              let (sk, success) =
                    (if pathstate (s_paths sk ! 0) = FIN_SENT then
                       let sk = send_flags ev FIN_ACK all sk in
                       (sk\<lparr>s_paths := map (\<lambda>i. if v_sent ev i then (s_paths sk ! i)\<lparr>pathstate := FIN_ACK_SENT\<rparr>
                                               else s_paths sk ! i) all\<rparr>, False)
                     else if pathstate (s_paths sk ! 0) = FIN_ACK_SENT then (set_states CLOSING sk, True)
                     else (sk, False))
              in (tries, rto_max, sk\<lparr>s_error := NONE\<rparr>, success)
            else if a_flag ack = flag_code FIN_ACK then
              let sk = (if pathstate (s_paths sk ! 0) = FIN_SENT then send_flags ev FIN_ACK all sk else sk)
              in (tries, rto_max, (set_states CLOSING sk)\<lparr>s_error := NONE\<rparr>, True)
            else (tries, rto_max, sk\<lparr>s_error := CLOSE_ERR\<rparr>, False)
        | RecvFails \<Rightarrow> (tries + 1, rto_max, sk\<lparr>s_error := CLOSE_ERR\<rparr>, False)
        | _ \<Rightarrow> (tries + 1, 2 * rto_max, sk\<lparr>s_error := CLOSE_ERR\<rparr>, False))"

fun close_fin :: "srv_env \<Rightarrow> nat \<Rightarrow> real \<Rightarrow> server \<Rightarrow> ack_pckt reading list \<Rightarrow> (server \<times> bool) option" where
  "close_fin ev tries rto_max sk [] = None"
| "close_fin ev tries rto_max sk (r # rs) =
    (case close_fin_step ev tries rto_max sk r of
       (tries, rto_max, sk, success) \<Rightarrow>
         if tries < CONTROL_MAX_RETRIES \<and> \<not> success then close_fin ev tries rto_max sk rs
         else Some (sk, success))"

text \<open>
  \<open>close_srvctcp\<close> up to the release of the socket's memory.  \<open>joined\<close> is what the socket
  has become when \<open>server_worker\<close> has ended, or one second is over.
\<close>

definition close_srvctcp :: "srv_env \<Rightarrow> addr option \<Rightarrow> server list \<Rightarrow> (server \<Rightarrow> server) \<Rightarrow> ack_pckt reading list \<Rightarrow>
    server \<Rightarrow> server turn" where
  "close_srvctcp ev m later joined rs sk =
    (case alloc_skb m (k_pool (s_coder sk)) of
       (pool, skb) \<Rightarrow>
         let sk = sk\<lparr>s_coder := (s_coder sk)\<lparr>k_pool := pool\<rparr>\<rparr> in
         if s_paths sk = [] then Ran sk
         else
           (case (if s_dof_req_latest sk \<noteq> 0 then close_wait (unat (s_curr_block sk)) sk later else Some sk) of
              None \<Rightarrow> Waits
            | Some sk \<Rightarrow>
                let sk = joined (sk\<lparr>s_status := CLOSED\<rparr>) in
                if skb = None then Ran sk
                else if s_paths sk = [] then Crash
                else if pathstate (s_paths sk ! 0) = CLOSING then Ran sk
                else (case close_fin ev 0 (rto_max_of (s_paths sk)) sk rs of
                        None \<Rightarrow> Waits
                      | Some (sk, success) \<Rightarrow> Ran sk)))"

section \<open>What leaves addresses and states alone\<close>

text \<open>\<open>path_id\<close> is what the connection management reads of a path.\<close>

definition path_id :: "path \<Rightarrow> sockaddr \<times> srvpath" where
  "path_id p = (cli_addr p, pathstate p)"

definition ids :: "server \<Rightarrow> (sockaddr \<times> srvpath) list" where
  "ids sk = map path_id (s_paths sk)"

lemma ids_length: "ids sk = ids sk' \<Longrightarrow> length (s_paths sk) = length (s_paths sk')"
  unfolding ids_def by (rule map_eq_imp_length_eq)

lemma ids_nth: "i < length (s_paths sk) \<Longrightarrow> ids sk ! i = path_id (s_paths sk ! i)"
  by (simp add: ids_def)

lemma ids_upd_path: "path_id (f (s_paths sk ! i)) = path_id (s_paths sk ! i) \<Longrightarrow> ids (upd_path i f sk) = ids sk"
  by (simp add: ids_def upd_path_def map_update list_update_same_conv [THEN iffD2] split: if_splits)
    (metis list_update_beyond list_update_id map_update not_le)

lemma path_id_rtt_update: "path_id (rtt_update t p) = path_id p"
  by (simp add: path_id_def rtt_update_def rtt_smooth_def rtt_deviation_def rtt_sample_def Let_def)

lemma path_id_good_ack: "path_id (good_ack n p) = path_id p"
  by (simp add: path_id_def good_ack_def Let_def)

lemma path_id_decrease: "path_id (decrease_cwnd p) = path_id p"
  by (simp add: path_id_def decrease_cwnd_def Let_def)

lemma path_id_constrain: "path_id (constrain_cwnd p) = path_id p"
  by (simp add: path_id_def constrain_cwnd_def Let_def)

lemma path_id_raise: "path_id (raise_ssthresh p) = path_id p"
  by (simp add: path_id_def raise_ssthresh_def)

lemma path_id_exit: "path_id (exit_slow_start w p) = path_id p"
  by (simp add: path_id_def exit_slow_start_def Let_def)

lemmas path_id_cwnd = path_id_decrease path_id_constrain path_id_raise path_id_exit

lemma path_id_if: "path_id (if b then p else q) = (if b then path_id p else path_id q)"
  by simp

lemma path_id_aimd: "path_id (advance_aimd p) = path_id p"
  unfolding advance_aimd_def Let_def by (simp only: path_id_cwnd path_id_if) (simp add: path_id_def)

lemma path_id_vegas: "path_id (advance_vegas c p) = path_id p"
  unfolding advance_vegas_def Let_def by (simp only: path_id_cwnd path_id_if) (simp add: path_id_def)

lemma path_id_advance: "path_id (advance_cwnd now c p) = path_id p"
proof -
  have upd: "path_id (p\<lparr>cntrtt := a, toggle := b, minrtt := m, losscnt := l\<rparr>) = path_id p"
    "path_id (p\<lparr>rate := r, beg_snd_nxt := n, beg_snd_una := u, time_snd_nxt := t\<rparr>) = path_id p"
    "path_id (p\<lparr>snd_cwnd := w\<rparr>) = path_id p" for p a b m l r n u t w
    by (simp_all add: path_id_def)
  show ?thesis
    unfolding advance_cwnd_def Let_def
    by (simp add: path_id_constrain upd path_id_aimd path_id_vegas path_id_if split: cc.split)
qed

definition conn :: "server \<Rightarrow> (sockaddr \<times> srvpath) list \<times> status" where
  "conn sk = (ids sk, s_status sk)"

lemma conn_upd_path: "path_id (f (s_paths sk ! i)) = path_id (s_paths sk ! i) \<Longrightarrow> conn (upd_path i f sk) = conn sk"
  using ids_upd_path by (simp add: conn_def upd_path_def)

lemma map_path_id_upd: "path_id q = path_id (ps ! i) \<Longrightarrow> map path_id (ps[i := q]) = map path_id ps"
  by (simp add: map_update) (metis list_update_id map_update)

lemma conn_free_block_step: "conn (free_block_step pin sk) = conn sk"
proof -
  have g: "path_id (p\<lparr>goodput := x\<rparr>) = path_id p" "path_id (p\<lparr>packets_sent := y\<rparr>) = path_id p" for p x y
    by (simp_all add: path_id_def)
  show ?thesis
    by (simp add: conn_def ids_def free_block_step_def Let_def split_def comp_def g upd_path_def map_path_id_upd)
qed

lemma conn_free_blocks: "conn (free_blocks b pin sk) = conn sk"
proof (induction b pin sk rule: free_blocks.induct)
  case (1 b pin sk)
  then show ?case
    by (cases "s_curr_block sk < b") (simp_all add: free_blocks.simps [of b pin sk] conn_free_block_step)
qed

lemma conn_ack_path: "conn (ack_path now n pin sk) = conn sk"
proof -
  have "path_id (p\<lparr>idle := 0\<rparr>) = path_id p" for p by (simp add: path_id_def)
  then have a: "conn (upd_path pin (\<lambda>p. p\<lparr>idle := 0\<rparr>) sk) = conn sk" for sk
    by (rule conn_upd_path)
  have b: "conn (upd_path pin (good_ack n) sk) = conn sk" for sk
    by (rule conn_upd_path) (rule path_id_good_ack)
  have c: "conn (upd_path pin (advance_cwnd now c) sk) = conn sk" for sk c
    by (rule conn_upd_path) (rule path_id_advance)
  have "conn (sk\<lparr>s_goodacks := x\<rparr>) = conn sk" for sk x by (simp add: conn_def ids_def)
  with a b c show ?thesis by (simp add: ack_path_def Let_def)
qed

lemma conn_handle_ack: "handle_ack now t ack pin sk = (sk', ok) \<Longrightarrow> conn sk' = conn sk"
proof -
  have a: "conn (upd_path pin (rtt_update t) sk) = conn sk" for sk
    by (rule conn_upd_path) (rule path_id_rtt_update)
  have b: "conn (upd_path pin (\<lambda>p. if snd_una p < n then p\<lparr>snd_una := n\<rparr> else p) sk) = conn sk" for sk n
    by (rule conn_upd_path) (simp add: path_id_def)
  have c: "conn (update_dof_req x y sk) = conn sk" "conn (sk\<lparr>s_badacks := z\<rparr>) = conn sk" for sk x y z
    by (simp_all add: update_dof_req_def Let_def conn_def ids_def)
  assume "handle_ack now t ack pin sk = (sk', ok)"
  then show ?thesis
    by (auto simp: handle_ack_def Let_def a b c conn_free_blocks conn_ack_path split: if_splits)
qed

lemma conn_sent_update: "conn (sent_update b pin sk) = conn sk"
proof -
  have "conn (sent_update b pin sk) = conn (sk\<lparr>s_dof_remain := (s_dof_remain sk)[bslot b := s_dof_remain sk ! bslot b - 1]\<rparr>)"
    unfolding sent_update_def Let_def by (rule conn_upd_path) (simp add: path_id_def)
  then show ?thesis by (simp add: conn_def ids_def)
qed

lemma conn_send_one: "send_one now ts b pin sk = Some sk' \<Longrightarrow> conn sk' = conn sk"
proof -
  have "map path_id (ps[pin := (ps ! pin)\<lparr>OnFly := x, tx_time := y\<rparr>]) = map path_id ps" for ps :: "path list" and x y
    by (rule map_path_id_upd) (simp add: path_id_def)
  then show "send_one now ts b pin sk = Some sk' \<Longrightarrow> conn sk' = conn sk"
    by (auto simp: send_one_def Let_def conn_def ids_def split: option.splits)
qed

lemma conn_send_run: "send_run now ts b pin n sk = Some (sk', m) \<Longrightarrow> conn sk' = conn sk"
proof (induction n arbitrary: sk m)
  case (Suc n)
  then show ?case by (fastforce simp: conn_sent_update dest: conn_send_one split: if_splits option.splits)
qed simp

lemma conn_request_job: "request_job b n sk = Some sk' \<Longrightarrow> conn sk' = conn sk"
  by (auto simp: request_job_def Let_def conn_def ids_def split: if_splits)

lemma conn_seg_block: "seg_block now ts pin b win fly sk = Some (sk', win', fly') \<Longrightarrow> conn sk' = conn sk"
  by (auto simp: seg_block_def Let_def dest!: conn_request_job conn_send_run split: option.splits if_splits)

lemma conn_send_blocks: "send_blocks now ts pin mb is win fly sk = Some sk' \<Longrightarrow> conn sk' = conn sk"
proof (induction "is" arbitrary: win fly sk)
  case (Cons i js)
  then show ?case
    by (auto simp: Let_def dest!: conn_seg_block split: if_splits option.splits)
qed simp

lemma conn_send_segs: "send_segs woken now ts pin sk = Some sk' \<Longrightarrow> conn sk' = conn sk"
  by (auto simp: send_segs_def Let_def dest: conn_send_blocks simp del: upt_Suc split: if_splits)

section \<open>The end of the exchange of FINs\<close>

definition fin_counts :: "ack_pckt reading \<Rightarrow> bool" where
  "fin_counts r = (case r of SelectFails \<Rightarrow> False | Got a ack \<Rightarrow> a_flag ack = flag_code FIN | _ \<Rightarrow> True)"

definition fin_ends :: "ack_pckt reading \<times> bool \<Rightarrow> bool" where
  "fin_ends e = (snd e \<or> (case fst e of Got a ack \<Rightarrow> a_flag ack = flag_code FIN_ACK | _ \<Rightarrow> False))"

lemma send_flag_fields [simp]: "s_status (fst (send_flag ev i fl sk)) = s_status sk"
  "s_paths (fst (send_flag ev i fl sk)) = s_paths sk" "s_cfg (fst (send_flag ev i fl sk)) = s_cfg sk"
  by (simp_all add: send_flag_def Let_def)

lemma send_flags_fields [simp]: "s_status (send_flags ev fl is sk) = s_status sk"
  "s_paths (send_flags ev fl is sk) = s_paths sk"
  by (induction "is" arbitrary: sk) simp_all

lemma set_states_fields [simp]: "s_status (set_states st sk) = s_status sk"
  "map cli_addr (s_paths (set_states st sk)) = map cli_addr (s_paths sk)"
  "length (s_paths (set_states st sk)) = length (s_paths sk)"
  by (simp_all add: set_states_def comp_def)

lemma set_states_all: "p \<in> set (s_paths (set_states st sk)) \<Longrightarrow> pathstate p = st"
  by (auto simp: set_states_def)

lemma flag_code_distinct: "flag_code FIN \<noteq> flag_code FIN_ACK" "flag_code NORMAL \<noteq> flag_code FIN"
  "flag_code NORMAL \<noteq> flag_code SYN" "flag_code SYN \<noteq> flag_code FIN"
  by simp_all

lemma fin_step_spec:
  assumes "fin_step ev fl tries m sk e = (fl', tries', m', sk')"
  shows "map cli_addr (s_paths sk') = map cli_addr (s_paths sk)"
    and "s_status sk' = CLOSED \<longleftrightarrow> s_status sk = CLOSED \<or> fin_ends e"
    and "\<not> fin_ends e \<Longrightarrow> tries' = tries + (if fin_counts (fst e) then 1 else 0)"
  using assms by (auto simp: fin_step_def fin_ends_def fin_counts_def Let_def split: reading.splits if_splits)

lemma fin_loop_ends:
  "tries < CONTROL_MAX_RETRIES \<Longrightarrow> s_status sk \<noteq> CLOSED \<Longrightarrow>
    fin_loop ev fl tries m sk es \<noteq> None \<longleftrightarrow>
      list_ex fin_ends es \<or> CONTROL_MAX_RETRIES \<le> tries + length (filter (\<lambda>e. fin_counts (fst e)) es)"
proof (induction es arbitrary: fl tries m sk)
  case Nil
  then show ?case by simp
next
  case (Cons e es)
  obtain fl' tries' m' sk' where step: "fin_step ev fl tries m sk e = (fl', tries', m', sk')" by (metis prod_cases4)
  note spec = fin_step_spec [OF step]
  show ?case
  proof (cases "fin_ends e")
    case True
    then show ?thesis by (simp add: step spec(2))
  next
    case False
    with spec Cons.prems have "s_status sk' \<noteq> CLOSED" "tries' = tries + (if fin_counts (fst e) then 1 else 0)" by simp_all
    with False show ?thesis
      using Cons.IH [of tries' sk' fl' m'] by (cases "tries' < CONTROL_MAX_RETRIES") (auto simp: step)
  qed
qed

lemma fin_loop_addrs:
  "fin_loop ev fl tries m sk es = Some (sk', m') \<Longrightarrow> map cli_addr (s_paths sk') = map cli_addr (s_paths sk)"
proof (induction es arbitrary: fl tries m sk)
  case (Cons e es)
  obtain fl1 tries1 m1 sk1 where step: "fin_step ev fl tries m sk e = (fl1, tries1, m1, sk1)" by (metis prod_cases4)
  then show ?case
    using Cons.prems Cons.IH [of fl1 tries1 m1 sk1] fin_step_spec(1) [OF step] by (auto split: if_splits)
qed simp

lemma recv_fin_closes:
  assumes "pathstate (s_paths sk ! i) \<noteq> CLOSING" "pathstate (s_paths sk ! i) \<noteq> FIN_ACK_RECV"
  shows "recv_fin ev i ack rs sk \<noteq> None \<longleftrightarrow>
      list_ex fin_ends rs \<or> CONTROL_MAX_RETRIES \<le> length (filter (\<lambda>e. fin_counts (fst e)) rs)"
    and "recv_fin ev i ack rs sk = Some sk' \<Longrightarrow> s_status sk' = CLOSED \<and>
      list_all (\<lambda>p. pathstate p = CLOSING) (s_paths sk') \<and> map cli_addr (s_paths sk') = map cli_addr (s_paths sk)"
proof -
  define sk1 where "sk1 = (upd_path i (\<lambda>p. p\<lparr>pathstate := FIN_RECV\<rparr>) sk)\<lparr>s_status := SK_CLOSING\<rparr>"
  have r: "recv_fin ev i ack rs sk = map_option (\<lambda>(sk, m). (set_states CLOSING sk)\<lparr>s_status := CLOSED\<rparr>)
      (fin_loop ev (a_flag ack) 0 (rto_max_of (s_paths sk1)) sk1 rs)"
    using assms by (simp add: recv_fin_def sk1_def Let_def)
  show "recv_fin ev i ack rs sk \<noteq> None \<longleftrightarrow>
      list_ex fin_ends rs \<or> CONTROL_MAX_RETRIES \<le> length (filter (\<lambda>e. fin_counts (fst e)) rs)"
    using fin_loop_ends [of 0 sk1 ev "a_flag ack" "rto_max_of (s_paths sk1)" rs]
    by (simp add: r CONTROL_MAX_RETRIES_def sk1_def)
  have a: "map cli_addr (s_paths sk1) = map cli_addr (s_paths sk)"
    by (simp add: sk1_def upd_path_def map_update) (metis list_update_id map_update)
  show "recv_fin ev i ack rs sk = Some sk' \<Longrightarrow> s_status sk' = CLOSED \<and>
      list_all (\<lambda>p. pathstate p = CLOSING) (s_paths sk') \<and> map cli_addr (s_paths sk') = map cli_addr (s_paths sk)"
    by (auto simp: r a list_all_iff dest!: set_states_all dest: fin_loop_addrs)
qed

section \<open>Closing\<close>

definition close_counts :: "ack_pckt reading \<Rightarrow> bool" where
  "close_counts r = (case r of Got a ack \<Rightarrow> False | _ \<Rightarrow> True)"

definition close_ends :: "ack_pckt reading \<Rightarrow> bool" where
  "close_ends r = (case r of Got a ack \<Rightarrow> a_flag ack = flag_code FIN_ACK | _ \<Rightarrow> False)"

lemma close_fin_step_spec:
  assumes "close_fin_step ev tries m sk r = (tries', m', sk', success)" "s_paths sk \<noteq> []"
  shows "length (s_paths sk') = length (s_paths sk)" "success \<longleftrightarrow> close_ends r"
    and "tries' = tries + (if close_counts r then 1 else 0)"
    and "success \<Longrightarrow> s_error sk' = NONE \<and> list_all (\<lambda>p. pathstate p = CLOSING) (s_paths sk')"
    and "close_counts r \<Longrightarrow> s_error sk' = CLOSE_ERR"
proof -
  let ?all = "[0..<length (s_paths sk)]"
  define sk1 where "sk1 = set_states FIN_SENT (send_flags ev FIN ?all sk)"
  have "pathstate (s_paths sk1 ! 0) = FIN_SENT" "length (s_paths sk1) = length (s_paths sk)"
    using assms(2) by (simp_all add: sk1_def set_states_def)
  then have step: "close_fin_step ev tries m sk r =
    (case r of
       Got a ack \<Rightarrow>
         if a_flag ack = flag_code FIN then
           let sk = send_flags ev FIN_ACK ?all sk1 in
           (tries, m, sk\<lparr>s_paths := map (\<lambda>i. if v_sent ev i then (s_paths sk ! i)\<lparr>pathstate := FIN_ACK_SENT\<rparr>
                                               else s_paths sk ! i) ?all, s_error := NONE\<rparr>, False)
         else if a_flag ack = flag_code FIN_ACK then
           (tries, m, (set_states CLOSING (send_flags ev FIN_ACK ?all sk1))\<lparr>s_error := NONE\<rparr>, True)
         else (tries, m, sk1\<lparr>s_error := CLOSE_ERR\<rparr>, False)
     | RecvFails \<Rightarrow> (tries + 1, m, sk1\<lparr>s_error := CLOSE_ERR\<rparr>, False)
     | _ \<Rightarrow> (tries + 1, 2 * m, sk1\<lparr>s_error := CLOSE_ERR\<rparr>, False))"
    by (simp add: close_fin_step_def sk1_def [symmetric] Let_def split: reading.splits)
  have len: "length (s_paths sk1) = length (s_paths sk)" by fact
  show "length (s_paths sk') = length (s_paths sk)" "success \<longleftrightarrow> close_ends r"
    "tries' = tries + (if close_counts r then 1 else 0)"
    "success \<Longrightarrow> s_error sk' = NONE \<and> list_all (\<lambda>p. pathstate p = CLOSING) (s_paths sk')"
    "close_counts r \<Longrightarrow> s_error sk' = CLOSE_ERR"
    using assms(1) unfolding step close_ends_def close_counts_def
    by (auto simp: Let_def len list_all_iff dest: set_states_all split: reading.splits if_splits)
qed

lemma close_fin_ends:
  "tries < CONTROL_MAX_RETRIES \<Longrightarrow> s_paths sk \<noteq> [] \<Longrightarrow>
    (close_fin ev tries m sk rs \<noteq> None \<longleftrightarrow>
      list_ex close_ends rs \<or> CONTROL_MAX_RETRIES \<le> tries + length (filter close_counts rs)) \<and>
    (case close_fin ev tries m sk rs of
       None \<Rightarrow> True
     | Some (sk', success) \<Rightarrow>
         (if success then s_error sk' = NONE \<and> list_all (\<lambda>p. pathstate p = CLOSING) (s_paths sk')
          else s_error sk' = CLOSE_ERR))"
proof (induction rs arbitrary: tries m sk)
  case Nil
  then show ?case by simp
next
  case (Cons r rs)
  obtain tries' m' sk' success where step: "close_fin_step ev tries m sk r = (tries', m', sk', success)"
    by (metis prod_cases4)
  note spec = close_fin_step_spec [OF step Cons.prems(2)]
  show ?case
  proof (cases "tries' < CONTROL_MAX_RETRIES \<and> \<not> success")
    case True
    then have "s_paths sk' \<noteq> []" using spec(1) Cons.prems(2) by auto
    with True Cons.IH [of tries' sk' m'] spec(2,3) show ?thesis by (auto simp: step)
  next
    case False
    then show ?thesis using spec(2-5) Cons.prems(1) by (auto simp: step split: if_splits)
  qed
qed

section \<open>The paths of a running server\<close>

lemma find_path_le: "find_path a ps \<le> length ps"
  by (induction ps) auto

lemma sockaddr_cmp4_eq: "sockaddr_cmp4 a b = 0 \<longleftrightarrow> a = b"
  by (cases a; cases b) (auto simp: sockaddr_cmp4_def)

lemma find_path_found: "find_path a ps < length ps \<Longrightarrow> cli_addr (ps ! find_path a ps) = a"
  by (induction ps) (auto simp: sockaddr_cmp4_eq)

lemma find_path_new: "length ps \<le> find_path a ps \<Longrightarrow> a \<notin> set (map cli_addr ps)"
  by (induction ps) (auto simp: sockaddr_cmp4_eq split: if_splits)

definition open_state :: "srvpath \<Rightarrow> bool" where
  "open_state st \<longleftrightarrow> st = SYN_RECV \<or> st = SYN_ACK_SENT \<or> st = ESTABLISHED"

text \<open>What holds of the paths between two steps, as a property of \<open>conn\<close>.\<close>

definition conn_open :: "(sockaddr \<times> srvpath) list \<times> status \<Rightarrow> bool" where
  "conn_open c \<longleftrightarrow> length (fst c) \<le> MAX_CONNECT \<and> distinct (map fst (fst c)) \<and> snd c = ACTIVE \<and>
    (\<forall>p \<in> set (fst c). open_state (snd p))"

definition conn_ok :: "(sockaddr \<times> srvpath) list \<times> status \<Rightarrow> bool" where
  "conn_ok c \<longleftrightarrow> length (fst c) \<le> MAX_CONNECT \<and> distinct (map fst (fst c)) \<and>
    (snd c = CLOSED \<or> conn_open c \<and> fst c \<noteq> [])"

lemma ids_addrs: "map fst (ids sk) = map cli_addr (s_paths sk)"
  by (simp add: ids_def path_id_def comp_def)

lemma conn_eq: "conn sk' = conn sk \<Longrightarrow> length (s_paths sk') = length (s_paths sk)"
  by (auto simp: conn_def dest: ids_length)

lemma conn_stamp: "conn (upd_path i (stamp_syn t) sk) = conn sk"
  by (rule conn_upd_path) (simp add: path_id_def stamp_syn_def)

lemma conn_send_flag: "conn (fst (send_flag ev i fl sk)) = conn sk"
  by (simp add: conn_def ids_def)

lemma conn_send_all: "send_all ev is sk = Some sk' \<Longrightarrow> conn sk' = conn sk"
  by (induction "is" arbitrary: sk) (auto dest!: conn_send_segs split: option.splits)

text \<open>A change of one path's state keeps the addresses.\<close>

lemma conn_open_upd:
  assumes "conn_open (conn sk)" "cli_addr (f (s_paths sk ! i)) = cli_addr (s_paths sk ! i)"
    "open_state (pathstate (f (s_paths sk ! i)))"
  shows "conn_open (conn (upd_path i f sk))"
proof -
  let ?q = "path_id (f (s_paths sk ! i))"
  have i: "ids (upd_path i f sk) = (ids sk)[i := ?q]" by (simp add: ids_def upd_path_def map_update)
  have "map fst ((ids sk)[i := ?q]) = map fst (ids sk)"
    using assms(2) by (simp add: ids_addrs map_update path_id_def) (metis list_update_id map_update)
  moreover have "\<forall>p \<in> set ((ids sk)[i := ?q]). open_state (snd p)"
    using assms(1,3) set_update_subset_insert [of "ids sk" i ?q] by (auto simp: conn_open_def conn_def path_id_def)
  ultimately show ?thesis using assms(1) by (simp add: conn_open_def conn_def i) (simp add: upd_path_def)
qed

lemma removePath_open:
  assumes "conn_open (conn sk)"
  shows "conn_open (conn (removePath sk k))"
proof -
  let ?xs = "ids sk"
  have i: "ids (removePath sk k) = take k ?xs @ drop (Suc k) ?xs"
    by (simp add: ids_def removePath_def take_map drop_map)
  have "distinct (map fst (take k ?xs @ drop (Suc k) ?xs))"
    using assms set_take_disj_set_drop_if_distinct [of "map fst ?xs" k "Suc k"]
    by (simp add: conn_open_def conn_def flip: take_map drop_map set_map)
  moreover have "set (take k ?xs @ drop (Suc k) ?xs) \<subseteq> set ?xs"
    using set_take_subset set_drop_subset by fastforce
  moreover have "length (take k ?xs @ drop (Suc k) ?xs) \<le> length ?xs" by simp
  ultimately show ?thesis
    using assms unfolding conn_open_def conn_def fst_conv snd_conv i
    by (auto simp: removePath_def simp del: length_append)
qed

lemma path_id_timeout: "path_id (fst (timeout c p)) = path_id p"
  by (simp add: path_id_def timeout_def Let_def)

lemma timeout_path_open:
  assumes "timeout_path ev t k sk = Some (sk', rm)" "conn_open (conn sk)"
  shows "conn_open (conn sk')"
proof -
  have a: "conn (upd_path k (\<lambda>_. fst (timeout c (s_paths sk ! k))) (sk\<lparr>s_timeouts := x\<rparr>)) = conn sk" for c x
    by (simp add: conn_def ids_def upd_path_def map_path_id_upd path_id_timeout)
  show ?thesis
    using assms removePath_open [OF assms(2), of k] a
    by (auto simp: timeout_path_def Let_def conn_stamp conn_send_flag dest!: conn_send_segs
      split: if_splits prod.splits bool.splits)
      (metis fst_conv)+
qed

lemma timeout_loop_open:
  "timeout_loop ev t is k sk = Ran (sk', k') \<Longrightarrow> conn_open (conn sk) \<Longrightarrow> conn_open (conn sk')"
  by (induction "is" arbitrary: k sk)
    (auto simp: Let_def dest: timeout_path_open split: if_splits option.splits)

lemma check_timeouts_ok:
  assumes "check_timeouts ev t k sk = Ran (sk', k')" "conn_open (conn sk) \<or> conn_ok (conn sk) \<and> s_status sk = CLOSED"
  shows "conn_ok (conn sk')"
proof (cases "s_status sk = CLOSED")
  case True
  then show ?thesis
    using assms by (auto simp: check_timeouts_def conn_ok_def conn_open_def conn_def ids_def split: if_splits)
next
  case False
  then obtain sk1 where l: "timeout_loop ev t [0..<length (s_paths sk)] k sk = Ran (sk1, k')"
    and s: "sk' = (if s_paths sk1 = [] then sk1\<lparr>s_status := CLOSED, s_error := NONE\<rparr> else sk1)"
    using assms(1) by (auto simp: check_timeouts_def split: turn.splits)
  have "conn_open (conn sk1)" using timeout_loop_open [OF l] assms(2) False by blast
  then show ?thesis by (auto simp: s conn_ok_def conn_open_def conn_def ids_def)
qed

lemma add_path_ok:
  assumes "conn_ok (conn sk)" "s_status sk \<noteq> CLOSED" "a \<notin> set (map cli_addr (s_paths sk))"
    "length (s_paths sk) < MAX_CONNECT"
  shows "conn_ok (conn (add_path ev a sk))"
proof -
  define p where "p = (init_stream (s_cfg sk) (v_path ev))\<lparr>cli_addr := a, pathstate := SYN_RECV,
    last_ack_time := v_now ev, last_ack_time_user := 0\<rparr>"
  define sk1 where "sk1 = fst (send_flag ev (length (s_paths sk)) SYN_ACK (sk\<lparr>s_paths := s_paths sk @ [p]\<rparr>))"
  have sk1: "ids sk1 = ids sk @ [(a, SYN_RECV)]" "s_status sk1 = s_status sk" "cli_addr (s_paths sk1 ! length (s_paths sk)) = a"
    by (simp_all add: sk1_def ids_def path_id_def p_def)
  have add: "add_path ev a sk = upd_path (length (s_paths sk)) (\<lambda>p. (stamp_syn (v_now ev) p)\<lparr>pathstate := SYN_ACK_SENT\<rparr>) sk1"
    by (simp add: add_path_def sk1_def p_def Let_def)
  have "conn_open (conn sk1)"
    using assms by (auto simp: conn_ok_def conn_open_def conn_def sk1 ids_addrs open_state_def) (simp add: ids_def)
  then have "conn_open (conn (add_path ev a sk))"
    unfolding add by (rule conn_open_upd) (simp_all add: stamp_syn_def open_state_def)
  moreover have "s_paths (add_path ev a sk) \<noteq> []" by (simp add: add upd_path_def sk1_def)
  ultimately show ?thesis by (auto simp: conn_ok_def conn_open_def conn_def ids_def)
qed

lemma recv_known_ok:
  assumes "recv_known ev t u i ack es sk = Some sk'" "conn_open (conn sk)" "i < length (s_paths sk)"
  shows "conn_open (conn sk') \<or> conn_ok (conn sk') \<and> s_status sk' = CLOSED"
proof -
  define sk1 where "sk1 = upd_path i (\<lambda>p. p\<lparr>last_ack_time := t, last_ack_time_user := u\<rparr>) sk"
  have "conn sk1 = conn sk" unfolding sk1_def by (rule conn_upd_path) (simp add: path_id_def)
  then have o1: "conn_open (conn sk1)" using assms(2) by simp
  have est: "conn_open (conn (upd_path i (establish x) sk1))" for x
    by (rule conn_open_upd [OF o1]) (simp_all add: establish_def Let_def open_state_def)
  have ip: "conn (sk1\<lparr>s_ipkts := n\<rparr>) = conn sk1" for n by (simp add: conn_def ids_def)
  have cases: "recv_normal ev i ack sk1 = Some sk' \<or> sk' = recv_syn ev i sk1 \<or> recv_fin ev i ack es sk1 = Some sk' \<or> sk' = sk1"
    using assms(1) by (auto simp: recv_known_def Let_def sk1_def split: if_splits)
  have normal: "conn_open (conn sk')" if nm: "recv_normal ev i ack sk1 = Some sk'"
  proof (cases "pathstate (s_paths sk1 ! i) = ESTABLISHED")
    case True
    obtain sk2 ok where h: "handle_ack (v_now ev) (v_double ev (a_tstamp ack)) ack i (sk1\<lparr>s_ipkts := s_ipkts sk1 + 1\<rparr>) = (sk2, ok)"
      by (metis surj_pair)
    with nm True have "sk' = sk2 \<or> send_all ev [0..<length (s_paths sk2)] sk2 = Some sk'"
      by (cases ok) (simp_all add: recv_normal_def)
    with conn_handle_ack [OF h] o1 ip show ?thesis by (auto dest: conn_send_all)
  next
    case False
    with nm have "sk' = sk1 \<or> send_segs (v_woken ev) (v_now ev) (v_ts ev) i (upd_path i (establish (v_now ev)) sk1) = Some sk'"
      by (simp add: recv_normal_def split: if_splits)
    with o1 est show ?thesis by (auto dest: conn_send_segs)
  qed
  have fin: "conn_open (conn sk') \<or> conn_ok (conn sk') \<and> s_status sk' = CLOSED" if r: "recv_fin ev i ack es sk1 = Some sk'"
  proof (cases "pathstate (s_paths sk1 ! i) \<noteq> CLOSING \<and> pathstate (s_paths sk1 ! i) \<noteq> FIN_ACK_RECV")
    case True
    from recv_fin_closes(2) [of sk1 i ev ack es sk'] True r
    have c: "s_status sk' = CLOSED" "map cli_addr (s_paths sk') = map cli_addr (s_paths sk1)" by auto
    from c(2) have "length (s_paths sk') = length (s_paths sk1)" by (rule map_eq_imp_length_eq)
    with c o1 have "conn_ok (conn sk')" by (simp add: conn_ok_def conn_open_def conn_def ids_addrs) (simp add: ids_def)
    with c show ?thesis by simp
  next
    case False
    with r have "sk' = sk1" by (auto simp: recv_fin_def split: if_splits)
    with o1 show ?thesis by simp
  qed
  have "conn (recv_syn ev i sk1) = conn sk1"
    by (simp add: recv_syn_def conn_stamp conn_send_flag)
  with cases normal fin o1 show ?thesis by auto
qed

lemma server_turn_ok:
  assumes turn: "server_turn ev r t u es k sk = Ran (sk', k')" and ok: "conn_ok (conn sk)" and run: "s_status sk \<noteq> CLOSED"
  shows "conn_ok (conn sk')"
proof -
  have co: "conn_open (conn sk)" using ok run by (auto simp: conn_ok_def conn_def)
  show ?thesis
  proof (cases r)
    case (Got a ack)
    define i where "i = find_path a (s_paths sk)"
    show ?thesis
    proof (cases "length (s_paths sk) \<le> i")
      case True
      with turn have "length (s_paths sk) < MAX_CONNECT \<and> sk' = add_path ev a sk \<or>
          check_timeouts ev t (int i) sk = Ran (sk', k')"
        by (auto simp: server_turn_def Got i_def [symmetric] Let_def split: if_splits)
      with add_path_ok [OF ok run] find_path_new [of "s_paths sk" a] True check_timeouts_ok co i_def
      show ?thesis by blast
    next
      case False
      with turn obtain sk1 where "recv_known ev t u i ack es sk = Some sk1" "check_timeouts ev t (int i) sk1 = Ran (sk', k')"
        by (auto simp: server_turn_def Got i_def [symmetric] Let_def split: option.splits)
      with recv_known_ok [OF _ co] False check_timeouts_ok show ?thesis by (meson not_le)
    qed
  qed (use turn ok co check_timeouts_ok in \<open>auto simp: server_turn_def\<close>)
qed

section \<open>Runs of the server\<close>

text \<open>
  The thread \<open>server_worker\<close> after \<open>listen_srvctcp\<close>, between its turns the application's
  \<open>send_ctcp\<close>, a coding thread, and \<open>close_srvctcp\<close> setting the status.
\<close>

inductive srv_run :: "server \<Rightarrow> int \<Rightarrow> bool" where
  srv_listen: "listen_srvctcp ev m r (create_srvctcp_sock c coder0) = (sk, True) \<Longrightarrow> srv_run (worker_init sk) 0"
| srv_turn: "srv_run sk k \<Longrightarrow> s_status sk \<noteq> CLOSED \<Longrightarrow> event_turn e k sk = Ran (sk', k') \<Longrightarrow> srv_run sk' k'"
| srv_send: "srv_run sk k \<Longrightarrow> send_ctcp malloc sk buf = Some (sk', rest, e) \<Longrightarrow> srv_run sk' k"
| srv_job: "srv_run sk k \<Longrightarrow> worker_take (s_workers sk) w = Some P \<Longrightarrow> t_th P ! w = Busy job \<Longrightarrow>
    b = bslot (j_blockno job) \<Longrightarrow>
    coding_job malloc (s_curr_block sk) job (s_blocks sk ! b) (s_coder sk) (s_coded_q sk ! b) rnds = Some (S, q, rnds') \<Longrightarrow>
    srv_run (sk\<lparr>s_workers := P\<lparr>t_th := (t_th P)[w := Idle]\<rparr>, s_coder := S, s_coded_q := (s_coded_q sk)[b := q]\<rparr>) k"
| srv_close: "srv_run sk k \<Longrightarrow> srv_run (sk\<lparr>s_status := CLOSED\<rparr>) k"

lemma conn_send_ctcp: "send_ctcp malloc sk buf = Some (sk', rest, e) \<Longrightarrow> conn sk' = conn sk"
proof (induction malloc sk buf rule: send_ctcp.induct)
  case (1 malloc sk buf)
  have s: "send_step malloc sk buf = Stored sk1 rest1 \<Longrightarrow> conn sk1 = conn sk"
    "send_step malloc sk buf = NextBlock sk1 \<Longrightarrow> conn sk1 = conn sk" for sk1 rest1
    by (auto simp: send_step_def Let_def conn_def ids_def split: prod.splits if_splits option.splits)
  have e: "conn (sk\<lparr>s_error := x\<rparr>) = conn sk" for x by (simp add: conn_def ids_def)
  show ?case
  proof (cases "buf = [] \<or> s_status sk \<noteq> ACTIVE")
    case True
    then have "sk' = sk \<or> sk' = sk\<lparr>s_error := CLIHUP\<rparr>"
      using 1(3) by (subst (asm) send_ctcp.simps) (auto split: if_splits)
    with e show ?thesis by blast
  next
    case False
    then have r: "send_ctcp malloc sk buf = (case send_step malloc sk buf of
        Stored sk' rest \<Rightarrow> send_ctcp malloc sk' rest
      | NextBlock sk' \<Rightarrow> send_ctcp malloc sk' buf
      | Full \<Rightarrow> Some (sk, buf, MustWait) | PoolWaits \<Rightarrow> None)"
      by (subst send_ctcp.simps) simp
    show ?thesis
    proof (cases "send_step malloc sk buf")
      case (Stored sk1 rest1)
      then have "send_ctcp malloc sk1 rest1 = Some (sk', rest, e)" using 1(3) r by simp
      then have "conn sk' = conn sk1" by (rule 1(1) [rotated -1]) (use False Stored in simp_all)
      with s(1) [OF Stored] show ?thesis by simp
    next
      case (NextBlock sk1)
      then have "send_ctcp malloc sk1 buf = Some (sk', rest, e)" using 1(3) r by simp
      then have "conn sk' = conn sk1" by (rule 1(2) [rotated -1]) (use False NextBlock in simp_all)
      with s(2) [OF NextBlock] show ?thesis by simp
    qed (use 1(3) r in simp_all)
  qed
qed

lemma listen_ok:
  assumes "listen_srvctcp ev m r (create_srvctcp_sock c coder0) = (sk, True)"
  shows "conn_ok (conn (worker_init sk))"
proof -
  obtain a st where "ids sk = [(a, st)]" "open_state st" "s_status sk = ACTIVE"
    using assms
    by (auto simp: listen_srvctcp_def Let_def create_srvctcp_sock_def send_flag_def ids_def path_id_def upd_path_def
        stamp_syn_def open_state_def split: prod.splits option.splits reading.splits if_splits)
  then show ?thesis by (simp add: conn_ok_def conn_open_def conn_def worker_init_def MAX_CONNECT_def) (simp add: ids_def)
qed

lemma srv_run_ok: "srv_run sk k \<Longrightarrow> conn_ok (conn sk)"
proof (induction rule: srv_run.induct)
  case (srv_listen ev m r c coder0 sk)
  then show ?case by (rule listen_ok)
next
  case (srv_turn sk k e sk' k')
  then show ?case by (auto simp: event_turn_def dest: server_turn_ok)
next
  case (srv_send sk k malloc buf sk' rest e)
  then show ?case by (simp add: conn_send_ctcp)
next
  case srv_job
  then show ?case by (simp add: conn_def ids_def)
next
  case (srv_close sk k)
  then show ?case by (simp add: conn_ok_def conn_def ids_def)
qed

section \<open>The order in which paths are checked\<close>

text \<open>
  With three paths and no packet, the indices visited from 0 are 0, 1 and 0 again; from 2
  they are 2, 0 and 2, and when path 0 is removed the index is left at -1.
\<close>

lemma timeout_path_quiet: "t - last_ack_time (s_paths sk ! k) \<le> rto (s_paths sk ! k) \<Longrightarrow>
    timeout_path ev t k sk = Some (sk, False)"
  by (simp add: timeout_path_def Let_def)

lemma timeout_path_dead: "rto (s_paths sk ! k) < t - last_ack_time (s_paths sk ! k) \<Longrightarrow>
    maxidle (s_cfg sk) < idle (s_paths sk ! k) \<Longrightarrow> timeout_path ev t k sk = Some (removePath sk k, True)"
  by (simp add: timeout_path_def timeout_def Let_def)

lemma skip_third:
  assumes "s_paths sk = [p, q, r]" "s_status sk \<noteq> CLOSED" "t - last_ack_time p \<le> rto p" "t - last_ack_time q \<le> rto q"
  shows "server_turn ev ReadTimeout t u es 0 sk = Ran (sk, 0)"
proof -
  have "[0..<length (s_paths sk)] = [0, 1, 2]" by (simp add: assms(1) upt_rec)
  moreover have "timeout_path ev t 0 sk = Some (sk, False)" "timeout_path ev t 1 sk = Some (sk, False)"
    by (rule timeout_path_quiet, simp add: assms)+
  ultimately show ?thesis
    using assms(1,2) by (simp add: server_turn_def check_timeouts_def c_rem_def)
qed

lemma removed_index:
  assumes "s_paths sk = [p, q, r]" "s_status sk \<noteq> CLOSED" "rto p < t - last_ack_time p" "maxidle (s_cfg sk) < idle p"
    "t - last_ack_time r \<le> rto r"
  shows "server_turn ev ReadTimeout t u es 2 sk = Ran (removePath sk 0, -1)"
    and "server_turn ev' ReadTimeout t' u' es' (-1) (removePath sk 0) = Crash"
proof -
  have l: "[0..<length (s_paths sk)] = [0, 1, 2]" by (simp add: assms(1) upt_rec)
  have rm: "s_paths (removePath sk 0) = [q, r]" "s_status (removePath sk 0) \<noteq> CLOSED"
    using assms(1,2) by (simp_all add: removePath_def)
  have "timeout_path ev t 2 sk = Some (sk, False)" by (rule timeout_path_quiet) (simp add: assms)
  moreover have "timeout_path ev t 0 sk = Some (removePath sk 0, True)" by (rule timeout_path_dead) (simp_all add: assms)
  ultimately show "server_turn ev ReadTimeout t u es 2 sk = Ran (removePath sk 0, -1)"
    using assms(1,2) rm by (simp add: server_turn_def check_timeouts_def c_rem_def l)
  show "server_turn ev' ReadTimeout t' u' es' (-1) (removePath sk 0) = Crash"
    using rm by (simp add: server_turn_def check_timeouts_def c_rem_def upt_rec)
qed

end
