(* ===== verification/ConnInputs.thy ===== *)
theory ConnInputs
  imports Inputs SrvConn CliConn
begin

text \<open>
  Concrete inputs for the connection management: an environment, control packets, a server
  that listens and one with three paths.
\<close>

section \<open>The server\<close>

definition w_env :: srv_env where
  "w_env = \<lparr>v_now = 1, v_ts = 0, v_double = (\<lambda>w. real (unat w)), v_sent = (\<lambda>i. True),
     v_stack = w_pkt NORMAL 0 0 0 [], v_path = w_path0, v_woken = True\<rparr>"

definition w_ctl :: "flag \<Rightarrow> ack_pckt" where
  "w_ctl fl = (ackPacket 0 0 0 0)\<lparr>a_flag := flag_code fl\<rparr>"

lemma w_ctl_flag [simp]: "a_flag (w_ctl fl) = flag_code fl"
  by (simp add: w_ctl_def)

text \<open>A SYN from one address, then one from another.\<close>

definition w_listen :: server where
  "w_listen = fst (listen_srvctcp w_env (Some 7) (Got (2, 80, 1) (w_ctl SYN)) (create_srvctcp_sock w_cfg w_coder))"

definition w_two :: server where
  "w_two = add_path w_env (2, 81, 5) (worker_init w_listen)"

lemma w_alloc7: "\<exists>pool. alloc_skb (Some 7) (k_pool w_coder) = (pool, Some 7)"
  by (simp add: alloc_skb_def w_coder_def skb_pool_init_def Let_def)

lemma w_listen_eval: "listen_srvctcp w_env (Some 7) (Got (2, 80, 1) (w_ctl SYN)) (create_srvctcp_sock w_cfg w_coder) = (w_listen, True)"
    "ids w_listen = [((2, 80, 1), SYN_ACK_SENT)]" "s_status w_listen = ACTIVE"
proof -
  obtain pool where "alloc_skb (Some 7) (k_pool w_coder) = (pool, Some 7)" using w_alloc7 by blast
  note e = this listen_srvctcp_def send_flag_def Let_def create_srvctcp_sock_def w_env_def
  show "listen_srvctcp w_env (Some 7) (Got (2, 80, 1) (w_ctl SYN)) (create_srvctcp_sock w_cfg w_coder) = (w_listen, True)"
    unfolding w_listen_def by (simp add: e)
  show "ids w_listen = [((2, 80, 1), SYN_ACK_SENT)]" "s_status w_listen = ACTIVE"
    by (simp_all add: w_listen_def e ids_def path_id_def upd_path_def stamp_syn_def)
qed

lemma w_init_ids: "ids (worker_init w_listen) = [((2, 80, 1), SYN_ACK_SENT)]" "s_status (worker_init w_listen) = ACTIVE"
  using w_listen_eval(2,3) by (simp_all add: worker_init_def ids_def)

definition w_syn_event :: srv_event where
  "w_syn_event = \<lparr>e_env = w_env, e_read = Got (2, 81, 5) (w_ctl SYN), e_rcvt = 1, e_rcvt_user = 0, e_fin = []\<rparr>"

lemma w_two_run: "srv_run w_two 1" "length (s_paths w_two) = 2"
proof -
  obtain p where p: "s_paths (worker_init w_listen) = [p]" "cli_addr p = (2, 80, 1)"
    using w_init_ids(1) by (auto simp: ids_def path_id_def)
  have "event_turn w_syn_event 0 (worker_init w_listen) = Ran (w_two, 1)"
    by (simp add: event_turn_def w_syn_event_def server_turn_def p sockaddr_cmp4_def w_two_def MAX_CONNECT_def Let_def)
  moreover have "s_status (worker_init w_listen) \<noteq> CLOSED" by (simp add: w_init_ids)
  ultimately show "srv_run w_two 1" using srv_listen [OF w_listen_eval(1)] srv_turn by blast
  show "length (s_paths w_two) = 2" by (simp add: w_two_def add_path_def Let_def upd_path_def p)
qed

definition w_path_at :: "u32 \<Rightarrow> real \<Rightarrow> path" where
  "w_path_at a t = w_path\<lparr>cli_addr := (2, 80, a), last_ack_time := t\<rparr>"

definition w_srv3 :: server where
  "w_srv3 = w_srv\<lparr>s_paths := [(w_path_at 1 0)\<lparr>idle := 11\<rparr>, w_path_at 2 9, w_path_at 3 9]\<rparr>"

lemma w_path_at_rto [simp]: "rto (w_path_at a t) = 1" "last_ack_time (w_path_at a t) = t"
  by (simp_all add: w_path_at_def w_path_def init_stream_def INIT_RTO_def)

lemma w_srv3_fields: "s_status w_srv3 = ACTIVE" "s_cfg w_srv3 = w_cfg"
  by (simp_all add: w_srv3_def w_srv_def create_srvctcp_sock_def)

section \<open>The client\<close>

definition w_malloc7 :: "skb_pool \<Rightarrow> addr option" where
  "w_malloc7 p = (if p_chunks p = [] then Some 7 else Some 9)"

definition w_cenv :: cli_env where
  "w_cenv = \<lparr>y_now = 1, y_ts = 0, y_sent = (\<lambda>i. True), y_malloc = w_malloc7\<rparr>"

definition w_sub :: substream where
  "w_sub = \<lparr>u_ifc = False, u_sockfd = 3, u_state = ESTABLISHED_c, u_lastrcvt = 0, u_idle_time = 0, u_idle_count = 0\<rparr>"

definition w_cli :: client where
  "w_cli = create_clictcp_sock (replicate NUM_BLOCKS w_raw) skb_pool_init w_sub [(False, 3)] 2"

definition w_visit :: "visit \<Rightarrow> cli_visit" where
  "w_visit v = \<lparr>i_env = w_cenv, i_stack = w_stack, i_ack_ts = 0, i_rcvt = 1, i_visit = v, i_polls = []\<rparr>"

lemma w_cli_fields: "c_dec w_cli = w_dec" "c_status w_cli = ACTIVE_c" "length (c_subs w_cli) = 1"
    "u_state (c_subs w_cli ! 0) = ESTABLISHED_c"
  by (simp_all add: w_cli_def create_clictcp_sock_def w_dec_def w_sub_def)

definition w_pool7 :: skb_pool where "w_pool7 = fst (alloc_skb (Some 7) skb_pool_init)"

lemma w_alloc_pool7: "alloc_skb (Some 7) skb_pool_init = (w_pool7, Some 7)" "w_malloc7 skb_pool_init = Some 7"
    "w_malloc7 w_pool7 = Some 9" "alloc_skb (Some 9) w_pool7 = (fst (alloc_skb (Some 9) w_pool7), Some 9)"
  by (simp_all add: w_pool7_def w_malloc7_def alloc_skb_def skb_pool_init_def take_chunk_def Let_def)

text \<open>The packet of \<open>w_bldack\<close>, with another pool.\<close>

lemma w_note_pool: "note_index w_msg (w_dec\<lparr>dc_pool := p\<rparr>) = (w_dec\<lparr>dc_pool := p\<rparr>)\<lparr>dc_blocks :=
    (replicate 100 (initCodedBlock w_raw))[1 := (initCodedBlock w_raw)\<lparr>cb_max_packet_index := 1\<rparr>]\<rparr>"
  by (simp add: note_index_def w_msg_fields w_dec_fields w_init_counts w_slot1 Let_def)

lemma w_place_pool: "place_packet w_stack 7 w_msg (note_index w_msg (w_dec\<lparr>dc_pool := p\<rparr>)) =
    Done ((w_dec\<lparr>dc_pool := p\<rparr>)\<lparr>dc_blocks := (replicate 100 (initCodedBlock w_raw))[1 := w_rblk], dc_last_seqno := 1\<rparr>, True)"
  unfolding w_note_pool
  by (simp add: place_packet_def w_msg_fields w_dec_fields w_init_counts w_slot1 Let_def w_rblk_eval w_elim
      c_MAX_eq_max NUM_BLOCKS_def word_le_nat_alt del: One_nat_def)

lemma w_bldack_pool:
  "\<exists>p ack. bldack w_malloc7 w_stack 0 7 w_msg (note_index w_msg (w_dec\<lparr>dc_pool := w_pool7\<rparr>)) = Done (w_dec1\<lparr>dc_pool := p\<rparr>, ack)"
proof -
  define p where "p = free_skb 9 (fst (alloc_skb (Some 9) w_pool7))"
  let ?d = "w_dec\<lparr>dc_blocks := (replicate 100 (initCodedBlock w_raw))[1 := w_rblk], dc_last_seqno := 1, dc_pool := p, dc_acks := 1\<rparr>"
  have pw: "partial_write ?d = Done (w_dec1\<lparr>dc_pool := p\<rparr>)"
    by (simp add: partial_write_def w_dec_fields w_slot1 w_rblk_eval w_unwrap w_partial Let_def w_dec1_def
        del: One_nat_def)
  have dl: "decode_loop (w_dec1\<lparr>dc_pool := p\<rparr>) = Done (w_dec1\<lparr>dc_pool := p\<rparr>)"
    by (simp add: decode_loop.simps [of "w_dec1\<lparr>dc_pool := p\<rparr>"] Let_def)
      (simp add: w_dec1_def w_dec_fields w_slot1 w_rblk_eval Let_def del: One_nat_def)
  have acks: "dc_acks w_dec = 0" by (simp add: w_dec_def decoder_init_def)
  show ?thesis
    using pw dl acks
    by (intro exI [of _ p], simp add: bldack_def w_place_pool Let_def w_dec_fields w_slot1 w_rblk_eval w_alloc_pool7(1-3) del: One_nat_def)
      (subst w_alloc_pool7(4), simp add: w_slot1 w_rblk_eval p_def [symmetric] del: One_nat_def)
qed

lemma w_visit_data:
  assumes cf: "c_dec csk0 = w_dec" "c_status csk0 = ACTIVE_c" "length (c_subs csk0) = 1" "u_state (c_subs csk0 ! 0) = ESTABLISHED_c"
  shows "\<exists>csk e. client_visit (w_visit (Recvd w_msg)) 0 csk0 = Done (Some (csk, e)) \<and>
    dc_usr_cache (c_dec csk) = w_Q \<and> c_status csk = ACTIVE_c"
proof -
  obtain p ack where bl: "bldack w_malloc7 w_stack 0 7 w_msg (note_index w_msg (w_dec\<lparr>dc_pool := w_pool7\<rparr>)) = Done (w_dec1\<lparr>dc_pool := p\<rparr>, ack)"
    using w_bldack_pool by blast
  have fl: "d_flag w_msg = 0" by (simp add: w_msg_def w_pkt_def)
  have st: "c_subs (set_sub 0 f csk) ! 0 = f (c_subs csk ! 0)" if "length (c_subs csk) = 1" for f csk
    using that by (simp add: set_sub_def)
  show ?thesis
    by (simp add: client_visit_def w_visit_def w_cenv_def cf w_dec_fields w_alloc_pool7(1-3) Let_def cli_packet_def fl
        cli_data_def cli_decode_def note_packet_def set_pool_def st bl del: One_nat_def)
      (simp add: w_dec1_def)
qed

lemma w_cli_run: "\<exists>csk. cli_run w_Ps PAYLOAD_SIZE (replicate NUM_BLOCKS w_raw) csk [65]"
proof -
  obtain csk e where v: "client_visit (w_visit (Recvd w_msg)) 0 w_cli = Done (Some (csk, e))" "dc_usr_cache (c_dec csk) = w_Q"
    "c_status csk = ACTIVE_c" using w_visit_data [OF w_cli_fields] by blast
  have "sound_visit w_Ps PAYLOAD_SIZE (c_dec w_cli) (w_visit (Recvd w_msg))"
    using w_accepts w_ranges
    by (simp add: sound_visit_def w_visit_def w_cenv_def w_malloc7_def sound_packet_def is_control_def w_cli_fields)
      (simp add: w_msg_def w_pkt_def)
  moreover have "c_dec w_cli = decoder_init (replicate NUM_BLOCKS w_raw) skb_pool_init" by (simp add: w_cli_fields w_dec_def)
  ultimately have run: "cli_run w_Ps PAYLOAD_SIZE (replicate NUM_BLOCKS w_raw) csk []"
    using cr_visit [OF cr_start _ _ _ v(1)] w_cli_fields by simp
  obtain csk' where "read_ctcp csk 1 = Some (csk', Some [65])"
    using v w_read by (simp add: read_ctcp_def Let_def)
  from cr_read [OF run _ this] show ?thesis by auto
qed

text \<open>The server's FIN when the byte has not been read, and its FIN-ACK to ours.\<close>

lemma w_fin: "\<exists>csk. cli_fin w_cenv 0 0 [PollReady [Recvd (w_pkt FIN_ACK 0 0 0 [])]] (w_cli\<lparr>c_dec := w_dec1\<rparr>) = Done (Some csk)"
proof -
  define csk where "csk = set_sub 0 (\<lambda>q. q\<lparr>u_state := FIN_RECV_c\<rparr>) (w_cli\<lparr>c_dec := w_dec1\<rparr>)"
  have l: "length (c_subs csk) = 1" using w_cli_fields(3) by (simp add: csk_def)
  have "\<exists>p a. alloc_skb (w_malloc7 q) q = (p, Some a)" for q
    by (simp add: alloc_skb_def w_malloc7_def Let_def split: option.split)
  then obtain p a where al: "alloc_skb (w_malloc7 (dc_pool (c_dec csk))) (dc_pool (c_dec csk)) = (p, Some a)" by blast
  obtain csk1 ok where s: "cli_send_flag w_cenv 0 FIN_ACK 0 csk = Done (csk1, ok)"
    by (simp add: cli_send_flag_def w_cenv_def al Let_def split_def)
  from cli_send_flag_frame(1) [OF s] l have l1: "c_subs (set_sub 0 f csk1) \<noteq> []" for f by (auto simp: set_sub_def)
  have "\<exists>csk n. cli_fin_loop w_cenv 0 0 (-1) (set_sub 0 (\<lambda>q. q\<lparr>u_state := FIN_RECV_c\<rparr>) (w_cli\<lparr>c_dec := w_dec1\<rparr>))
      [PollReady [Recvd (w_pkt FIN_ACK 0 0 0 [])]] = Done (Some (csk, n))"
    using l1 by (simp add: csk_def [symmetric] l s poll_flag_def w_pkt_def)
  then show ?thesis by (auto simp: cli_fin_def)
qed

lemma w_Q_bytes: "fifo_bytes w_Q = [65]"
proof -
  have "fifo_open w_Q"
    by (simp add: fifo_open_def fifo_ok_def w_Q_def fifo_init_def memcpy_at_def modulo_def c_rem_def)
  from fifo_pop_open [OF this _ w_read] show ?thesis
    by (simp add: fifo_bytes_def ring_def)
qed

end
