(* ===== verification/ProxyInputs.thy ===== *)
theory ProxyInputs
  imports Tunnel ConnInputs
begin

text \<open>
  Concrete inputs for the proxies: a SOCKS 5 proxy without authentication and system calls
  with which a connection through it succeeds, the child that answers it, and turns of the
  relays.
\<close>

definition w_px :: t_proxy where
  "w_px = \<lparr>px_type = 1, px_ip = [127, 0, 0, 1], px_port = 1080, px_flags = 0, px_user = None, px_pwd = None\<rparr>"

definition w_penv :: "bytes option \<Rightarrow> penv" where
  "w_penv r = \<lparr>e_events = 0, e_poll = (\<lambda>_. 1), e_errno = 0, e_getsockopt = 0, e_so_err = 0, e_fcntl = 0,
    e_stack = replicate 256 0, e_adam = 0, e_write = 256, e_read = r, e_malloc = True,
    e_hosts = [(Some [127, 0, 0, 1], 0)], e_uid = 0\<rparr>"

definition w_nenv :: nenv where
  "w_nenv = \<lparr>n_strdup = True, n_socket = (3, 0), n_fcntl = (0, 0), n_connect = (0, 0)\<rparr>"

definition w_name :: bytes where "w_name = str ''abc''"

definition w_turns :: "penv list" where
  "w_turns = map w_penv [None, None, Some [5, 0, 56, 48, 48, 49, 0], None, Some [5, 0, 0, 1, 127, 0, 0, 1, 31, 65],
    None, None, None, None]"

lemma w_penv_ok: "length (e_stack (w_penv r)) = 256" "s4_resolve (e_hosts (w_penv r)) \<noteq> None" "ready (w_penv r)"
  by (simp_all add: w_penv_def ready_def)

lemma w_turns_all: "\<forall>e \<in> set w_turns. length (e_stack e) = 256" "\<forall>e \<in> set w_turns. s4_resolve (e_hosts e) \<noteq> None"
    "length (filter ready w_turns) = 9"
  by (simp_all add: w_turns_def w_penv_ok del: s4_resolve.simps not_None_eq)

lemma w_connected: "\<exists>c. proxy_connect w_nenv w_turns (Some w_px) (Some w_name) 80 PROXY_CMD_CONNECT = Ret (Some c)"
proof -
  have "(case proxy_connect w_nenv w_turns (Some w_px) (Some w_name) 80 PROXY_CMD_CONNECT of
      Ret r \<Rightarrow> r \<noteq> None | _ \<Rightarrow> False)"
    by code_simp
  then show ?thesis by (auto split: call.splits)
qed

lemma w_plain: "plain_socks5 w_px" "px_type w_px = 1" "px_user w_px = None" "px_pwd w_px = None"
    "0 < length w_name" "length w_name < 128" "0 \<notin> set w_name"
  by code_simp+

definition w_chunks :: sock where
  "w_chunks = \<lparr>sk_in = [Chunk [5], RdInt, Chunk [1, 0, 5, 1], Chunk [0, 3, 3, 97, 98], Chunk [99, 0, 80, 42]],
    sk_wr = [WrRes 3, WrInt, WrRes 1, WrRes 9, WrRes 9, WrRes 9, WrRes 9, WrRes 9], sk_out = []\<rparr>"

definition w_child :: child where
  "w_child = \<lparr>ch_client = w_chunks, ch_data = replicate 14 0, ch_target_ip = [], ch_target_port = 0,
    ch_buf = replicate 256 0\<rparr>"

definition w_socks_env :: socks_env where
  "w_socks_env = \<lparr>x_up_proxy = None, x_host = (\<lambda>_. Some [10, 0, 0, 1]), x_nenv = w_nenv, x_penvs = [], x_ctcp = True,
    x_socket = 4, x_bind = 0, x_listen = 0, x_connect = (0, 0), x_host_ip = [10, 0, 0, 2], x_accept = 5\<rparr>"

text \<open>Turns of a relay: bytes of the client are read, written in part, then the rest.\<close>

definition w_turn :: "bytes \<Rightarrow> 'e \<Rightarrow> 'e turn_env" where
  "w_turn xs e = \<lparr>t_poll = 1, t_revents0 = POLLIN, t_revents1 = 0, t_read = Some xs, t_more = e\<rparr>"

end
