(* ===== verification/Buffers.thy ===== *)
theory Buffers
  imports EndToEnd
begin

text \<open>
  Which packet buffers a block of the sender owns and what the queue of its coded packets
  holds: \<open>blk_good\<close>.  Reading data into a block and coding jobs keep it, and take only
  buffers that are free; releasing a block returns its buffers and those of its queue.
\<close>

section \<open>A block and its queue\<close>

definition bufs :: "block \<Rightarrow> addr set" where
  "bufs B = {a. \<exists>i < b_len B. b_skb B ! i = Some a}"

text \<open>A packet of block number \<open>b\<close> that is a combination of what the block holds.\<close>

definition carried :: "nat \<Rightarrow> block \<Rightarrow> coder \<Rightarrow> data_pckt \<Rightarrow> bool" where
  "carried b B S m \<longleftrightarrow> pkt_ok (packet_of B S) PAYLOAD_SIZE m \<and> unat (d_blockno m) = b \<and>
    unat (d_start_packet m) + unat (d_num_packets m) \<le> b_len B \<and> \<not> is_control m"

definition is_coded :: "coder \<Rightarrow> addr \<Rightarrow> bool" where
  "is_coded S a \<longleftrightarrow> d_flag (k_mem S a) \<noteq> flag_code NORMAL"

text \<open>
  The buffers of a block are in use; its queue holds some of them, and coded packets in
  buffers of their own, each once.
\<close>

definition blk_good :: "nat \<Rightarrow> block \<Rightarrow> coder \<Rightarrow> addr qbuffer \<Rightarrow> addr list \<Rightarrow> bool" where
  "blk_good b B S Q xs \<longleftrightarrow> block_ok B S \<and> block_packed B S \<and> q_holds Q xs \<and>
    (\<forall>a \<in> set xs. p_used (k_pool S) a \<and> carried b B S (k_mem S a) \<and> (is_coded S a \<longleftrightarrow> a \<notin> bufs B)) \<and>
    distinct (filter (is_coded S) xs)"

lemma bufs_holds:
  assumes "block_ok B S"
  shows "a \<in> bufs B \<longleftrightarrow> (\<exists>i < b_len B. holds_at B S i a)"
proof
  assume "a \<in> bufs B"
  then obtain i where i: "i < b_len B" "b_skb B ! i = Some a" by (auto simp: bufs_def)
  then obtain c where "holds_at B S i c" using assms unfolding block_ok_def by blast
  with i show "\<exists>i < b_len B. holds_at B S i a" by (auto simp: holds_at_def)
qed (auto simp: bufs_def holds_at_def)

lemma bufs_used: "block_ok B S \<Longrightarrow> a \<in> bufs B \<Longrightarrow> p_used (k_pool S) a"
  by (auto simp: bufs_holds holds_at_def)

lemma packet_of_eq: "contents B S' = contents B S \<Longrightarrow> packet_of B S' = packet_of B S"
  by (simp add: packet_of_def fun_eq_iff)

text \<open>Agreement on the buffers of a block is enough for its contents.\<close>

lemma same_bufs:
  assumes "block_ok B S" "\<forall>a \<in> bufs B. p_used (k_pool S') a \<and> d_payload (k_mem S' a) = d_payload (k_mem S a)"
  shows "block_ok B S'" "contents B S' = contents B S" "packet_of B S' = packet_of B S"
    "block_packed B S' = block_packed B S" "block_bytes B S' = block_bytes B S"
proof -
  have h: "p_used (k_pool S') a \<and> d_payload (k_mem S' a) = d_payload (k_mem S a)" if "holds_at B S i a" "i < b_len B" for i a
    using that assms bufs_holds [OF assms(1)] by blast
  have "holds_at B S' i a" if "i < b_len B" "holds_at B S i a" for i a
    using h [OF that(2,1)] that(2) by (simp add: holds_at_def)
  then show "block_ok B S'" using block_okI [OF assms(1)] by blast
  show c: "contents B S' = contents B S" by (rule contents_eqI [OF assms(1)]) (use h in blast)
  then show "packet_of B S' = packet_of B S" by (rule packet_of_eq)
  show "block_packed B S' = block_packed B S" "block_bytes B S' = block_bytes B S"
    using c by (simp_all add: block_packed_def block_bytes_def)
qed

lemma blk_good_frame:
  assumes good: "blk_good b B S Q xs" and same: "\<forall>a \<in> bufs B \<union> set xs. p_used (k_pool S') a \<and> k_mem S' a = k_mem S a"
  shows "blk_good b B S' Q xs"
proof -
  have ok: "block_ok B S" using good by (simp add: blk_good_def)
  note sb = same_bufs [OF ok, of S']
  have "carried b B S' m = carried b B S m" for m using sb(3) same by (simp add: carried_def)
  moreover have "filter (is_coded S') xs = filter (is_coded S) xs"
    by (rule filter_cong) (use same in \<open>auto simp: is_coded_def\<close>)
  ultimately show ?thesis using good same sb(1,4) by (auto simp: blk_good_def is_coded_def)
qed

text \<open>A packet stays sound when the block grows.\<close>

definition grows :: "block \<Rightarrow> coder \<Rightarrow> block \<Rightarrow> coder \<Rightarrow> bool" where
  "grows B S B' S' \<longleftrightarrow> b_len B \<le> b_len B' \<and> (\<forall>k < b_len B. packet_of B' S' k = packet_of B S k)"

lemma grows_carried: "carried b B S m \<Longrightarrow> grows B S B' S' \<Longrightarrow> carried b B' S' m"
  using pkt_ok_grow [of "packet_of B S" PAYLOAD_SIZE m "b_len B" "packet_of B' S'"]
  by (auto simp: carried_def grows_def)

section \<open>Reading data into a block\<close>

lemma put_skb_bufs:
  assumes "block_ok B S" "b_len B < BLOCK_SIZE"
  shows "bufs (put_skb B a) = insert a (bufs B)"
proof -
  have l: "b_len B < length (b_skb B)" using assms by (simp add: block_ok_def)
  have "(\<exists>i < Suc (b_len B). (b_skb B)[b_len B := Some a] ! i = Some c) \<longleftrightarrow> c = a \<or> (\<exists>i < b_len B. b_skb B ! i = Some c)" for c
    using l by (auto simp: less_Suc_eq)
  then show ?thesis by (auto simp: bufs_def put_skb_def)
qed

lemma readBlock_grows:
  assumes "readBlock malloc B S buf = (B', S', rest)" "block_ok B S" "pool_good (k_pool S)" "\<forall>p. fresh p (malloc p)"
  shows "grows B S B' S' \<and> bufs B \<subseteq> bufs B' \<and> (\<forall>a \<in> bufs B'. a \<in> bufs B \<or> \<not> p_used (k_pool S) a)"
  using assms
proof (induction malloc B S buf rule: readBlock.induct)
  case (1 malloc B S buf)
  obtain p r where al: "alloc_skb (malloc (k_pool S)) (k_pool S) = (p, r)" by fastforce
  consider "\<not> (b_len B < BLOCK_SIZE \<and> buf \<noteq> [])" | "b_len B < BLOCK_SIZE \<and> buf \<noteq> []" "r = None"
    | a where "b_len B < BLOCK_SIZE \<and> buf \<noteq> []" "r = Some a" by blast
  then show ?case
  proof cases
    case 1
    then show ?thesis using \<open>readBlock malloc B S buf = (B', S', rest)\<close>
      by (auto simp: readBlock.simps [of malloc B S buf] grows_def)
  next
    case 2
    then have "B' = B" "S' = S\<lparr>k_pool := p\<rparr>"
      using \<open>readBlock malloc B S buf = (B', S', rest)\<close> al by (simp_all add: readBlock.simps [of malloc B S buf])
    moreover have "contents B (S\<lparr>k_pool := p\<rparr>) = contents B S" by (rule contents_eqI [OF 1(3)]) simp
    ultimately show ?thesis using packet_of_eq [of B "S\<lparr>k_pool := p\<rparr>" S] by (simp add: grows_def)
  next
    case 3
    define n where "n = min (PAYLOAD_SIZE - 2) (length buf)"
    define tmp where "tmp = pack_payload (take n buf)"
    define S1 where "S1 = set_payload (S\<lparr>k_pool := p\<rparr>) a tmp"
    have fr: "fresh q (malloc q)" for q using 1(5) by blast
    have ag: "pool_good p" "\<not> p_used (k_pool S) a" "p_used p = (p_used (k_pool S))(a := True)"
      using alloc_good [OF 1(4) fr] al 3 by blast+
    have tmp: "length tmp = PAYLOAD_SIZE" using payload_data_pack [of "take n buf"] by (simp add: tmp_def n_def)
    note put = put_skb_ok [OF 1(3) conjunct1 [OF 3(1)] ag(2,3) tmp S1_def]
    have rec: "readBlock malloc (put_skb B a) S1 (drop n buf) = (B', S', rest)"
      using 1(2) 3 al by (simp add: readBlock.simps [of malloc B S buf] n_def tmp_def S1_def Let_def)
    have good: "pool_good (k_pool S1)" using ag by (simp add: S1_def set_payload_def)
    have IH: "grows (put_skb B a) S1 B' S' \<and> bufs (put_skb B a) \<subseteq> bufs B' \<and>
        (\<forall>c \<in> bufs B'. c \<in> bufs (put_skb B a) \<or> \<not> p_used (k_pool S1) c)"
      by (rule 1(1) [OF 3(1) al [symmetric] 3(2) n_def tmp_def, folded S1_def])
        (use rec put(1) good 1(5) in simp_all)
    have step: "grows B S (put_skb B a) S1"
      using put(2) by (auto simp: grows_def packet_of_def put_skb_def nth_append)
    have "grows B S B' S'" using IH step by (auto simp: grows_def)
    moreover have "p_used (k_pool S) c \<Longrightarrow> p_used (k_pool S1) c" for c using put(3) by (simp add: frame_def)
    moreover have ins: "bufs (put_skb B a) = insert a (bufs B)" by (rule put_skb_bufs [OF 1(3) conjunct1 [OF 3(1)]])
    moreover have "c \<in> bufs B \<or> \<not> p_used (k_pool S) c" if "c \<in> bufs B'" for c
      using IH that ag(2) ins calculation(2) by auto
    ultimately show ?thesis using IH by auto
  qed
qed

text \<open>The queue of the block stays sound, the other buffers in use are left alone.\<close>

lemma readBlock_good:
  assumes rd: "readBlock malloc B S buf = (B', S', rest)" and good: "blk_good b B S Q xs"
    and pool: "pool_good (k_pool S)" and fr: "\<forall>p. fresh p (malloc p)"
  shows "blk_good b B' S' Q xs \<and> grows B S B' S' \<and> frame S S' \<and> (\<forall>a \<in> bufs B'. a \<in> bufs B \<or> \<not> p_used (k_pool S) a)"
proof -
  have ok: "block_ok B S" "block_packed B S" using good by (simp_all add: blk_good_def)
  note rc = readBlock_correct [OF rd ok(1) pool fr] and rg = readBlock_grows [OF rd ok(1) pool fr]
  have frm: "frame S S'" and g: "grows B S B' S'" using rc rg by blast+
  have mem: "p_used (k_pool S') a \<and> k_mem S' a = k_mem S a" if "p_used (k_pool S) a" for a
    using that frm by (simp add: frame_def)
  have used: "\<forall>a \<in> set xs. p_used (k_pool S) a" using good by (simp add: blk_good_def)
  have cod: "is_coded S' a = is_coded S a" if "a \<in> set xs" for a using that used mem by (simp add: is_coded_def)
  then have "filter (is_coded S') xs = filter (is_coded S) xs" by (intro filter_cong) simp_all
  moreover have "p_used (k_pool S') a \<and> carried b B' S' (k_mem S' a) \<and> (is_coded S' a \<longleftrightarrow> a \<notin> bufs B')" if "a \<in> set xs" for a
  proof -
    have u: "p_used (k_pool S) a" using that used by blast
    moreover have "a \<in> bufs B' \<longleftrightarrow> a \<in> bufs B" using rg u by blast
    moreover have "carried b B S (k_mem S a) \<and> (is_coded S a \<longleftrightarrow> a \<notin> bufs B)" using good that by (simp add: blk_good_def)
    ultimately show ?thesis using mem grows_carried [OF _ g] cod [OF that] by simp
  qed
  ultimately have "blk_good b B' S' Q xs"
    using good rc readBlock_packed [OF rd ok(1) pool fr ok(2)] by (simp add: blk_good_def)
  with g frm rg show ?thesis by blast
qed


section \<open>A coding job\<close>

text \<open>The uncoded packets: headers of the block's own buffers are set, again perhaps.\<close>

lemma plain_carried:
  assumes "block_ok B S" "i < b_len B" "holds_at B S i a" "plain_pkt w i m" "d_payload m = d_payload (k_mem S a)"
  shows "carried (unat w) B S m"
  using plain_pkt_ok [OF assms] assms(2,4) by (simp add: carried_def plain_pkt_def is_control_def)

lemma code_rows_good:
  assumes rows: "code_rows w B rows S Q = Some (S', Q')" and good: "blk_good b B S Q xs" and w: "unat w = b"
    and in_range: "distinct rows" "\<forall>row \<in> set rows. 0 \<le> row \<and> nat row < b_len B"
  shows "\<exists>as. blk_good b B S' Q' (xs @ as) \<and> set as \<subseteq> bufs B \<and> k_pool S' = k_pool S \<and>
    contents B S' = contents B S \<and> (\<forall>a. a \<notin> bufs B \<longrightarrow> k_mem S' a = k_mem S a)"
proof -
  have ok: "block_ok B S" and q: "q_holds Q xs" using good by (simp_all add: blk_good_def)
  note cr = code_rows_correct [OF rows ok q in_range]
  let ?as = "map (\<lambda>row. the (b_skb B ! nat row)) rows"
  have at: "\<exists>a. holds_at B S (nat row) a \<and> b_skb B ! nat row = Some a" if "row \<in> set rows" for row
  proof -
    have "nat row < b_len B" using in_range(2) that by blast
    then obtain a where "holds_at B S (nat row) a" using ok unfolding block_ok_def by blast
    then show ?thesis by (auto simp: holds_at_def)
  qed
  have pool: "k_pool S' = k_pool S" and pay: "d_payload (k_mem S' a) = d_payload (k_mem S a)" for a using cr by blast+
  note sb = same_bufs [OF ok, of S']
  have same: "\<forall>a \<in> bufs B. p_used (k_pool S') a \<and> d_payload (k_mem S' a) = d_payload (k_mem S a)"
    using bufs_used [OF ok] pool pay by simp
  have set_rows: "a \<in> bufs B \<and> carried b B S' (k_mem S' a) \<and> \<not> is_coded S' a" if r: "row \<in> set rows" "b_skb B ! nat row = Some a" for row a
  proof -
    have i: "nat row < b_len B" using in_range(2) r(1) by blast
    have pl: "plain_pkt w (nat row) (k_mem S' a)" using cr r by fastforce
    have "holds_at B S (nat row) a" using at [OF r(1)] r(2) by auto
    from plain_carried [OF ok i this pl pay] sb(3) [OF same] have "carried b B S' (k_mem S' a)"
      using w by (simp add: carried_def)
    moreover have "\<not> is_coded S' a" using pl by (simp add: is_coded_def plain_pkt_def)
    ultimately show ?thesis using i r(2) by (auto simp: bufs_def)
  qed
  have other: "k_mem S' a = k_mem S a" if "\<forall>row \<in> set rows. b_skb B ! nat row \<noteq> Some a" for a using cr that by blast
  have carr: "carried b B S' m = carried b B S m" for m using sb(3) [OF same] by (simp add: carried_def)
  have old: "p_used (k_pool S') a \<and> carried b B S' (k_mem S' a) \<and> (is_coded S' a \<longleftrightarrow> a \<notin> bufs B) \<and> is_coded S' a = is_coded S a"
    if "a \<in> set xs" for a
  proof -
    have g: "p_used (k_pool S) a" "carried b B S (k_mem S a)" "is_coded S a \<longleftrightarrow> a \<notin> bufs B"
      using good that by (simp_all add: blk_good_def)
    show ?thesis
    proof (cases "\<exists>row \<in> set rows. b_skb B ! nat row = Some a")
      case True
      then show ?thesis using set_rows g pool by auto
    next
      case False
      then have "k_mem S' a = k_mem S a" using other by blast
      then show ?thesis using g pool carr by (simp add: is_coded_def)
    qed
  qed
  have new: "a \<in> bufs B \<and> p_used (k_pool S') a \<and> carried b B S' (k_mem S' a) \<and> \<not> is_coded S' a" if mem: "a \<in> set ?as" for a
  proof -
    obtain row where r: "a = the (b_skb B ! nat row)" "row \<in> set rows" using mem unfolding set_map by (rule imageE)
    with at [OF r(2)] have "b_skb B ! nat row = Some a" by auto
    with set_rows [OF r(2) this] bufs_used [OF ok] pool show ?thesis by auto
  qed
  have "filter (is_coded S') ?as = []" using new by (simp only: filter_empty_conv) blast
  moreover have "filter (is_coded S') xs = filter (is_coded S) xs" by (rule filter_cong) (use old in auto)
  ultimately have "distinct (filter (is_coded S') (xs @ ?as))" using good by (simp add: blk_good_def)
  moreover have "\<forall>a \<in> set (xs @ ?as). p_used (k_pool S') a \<and> carried b B S' (k_mem S' a) \<and> (is_coded S' a \<longleftrightarrow> a \<notin> bufs B)"
    using old new by (simp only: set_append) blast
  moreover have "q_holds Q' (xs @ ?as)" using cr by blast
  ultimately have "blk_good b B S' Q' (xs @ ?as)"
    using good sb(1,4) [OF same] by (simp only: blk_good_def simp_thms)
  moreover have "a \<notin> bufs B \<Longrightarrow> k_mem S' a = k_mem S a" for a using other set_rows by blast
  ultimately show ?thesis using new pool sb(2) [OF same] by (intro exI [of _ ?as]) blast
qed

lemma code_mixed_good:
  assumes mixed: "code_mixed malloc w B n S Q rnds = Some (S', Q', rnds')" and good: "blk_good b B S Q xs" and w: "unat w = b"
    and len: "0 < b_len B" and pool: "pool_good (k_pool S)" and fr: "\<forall>p. fresh p (malloc p)"
  shows "\<exists>as. blk_good b B S' Q' (xs @ as) \<and> (\<forall>a \<in> set as. \<not> p_used (k_pool S) a) \<and> pool_good (k_pool S') \<and> frame S S' \<and>
    contents B S' = contents B S"
proof -
  have ok: "block_ok B S" and q: "q_holds Q xs" using good by (simp_all add: blk_good_def)
  obtain as where as: "q_holds Q' (xs @ as)" "frame S S'" "pool_good (k_pool S')" "distinct as"
    "\<forall>a \<in> set as. coded_pkt w B S (k_mem S' a) \<and> \<not> p_used (k_pool S) a \<and> p_used (k_pool S') a"
    using code_mixed_correct [OF mixed ok len pool fr q] by blast
  note fb = frame_block [OF ok as(2)]
  have used: "\<forall>a \<in> bufs B \<union> set xs. p_used (k_pool S) a" using good bufs_used [OF ok] by (auto simp: blk_good_def)
  have same: "\<forall>a \<in> bufs B \<union> set xs. p_used (k_pool S') a \<and> k_mem S' a = k_mem S a"
    using used as(2) by (simp add: frame_def)
  have old: "blk_good b B S' Q xs" by (rule blk_good_frame [OF good same])
  have new: "p_used (k_pool S') a \<and> carried b B S' (k_mem S' a) \<and> is_coded S' a \<and> a \<notin> bufs B \<and> a \<notin> set xs" if "a \<in> set as" for a
  proof -
    have "coded_pkt w B S' (k_mem S' a)" using as(5) that coded_pkt_contents [OF fb(2)] by blast
    then have "carried b B S' (k_mem S' a) \<and> is_coded S' a" using w by (simp add: coded_pkt_def carried_def is_coded_def is_control_def)
    then show ?thesis using as(5) that used by blast
  qed
  have "filter (is_coded S') as = as" using new by (simp only: filter_id_conv) blast
  then have "distinct (filter (is_coded S') (xs @ as))" using old as(4) new by (auto simp: blk_good_def)
  moreover have "\<forall>a \<in> set (xs @ as). p_used (k_pool S') a \<and> carried b B S' (k_mem S' a) \<and> (is_coded S' a \<longleftrightarrow> a \<notin> bufs B)"
    using old new by (simp only: blk_good_def set_append) blast
  ultimately have "blk_good b B S' Q' (xs @ as)" using old as(1) by (simp only: blk_good_def simp_thms)
  then show ?thesis using as fb(2) by blast
qed


lemma coding_job_good:
  assumes job: "coding_job malloc cb job B S Q rnds = Some (S', Q', rnds')" and good: "blk_good b B S Q xs"
    and b: "unat (j_blockno job) = b" and pool: "pool_good (k_pool S)" and fr: "\<forall>p. fresh p (malloc p)" and start: "0 \<le> j_start job"
  shows "\<exists>as. blk_good b B S' Q' (xs @ as) \<and> (\<forall>a \<in> set as. a \<in> bufs B \<or> \<not> p_used (k_pool S) a) \<and> pool_good (k_pool S') \<and>
    contents B S' = contents B S \<and>
    (\<forall>a. p_used (k_pool S) a \<longrightarrow> p_used (k_pool S') a \<and> (a \<notin> bufs B \<longrightarrow> k_mem S' a = k_mem S a))"
proof -
  let ?w = "j_blockno job" and ?n = "int (b_len B)"
  let ?rows = "[j_start job..min (j_start job + j_dof_request job) ?n - 1]"
  consider "?w < cb \<or> b_len B = 0" | "\<not> ?w < cb" "0 < b_len B" "j_coding_wnd job \<noteq> 0"
    | "\<not> ?w < cb" "0 < b_len B" "j_coding_wnd job = 0" by blast
  then show ?thesis
  proof cases
    case 1
    then have "S' = S" "Q' = Q" using job by (auto simp: coding_job_def Let_def split: if_splits)
    then show ?thesis using good pool by (intro exI [of _ "[]"]) simp
  next
    case 2
    then have "code_mixed malloc ?w B (nat (j_dof_request job)) S Q rnds = Some (S', Q', rnds')"
      using job by (simp add: coding_job_def Let_def)
    from code_mixed_good [OF this good b 2(2) pool fr] show ?thesis by (auto simp: frame_def)
  next
    case 3
    then obtain S1 Q1 where rows: "code_rows ?w B ?rows S Q = Some (S1, Q1)"
      and mixed: "code_mixed malloc ?w B (nat (max 0 (j_dof_request job - (?n - j_start job)))) S1 Q1 rnds = Some (S', Q', rnds')"
      using job by (auto simp: coding_job_def Let_def split: option.splits)
    have in_range: "\<forall>row \<in> set ?rows. 0 \<le> row \<and> nat row < b_len B" using start by auto
    obtain as where as: "blk_good b B S1 Q1 (xs @ as)" "set as \<subseteq> bufs B" "k_pool S1 = k_pool S" "contents B S1 = contents B S"
        "\<forall>a. a \<notin> bufs B \<longrightarrow> k_mem S1 a = k_mem S a"
      using code_rows_good [OF rows good b distinct_upto in_range] by blast
    obtain cs where cs: "blk_good b B S' Q' ((xs @ as) @ cs)" "\<forall>a \<in> set cs. \<not> p_used (k_pool S1) a" "pool_good (k_pool S')" "frame S1 S'"
        "contents B S' = contents B S1"
      using code_mixed_good [OF mixed as(1) b 3(2) _ fr] pool as(3) by auto
    show ?thesis
      by (intro exI [of _ "as @ cs"]) (use as cs in \<open>auto simp: frame_def\<close>)
  qed
qed

section \<open>Releasing buffers\<close>

lemma fold_free:
  "pool_good p \<Longrightarrow> pool_good (fold free_skb as p) \<and> p_used (fold free_skb as p) = (\<lambda>a. p_used p a \<and> a \<notin> set as)"
proof (induction as arbitrary: p)
  case (Cons a as)
  have "pool_good (free_skb a p)" using Cons.prems free_skb_ok by (fastforce simp: pool_good_def)
  moreover have "p_used (free_skb a p) = (\<lambda>c. p_used p c \<and> c \<noteq> a)"
    by (cases "p_used p a") (auto simp: free_skb_def Let_def fun_eq_iff)
  ultimately show ?case using Cons.IH [of "free_skb a p"] by (auto simp: fun_eq_iff)
qed simp

lemma in_map_filter_id: "a \<in> set (List.map_filter id L) \<longleftrightarrow> Some a \<in> set L"
  by (force simp: List.map_filter_def)

lemma freeBlock_spec:
  assumes "block_ok B S" "pool_good (k_pool S)" "freeBlock B S = (B', S')"
  shows "b_len B' = 0" "block_ok B' T" "bufs B' = {}" "k_mem S' = k_mem S" "pool_good (k_pool S')"
    "p_used (k_pool S') = (\<lambda>a. p_used (k_pool S) a \<and> a \<notin> bufs B)"
proof -
  let ?as = "List.map_filter id (take (b_len B) (b_skb B))"
  have r: "B' = B\<lparr>b_len := 0\<rparr>" "S' = S\<lparr>k_pool := fold free_skb ?as (k_pool S)\<rparr>" using assms(3) by (simp_all add: freeBlock_def)
  show "b_len B' = 0" "bufs B' = {}" "k_mem S' = k_mem S" by (simp_all add: r bufs_def)
  show "block_ok B' T" using assms(1) by (simp add: r block_ok_def)
  have "b_len B \<le> length (b_skb B)" using assms(1) by (simp add: block_ok_def)
  then have "Some a \<in> set (take (b_len B) (b_skb B)) \<longleftrightarrow> a \<in> bufs B" for a
    unfolding in_set_conv_nth bufs_def mem_Collect_eq by (metis length_take min.absorb2 nth_take)
  then have "set ?as = bufs B" by (intro set_eqI) (simp only: in_map_filter_id)
  with fold_free [OF assms(2), of ?as] show "pool_good (k_pool S')" "p_used (k_pool S') = (\<lambda>a. p_used (k_pool S) a \<and> a \<notin> bufs B)"
    by (simp_all add: r)
qed

text \<open>What \<open>q_free\<close> hands to the handler are entries of the queue, all of them or none.\<close>

lemma q_free_subset:
  assumes "q_holds Q xs"
  shows "set (List.map_filter id (snd (q_free Q))) \<subseteq> set xs" "q_holds (fst (q_free Q)) []"
proof -
  have "snd (q_free Q) = map Some (rev xs) \<or> snd (q_free Q) = []"
    using q_free_no_wrap [OF assms] q_free_wrapped [OF q_holds_ok [OF assms]] by fastforce
  then show "set (List.map_filter id (snd (q_free Q))) \<subseteq> set xs" by (auto simp: in_map_filter_id)
  show "q_holds (fst (q_free Q)) []" by (rule q_free_reset [OF q_holds_ok [OF assms]])
qed

end
