(* ===== verification/SendRun.thy ===== *)
theory SendRun
  imports SendStream Buffers
begin

text \<open>
  The whole run of a sender: every packet ever handed to the network stays a combination of
  the data the application gave, also after its block has been acknowledged and its slot and
  buffers are used again.  \<open>sent_inv sk F ins\<close> is the invariant: \<open>F\<close> are the packets of the
  blocks that have been acknowledged, \<open>ins\<close> the bytes that \<open>send_ctcp\<close> has taken.
\<close>

section \<open>The window of blocks\<close>

text \<open>
  Block numbers in the window; \<open>X b\<close> is what the queue of block \<open>b\<close> holds.  The buffers of
  a block and of its queue belong to that block alone.
\<close>

definition window :: "server \<Rightarrow> nat set" where
  "window sk = {unat (s_curr_block sk)..<unat (s_curr_block sk) + NUM_BLOCKS}"

definition q_at :: "server \<Rightarrow> nat \<Rightarrow> addr qbuffer" where
  "q_at sk b = s_coded_q sk ! (b mod NUM_BLOCKS)"

definition foot :: "block \<Rightarrow> addr list \<Rightarrow> addr set" where
  "foot B xs = bufs B \<union> set xs"

definition owned :: "server \<Rightarrow> (nat \<Rightarrow> addr list) \<Rightarrow> bool" where
  "owned sk X \<longleftrightarrow> length (s_blocks sk) = NUM_BLOCKS \<and> length (s_coded_q sk) = NUM_BLOCKS \<and> pool_good (k_pool (s_coder sk)) \<and>
    (\<forall>b \<in> window sk. blk_good b (blk_at sk b) (s_coder sk) (q_at sk b) (X b)) \<and>
    (\<forall>b \<in> window sk. \<forall>c \<in> window sk. b \<noteq> c \<longrightarrow> foot (blk_at sk b) (X b) \<inter> foot (blk_at sk c) (X c) = {})"

lemma foot_used: "blk_good b B S Q xs \<Longrightarrow> a \<in> foot B xs \<Longrightarrow> p_used (k_pool S) a"
  using bufs_used by (auto simp: blk_good_def foot_def)

lemma window_rep: "\<exists>b \<in> window sk. b mod NUM_BLOCKS = k mod NUM_BLOCKS"
proof -
  let ?c = "unat (s_curr_block sk)" and ?n = NUM_BLOCKS
  define b where "b = ?c + (k mod ?n + ?n - ?c mod ?n) mod ?n"
  have n: "0 < ?n" by (simp add: NUM_BLOCKS_def)
  have "b mod ?n = (?c mod ?n + (k mod ?n + ?n - ?c mod ?n)) mod ?n" by (simp add: b_def mod_simps)
  also have "?c mod ?n + (k mod ?n + ?n - ?c mod ?n) = k mod ?n + ?n" using mod_less_divisor [OF n, of ?c] by simp
  finally have "b mod ?n = k mod ?n" by simp
  moreover have "b \<in> window sk" using n by (simp add: window_def b_def)
  ultimately show ?thesis by blast
qed

lemma window_inj: "b \<in> window sk \<Longrightarrow> c \<in> window sk \<Longrightarrow> b mod NUM_BLOCKS = c mod NUM_BLOCKS \<Longrightarrow> b = c"
  unfolding window_def using window_slots_distinct by (metis atLeastLessThan_iff)

lemma owned_blocks: "owned sk X \<Longrightarrow> block_ok (blk_at sk k) (s_coder sk)"
  using window_rep [of sk k] by (fastforce simp: owned_def blk_good_def blk_at_def)

text \<open>A step at one block: the others do not notice.\<close>

lemma owned_local:
  assumes own: "owned sk X" and b: "b \<in> window sk"
    and upd: "s_curr_block sk' = s_curr_block sk" "s_blocks sk' = (s_blocks sk)[b mod NUM_BLOCKS := B']"
      "s_coded_q sk' = (s_coded_q sk)[b mod NUM_BLOCKS := Q']" "s_coder sk' = S'"
    and good: "blk_good b B' S' Q' xs'" "pool_good (k_pool S')"
    and ft: "\<forall>a \<in> foot B' xs'. a \<in> foot (blk_at sk b) (X b) \<or> \<not> p_used (k_pool (s_coder sk)) a"
    and fr: "\<forall>a. p_used (k_pool (s_coder sk)) a \<longrightarrow> a \<notin> foot (blk_at sk b) (X b) \<longrightarrow>
      p_used (k_pool S') a \<and> k_mem S' a = k_mem (s_coder sk) a"
  shows "owned sk' (X(b := xs'))" "blk_at sk' b = B'"
    "\<forall>c \<in> window sk. c \<noteq> b \<longrightarrow> blk_at sk' c = blk_at sk c \<and> contents (blk_at sk c) S' = contents (blk_at sk c) (s_coder sk)"
proof -
  let ?S = "s_coder sk" and ?n = NUM_BLOCKS
  have n: "k mod ?n < ?n" for k by (simp add: NUM_BLOCKS_def)
  have len: "length (s_blocks sk) = ?n" "length (s_coded_q sk) = ?n" using own by (simp_all add: owned_def)
  have win: "window sk' = window sk" by (simp add: window_def upd(1))
  show at_b: "blk_at sk' b = B'" by (simp add: blk_at_def upd(2) len n)
  have q_b: "q_at sk' b = Q'" by (simp add: q_at_def upd(3) len n)
  have other: "blk_at sk' c = blk_at sk c" "q_at sk' c = q_at sk c" if "c \<in> window sk" "c \<noteq> b" for c
  proof -
    have "b mod ?n \<noteq> c mod ?n" using window_inj [OF b that(1)] that(2) by metis
    then show "blk_at sk' c = blk_at sk c" "q_at sk' c = q_at sk c" by (simp_all add: blk_at_def q_at_def upd(2,3))
  qed
  have gc: "blk_good c (blk_at sk c) ?S (q_at sk c) (X c)" if "c \<in> window sk" for c using own that by (simp add: owned_def)
  have disj: "foot (blk_at sk b) (X b) \<inter> foot (blk_at sk c) (X c) = {}" if "c \<in> window sk" "c \<noteq> b" for c
    using own that b by (simp add: owned_def)
  have same: "p_used (k_pool S') a \<and> k_mem S' a = k_mem ?S a" if "c \<in> window sk" "c \<noteq> b" "a \<in> foot (blk_at sk c) (X c)" for c a
  proof -
    have "a \<notin> foot (blk_at sk b) (X b)" using disj [OF that(1,2)] that(3) by blast
    with fr foot_used [OF gc [OF that(1)] that(3)] show ?thesis by blast
  qed
  have good_c: "blk_good c (blk_at sk c) S' (q_at sk c) (X c)" if "c \<in> window sk" "c \<noteq> b" for c
    by (rule blk_good_frame [OF gc [OF that(1)]]) (use same [OF that] in \<open>simp add: foot_def\<close>)
  have new_disj: "foot B' xs' \<inter> foot (blk_at sk c) (X c) = {}" if "c \<in> window sk" "c \<noteq> b" for c
    using ft disj [OF that] foot_used [OF gc [OF that(1)]] by blast
  have pairs: "foot (blk_at sk' c) ((X(b := xs')) c) \<inter> foot (blk_at sk' d) ((X(b := xs')) d) = {}"
    if "c \<in> window sk" "d \<in> window sk" "c \<noteq> d" for c d
  proof -
    consider "c = b" | "d = b" | "c \<noteq> b" "d \<noteq> b" by blast
    then show ?thesis
    proof cases
      case 1
      then show ?thesis using new_disj [OF that(2)] that(3) other(1) [OF that(2)] at_b by simp
    next
      case 2
      then show ?thesis using new_disj [OF that(1)] that(3) other(1) [OF that(1)] at_b by (simp add: Int_commute)
    next
      case 3
      then show ?thesis using own that other(1) by (simp add: owned_def)
    qed
  qed
  have "blk_good c (blk_at sk' c) S' (q_at sk' c) ((X(b := xs')) c)" if "c \<in> window sk" for c
    using that good(1) good_c other at_b q_b by (cases "c = b") simp_all
  then show "owned sk' (X(b := xs'))"
    using pairs len good(2) unfolding owned_def win upd(4) by (simp add: upd(2,3))
  show "\<forall>c \<in> window sk. c \<noteq> b \<longrightarrow> blk_at sk' c = blk_at sk c \<and> contents (blk_at sk c) S' = contents (blk_at sk c) ?S"
  proof (intro ballI impI)
    fix c assume c: "c \<in> window sk" "c \<noteq> b"
    have "block_ok (blk_at sk c) ?S" using gc [OF c(1)] by (simp add: blk_good_def)
    then have "contents (blk_at sk c) S' = contents (blk_at sk c) ?S"
      by (rule same_bufs(2)) (use same [OF c] in \<open>simp add: foot_def\<close>)
    then show "blk_at sk' c = blk_at sk c \<and> contents (blk_at sk c) S' = contents (blk_at sk c) ?S" using other(1) [OF c] by simp
  qed
qed

section \<open>What has been sent\<close>

text \<open>
  The packets of every block that was ever in the window: \<open>F b\<close> for a block that has been
  acknowledged, the contents of its slot for a block in the window.
\<close>

definition hist :: "server \<Rightarrow> (nat \<Rightarrow> nat \<Rightarrow> nat \<Rightarrow> u8) \<Rightarrow> nat \<Rightarrow> nat \<Rightarrow> nat \<Rightarrow> u8" where
  "hist sk F b = (if b < unat (s_curr_block sk) then F b
    else if b < unat (s_curr_block sk) + NUM_BLOCKS then packet_of (blk_at sk b) (s_coder sk) else (\<lambda>k j. 0))"

definition data_ok :: "server \<Rightarrow> (nat \<Rightarrow> nat \<Rightarrow> nat \<Rightarrow> u8) \<Rightarrow> data_pckt \<Rightarrow> bool" where
  "data_ok sk F m \<longleftrightarrow> (let b = unat (d_blockno m) in
    if b < unat (s_curr_block sk) then pkt_ok (F b) PAYLOAD_SIZE m
    else b \<in> window sk \<and> carried b (blk_at sk b) (s_coder sk) m)"

text \<open>A packet that was sent: one without data, or a combination.\<close>

definition log_ok :: "server \<Rightarrow> (nat \<Rightarrow> nat \<Rightarrow> nat \<Rightarrow> u8) \<Rightarrow> data_pckt \<Rightarrow> bool" where
  "log_ok sk F m \<longleftrightarrow> (if is_control m then d_start_packet m = 0 \<and> d_num_packets m = 0 else data_ok sk F m)"

text \<open>Jobs start inside their block.\<close>

definition jobs_ok :: "coding_job_t thr_pool \<Rightarrow> bool" where
  "jobs_ok P \<longleftrightarrow> (\<exists>js. q_holds (t_job_q P) js \<and> (\<forall>job. Job job \<in> set js \<longrightarrow> 0 \<le> j_start job))"

lemma addJob_jobs: "jobs_ok P \<Longrightarrow> addJob P (Job job) pr = Some P' \<Longrightarrow> 0 \<le> j_start job \<Longrightarrow> jobs_ok P'"
proof -
  assume P: "jobs_ok P" "addJob P (Job job) pr = Some P'" "0 \<le> j_start job"
  then obtain js where js: "q_holds (t_job_q P) js" "\<forall>job. Job job \<in> set js \<longrightarrow> 0 \<le> j_start job" by (auto simp: jobs_ok_def)
  obtain js' where "q_holds (t_job_q P') js'" "set js' = insert (Job job) (set js)"
    using addJob_LOW [OF js(1), of "Job job"] addJob_HIGH [OF js(1), of "Job job"] P(2) by (cases pr) fastforce+
  with js(2) P(3) show ?thesis unfolding jobs_ok_def by (intro exI [of _ js']) simp
qed

lemma worker_take_jobs:
  "jobs_ok P \<Longrightarrow> worker_take P w = Some P' \<Longrightarrow> jobs_ok P'"
  "jobs_ok P \<Longrightarrow> worker_take P w = Some P' \<Longrightarrow> t_th P' ! w = Busy job \<Longrightarrow> w < length (t_th P) \<Longrightarrow> 0 \<le> j_start job"
proof -
  assume P: "jobs_ok P" "worker_take P w = Some P'"
  then obtain js where js: "q_holds (t_job_q P) js" "\<forall>job. Job job \<in> set js \<longrightarrow> 0 \<le> j_start job" by (auto simp: jobs_ok_def)
  from worker_takeE [OF js(1) P(2)] obtain j ys q where j: "js = j # ys" "q_holds q ys"
    "P' = P\<lparr>t_job_q := q, t_th := (t_th P)[w := (case j of Job a \<Rightarrow> Busy a | NullJob \<Rightarrow> Dead)]\<rparr>" by blast
  with js show "jobs_ok P'" by (auto simp: jobs_ok_def)
  show "0 \<le> j_start job" if "t_th P' ! w = Busy job" "w < length (t_th P)"
    using that j js(2) by (auto split: job.splits)
qed

definition past :: "server \<Rightarrow> (nat \<Rightarrow> nat \<Rightarrow> nat \<Rightarrow> u8) \<Rightarrow> bytes" where
  "past sk F = concat (map (\<lambda>b. packets_data (F b) PAYLOAD_SIZE 0 BLOCK_SIZE) [1..<unat (s_curr_block sk)])"

definition sent_inv :: "server \<Rightarrow> (nat \<Rightarrow> nat \<Rightarrow> nat \<Rightarrow> u8) \<Rightarrow> bytes \<Rightarrow> bool" where
  "sent_inv sk F ins \<longleftrightarrow> sender_inv sk \<and> (\<exists>X. owned sk X) \<and> (\<forall>m \<in> snd ` set (s_sent sk). log_ok sk F m) \<and>
    jobs_ok (s_workers sk) \<and> (\<forall>b. lens_ok (F b) PAYLOAD_SIZE) \<and> 1 \<le> unat (s_curr_block sk) \<and> past sk F @ s_stream sk = ins"

lemma log_sound: "data_ok sk F m \<Longrightarrow> pkt_ok (hist sk F (unat (d_blockno m))) PAYLOAD_SIZE m"
  by (auto simp: data_ok_def hist_def carried_def window_def Let_def split: if_splits)

text \<open>Only these fields matter.\<close>

definition core :: "server \<Rightarrow> u32 \<times> u32 \<times> block list \<times> addr qbuffer list \<times> coder \<times>
    (nat \<times> data_pckt) list \<times> coding_job_t thr_pool" where
  "core sk = (s_curr_block sk, s_maxblockno sk, s_blocks sk, s_coded_q sk, s_coder sk, s_sent sk, s_workers sk)"

lemma core_same:
  assumes "core sk' = core sk"
  shows "sent_inv sk' F ins = sent_inv sk F ins"
proof -
  have f: "s_curr_block sk' = s_curr_block sk" "s_maxblockno sk' = s_maxblockno sk" "s_blocks sk' = s_blocks sk"
    "s_coded_q sk' = s_coded_q sk" "s_coder sk' = s_coder sk" "s_sent sk' = s_sent sk" "s_workers sk' = s_workers sk"
    using assms by (simp_all add: core_def)
  have at: "blk_at sk' = blk_at sk" "q_at sk' = q_at sk" "window sk' = window sk"
    by (simp_all add: blk_at_def q_at_def window_def f fun_eq_iff)
  show ?thesis
    unfolding sent_inv_def sender_inv_def owned_def log_ok_def data_ok_def past_def s_stream_def at f ..
qed


lemma carried_contents: "contents B S' = contents B S \<Longrightarrow> carried b B S' m = carried b B S m"
  using packet_of_eq [of B S' S] by (simp add: carried_def)

lemma grows_contents: "contents B S' = contents B S \<Longrightarrow> grows B S B S'"
  using packet_of_eq [of B S' S] by (simp add: grows_def)

text \<open>A step at one block keeps the invariant.\<close>

lemma sent_local:
  assumes inv: "sent_inv sk F ins" and own: "owned sk X" and b: "b \<in> window sk"
    and upd: "s_curr_block sk' = s_curr_block sk" "s_blocks sk' = (s_blocks sk)[b mod NUM_BLOCKS := B']"
      "s_coded_q sk' = (s_coded_q sk)[b mod NUM_BLOCKS := Q']" "s_coder sk' = S'"
    and good: "blk_good b B' S' Q' xs'" "pool_good (k_pool S')"
    and ft: "\<forall>a \<in> foot B' xs'. a \<in> foot (blk_at sk b) (X b) \<or> \<not> p_used (k_pool (s_coder sk)) a"
    and fr: "\<forall>a. p_used (k_pool (s_coder sk)) a \<longrightarrow> a \<notin> foot (blk_at sk b) (X b) \<longrightarrow>
      p_used (k_pool S') a \<and> k_mem S' a = k_mem (s_coder sk) a"
    and gr: "grows (blk_at sk b) (s_coder sk) B' S'"
    and sent: "s_sent sk' = s_sent sk @ new" "\<forall>m \<in> snd ` set new. carried b B' S' m"
    and snd: "sender_inv sk'" "s_stream sk' = s_stream sk @ extra" and jobs: "jobs_ok (s_workers sk')"
  shows "sent_inv sk' F (ins @ extra)"
proof -
  note ol = owned_local [OF own b upd good ft fr]
  have win: "window sk' = window sk" by (simp add: window_def upd(1))
  have keep: "data_ok sk' F m" if "data_ok sk F m" for m
  proof -
    let ?c = "unat (d_blockno m)"
    show ?thesis
    proof (cases "?c < unat (s_curr_block sk)")
      case True
      then show ?thesis using that by (simp add: data_ok_def Let_def upd(1))
    next
      case False
      then have c: "?c \<in> window sk" "carried ?c (blk_at sk ?c) (s_coder sk) m" using that by (simp_all add: data_ok_def Let_def)
      have "carried ?c (blk_at sk' ?c) S' m"
      proof (cases "?c = b")
        case True
        then show ?thesis using grows_carried [OF _ gr] c(2) ol(2) by simp
      next
        case False
        then have "blk_at sk' ?c = blk_at sk ?c" "contents (blk_at sk ?c) S' = contents (blk_at sk ?c) (s_coder sk)"
          using ol(3) c(1) by blast+
        then show ?thesis using carried_contents [of "blk_at sk ?c" S' "s_coder sk"] c(2) by simp
      qed
      then show ?thesis using False c(1) by (simp add: data_ok_def Let_def win upd(1,4))
    qed
  qed
  have keep': "log_ok sk' F m" if "log_ok sk F m" for m using that keep by (simp add: log_ok_def split: if_splits)
  have new: "log_ok sk' F m" if "m \<in> snd ` set new" for m
  proof -
    have m: "unat (d_blockno m) = b" "carried b B' S' m" using sent(2) that by (auto simp: carried_def)
    moreover have "\<not> b < unat (s_curr_block sk)" using b by (simp add: window_def)
    ultimately show ?thesis using b by (simp add: log_ok_def data_ok_def Let_def win upd(1,4) ol(2) carried_def)
  qed
  have "past sk' F = past sk F" by (simp add: past_def upd(1))
  moreover have "\<forall>m \<in> snd ` set (s_sent sk'). log_ok sk' F m"
    using inv keep' new unfolding sent(1) sent_inv_def set_append image_Un by blast
  ultimately show ?thesis
    using inv snd jobs ol(1) upd(1) unfolding sent_inv_def by (intro conjI exI [of _ "X(b := xs')"]) simp_all
qed

text \<open>The invariant of the window and the stream, when only headers and queues change.\<close>

lemma sender_same:
  assumes inv: "sender_inv sk" and own: "owned sk' X" and upd: "s_curr_block sk' = s_curr_block sk" "s_maxblockno sk' = s_maxblockno sk"
    and len: "\<forall>k. b_len (blk_at sk' k) = b_len (blk_at sk k)"
  shows "sender_inv sk'"
  using inv owned_blocks [OF own] own upd len by (simp add: sender_inv_def owned_def)

lemma stream_same:
  assumes "s_curr_block sk' = s_curr_block sk"
    "\<forall>c \<in> window sk. contents (blk_at sk' c) (s_coder sk') = contents (blk_at sk c) (s_coder sk)"
  shows "s_stream sk' = s_stream sk"
proof -
  have "map (\<lambda>b. block_bytes (blk_at sk' b) (s_coder sk')) [unat (s_curr_block sk)..<unat (s_curr_block sk) + NUM_BLOCKS] =
      map (\<lambda>b. block_bytes (blk_at sk b) (s_coder sk)) [unat (s_curr_block sk)..<unat (s_curr_block sk) + NUM_BLOCKS]"
    by (rule map_cong [OF refl]) (use assms(2) in \<open>simp add: block_bytes_def window_def\<close>)
  then show ?thesis by (simp only: s_stream_def assms(1))
qed

text \<open>A step that leaves the blocks as they are.\<close>

lemma sent_coder:
  assumes inv: "sent_inv sk F ins" and own: "owned sk X" and b: "b \<in> window sk"
    and sk': "sk' = sk\<lparr>s_coder := S', s_coded_q := (s_coded_q sk)[b mod NUM_BLOCKS := Q'], s_sent := s_sent sk @ new\<rparr>"
    and good: "blk_good b (blk_at sk b) S' Q' xs'" "pool_good (k_pool S')"
    and ft: "\<forall>a \<in> set xs'. a \<in> foot (blk_at sk b) (X b) \<or> \<not> p_used (k_pool (s_coder sk)) a"
    and fr: "\<forall>a. p_used (k_pool (s_coder sk)) a \<longrightarrow> a \<notin> foot (blk_at sk b) (X b) \<longrightarrow>
      p_used (k_pool S') a \<and> k_mem S' a = k_mem (s_coder sk) a"
    and ct: "contents (blk_at sk b) S' = contents (blk_at sk b) (s_coder sk)"
    and new: "\<forall>m \<in> snd ` set new. carried b (blk_at sk b) S' m"
  shows "sent_inv sk' F ins"
proof -
  have upd: "s_curr_block sk' = s_curr_block sk" "s_blocks sk' = (s_blocks sk)[b mod NUM_BLOCKS := blk_at sk b]"
    "s_coded_q sk' = (s_coded_q sk)[b mod NUM_BLOCKS := Q']" "s_coder sk' = S'" "s_sent sk' = s_sent sk @ new"
    "s_maxblockno sk' = s_maxblockno sk" "s_blocks sk' = s_blocks sk"
    by (simp_all add: sk' blk_at_def)
  have ft': "\<forall>a \<in> foot (blk_at sk b) xs'. a \<in> foot (blk_at sk b) (X b) \<or> \<not> p_used (k_pool (s_coder sk)) a"
    using ft by (auto simp: foot_def)
  note ol = owned_local [OF own b upd(1-4) good ft' fr]
  have at: "blk_at sk' = blk_at sk" by (simp add: fun_eq_iff blk_at_def upd(7))
  have snd: "sender_inv sk'" by (rule sender_same [OF _ ol(1) upd(1,6)]) (use inv at in \<open>simp_all add: sent_inv_def\<close>)
  have "s_stream sk' = s_stream sk" by (rule stream_same [OF upd(1)]) (use ol(3) ct at upd(4) in auto)
  moreover have "jobs_ok (s_workers sk')" using inv by (simp add: sk' sent_inv_def)
  ultimately show ?thesis
    using sent_local [OF inv own b upd(1-4) good ft' fr grows_contents [OF ct] upd(5) new snd, of "[]"] by simp
qed


section \<open>Coding and sending\<close>

text \<open>A worker executes a job: the call of \<open>coding_job\<close> under the lock of the block.\<close>

definition server_job :: "(skb_pool \<Rightarrow> addr option) \<Rightarrow> coding_job_t \<Rightarrow> nat list \<Rightarrow> server \<Rightarrow> server option" where
  "server_job malloc job rnds sk =
    (let k = bslot (j_blockno job) in
     case coding_job malloc (s_curr_block sk) job (s_blocks sk ! k) (s_coder sk) (s_coded_q sk ! k) rnds of
       None \<Rightarrow> None
     | Some (S, q, _) \<Rightarrow> Some (sk\<lparr>s_coder := S, s_coded_q := (s_coded_q sk)[k := q]\<rparr>))"

lemma server_job_sent:
  assumes inv: "sent_inv sk F ins" and job: "server_job malloc job rnds sk = Some sk'" and fr: "\<forall>p. fresh p (malloc p)"
    and start: "0 \<le> j_start job" and range: "unat (j_blockno job) < unat (s_curr_block sk) + NUM_BLOCKS"
  shows "sent_inv sk' F ins"
proof -
  let ?b = "unat (j_blockno job)"
  obtain S Q r where cj: "coding_job malloc (s_curr_block sk) job (blk_at sk ?b) (s_coder sk) (q_at sk ?b) rnds = Some (S, Q, r)"
      and sk': "sk' = sk\<lparr>s_coder := S, s_coded_q := (s_coded_q sk)[?b mod NUM_BLOCKS := Q]\<rparr>"
    using job by (auto simp: server_job_def Let_def blk_at_def q_at_def bslot_def split: option.splits)
  show ?thesis
  proof (cases "j_blockno job < s_curr_block sk")
    case True
    then have "S = s_coder sk" "Q = q_at sk ?b" using cj by (simp_all add: coding_job_def)
    then have "core sk' = core sk" by (simp add: core_def sk' q_at_def)
    then show ?thesis using core_same inv by blast
  next
    case False
    then have b: "?b \<in> window sk" using range by (simp add: window_def word_less_nat_alt)
    obtain X where own: "owned sk X" using inv by (auto simp: sent_inv_def)
    then have good: "blk_good ?b (blk_at sk ?b) (s_coder sk) (q_at sk ?b) (X ?b)" and pool: "pool_good (k_pool (s_coder sk))"
      using b by (simp_all add: owned_def)
    obtain as where as: "blk_good ?b (blk_at sk ?b) S Q (X ?b @ as)" "\<forall>a \<in> set as. a \<in> bufs (blk_at sk ?b) \<or> \<not> p_used (k_pool (s_coder sk)) a"
        "pool_good (k_pool S)" "contents (blk_at sk ?b) S = contents (blk_at sk ?b) (s_coder sk)"
        "\<forall>a. p_used (k_pool (s_coder sk)) a \<longrightarrow> p_used (k_pool S) a \<and> (a \<notin> bufs (blk_at sk ?b) \<longrightarrow> k_mem S a = k_mem (s_coder sk) a)"
      using coding_job_good [OF cj good refl pool fr start] by blast
    show ?thesis
      by (rule sent_coder [OF inv own b _ as(1,3) _ _ as(4), of _ "[]"]) (use as(2,5) sk' in \<open>auto simp: foot_def\<close>)
  qed
qed

lemma carried_header: "carried b B S (m\<lparr>d_seqno := n, d_tstamp := t\<rparr>) = carried b B S m"
  by (simp add: carried_def pkt_ok_def pkt_coeffs_def is_control_def)

lemma send_one_sent:
  assumes inv: "sent_inv sk F ins" and one: "send_one now ts w pin sk = Some sk'"
  shows "sent_inv sk' F ins"
proof -
  obtain b where b: "b \<in> window sk" "b mod NUM_BLOCKS = bslot w" using window_rep [of sk "unat w"] by (auto simp: bslot_def)
  obtain X where own: "owned sk X" using inv by (auto simp: sent_inv_def)
  let ?S = "s_coder sk" and ?B = "blk_at sk b"
  have good: "blk_good b ?B ?S (q_at sk b) (X b)" and pool: "pool_good (k_pool ?S)" using own b(1) by (simp_all add: owned_def)
  obtain Q a where pop: "q_pop (q_at sk b) = Some (Q, Some a)"
    using one by (auto simp: send_one_def Let_def q_at_def b(2) split: option.splits)
  obtain ys where xs: "X b = a # ys" "q_holds Q ys"
    using dq.pop_holds [OF _ pop, of "X b"] good by (cases "X b") (auto simp: blk_good_def)
  define msg where "msg = (k_mem ?S a)\<lparr>d_seqno := snd_nxt (s_paths sk ! pin), d_tstamp := ts\<rparr>"
  define S1 where "S1 = ?S\<lparr>k_mem := (k_mem ?S)(a := msg)\<rparr>"
  define S' where "S' = (if is_coded ?S a then S1\<lparr>k_pool := free_skb a (k_pool S1)\<rparr> else S1)"
  have core: "core sk' = core (sk\<lparr>s_coder := S', s_coded_q := (s_coded_q sk)[b mod NUM_BLOCKS := Q], s_sent := s_sent sk @ [(pin, msg)]\<rparr>)"
    using one pop by (auto simp: send_one_def Let_def q_at_def b(2) core_def S'_def S1_def msg_def is_coded_def split: option.splits)
  have ok: "block_ok ?B ?S" and ent: "\<forall>c \<in> set (X b). p_used (k_pool ?S) c \<and> carried b ?B ?S (k_mem ?S c) \<and> (is_coded ?S c \<longleftrightarrow> c \<notin> bufs ?B)"
    and dist: "distinct (filter (is_coded ?S) (X b))" using good by (simp_all add: blk_good_def)
  have mem: "k_mem S' = (k_mem ?S)(a := msg)" by (simp add: S'_def S1_def)
  have used: "p_used (k_pool S') c \<longleftrightarrow> p_used (k_pool ?S) c \<and> \<not> (c = a \<and> is_coded ?S a)" for c
    using ent xs(1) by (auto simp: S'_def S1_def free_skb_def Let_def)
  have good': "pool_good (k_pool S')" using fold_free [OF pool, of "[a]"] pool by (simp add: S'_def S1_def)
  have pay: "d_payload (k_mem S' c) = d_payload (k_mem ?S c)" for c by (simp add: mem msg_def)
  have flag: "is_coded S' c = is_coded ?S c" for c by (simp add: is_coded_def mem msg_def)
  have same: "\<forall>c \<in> bufs ?B. p_used (k_pool S') c \<and> d_payload (k_mem S' c) = d_payload (k_mem ?S c)"
    using used bufs_used [OF ok] ent xs(1) pay by auto
  note sb = same_bufs [OF ok same]
  have carr: "carried b ?B S' m = carried b ?B ?S m" for m by (rule carried_contents [OF sb(2)])
  have msg: "carried b ?B ?S msg" using ent xs(1) by (simp add: msg_def carried_header)
  have "\<not> (a \<in> set ys \<and> is_coded ?S a)" using dist xs(1) by auto
  then have "p_used (k_pool S') c \<and> carried b ?B S' (k_mem S' c) \<and> (is_coded S' c \<longleftrightarrow> c \<notin> bufs ?B)" if "c \<in> set ys" for c
    using ent xs(1) that used msg by (auto simp: carr flag mem)
  moreover have "is_coded S' = is_coded ?S" by (rule ext) (rule flag)
  ultimately have new: "blk_good b ?B S' Q ys"
    using good dist xs sb(1,4) by (auto simp: blk_good_def split: if_splits)
  have "sent_inv (sk\<lparr>s_coder := S', s_coded_q := (s_coded_q sk)[b mod NUM_BLOCKS := Q], s_sent := s_sent sk @ [(pin, msg)]\<rparr>) F ins"
    by (rule sent_coder [OF inv own b(1) refl new good' _ _ sb(2)])
      (use xs(1) used mem carr msg in \<open>auto simp: foot_def\<close>)
  then show ?thesis using core_same [OF core] by simp
qed

text \<open>The scheduler only sends and requests.\<close>

lemma core_updates [simp]:
  "core (sent_update w pin sk) = core sk" "core (upd_path i f sk) = core sk" "core (update_dof_req same d sk) = core sk"
  by (simp_all add: core_def sent_update_def upd_path_def update_dof_req_def Let_def)

text \<open>A new job changes only the queue of the workers.\<close>

lemma sent_workers:
  assumes inv: "sent_inv sk F ins" and core: "core sk' = core (sk\<lparr>s_workers := P\<rparr>)" and jobs: "jobs_ok P"
  shows "sent_inv sk' F ins"
proof -
  let ?sk = "sk\<lparr>s_workers := P\<rparr>"
  have at: "blk_at ?sk = blk_at sk" "q_at ?sk = q_at sk" "window ?sk = window sk"
    by (simp_all add: blk_at_def q_at_def window_def fun_eq_iff)
  have "log_ok ?sk F = log_ok sk F" "sender_inv ?sk = sender_inv sk" "owned ?sk = owned sk" "past ?sk = past sk" "s_stream ?sk = s_stream sk"
    by (simp_all add: fun_eq_iff log_ok_def data_ok_def sender_inv_def owned_def past_def s_stream_def at)
  then have "sent_inv ?sk F ins" using inv jobs by (simp add: sent_inv_def)
  then show ?thesis using core_same [OF core] by simp
qed

lemma request_job_sent:
  assumes req: "request_job w n sk = Some sk'" and inv: "sent_inv sk F ins"
  shows "sent_inv sk' F ins"
proof (cases "s_dof_remain sk ! bslot w < n")
  case True
  then obtain P job pr where P: "addJob (s_workers sk) (Job job) pr = Some P" "j_start job = 0"
    "core sk' = core (sk\<lparr>s_workers := P\<rparr>)"
    using req by (fastforce simp: request_job_def Let_def core_def)
  from addJob_jobs [OF _ P(1)] P(2) inv have "jobs_ok P" by (simp add: sent_inv_def)
  with sent_workers [OF inv P(3)] show ?thesis .
qed (use req inv in \<open>simp add: request_job_def Let_def\<close>)

lemma send_run_sent: "send_run now ts w pin n sk = Some (sk', m) \<Longrightarrow> sent_inv sk F ins \<Longrightarrow> sent_inv sk' F ins"
proof (induction n arbitrary: sk m)
  case (Suc n)
  show ?case
  proof (cases "s_dof_remain sk ! bslot w > 0")
    case True
    then obtain sk1 m' where one: "send_one now ts w pin sk = Some sk1"
      and rest: "send_run now ts w pin n (sent_update w pin sk1) = Some (sk', m')"
      using Suc.prems(1) by (auto split: option.splits)
    have "sent_inv (sent_update w pin sk1) F ins"
      using send_one_sent [OF Suc.prems(2) one] core_same [of "sent_update w pin sk1" sk1] by simp
    then show ?thesis by (rule Suc.IH [OF rest])
  qed (use Suc.prems in simp)
qed simp

lemma seg_block_sent:
  assumes "seg_block now ts pin w win fly sk = Some (sk', win', fly')" "sent_inv sk F ins"
  shows "sent_inv sk' F ins"
proof -
  obtain n sk1 m where req: "request_job w (int n) sk = Some sk1" and run: "send_run now ts w pin n sk1 = Some (sk', m)"
    using assms(1) by (auto simp: seg_block_def Let_def split: option.splits prod.splits if_splits)
  have "sent_inv sk1 F ins" by (rule request_job_sent [OF req assms(2)])
  then show ?thesis by (rule send_run_sent [OF run])
qed

lemma send_blocks_sent: "send_blocks now ts pin mb js win fly sk = Some sk' \<Longrightarrow> sent_inv sk F ins \<Longrightarrow> sent_inv sk' F ins"
proof (induction js arbitrary: win fly sk)
  case (Cons j js)
  then show ?case using seg_block_sent by (fastforce simp: Let_def split: if_splits option.splits prod.splits)
qed simp

lemma send_segs_sent: "send_segs woken now ts pin sk = Some sk' \<Longrightarrow> sent_inv sk F ins \<Longrightarrow> sent_inv sk' F ins"
  using send_blocks_sent by (fastforce simp: send_segs_def Let_def split: if_splits)


section \<open>The application's data\<close>

lemma taken_prefix: "x @ rest = y @ buf \<Longrightarrow> length rest \<le> length buf \<Longrightarrow> \<exists>t. buf = t @ rest \<and> x = y @ t"
proof -
  assume eq: "x @ rest = y @ buf" and le: "length rest \<le> length buf"
  have "length y \<le> length x" using arg_cong [OF eq, of length] le by simp
  then obtain t where "x = y @ t" using eq by (metis append_eq_append_conv2 append_eq_conv_conj append_take_drop_id le append_eq_append_conv_if)
  with eq show ?thesis by auto
qed

lemma send_step_sent:
  assumes inv: "sent_inv sk F ins" and fr: "\<forall>p. fresh p (malloc p)" and ok: "\<forall>p. malloc p \<noteq> None"
    and step: "send_step malloc sk buf = Stored sk' rest"
  shows "\<exists>t. buf = t @ rest \<and> sent_inv sk' F (ins @ t)"
proof -
  have snd: "sender_inv sk" using inv by (simp add: sent_inv_def)
  from send_step_stored [OF snd fr ok step] have snd': "sender_inv sk'" and st: "s_stream sk' @ rest = s_stream sk @ buf" by blast+
  have "length rest \<le> length buf" using send_step_Stored [OF step] by simp
  then obtain t where t: "buf = t @ rest" "s_stream sk' = s_stream sk @ t" using taken_prefix [OF st] by blast
  obtain b where b: "b \<in> window sk" "b mod NUM_BLOCKS = bslot (s_maxblockno sk)"
    using window_rep [of sk "unat (s_maxblockno sk)"] by (auto simp: bslot_def)
  obtain X where own: "owned sk X" using inv by (auto simp: sent_inv_def)
  then have good: "blk_good b (blk_at sk b) (s_coder sk) (q_at sk b) (X b)" and pool: "pool_good (k_pool (s_coder sk))"
    using b by (simp_all add: owned_def)
  obtain B' S' r where rd: "readBlock malloc (blk_at sk b) (s_coder sk) buf = (B', S', r)"
    by (cases "readBlock malloc (blk_at sk b) (s_coder sk) buf") auto
  have upd: "s_curr_block sk' = s_curr_block sk" "s_blocks sk' = (s_blocks sk)[b mod NUM_BLOCKS := B']"
    "s_coded_q sk' = (s_coded_q sk)[b mod NUM_BLOCKS := q_at sk b]" "s_coder sk' = S'" "s_sent sk' = s_sent sk @ []"
    using step rd b(2) by (auto simp: send_step_def Let_def blk_at_def q_at_def split: if_splits option.splits)
  note rg = readBlock_good [OF rd good pool fr]
  have pool': "pool_good (k_pool S')" using readBlock_correct [OF rd _ pool fr] good by (simp add: blk_good_def)
  have ft: "\<forall>a \<in> foot B' (X b). a \<in> foot (blk_at sk b) (X b) \<or> \<not> p_used (k_pool (s_coder sk)) a"
    using rg by (auto simp: foot_def)
  have "addJob (s_workers sk) (Job \<lparr>j_blockno = s_maxblockno sk, j_start = int (b_len (blk_at sk b)),
      j_dof_request = int (b_len B') - int (b_len (blk_at sk b)), j_coding_wnd = 0\<rparr>) LOW = Some (s_workers sk')"
    using step rd b(2) by (auto simp: send_step_def Let_def blk_at_def split: if_splits option.splits)
  from addJob_jobs [OF _ this] have jobs: "jobs_ok (s_workers sk')" using inv by (simp add: sent_inv_def)
  have "sent_inv sk' F (ins @ t)"
    by (rule sent_local [OF inv own b(1) upd(1-4) _ pool' ft _ _ upd(5) _ snd' t(2) jobs])
      (use rg in \<open>auto simp: frame_def\<close>)
  with t(1) show ?thesis by blast
qed

lemma send_next_sent:
  assumes inv: "sent_inv sk F ins" and fr: "\<forall>p. fresh p (malloc p)" and ok: "\<forall>p. malloc p \<noteq> None" and ne: "buf \<noteq> []"
    and step: "send_step malloc sk buf = NextBlock sk'"
  shows "sent_inv sk' F ins"
proof -
  have snd: "sender_inv sk" using inv by (simp add: sent_inv_def)
  from send_step_next [OF snd ok ne step] have snd': "sender_inv sk'" and st: "s_stream sk' = s_stream sk" by blast+
  let ?b = "unat (s_maxblockno sk)"
  obtain B' S' r where rd: "readBlock malloc (blk_at sk ?b) (s_coder sk) buf = (B', S', r)"
    by (cases "readBlock malloc (blk_at sk ?b) (s_coder sk) buf") auto
  have noprog: "\<not> length r < length buf" using step rd
    by (auto simp: send_step_def Let_def blk_at_def bslot_def split: if_splits option.splits)
  have "b_len (blk_at sk ?b) \<le> BLOCK_SIZE" using snd by (simp add: sender_inv_def block_ok_def)
  then have full: "b_len (blk_at sk ?b) = BLOCK_SIZE" using readBlock_progress [OF _ ne _ rd] ok noprog by fastforce
  have "B' = blk_at sk ?b" "S' = s_coder sk" using rd readBlock_full [OF full] by simp_all
  then have sk': "sk' = sk\<lparr>s_maxblockno := s_maxblockno sk + 1\<rparr>"
    using step rd by (auto simp: send_step_def Let_def blk_at_def bslot_def split: if_splits option.splits)
  have f: "s_curr_block sk' = s_curr_block sk" "s_blocks sk' = s_blocks sk" "s_coded_q sk' = s_coded_q sk"
    "s_coder sk' = s_coder sk" "s_sent sk' = s_sent sk" "s_workers sk' = s_workers sk" by (simp_all add: sk')
  then have at: "blk_at sk' = blk_at sk" "q_at sk' = q_at sk" "window sk' = window sk"
    by (simp_all add: blk_at_def q_at_def window_def fun_eq_iff)
  show ?thesis
  proof -
    have "log_ok sk' F = log_ok sk F" "owned sk' = owned sk" "past sk' = past sk"
      by (simp_all add: fun_eq_iff log_ok_def data_ok_def owned_def past_def at f)
    then show ?thesis using inv snd' st f by (simp add: sent_inv_def)
  qed
qed

lemma send_ctcp_sent:
  assumes "send_ctcp malloc sk buf = Some (sk', rest, e)" "sent_inv sk F ins" "\<forall>p. fresh p (malloc p)" "\<forall>p. malloc p \<noteq> None"
  shows "\<exists>t. buf = t @ rest \<and> sent_inv sk' F (ins @ t)"
  using assms
proof (induction malloc sk buf arbitrary: ins rule: send_ctcp.induct)
  case (1 malloc sk buf)
  note run = 1(3) and inv = 1(4) and unfold = send_ctcp.simps [of malloc sk buf]
  consider "buf = []" | "buf \<noteq> []" "s_status sk \<noteq> ACTIVE" | "buf \<noteq> []" "s_status sk = ACTIVE" by blast
  then show ?case
  proof cases
    case 1
    then have "sk' = sk" "rest = []" using run by (simp_all add: send_ctcp.simps [of malloc sk "[]"])
    then show ?thesis using inv 1 by simp
  next
    case 2
    then have "sk' = sk\<lparr>s_error := CLIHUP\<rparr>" "rest = buf" using run by (simp_all add: unfold)
    then show ?thesis using inv core_same [of sk' sk] by (simp add: core_def)
  next
    case 3
    show ?thesis
    proof (cases "send_step malloc sk buf")
      case (Stored sk1 rest1)
      then have rec: "send_ctcp malloc sk1 rest1 = Some (sk', rest, e)" using run 3 by (simp add: unfold)
      obtain t where t: "buf = t @ rest1" "sent_inv sk1 F (ins @ t)" using send_step_sent [OF inv _ _ Stored] 1(5,6) by blast
      obtain t' where "rest1 = t' @ rest" "sent_inv sk' F ((ins @ t) @ t')"
        using 1(1) [OF 3(1) _ Stored rec t(2)] 3 1(5,6) by auto
      then show ?thesis using t(1) by (intro exI [of _ "t @ t'"]) simp
    next
      case (NextBlock sk1)
      then have rec: "send_ctcp malloc sk1 buf = Some (sk', rest, e)" using run 3 by (simp add: unfold)
      have "sent_inv sk1 F ins" by (rule send_next_sent [OF inv _ _ 3(1) NextBlock]) (use 1 in auto)
      then show ?thesis using 1(2) [OF 3(1) _ NextBlock rec] 3 1(5,6) by auto
    next
      case Full
      then show ?thesis using run 3 inv by (simp add: unfold)
    next
      case PoolWaits
      then show ?thesis using run 3 by (simp add: unfold)
    qed
  qed
qed


section \<open>Acknowledgements\<close>

text \<open>Freeing the current block, before the window is moved.\<close>

lemma free_block_local:
  assumes own: "owned sk X" and step: "sk' = free_block_step pin sk"
  defines "c \<equiv> unat (s_curr_block sk)"
  shows "\<exists>B' Q'. b_len B' = 0 \<and> bufs B' = {} \<and> q_holds Q' [] \<and>
    s_blocks sk' = (s_blocks sk)[c mod NUM_BLOCKS := B'] \<and> s_coded_q sk' = (s_coded_q sk)[c mod NUM_BLOCKS := Q'] \<and>
    blk_good c B' (s_coder sk') Q' [] \<and> pool_good (k_pool (s_coder sk')) \<and> s_sent sk' = s_sent sk \<and>
    (\<forall>a. p_used (k_pool (s_coder sk)) a \<longrightarrow> a \<notin> foot (blk_at sk c) (X c) \<longrightarrow>
      p_used (k_pool (s_coder sk')) a \<and> k_mem (s_coder sk') a = k_mem (s_coder sk) a)"
proof -
  let ?B = "blk_at sk c" and ?S = "s_coder sk" and ?Q = "q_at sk c"
  have c: "c \<in> window sk" "bslot (s_curr_block sk) = c mod NUM_BLOCKS" by (simp_all add: c_def window_def NUM_BLOCKS_def bslot_def)
  then have good: "blk_good c ?B ?S ?Q (X c)" and pool: "pool_good (k_pool ?S)" using own by (simp_all add: owned_def)
  then have ok: "block_ok ?B ?S" and q: "q_holds ?Q (X c)" by (simp_all add: blk_good_def)
  obtain B' S1 where fb: "freeBlock ?B ?S = (B', S1)" by fastforce
  obtain Q' freed where qf: "q_free ?Q = (Q', freed)" by fastforce
  note fs = freeBlock_spec [OF ok pool fb] and qs = q_free_subset [OF q]
  let ?as = "List.map_filter id freed"
  have r: "s_blocks sk' = (s_blocks sk)[c mod NUM_BLOCKS := B']" "s_coded_q sk' = (s_coded_q sk)[c mod NUM_BLOCKS := Q']"
    "s_coder sk' = S1\<lparr>k_pool := fold free_skb ?as (k_pool S1)\<rparr>" "s_sent sk' = s_sent sk"
    using fb qf by (simp_all add: step free_block_step_def Let_def upd_path_def c(2) blk_at_def q_at_def)
  have ff: "pool_good (k_pool (s_coder sk'))" "p_used (k_pool (s_coder sk')) = (\<lambda>a. p_used (k_pool S1) a \<and> a \<notin> set ?as)"
    using fold_free [OF fs(5), of ?as] by (simp_all add: r(3))
  have "set ?as \<subseteq> set (X c)" using qs(1) qf by simp
  then have keep: "p_used (k_pool (s_coder sk')) a \<and> k_mem (s_coder sk') a = k_mem ?S a"
    if "p_used (k_pool ?S) a" "a \<notin> foot ?B (X c)" for a
    using that fs(4,6) ff(2) by (auto simp: foot_def r(3))
  have "q_holds Q' []" using qs(2) qf by simp
  moreover have "contents B' T = []" for T using fs(1) by (simp add: contents_def)
  then have "block_packed B' T" for T by (simp add: block_packed_def)
  ultimately have "blk_good c B' (s_coder sk') Q' []" using fs(2) by (simp add: blk_good_def)
  with fs(1,3) r ff(1) qs(2) qf keep show ?thesis by auto
qed


lemma blk_good_empty: "blk_good b B S Q [] \<Longrightarrow> blk_good c B S Q []"
  by (simp add: blk_good_def)

text \<open>The state after a block is freed: \<open>c\<close> is the block, \<open>c + NUM_BLOCKS\<close> takes its slot.\<close>

definition freed :: "nat \<Rightarrow> server \<Rightarrow> server \<Rightarrow> bool" where
  "freed c sk sk' \<longleftrightarrow> c = unat (s_curr_block sk) \<and> unat (s_curr_block sk') = Suc c \<and> (\<exists>Y. owned sk' Y) \<and>
    bufs (blk_at sk' (c + NUM_BLOCKS)) = {} \<and> s_sent sk' = s_sent sk \<and> s_workers sk' = s_workers sk \<and>
    (\<forall>b. b_len (blk_at sk' b) = (if b mod NUM_BLOCKS = c mod NUM_BLOCKS then 0 else b_len (blk_at sk b))) \<and>
    (\<forall>b \<in> window sk. b \<noteq> c \<longrightarrow> blk_at sk' b = blk_at sk b \<and>
      contents (blk_at sk b) (s_coder sk') = contents (blk_at sk b) (s_coder sk)) \<and>
    s_maxblockno sk' = max (s_curr_block sk') (s_maxblockno sk)"

lemma free_block_freed:
  assumes own: "owned sk X" and range: "unat (s_curr_block sk) + 1 < 2 ^ 32"
  shows "freed (unat (s_curr_block sk)) sk (free_block_step pin sk)"
proof -
  define c where "c = unat (s_curr_block sk)"
  let ?n = NUM_BLOCKS and ?sk = "free_block_step pin sk" and ?S = "s_coder sk" and ?B = "blk_at sk c"
  obtain B' Q' where l: "b_len B' = 0" "bufs B' = {}" "s_blocks ?sk = (s_blocks sk)[c mod ?n := B']"
      "s_coded_q ?sk = (s_coded_q sk)[c mod ?n := Q']" "blk_good c B' (s_coder ?sk) Q' []" "pool_good (k_pool (s_coder ?sk))"
      "s_sent ?sk = s_sent sk"
      "\<forall>a. p_used (k_pool ?S) a \<longrightarrow> a \<notin> foot ?B (X c) \<longrightarrow> p_used (k_pool (s_coder ?sk)) a \<and> k_mem (s_coder ?sk) a = k_mem ?S a"
    using free_block_local [OF own refl, of pin, folded c_def] by blast
  define sk1 where "sk1 = ?sk\<lparr>s_curr_block := s_curr_block sk\<rparr>"
  have cw: "c \<in> window sk" by (simp add: c_def window_def NUM_BLOCKS_def)
  have "\<forall>a \<in> foot B' []. a \<in> foot ?B (X c) \<or> \<not> p_used (k_pool ?S) a" using l(2) by (simp add: foot_def)
  note ol = owned_local [OF own cw, of sk1 B' Q' "s_coder ?sk" "[]", OF _ _ _ _ l(5,6) this l(8)]
  have ol1: "owned sk1 (X(c := []))" and atc: "blk_at sk1 c = B'"
    and oth: "\<forall>b \<in> window sk. b \<noteq> c \<longrightarrow> blk_at sk1 b = blk_at sk b \<and> contents (blk_at sk b) (s_coder ?sk) = contents (blk_at sk b) ?S"
    using ol l(3,4) by (simp_all add: sk1_def)
  have at: "blk_at ?sk = blk_at sk1" "q_at ?sk = q_at sk1" "s_coder sk1 = s_coder ?sk" "window sk1 = window sk"
    by (simp_all add: blk_at_def q_at_def sk1_def window_def fun_eq_iff)
  have cur: "unat (s_curr_block ?sk) = Suc c"
    using range unat_add_lem [of "s_curr_block sk" 1] by (simp add: free_block_step_fields c_def)
  have last: "blk_at ?sk (c + ?n) = B'" "q_at ?sk (c + ?n) = q_at sk1 c" using atc by (simp_all add: at blk_at_def q_at_def)
  have win: "b \<in> window ?sk \<longleftrightarrow> b \<in> window sk \<and> b \<noteq> c \<or> b = c + ?n" for b
    by (auto simp: window_def cur c_def [symmetric] NUM_BLOCKS_def)
  have nw: "c + ?n \<notin> window sk" by (simp add: window_def c_def)
  define Y where "Y = (X(c := []))(c + ?n := [])"
  have "blk_good c B' (s_coder ?sk) (q_at sk1 c) []" using ol1 cw atc by (auto simp: owned_def at)
  then have g_last: "blk_good (c + ?n) (blk_at ?sk (c + ?n)) (s_coder ?sk) (q_at ?sk (c + ?n)) (Y (c + ?n))"
    using blk_good_empty last by (simp add: Y_def)
  have f_last: "foot (blk_at ?sk (c + ?n)) (Y (c + ?n)) = {}" using l(2) last by (simp add: foot_def Y_def)
  have Yb: "Y b = (X(c := [])) b" if "b \<in> window sk" for b using that nw by (auto simp: Y_def)
  have g: "blk_good b (blk_at ?sk b) (s_coder ?sk) (q_at ?sk b) (Y b)" if "b \<in> window ?sk" for b
    using that ol1 g_last Yb by (cases "b = c + ?n") (simp_all add: at win owned_def del: fun_upd_apply)
  have d: "foot (blk_at ?sk b) (Y b) \<inter> foot (blk_at ?sk e) (Y e) = {}" if "b \<in> window ?sk" "e \<in> window ?sk" "b \<noteq> e" for b e
    using that ol1 f_last Yb
    by (cases "b = c + ?n"; cases "e = c + ?n") (simp_all add: at win owned_def del: fun_upd_apply)
  have "owned ?sk Y" using g d ol1 l(6) by (simp add: owned_def sk1_def)
  moreover have "length (s_blocks sk) = ?n" using own by (simp add: owned_def)
  then have "b_len (blk_at ?sk b) = (if b mod ?n = c mod ?n then 0 else b_len (blk_at sk b))" for b
    using l(1,3) by (simp add: blk_at_def NUM_BLOCKS_def)
  moreover have "s_workers ?sk = s_workers sk" by (simp add: free_block_step_def Let_def split_def upd_path_def)
  ultimately show ?thesis
    using cur l(2,7) last oth unfolding freed_def c_def [symmetric] at by (auto simp: free_block_step_fields)
qed

lemma freed_sender:
  assumes fr: "freed c sk sk'" and snd: "sender_inv sk" and range: "c + 1 + 2 * NUM_BLOCKS < 2 ^ 31"
  shows "sender_inv sk'"
  unfolding sender_inv_def
proof (intro conjI allI impI)
  let ?n = NUM_BLOCKS and ?m = "unat (s_maxblockno sk)" and ?m' = "unat (s_maxblockno sk')"
  have c: "c = unat (s_curr_block sk)" "unat (s_curr_block sk') = Suc c" "s_maxblockno sk' = max (s_curr_block sk') (s_maxblockno sk)"
    and len: "\<forall>b. b_len (blk_at sk' b) = (if b mod ?n = c mod ?n then 0 else b_len (blk_at sk b))"
    using fr by (simp_all add: freed_def)
  obtain Y where own: "owned sk' Y" using fr by (auto simp: freed_def)
  have m: "c \<le> ?m" "?m \<le> c + ?n" using snd by (simp_all add: sender_inv_def c(1) word_le_nat_alt)
  have m': "?m' = max (Suc c) ?m" using c(2,3) by (simp add: max_def word_le_nat_alt)
  show "length (s_blocks sk') = ?n" "pool_good (k_pool (s_coder sk'))" using own by (simp_all add: owned_def)
  show "block_ok (blk_at sk' b) (s_coder sk')" for b by (rule owned_blocks [OF own])
  show "s_curr_block sk' \<le> s_maxblockno sk'" by (simp add: c(3))
  show "?m' \<le> unat (s_curr_block sk') + ?n" using m m' c(2) by simp
  show "unat (s_curr_block sk') + 2 * ?n < 2 ^ 31" using range c(2) by simp
  show "b_len (blk_at sk' b) = BLOCK_SIZE" if "unat (s_curr_block sk') \<le> b" "b < ?m'" for b
  proof -
    have b: "c < b" "b < ?m" using that c(2) m' by auto
    have "b mod ?n \<noteq> c mod ?n" using window_slots_distinct [of c b c] b m by (auto simp: NUM_BLOCKS_def)
    then show ?thesis using snd b len by (simp add: sender_inv_def c(1))
  qed
  show "b_len (blk_at sk' b) = 0" if "?m' < b" "b < unat (s_curr_block sk') + ?n" for b
  proof (cases "b = c + ?n")
    case False
    then have "b_len (blk_at sk b) = 0" using that c m' snd by (simp add: sender_inv_def)
    then show ?thesis using len by simp
  qed (use len in simp)
qed

lemma freed_log:
  assumes fr: "freed c sk sk'" and log: "data_ok sk F m"
  shows "data_ok sk' (F(c := packet_of (blk_at sk c) (s_coder sk))) m"
proof -
  let ?b = "unat (d_blockno m)"
  have c: "c = unat (s_curr_block sk)" "unat (s_curr_block sk') = Suc c" using fr by (simp_all add: freed_def)
  consider "?b < c" | "?b = c" | "c < ?b" by linarith
  then show ?thesis
  proof cases
    case 1
    then show ?thesis using log c by (simp add: data_ok_def Let_def)
  next
    case 2
    then show ?thesis using log c by (simp add: data_ok_def Let_def carried_def)
  next
    case 3
    then have b: "?b \<in> window sk" "carried ?b (blk_at sk ?b) (s_coder sk) m" using log c(1) by (simp_all add: data_ok_def Let_def)
    have "blk_at sk' ?b = blk_at sk ?b" "contents (blk_at sk ?b) (s_coder sk') = contents (blk_at sk ?b) (s_coder sk)"
      using fr b(1) 3 by (simp_all add: freed_def)
    with carried_contents [OF this(2)] b(2) have "carried ?b (blk_at sk' ?b) (s_coder sk') m" by simp
    moreover have "?b \<in> window sk'" using b(1) 3 c by (auto simp: window_def)
    ultimately show ?thesis using 3 c(2) by (simp add: data_ok_def Let_def)
  qed
qed

lemma blocks_data_upd:
  "1 \<le> c \<Longrightarrow> concat (map (\<lambda>b. packets_data ((F(c := P)) b) L 0 n) [1..<Suc c]) =
    concat (map (\<lambda>b. packets_data (F b) L 0 n) [1..<c]) @ packets_data P L 0 n"
proof -
  assume "1 \<le> c"
  moreover have "map (\<lambda>b. packets_data ((F(c := P)) b) L 0 n) [1..<c] = map (\<lambda>b. packets_data (F b) L 0 n) [1..<c]"
    by (rule map_cong) auto
  ultimately show ?thesis by (simp only: upt_Suc if_True map_append concat_append) simp
qed

lemma freed_stream:
  assumes fr: "freed c sk sk'" and ok: "block_ok (blk_at sk c) (s_coder sk)" and one: "1 \<le> c"
  shows "past sk' (F(c := packet_of (blk_at sk c) (s_coder sk))) @ s_stream sk' = past sk F @ s_stream sk"
proof -
  let ?n = NUM_BLOCKS
  have c: "unat (s_curr_block sk) = c" "unat (s_curr_block sk') = Suc c" using fr by (simp_all add: freed_def)
  have rest: "map (\<lambda>b. block_bytes (blk_at sk' b) (s_coder sk')) [Suc c..<c + ?n] =
      map (\<lambda>b. block_bytes (blk_at sk b) (s_coder sk)) [Suc c..<c + ?n]"
  proof (rule map_cong [OF refl])
    fix b assume "b \<in> set [Suc c..<c + ?n]"
    then have "b \<in> window sk" "b \<noteq> c" by (auto simp: window_def c)
    then show "block_bytes (blk_at sk' b) (s_coder sk') = block_bytes (blk_at sk b) (s_coder sk)"
      using fr by (simp add: freed_def block_bytes_def)
  qed
  have "[c..<c + ?n] = c # [Suc c..<c + ?n]" "[Suc c..<Suc c + ?n] = [Suc c..<c + ?n] @ [c + ?n]"
    by (simp_all add: NUM_BLOCKS_def upt_conv_Cons)
  moreover have "b_len (blk_at sk' (c + ?n)) = 0" using fr by (simp add: freed_def)
  then have "block_bytes (blk_at sk' (c + ?n)) (s_coder sk') = []" by (rule block_bytes_empty)
  ultimately have st: "s_stream sk = block_bytes (blk_at sk c) (s_coder sk) @ s_stream sk'"
    unfolding s_stream_def c using rest by (simp only: list.map map_append concat_append concat.simps) simp
  have "past sk' (F(c := packet_of (blk_at sk c) (s_coder sk))) = past sk F @ block_bytes (blk_at sk c) (s_coder sk)"
    unfolding past_def c blocks_data_upd [OF one] packets_data_block [OF ok] ..
  then show ?thesis by (simp only: st append.assoc)
qed

lemma free_block_sent:
  assumes inv: "sent_inv sk F ins" and range: "unat (s_curr_block sk) + 1 + 2 * NUM_BLOCKS < 2 ^ 31"
  shows "sent_inv (free_block_step pin sk)
    (F(unat (s_curr_block sk) := packet_of (blk_at sk (unat (s_curr_block sk))) (s_coder sk))) ins"
proof -
  define c where "c = unat (s_curr_block sk)"
  obtain X where own: "owned sk X" using inv by (auto simp: sent_inv_def)
  have "freed c sk (free_block_step pin sk)" unfolding c_def by (rule free_block_freed [OF own]) (use range in simp)
  note fr = this and sn = freed_sender [OF this] and lg = freed_log [OF this] and st = freed_stream [OF this]
  have "c \<in> window sk" by (simp add: c_def window_def NUM_BLOCKS_def)
  then have ok: "block_ok (blk_at sk c) (s_coder sk)" "block_packed (blk_at sk c) (s_coder sk)"
    using own by (simp_all add: owned_def blk_good_def)
  have "lens_ok ((F(c := packet_of (blk_at sk c) (s_coder sk))) b) PAYLOAD_SIZE" for b
    using inv packet_of_lens [OF ok] by (simp add: sent_inv_def)
  moreover have "1 \<le> c" "past sk F @ s_stream sk = ins" using inv by (simp_all add: sent_inv_def c_def)
  moreover have "\<forall>m \<in> snd ` set (s_sent (free_block_step pin sk)).
      log_ok (free_block_step pin sk) (F(c := packet_of (blk_at sk c) (s_coder sk))) m"
    using inv lg fr by (simp add: sent_inv_def freed_def log_ok_def del: fun_upd_apply)
  ultimately show ?thesis
    using inv sn range st [OF ok(1)] fr unfolding c_def [symmetric]
    by (auto simp: sent_inv_def freed_def simp del: fun_upd_apply)
qed

text \<open>The loop over the acknowledged blocks.\<close>

lemma free_blocks_sent:
  "sent_inv sk F ins \<Longrightarrow> unat b + 2 * NUM_BLOCKS < 2 ^ 31 \<Longrightarrow> \<exists>F'. sent_inv (free_blocks b pin sk) F' ins"
proof (induction b pin sk arbitrary: F rule: free_blocks.induct)
  case (1 b pin sk)
  show ?case
  proof (cases "s_curr_block sk < b")
    case True
    then have "unat (s_curr_block sk) + 1 + 2 * NUM_BLOCKS < 2 ^ 31" using 1(3) by (simp add: word_less_nat_alt)
    from 1(1) [OF True free_block_sent [OF 1(2) this] 1(3)] True show ?thesis
      by (simp add: free_blocks.simps [of b pin sk])
  next
    case False
    then show ?thesis using 1(2) by (auto simp: free_blocks.simps [of b pin sk])
  qed
qed

lemma core_counts [simp]: "core (sk\<lparr>s_badacks := x\<rparr>) = core sk" "core (sk\<lparr>s_goodacks := y\<rparr>) = core sk"
    "core (sk\<lparr>s_ipkts := z\<rparr>) = core sk" "core (sk\<lparr>s_status := st\<rparr>) = core sk" "core (sk\<lparr>s_error := e\<rparr>) = core sk"
    "core (sk\<lparr>s_timeouts := t\<rparr>) = core sk" "core (sk\<lparr>s_paths := ps\<rparr>) = core sk" "core (sk\<lparr>s_dof_req_latest := d\<rparr>) = core sk"
  by (simp_all add: core_def)

lemma handle_ack_sent:
  assumes ack: "handle_ack now t ack pin sk = (sk', ok)" and inv: "sent_inv sk F ins"
    and range: "unat (a_blockno ack) + 2 * NUM_BLOCKS < 2 ^ 31"
  shows "\<exists>F'. sent_inv sk' F' ins"
proof -
  let ?sk1 = "upd_path pin (rtt_update t) sk"
  have "sent_inv ?sk1 F ins" using core_same [of ?sk1 sk] inv by simp
  from free_blocks_sent [OF this range] obtain F' where F': "sent_inv (free_blocks (a_blockno ack) pin ?sk1) F' ins" by blast
  have "core sk' = core (free_blocks (a_blockno ack) pin ?sk1)"
    using ack by (auto simp: handle_ack_def Let_def ack_path_def split: if_splits)
  from core_same [OF this] F' show ?thesis by blast
qed

section \<open>The start\<close>

lemma sent_start:
  assumes "pool_good (k_pool coder0)"
  shows "sent_inv (create_srvctcp_sock c coder0) (\<lambda>b k j. 0) []"
proof -
  let ?sk = "create_srvctcp_sock c coder0"
  have at: "blk_at ?sk b = block_init" "q_at ?sk b = q_init (2 * BLOCK_SIZE)" for b
    by (simp_all add: blk_at_def q_at_def create_srvctcp_sock_def NUM_BLOCKS_def)
  have q: "q_holds (q_init n) []" if "0 < n" for n using q_init_holds that .
  have "blk_good b block_init coder0 (q_init (2 * BLOCK_SIZE)) []" for b
    using block_init_ok block_packed_init q [of "2 * BLOCK_SIZE"] by (simp add: blk_good_def BLOCK_SIZE_def)
  moreover have "bufs block_init = {}" by (simp add: bufs_def block_init_def)
  ultimately have own: "owned ?sk (\<lambda>b. [])"
    using assms by (simp add: owned_def at foot_def) (simp add: create_srvctcp_sock_def)
  have len: "b_len block_init = 0" by (simp add: block_init_def)
  then have "sender_inv ?sk"
    using own owned_blocks [OF own] assms
    by (simp add: sender_inv_def at owned_def) (simp add: create_srvctcp_sock_def NUM_BLOCKS_def)
  moreover have "s_stream ?sk = []" by (simp add: s_stream_def at block_bytes_empty len)
  moreover have "jobs_ok (s_workers ?sk)"
    using q [of "2 * THREADS"] by (auto simp: jobs_ok_def create_srvctcp_sock_def thrpool_init_def THREADS_def)
  moreover have "lens_ok (\<lambda>k j. 0) PAYLOAD_SIZE"
    using payload_len_zeros by (simp add: lens_ok_def packet_def map_replicate_const PAYLOAD_SIZE_eq)
  ultimately show ?thesis
    using own by (auto simp: sent_inv_def past_def create_srvctcp_sock_def)
qed

end
