(* ===== verification/Evolve.thy ===== *)
theory Evolve
  imports SrvConn SendRun
begin

text \<open>
  The sender's invariant through the whole server: every turn of \<open>server_worker\<close> keeps
  \<open>sent_inv\<close>, forgets no packet that was sent, and moves the window no further than the
  acknowledgement it has read.
\<close>

section \<open>One step and many\<close>

text \<open>\<open>w0\<close> bounds the block numbers of the acknowledgements read in between.\<close>

definition kept :: "server \<Rightarrow> bytes \<Rightarrow> bool" where
  "kept sk ins \<longleftrightarrow> (\<exists>F. sent_inv sk F ins)"

definition evolves :: "u32 \<Rightarrow> server \<Rightarrow> server \<Rightarrow> bool" where
  "evolves w0 sk sk' \<longleftrightarrow> (\<forall>ins. kept sk ins \<longrightarrow> kept sk' ins) \<and>
    set (s_sent sk) \<subseteq> set (s_sent sk') \<and> s_curr_block sk' \<le> max (s_curr_block sk) w0"

lemma evolves_refl [simp]: "evolves w0 sk sk"
  by (auto simp: evolves_def)

lemma evolves_trans [trans]:
  assumes a: "evolves w0 sk sk1" and b: "evolves w0 sk1 sk2"
  shows "evolves w0 sk sk2"
proof -
  have "kept sk2 ins" if "kept sk ins" for ins using a b that by (simp add: evolves_def)
  moreover have "set (s_sent sk) \<subseteq> set (s_sent sk2)" using a b by (auto simp: evolves_def)
  moreover have "s_curr_block sk1 \<le> max (s_curr_block sk) w0" "s_curr_block sk2 \<le> max (s_curr_block sk1) w0"
    using a b by (simp_all add: evolves_def)
  then have "s_curr_block sk2 \<le> max (s_curr_block sk) w0" by (simp add: max_def split: if_splits)
  ultimately show ?thesis by (auto simp: evolves_def)
qed

lemma core_fields: "core sk' = core sk \<Longrightarrow> s_sent sk' = s_sent sk \<and> s_curr_block sk' = s_curr_block sk"
  by (simp add: core_def)

lemma evolves_core: "core sk' = core sk \<Longrightarrow> evolves w0 sk sk'"
  using core_same [of sk' sk] core_fields [of sk' sk] by (auto simp: evolves_def kept_def)

text \<open>Updates that do not touch the core, before and after a step.\<close>

lemma evolves_before: "core sk1 = core sk \<Longrightarrow> evolves w0 sk1 sk' \<Longrightarrow> evolves w0 sk sk'"
  using evolves_core evolves_trans by blast

lemma evolves_after: "evolves w0 sk sk1 \<Longrightarrow> core sk' = core sk1 \<Longrightarrow> evolves w0 sk sk'"
  using evolves_core evolves_trans by blast

lemma core_states [simp]: "core (set_states st sk) = core sk" "core (removePath sk k) = core sk" "core (worker_init sk) = core sk"
  by (simp_all add: set_states_def removePath_def worker_init_def)

section \<open>Packets\<close>

lemma send_one_log: "send_one now ts w pin sk = Some sk' \<Longrightarrow> set (s_sent sk) \<subseteq> set (s_sent sk') \<and> s_curr_block sk' = s_curr_block sk"
  by (auto simp: send_one_def Let_def split: option.splits)

lemma evolves_one: "send_one now ts w pin sk = Some sk' \<Longrightarrow> evolves w0 sk sk'"
  using send_one_sent send_one_log by (fastforce simp: evolves_def kept_def)

lemma evolves_request: "request_job w n sk = Some sk' \<Longrightarrow> evolves w0 sk sk'"
proof -
  assume r: "request_job w n sk = Some sk'"
  then have "s_sent sk' = s_sent sk" "s_curr_block sk' = s_curr_block sk"
    by (auto simp: request_job_def Let_def split: if_splits)
  with request_job_sent [OF r] show ?thesis by (auto simp: evolves_def kept_def)
qed

lemma evolves_run: "send_run now ts w pin n sk = Some (sk', m) \<Longrightarrow> evolves w0 sk sk'"
proof (induction n arbitrary: sk m)
  case (Suc n)
  show ?case
  proof (cases "s_dof_remain sk ! bslot w > 0")
    case True
    then obtain sk1 m' where one: "send_one now ts w pin sk = Some sk1"
      and rest: "send_run now ts w pin n (sent_update w pin sk1) = Some (sk', m')"
      using Suc.prems by (auto split: option.splits)
    from evolves_before [OF core_updates(1) Suc.IH [OF rest]] evolves_one [OF one] show ?thesis
      using evolves_trans by blast
  qed (use Suc.prems in simp)
qed simp

lemma evolves_seg: "seg_block now ts pin w win fly sk = Some (sk', win', fly') \<Longrightarrow> evolves w0 sk sk'"
proof -
  assume "seg_block now ts pin w win fly sk = Some (sk', win', fly')"
  then obtain n sk1 m where "request_job w (int n) sk = Some sk1" "send_run now ts w pin n sk1 = Some (sk', m)"
    by (auto simp: seg_block_def Let_def split: option.splits prod.splits if_splits)
  then show ?thesis using evolves_request evolves_run evolves_trans by blast
qed

lemma evolves_blocks: "send_blocks now ts pin mb js win fly sk = Some sk' \<Longrightarrow> evolves w0 sk sk'"
proof (induction js arbitrary: win fly sk)
  case (Cons j js)
  show ?case
  proof (cases "win > 0 \<and> (mb = 0 \<or> s_curr_block sk + of_nat j \<le> mb)")
    case True
    with Cons.prems obtain sk1 win1 fly1 where s: "seg_block now ts pin (s_curr_block sk + of_nat j) win fly sk = Some (sk1, win1, fly1)"
      "send_blocks now ts pin mb js win1 fly1 sk1 = Some sk'" by (auto simp: Let_def split: option.splits)
    from evolves_trans [OF evolves_seg [OF s(1)] Cons.IH [OF s(2)]] show ?thesis .
  next
    case False
    then have "sk' = sk" using Cons.prems by (auto simp: Let_def split: if_splits)
    then show ?thesis by simp
  qed
qed simp

lemma evolves_segs: "send_segs woken now ts pin sk = Some sk' \<Longrightarrow> evolves w0 sk sk'"
  using evolves_blocks by (fastforce simp: send_segs_def Let_def split: if_splits)

lemma evolves_all: "send_all ev is sk = Some sk' \<Longrightarrow> evolves w0 sk sk'"
proof (induction "is" arbitrary: sk)
  case (Cons i js)
  then obtain sk1 where "send_segs (v_woken ev) (v_now ev) (v_ts ev) i sk = Some sk1" "send_all ev js sk1 = Some sk'"
    by (auto split: option.splits)
  with Cons.IH evolves_segs evolves_trans show ?case by blast
qed simp

text \<open>A packet without data.\<close>

lemma sent_control:
  assumes inv: "sent_inv sk F ins" and m: "is_control m" "d_start_packet m = 0" "d_num_packets m = 0"
  shows "sent_inv (sk\<lparr>s_sent := s_sent sk @ [(i, m)]\<rparr>) F ins"
proof -
  let ?sk = "sk\<lparr>s_sent := s_sent sk @ [(i, m)]\<rparr>"
  have at: "blk_at ?sk = blk_at sk" "q_at ?sk = q_at sk" "window ?sk = window sk"
    by (simp_all add: blk_at_def q_at_def window_def fun_eq_iff)
  have "log_ok ?sk F = log_ok sk F" "sender_inv ?sk = sender_inv sk" "owned ?sk = owned sk" "past ?sk = past sk" "s_stream ?sk = s_stream sk"
    by (simp_all add: fun_eq_iff log_ok_def data_ok_def sender_inv_def owned_def past_def s_stream_def at)
  then show ?thesis using inv m by (simp add: sent_inv_def) (simp add: log_ok_def)
qed

definition no_data :: "flag \<Rightarrow> bool" where
  "no_data fl \<longleftrightarrow> fl \<noteq> NORMAL \<and> fl \<noteq> CODED"

lemma no_data_flags [simp]: "no_data SYN" "no_data SYN_ACK" "no_data FIN" "no_data FIN_ACK"
  by (simp_all add: no_data_def)

lemma evolves_flag: "no_data fl \<Longrightarrow> evolves w0 sk (fst (send_flag ev i fl sk))"
proof -
  assume fl: "no_data fl"
  define m where "m = (v_stack ev)\<lparr>d_flag := flag_code fl, d_blockno := s_curr_block sk, d_num_packets := 0,
           d_start_packet := 0, d_packet_coeff := 0, d_tstamp := v_ts ev\<rparr>"
  have "is_control m" using fl by (cases fl) (simp_all add: no_data_def is_control_def m_def)
  then have "sent_inv sk F ins \<Longrightarrow> sent_inv (sk\<lparr>s_sent := s_sent sk @ [(i, m)]\<rparr>) F ins" for F ins
    by (rule sent_control [rotated]) (simp_all add: m_def)
  then have "evolves w0 sk (sk\<lparr>s_sent := s_sent sk @ [(i, m)]\<rparr>)" by (auto simp: evolves_def kept_def)
  then show ?thesis by (simp add: send_flag_def m_def [symmetric])
qed

lemma evolves_flags: "no_data fl \<Longrightarrow> evolves w0 sk (send_flags ev fl is sk)"
proof (induction "is" arbitrary: sk)
  case (Cons i js)
  then show ?case using evolves_flag [of fl w0 sk ev i] evolves_trans by (metis send_flags.simps(2))
qed simp

section \<open>The turns of the server\<close>

lemma evolves_ack:
  assumes ack: "handle_ack now t ack pin sk = (sk', ok)" and range: "unat (a_blockno ack) + 2 * NUM_BLOCKS < 2 ^ 31"
  shows "evolves (a_blockno ack) sk sk'"
proof -
  let ?sk1 = "upd_path pin (rtt_update t) sk"
  have c: "core sk' = core (free_blocks (a_blockno ack) pin ?sk1)"
    using ack by (auto simp: handle_ack_def Let_def ack_path_def split: if_splits)
  have "s_sent (free_blocks b pin s) = s_sent s" for b s
  proof (induction b pin s rule: free_blocks.induct)
    case (1 b pin s)
    then show ?case
      by (cases "s_curr_block s < b")
        (simp_all add: free_blocks.simps [of b pin s] free_block_step_def Let_def split_def upd_path_def)
  qed
  then have "s_sent sk' = s_sent sk" using core_fields [OF c] by (simp add: upd_path_def)
  moreover have "s_curr_block sk' = max (s_curr_block sk) (a_blockno ack)" using core_fields [OF c] by (simp add: free_blocks_curr)
  ultimately show ?thesis using handle_ack_sent [OF ack _ range] by (auto simp: evolves_def kept_def)
qed

lemma evolves_normal:
  assumes nm: "recv_normal ev i ack sk = Some sk'" and range: "unat (a_blockno ack) + 2 * NUM_BLOCKS < 2 ^ 31"
  shows "evolves (a_blockno ack) sk sk'"
proof (cases "pathstate (s_paths sk ! i) = ESTABLISHED")
  case True
  obtain sk2 ok where h: "handle_ack (v_now ev) (v_double ev (a_tstamp ack)) ack i (sk\<lparr>s_ipkts := s_ipkts sk + 1\<rparr>) = (sk2, ok)"
    by (metis surj_pair)
  have e: "evolves (a_blockno ack) sk sk2" by (rule evolves_before [OF core_counts(3) evolves_ack [OF h range]])
  from nm True h have "sk' = sk2 \<or> send_all ev [0..<length (s_paths sk2)] sk2 = Some sk'"
    by (cases ok) (simp_all add: recv_normal_def)
  with e show ?thesis using evolves_all evolves_trans by blast
next
  case False
  with nm have "sk' = sk \<or> send_segs (v_woken ev) (v_now ev) (v_ts ev) i (upd_path i (establish (v_now ev)) sk) = Some sk'"
    by (simp add: recv_normal_def split: if_splits)
  then show ?thesis using evolves_before [OF core_updates(2) evolves_segs] by auto
qed

lemma evolves_syn: "evolves w0 sk (recv_syn ev i sk)"
proof (cases "pathstate (s_paths sk ! i) = SYN_ACK_SENT")
  case True
  then show ?thesis using evolves_after [OF evolves_flag [of SYN_ACK] core_updates(2)] by (simp add: recv_syn_def)
qed (simp add: recv_syn_def)

lemma evolves_fin_step: "fin_step ev fl tries m sk e = (fl', tries', m', sk') \<Longrightarrow> evolves w0 sk sk'"
proof -
  assume s: "fin_step ev fl tries m sk e = (fl', tries', m', sk')"
  define sk1 where "sk1 = (if fl = flag_code FIN
    then set_states FIN_ACK_SENT (send_flags ev FIN_ACK [0..<length (s_paths sk)] sk) else sk)"
  have "evolves w0 sk sk1" unfolding sk1_def using evolves_after [OF evolves_flags core_states(1)] by simp
  moreover have "core sk' = core sk1"
    using s unfolding fin_step_def sk1_def [symmetric] Let_def by (auto split: reading.splits if_splits)
  ultimately show ?thesis by (rule evolves_after)
qed

lemma evolves_fin_loop: "fin_loop ev fl tries m sk es = Some (sk', m') \<Longrightarrow> evolves w0 sk sk'"
proof (induction es arbitrary: fl tries m sk)
  case (Cons e es)
  obtain fl1 tries1 m1 sk1 where s: "fin_step ev fl tries m sk e = (fl1, tries1, m1, sk1)" by (metis prod_cases4)
  then have "sk' = sk1 \<or> fin_loop ev fl1 tries1 m1 sk1 es = Some (sk', m')" using Cons.prems by (auto split: if_splits)
  with evolves_fin_step [OF s] Cons.IH evolves_trans show ?case by blast
qed simp

lemma evolves_fin: "recv_fin ev i ack rs sk = Some sk' \<Longrightarrow> evolves w0 sk sk'"
proof -
  assume r: "recv_fin ev i ack rs sk = Some sk'"
  define sk1 where "sk1 = (upd_path i (\<lambda>p. p\<lparr>pathstate := FIN_RECV\<rparr>) sk)\<lparr>s_status := SK_CLOSING\<rparr>"
  consider "sk' = sk" | sk2 m where "fin_loop ev (a_flag ack) 0 (rto_max_of (s_paths sk1)) sk1 rs = Some (sk2, m)"
    "sk' = (set_states CLOSING sk2)\<lparr>s_status := CLOSED\<rparr>"
    using r by (auto simp: recv_fin_def sk1_def [symmetric] Let_def split: if_splits)
  then show ?thesis
  proof cases
    case 2
    have "core sk1 = core sk" by (simp add: sk1_def)
    from evolves_before [OF this evolves_fin_loop [OF 2(1)]] show ?thesis by (rule evolves_after) (simp add: 2(2))
  qed simp
qed

text \<open>An acknowledgement counts only when its flag says that it is one.\<close>

definition ack_top :: "ack_pckt reading \<Rightarrow> u32" where
  "ack_top r = (case r of Got a ack \<Rightarrow> if a_flag ack = flag_code NORMAL then a_blockno ack else 0 | _ \<Rightarrow> 0)"

lemma evolves_known:
  assumes "recv_known ev t u i ack es sk = Some sk'" "unat (ack_top (Got a ack)) + 2 * NUM_BLOCKS < 2 ^ 31"
  shows "evolves (ack_top (Got a ack)) sk sk'"
proof -
  define sk1 where "sk1 = upd_path i (\<lambda>p. p\<lparr>last_ack_time := t, last_ack_time_user := u\<rparr>) sk"
  have c: "core sk1 = core sk" by (simp add: sk1_def)
  have "Some sk' = (if a_flag ack = flag_code NORMAL then recv_normal ev i ack sk1
      else if a_flag ack = flag_code SYN then Some (recv_syn ev i sk1)
      else if a_flag ack = flag_code FIN then recv_fin ev i ack es sk1 else Some sk1)"
    by (simp only: assms(1) [symmetric] recv_known_def Let_def sk1_def)
  then consider "a_flag ack = flag_code NORMAL" "recv_normal ev i ack sk1 = Some sk'" | "sk' = recv_syn ev i sk1"
    | "recv_fin ev i ack es sk1 = Some sk'" | "sk' = sk1"
    by (metis option.inject)
  then have "evolves (ack_top (Got a ack)) sk1 sk'"
  proof cases
    case 1
    then show ?thesis using evolves_normal [OF 1(2)] assms(2) by (simp add: ack_top_def)
  next
    case 2
    then show ?thesis using evolves_syn by simp
  next
    case 3
    then show ?thesis by (rule evolves_fin)
  qed simp
  then show ?thesis by (rule evolves_before [OF c])
qed

lemma evolves_timeout: "timeout_path ev t k sk = Some (sk', rm) \<Longrightarrow> evolves w0 sk sk'"
proof -
  assume s: "timeout_path ev t k sk = Some (sk', rm)"
  obtain p' go where p: "timeout (s_cfg sk) (s_paths sk ! k) = (p', go)" by fastforce
  define sk1 where "sk1 = upd_path k (\<lambda>_. p') (sk\<lparr>s_timeouts := s_timeouts sk + 1\<rparr>)"
  have c: "core sk1 = core sk" by (simp add: sk1_def)
  consider "sk' = sk" | "sk' = sk1" | "sk' = removePath sk k" | "send_segs (v_woken ev) (v_now ev) (v_ts ev) k sk1 = Some sk'"
    | "sk' = upd_path k (stamp_syn (v_now ev)) (fst (send_flag ev k SYN_ACK sk1))"
    using s unfolding timeout_path_def Let_def p sk1_def [symmetric]
    by (cases go) (auto simp: sk1_def [symmetric] split: if_splits)
  then show ?thesis
  proof cases
    case 4
    then show ?thesis using evolves_before [OF c evolves_segs] by blast
  next
    case 5
    then show ?thesis using evolves_before [OF c evolves_after [OF evolves_flag [of SYN_ACK] core_updates(2)]] by simp
  qed (use c in \<open>auto intro: evolves_core\<close>)
qed

lemma evolves_timeouts: "timeout_loop ev t is k sk = Ran (sk', k') \<Longrightarrow> evolves w0 sk sk'"
proof (induction "is" arbitrary: k sk)
  case (Cons i js)
  show ?case
  proof (cases "i < length (s_paths sk)")
    case True
    define j where "j = c_rem (k + int i) (int (length (s_paths sk)))"
    obtain sk1 rm where s: "timeout_path ev t (nat j) sk = Some (sk1, rm)" "timeout_loop ev t js (if rm then j - 1 else j) sk1 = Ran (sk', k')"
      using Cons.prems True by (auto simp: j_def [symmetric] Let_def split: if_splits option.splits)
    from evolves_trans [OF evolves_timeout [OF s(1)] Cons.IH [OF s(2)]] show ?thesis .
  qed (use Cons.prems in simp)
qed simp

lemma evolves_check: "check_timeouts ev t k sk = Ran (sk', k') \<Longrightarrow> evolves w0 sk sk'"
proof -
  assume c: "check_timeouts ev t k sk = Ran (sk', k')"
  show ?thesis
  proof (cases "s_status sk = CLOSED")
    case True
    then have "core sk' = core sk" using c by (auto simp: check_timeouts_def split: if_splits)
    then show ?thesis by (rule evolves_core)
  next
    case False
    then obtain sk1 where l: "timeout_loop ev t [0..<length (s_paths sk)] k sk = Ran (sk1, k')" and s: "core sk' = core sk1"
      using c by (auto simp: check_timeouts_def split: turn.splits if_splits)
    from evolves_after [OF evolves_timeouts [OF l] s] show ?thesis .
  qed
qed

lemma evolves_add: "evolves w0 sk (add_path ev a sk)"
proof -
  let ?p = "(init_stream (s_cfg sk) (v_path ev))\<lparr>cli_addr := a, pathstate := SYN_RECV,
    last_ack_time := v_now ev, last_ack_time_user := 0\<rparr>"
  let ?sk1 = "sk\<lparr>s_paths := s_paths sk @ [?p]\<rparr>"
  have "evolves w0 ?sk1 (fst (send_flag ev (length (s_paths sk)) SYN_ACK ?sk1))" by (rule evolves_flag) simp
  from evolves_before [OF core_counts(7) this] show ?thesis
    by (rule evolves_after) (simp add: add_path_def Let_def)
qed

lemma evolves_turn:
  assumes turn: "event_turn e k sk = Ran (sk', k')" and range: "unat (ack_top (e_read e)) + 2 * NUM_BLOCKS < 2 ^ 31"
  shows "evolves (ack_top (e_read e)) sk sk'"
proof (cases "e_read e")
  case (Got a ack)
  define i where "i = find_path a (s_paths sk)"
  let ?ev = "e_env e"
  show ?thesis
  proof (cases "length (s_paths sk) \<le> i")
    case True
    with turn have "sk' = add_path ?ev a sk \<or> check_timeouts ?ev (e_rcvt e) (int i) sk = Ran (sk', k')"
      by (auto simp: event_turn_def server_turn_def Got i_def [symmetric] Let_def split: if_splits)
    then show ?thesis using evolves_add evolves_check by blast
  next
    case False
    with turn obtain sk1 where "recv_known ?ev (e_rcvt e) (e_rcvt_user e) i ack (e_fin e) sk = Some sk1"
      "check_timeouts ?ev (e_rcvt e) (int i) sk1 = Ran (sk', k')"
      by (auto simp: event_turn_def server_turn_def Got i_def [symmetric] Let_def split: option.splits)
    then show ?thesis using evolves_known [of ?ev _ _ i ack _ sk sk1 a] evolves_check range Got evolves_trans by metis
  qed
qed (use turn evolves_check in \<open>auto simp: event_turn_def server_turn_def\<close>)

section \<open>The application and the workers\<close>

lemma send_ctcp_log:
  "send_ctcp malloc sk buf = Some (sk', rest, e) \<Longrightarrow> s_sent sk' = s_sent sk \<and> s_curr_block sk' = s_curr_block sk"
proof (induction malloc sk buf rule: send_ctcp.induct)
  case (1 malloc sk buf)
  note unfold = send_ctcp.simps [of malloc sk buf]
  have st: "s_sent sk1 = s_sent sk \<and> s_curr_block sk1 = s_curr_block sk"
    if "send_step malloc sk buf = Stored sk1 r \<or> send_step malloc sk buf = NextBlock sk1" for sk1 r
    using that by (auto simp: send_step_def Let_def split: prod.splits if_splits option.splits)
  show ?case
  proof (cases "buf = [] \<or> s_status sk \<noteq> ACTIVE")
    case True
    then show ?thesis using 1(3) by (auto simp: unfold split: if_splits)
  next
    case False
    show ?thesis
    proof (cases "send_step malloc sk buf")
      case (Stored sk1 r)
      then have "send_ctcp malloc sk1 r = Some (sk', rest, e)" using 1(3) False by (simp add: unfold)
      then show ?thesis using 1(1) [OF _ _ Stored] False st [of sk1 r] Stored by simp
    next
      case (NextBlock sk1)
      then have "send_ctcp malloc sk1 buf = Some (sk', rest, e)" using 1(3) False by (simp add: unfold)
      then show ?thesis using 1(2) [OF _ _ NextBlock] False st [of sk1] NextBlock by simp
    qed (use 1(3) False in \<open>simp_all add: unfold\<close>)
  qed
qed

lemma server_job_log: "server_job malloc job rnds sk = Some sk' \<Longrightarrow> s_sent sk' = s_sent sk \<and> s_curr_block sk' = s_curr_block sk"
  by (auto simp: server_job_def Let_def split: option.splits)

text \<open>A worker takes a job and executes it.\<close>

lemma worker_job_sent:
  assumes inv: "sent_inv sk F ins" and take: "worker_take (s_workers sk) w = Some P" "w < length (t_th (s_workers sk))" "t_th P ! w = Busy job"
    and job: "server_job malloc job rnds (sk\<lparr>s_workers := P\<lparr>t_th := (t_th P)[w := Idle]\<rparr>\<rparr>) = Some sk'"
    and fr: "\<forall>p. fresh p (malloc p)" and range: "unat (j_blockno job) < unat (s_curr_block sk) + NUM_BLOCKS"
  shows "sent_inv sk' F ins"
proof -
  let ?P = "P\<lparr>t_th := (t_th P)[w := Idle]\<rparr>"
  have j: "jobs_ok (s_workers sk)" using inv by (simp add: sent_inv_def)
  have "jobs_ok ?P" using worker_take_jobs(1) [OF j take(1)] by (simp add: jobs_ok_def)
  from sent_workers [OF inv refl this] have "sent_inv (sk\<lparr>s_workers := ?P\<rparr>) F ins" .
  from server_job_sent [OF this job fr worker_take_jobs(2) [OF j take(1,3,2)]] range show ?thesis by simp
qed

section \<open>listen\<close>

lemma listen_sent:
  assumes l: "listen_srvctcp ev m r (create_srvctcp_sock c coder0) = (sk, True)" and pool: "pool_good (k_pool coder0)"
    and fr: "fresh (k_pool coder0) m"
  shows "kept sk [] \<and> s_curr_block sk = 1"
proof -
  obtain p skb where al: "alloc_skb m (k_pool coder0) = (p, Some skb)"
    using l by (auto simp: listen_srvctcp_def create_srvctcp_sock_def split: prod.splits option.splits)
  define S where "S = coder0\<lparr>k_pool := free_skb skb p\<rparr>"
  have "pool_good p" using alloc_good [OF pool fr] al by blast
  with fold_free [of p "[skb]"] have "pool_good (k_pool S)" by (simp add: S_def)
  from sent_start [OF this] have start: "sent_inv (create_srvctcp_sock c S) (\<lambda>b k j. 0) []" .
  define sk0 where "sk0 = fst (send_flag ev 0 SYN_ACK (create_srvctcp_sock c S))"
  have "core sk = core sk0"
    using l al
    by (auto simp: listen_srvctcp_def create_srvctcp_sock_def sk0_def S_def send_flag_def core_def Let_def upd_path_def
        split: reading.splits if_splits)
  moreover have "evolves 0 (create_srvctcp_sock c S) sk0" unfolding sk0_def by (rule evolves_flag) simp
  ultimately have "evolves 0 (create_srvctcp_sock c S) sk" by (blast intro: evolves_after)
  with start have "kept sk []" by (auto simp: evolves_def kept_def)
  moreover have "s_curr_block sk0 = 1" by (simp add: sk0_def send_flag_def create_srvctcp_sock_def)
  ultimately show ?thesis using core_fields [OF \<open>core sk = core sk0\<close>] by simp
qed

end
