(* ===== verification/Session.thy ===== *)
theory Session
  imports Evolve CliConn EndToEnd
begin

text \<open>
  The two ends of a connection in one run: the server's thread, its workers and the
  application that sends, the client's thread and the application that reads, and a network
  that loses, repeats and reorders packets and acknowledgements.
\<close>

section \<open>What the client acknowledges\<close>

text \<open>No acknowledgement names a block beyond the one the decoder is at.\<close>

definition acks_behind :: "client \<Rightarrow> bool" where
  "acks_behind csk \<longleftrightarrow> (\<forall>a \<in> snd ` set (c_sent csk). a_blockno a \<le> dc_curr_block (c_dec csk))"

definition answers :: "client \<Rightarrow> client \<Rightarrow> bool" where
  "answers csk csk' \<longleftrightarrow> dc_curr_block (c_dec csk) \<le> dc_curr_block (c_dec csk') \<and> (acks_behind csk \<longrightarrow> acks_behind csk')"

lemma answers_refl [simp]: "answers csk csk"
  by (simp add: answers_def)

lemma answers_trans: "answers csk csk1 \<Longrightarrow> answers csk1 csk2 \<Longrightarrow> answers csk csk2"
  by (auto simp: answers_def)

lemma answers_same: "dc_curr_block (c_dec csk') = dc_curr_block (c_dec csk) \<Longrightarrow> c_sent csk' = c_sent csk \<Longrightarrow> answers csk csk'"
  by (simp add: answers_def acks_behind_def)

lemma answers_after: "answers csk csk1 \<Longrightarrow> dc_curr_block (c_dec csk') = dc_curr_block (c_dec csk1) \<Longrightarrow> c_sent csk' = c_sent csk1 \<Longrightarrow>
    answers csk csk'"
  using answers_same answers_trans by blast

lemma answers_before: "answers csk1 csk' \<Longrightarrow> dc_curr_block (c_dec csk1) = dc_curr_block (c_dec csk) \<Longrightarrow> c_sent csk1 = c_sent csk \<Longrightarrow>
    answers csk csk'"
  using answers_same answers_trans by blast

lemma quiet_updates [simp]:
  "c_sent (set_sub i f csk) = c_sent csk" "c_sent (lose_substream i csk) = c_sent csk" "c_sent (hang_up csk) = c_sent csk"
  "dc_curr_block (c_dec (hang_up csk)) = dc_curr_block (c_dec csk)" "c_sent (set_pool p csk) = c_sent csk"
  "dc_curr_block (c_dec (set_pool p csk)) = dc_curr_block (c_dec csk)" "c_sent (note_packet m csk) = c_sent csk"
  "dc_curr_block (c_dec (note_packet m csk)) = dc_curr_block (c_dec csk)" "c_sent (set_all st csk) = c_sent csk"
  "c_dec (set_all st csk) = c_dec csk"
  by (simp_all add: set_sub_def lose_substream_def remove_substream_def hang_up_def set_pool_def note_packet_def set_all_def
      note_index_def Let_def)

lemma answers_over:
  assumes "a_blockno a \<le> dc_curr_block (c_dec csk)"
  shows "answers csk (fst (send_over ev i a csk))"
  using assms by (auto simp: send_over_def answers_def acks_behind_def)

lemma answers_flag: "cli_send_flag ev i fl ts csk = Done (csk', ok) \<Longrightarrow> answers csk csk'"
proof -
  assume "cli_send_flag ev i fl ts csk = Done (csk', ok)"
  then obtain p where r: "csk' = set_pool p (fst (send_over ev i ((ackPacket 0 0 0 ts)\<lparr>a_flag := flag_code fl\<rparr>) csk))"
    by (auto simp: cli_send_flag_def Let_def split: prod.splits option.splits)
  have "answers csk (fst (send_over ev i ((ackPacket 0 0 0 ts)\<lparr>a_flag := flag_code fl\<rparr>) csk))"
    by (rule answers_over) (simp add: ackPacket_def)
  then show ?thesis unfolding r by (rule answers_after) simp_all
qed

lemma answers_flags: "cli_send_flags ev fl ts al f is csk = Done csk' \<Longrightarrow> answers csk csk'"
proof (induction "is" arbitrary: csk)
  case (Cons i js)
  then obtain csk1 ok where s: "cli_send_flag ev i fl ts csk = Done (csk1, ok)"
    and r: "cli_send_flags ev fl ts al f js (if al \<or> ok then set_sub i f csk1 else csk1) = Done csk'"
    by (auto simp: obind_Done)
  from answers_before [OF Cons.IH [OF r]] have "answers csk1 csk'" by (simp split: if_splits)
  with answers_flag [OF s] show ?case by (rule answers_trans)
qed simp

lemma answers_idle_send: "idle_send ev k csk = Done (csk', rm) \<Longrightarrow> answers csk csk'"
  by (auto simp: idle_send_def obind_Done Let_def dest: answers_flag split: clipath.splits
      intro: answers_after)

lemma answers_idle_bump: "idle_bump ev k csk = Done csk' \<Longrightarrow> answers csk csk'"
proof -
  define csk1 where "csk1 = set_sub k (\<lambda>p. p\<lparr>u_idle_time := 2 * u_idle_time p, u_idle_count := u_idle_count p + 1\<rparr>) csk"
  assume b: "idle_bump ev k csk = Done csk'"
  have "idle_bump ev k csk = (if IDLE_MAX_COUNT \<le> u_idle_count (c_subs csk1 ! k) then
      if u_state (c_subs csk1 ! k) = SYN_ACK_RECV \<or> u_state (c_subs csk1 ! k) = ESTABLISHED_c then
        obind (cli_send_flag ev k FIN (y_ts ev) csk1) (\<lambda>(csk, ok). Done (set_sub k (\<lambda>p. p\<lparr>u_state := FIN_SENT_c\<rparr>) csk))
      else Done (lose_substream k csk1)
    else Done csk1)" by (simp only: idle_bump_def csk1_def Let_def)
  with b consider "csk' = lose_substream k csk1 \<or> csk' = csk1"
    | csk2 ok where "cli_send_flag ev k FIN (y_ts ev) csk1 = Done (csk2, ok)" "csk' = set_sub k (\<lambda>p. p\<lparr>u_state := FIN_SENT_c\<rparr>) csk2"
    by (auto simp: obind_Done split: if_splits)
  then have "answers csk1 csk'"
  proof cases
    case 1
    then show ?thesis by (auto intro: answers_same)
  next
    case 2
    then show ?thesis using answers_after [OF answers_flag [OF 2(1)]] by simp
  qed
  then show ?thesis by (rule answers_before) (simp_all add: csk1_def)
qed

lemma answers_idle: "idle_loop ev k csk = Done csk' \<Longrightarrow> answers csk csk'"
proof (induction ev k csk rule: idle_loop.induct)
  case (1 ev k csk)
  let ?p = "c_subs csk ! k"
  show ?case
  proof (cases "k < length (c_subs csk) \<and> \<not> (y_now ev - u_lastrcvt ?p \<le> u_idle_time ?p \<or> u_state ?p = ESTABLISHED_c)")
    case False
    then show ?thesis
      using 1(1) 1(3) by (cases "k < length (c_subs csk)") (auto simp: idle_loop.simps [of ev k csk] Let_def)
  next
    case True
    then obtain csk1 rm csk2 where s: "idle_send ev k csk = Done (csk1, rm)" "\<not> (rm \<and> k = 0)"
      "idle_bump ev (if rm then k - 1 else k) csk1 = Done csk2" "idle_loop ev (if rm then k else k + 1) csk2 = Done csk'"
      using 1(3) by (auto simp: idle_loop.simps [of ev k csk] Let_def obind_Done split: if_splits)
    from 1(2) [OF _ refl _ s(1) refl s(2,3,4)] True have "answers csk2 csk'" by simp
    with answers_idle_send [OF s(1)] answers_idle_bump [OF s(3)] answers_trans show ?thesis by blast
  qed
qed

lemma answers_poll: "poll_flag fl ts p csk = (csk', j, fl', ts') \<Longrightarrow> answers csk csk'"
proof -
  have "poll_scan fl ts k vs csk = (csk', j, fl', ts') \<Longrightarrow> answers csk csk'" for k vs
    by (induction fl ts k vs csk rule: poll_scan.induct) (auto intro: answers_same split: visit.splits if_splits)
  then show "poll_flag fl ts p csk = (csk', j, fl', ts') \<Longrightarrow> answers csk csk'"
    by (auto simp: poll_flag_def split: poll.splits)
qed

lemma answers_fin_loop: "cli_fin_loop ev ts tries rv csk ps = Done (Some (csk', n)) \<Longrightarrow> answers csk csk'"
proof (induction ps arbitrary: tries rv csk)
  case (Cons p ps)
  from Cons.prems obtain csk1 tries1 where x: "(if rv = -1
        then obind (cli_send_flags ev FIN_ACK ts True (\<lambda>q. q\<lparr>u_state := FIN_ACK_SENT_c\<rparr>) [0..<length (c_subs csk)] csk)
               (\<lambda>csk. Done (csk, tries + 1))
        else Done (csk, tries)) = Done (csk1, tries1)"
      and c: "(case poll_flag (flag_code FIN_ACK) ts p csk1 of
         (csk, poll_rv, fl, ts') \<Rightarrow>
           if poll_rv < 0 \<and> tries1 < POLL_MAX_TRIES then cli_fin_loop ev ts tries1 poll_rv csk ps
           else Done (Some (csk, tries1))) = Done (Some (csk', n))"
    by (simp only: cli_fin_loop.simps obind_Done split_paired_Ex prod.case) blast
  have a: "answers csk csk1" using x by (auto simp: obind_Done split: if_splits dest!: answers_flags)
  obtain csk2 j fl' ts' where p: "poll_flag (flag_code FIN_ACK) ts p csk1 = (csk2, j, fl', ts')" by (metis prod_cases4)
  have "(if j < 0 \<and> tries1 < POLL_MAX_TRIES then cli_fin_loop ev ts tries1 j csk2 ps else Done (Some (csk2, tries1))) = Done (Some (csk', n))"
    using c by (simp only: p prod.case)
  then have "answers csk2 csk'" using Cons.IH [of tries1 j csk2] by (auto split: if_splits)
  with a answers_poll [OF p] answers_trans show ?case by blast
qed simp

text \<open>The acknowledgement of \<open>bldack\<close> is overtaken by the decoder before it is sent.\<close>

lemma decode_loop_reaches:
  assumes "decode_loop d = Done d'" "dc_curr_block d \<le> b" "unat b \<le> unat (dc_curr_block d) + NUM_BLOCKS"
    "\<forall>c. dc_curr_block d \<le> c \<longrightarrow> c < b \<longrightarrow> cb_dofs (dc_blocks d ! slot c) = cb_len (dc_blocks d ! slot c)"
    "unat (dc_curr_block d) + open_blocks (dc_blocks d) < 2 ^ 32"
  shows "b \<le> dc_curr_block d'"
  using assms
proof (induction "open_blocks (dc_blocks d)" arbitrary: d b rule: less_induct)
  case less
  let ?c = "dc_curr_block d" and ?k = "slot (dc_curr_block d)"
  let ?blk = "dc_blocks d ! ?k"
  note run = less.prems(1) [unfolded decode_loop.simps [of d] Let_def]
  have k: "?k < length (dc_blocks d)" using run by (auto split: if_splits)
  show ?case
  proof (cases "cb_dofs ?blk = cb_len ?blk")
    case False
    then have "d' = d" using run k by simp
    moreover have "\<not> ?c < b" using False less.prems(4) by auto
    ultimately show ?thesis by simp
  next
    case True
    from run k True obtain blk1 Q pool where un: "obind (of_opt (unwrap ?blk)) (\<lambda>blk.
        obind (writeAndFreeBlock blk (dc_usr_cache d) (dc_pool d)) (\<lambda>r. Done (blk, r))) = Done (blk1, Q, pool)"
      by (simp split: outcome.splits) (metis prod_cases3)
    define d1 where "d1 = d\<lparr>dc_blocks := (dc_blocks d)[?k := initCodedBlock blk1], dc_usr_cache := Q,
             dc_pool := pool, dc_curr_block := ?c + 1\<rparr>"
    have rec: "decode_loop d1 = Done d'" using run k True un by (simp add: d1_def)
    have open1: "open_blocks (dc_blocks d1) < open_blocks (dc_blocks d)"
      using open_blocks_init k True by (simp add: d1_def)
    have suc: "unat (dc_curr_block d1) = Suc (unat ?c)" "dc_curr_block d1 = ?c + 1"
      using less.prems(5) open1 unat_add_lem [of ?c 1] by (simp_all add: d1_def)
    define b1 where "b1 = max b (?c + 1)"
    have ub: "unat b1 = max (unat b) (Suc (unat ?c))" using suc by (simp add: b1_def max_def word_le_nat_alt)
    have full: "cb_dofs (dc_blocks d1 ! slot c) = cb_len (dc_blocks d1 ! slot c)" if "dc_curr_block d1 \<le> c" "c < b1" for c
    proof -
      have c: "unat ?c < unat c" "unat c < unat b" using that suc ub by (auto simp: word_le_nat_alt word_less_nat_alt)
      then have "unat c mod NUM_BLOCKS \<noteq> unat ?c mod NUM_BLOCKS"
        using window_slots_distinct [of "unat ?c" "unat c" "unat ?c"] less.prems(3) by (auto simp: NUM_BLOCKS_def)
      then have "dc_blocks d1 ! slot c = dc_blocks d ! slot c" by (simp add: d1_def slot_def)
      moreover have "?c \<le> c" "c < b" using c by (simp_all add: word_le_nat_alt word_less_nat_alt)
      ultimately show ?thesis using less.prems(4) by simp
    qed
    have "b1 \<le> dc_curr_block d'"
    proof (rule less.hyps [OF open1 rec])
      show "dc_curr_block d1 \<le> b1" by (simp add: b1_def suc(2))
      show "unat b1 \<le> unat (dc_curr_block d1) + NUM_BLOCKS" using ub suc(1) less.prems(3) by (simp add: NUM_BLOCKS_def)
      show "unat (dc_curr_block d1) + open_blocks (dc_blocks d1) < 2 ^ 32" using suc(1) open1 less.prems(5) by simp
    qed (use full in blast)
    then show ?thesis by (simp add: b1_def)
  qed
qed

lemma place_packet_frame: "place_packet stack skb msg d = Done (d', sv) \<Longrightarrow>
    dc_curr_block d' = dc_curr_block d \<and> length (dc_blocks d') = length (dc_blocks d)"
  by (auto simp: place_packet_def Let_def obind_Done split: if_splits)

lemma bldack_ack_behind:
  assumes bl: "bldack malloc stack ts skb msg d = Done (d', ack)" and mono: "dc_curr_block d \<le> dc_curr_block d'"
    and len: "length (dc_blocks d) = NUM_BLOCKS" and range: "unat (dc_curr_block d) + 2 * NUM_BLOCKS < 2 ^ 31"
  shows "a_blockno ack \<le> dc_curr_block d'"
proof -
  obtain d1 sv where pl: "place_packet stack skb msg d = Done (d1, sv)" using bl by (auto simp: bldack_def obind_Done)
  note pf = place_packet_frame [OF pl]
  obtain pool a where al: "alloc_skb (malloc (dc_pool d1)) (dc_pool d1) = (pool, Some a)"
    using bl pl by (auto simp: bldack_def obind_Done split: prod.splits option.splits)
  define d2 where "d2 = d1\<lparr>dc_pool := free_skb a pool, dc_acks := dc_acks d1 + 1\<rparr>"
  let ?cur = "dc_blocks d1 ! slot (dc_curr_block d1)"
  obtain d3 d4 where pw: "(if cb_dofs ?cur < cb_len ?cur then partial_write d2 else Done d2) = Done d3"
    and dl: "decode_loop d3 = Done d4" and r: "dc_curr_block d' = dc_curr_block d4" "ack = build_ack ts d1 msg"
    using bl pl al by (auto simp: bldack_def obind_Done Let_def d2_def split: if_splits)
  obtain b n where sc: "ack_scan d1 (dc_curr_block d1) (cb_dofs ?cur) = (b, n)" by fastforce
  have le: "dc_curr_block d1 \<le> dc_curr_block d1 + of_nat NUM_BLOCKS" and un: "unat (dc_curr_block d1 + of_nat NUM_BLOCKS) = unat (dc_curr_block d1) + NUM_BLOCKS"
    using range pf unat_add_lem [of "dc_curr_block d1" "of_nat NUM_BLOCKS"] by (simp_all add: NUM_BLOCKS_def word_le_nat_alt)
  note sp = ack_scan_spec [OF sc refl le]
  have ack: "a_blockno ack = b" by (simp add: r build_ack_def sc ackPacket_def)
  show ?thesis
  proof (cases "b = dc_curr_block d1")
    case True
    then show ?thesis using mono pf ack by simp
  next
    case False
    have "dc_curr_block d1 \<le> b" using sp by blast
    with False have "dc_curr_block d1 < b" by simp
    then have "cb_dofs ?cur = cb_len ?cur" using sp by blast
    then have d3: "d3 = d2" using pw by simp
    have "b \<le> dc_curr_block d4"
      by (rule decode_loop_reaches [OF dl [unfolded d3]])
        (use sp un pf len range open_blocks_le [of "dc_blocks d1"] in \<open>simp_all add: d2_def word_le_nat_alt NUM_BLOCKS_def\<close>)
    then show ?thesis using ack r by simp
  qed
qed

section \<open>The client's answers to a packet\<close>

text \<open>
  What the data path needs to know of a packet: the decoder's invariants for some stream
  that it belongs to.
\<close>

lemma answers_decode:
  assumes dec: "cli_decode ev stack ts i a m csk = Done csk'" and d: "c_dec csk = note_index m d"
    and inv: "window_inv Ps L d" "\<And>b. lens_ok (Ps b) L" "1 \<le> unat (dc_curr_block d)" and acc: "accepts Ps L d m"
    and env: "length stack = BLOCK_SIZE" "\<And>p. y_malloc ev p \<noteq> None" "unat (dc_curr_block d) + 2 * NUM_BLOCKS < 2 ^ 31"
  shows "answers csk csk'"
proof -
  obtain d' ack where bl: "bldack (y_malloc ev) stack ts a m (note_index m d) = Done (d', ack)"
    and csk': "csk' = fst (send_over ev i ack (csk\<lparr>c_dec := d'\<rparr>))"
    using dec by (auto simp: cli_decode_def obind_Done d)
  note ni = note_index_correct [OF inv(1) acc]
  have len: "length (dc_blocks (note_index m d)) = NUM_BLOCKS"
    using inv(1) by (simp add: window_inv_def note_index_def Let_def)
  have cur: "dc_curr_block (note_index m d) = dc_curr_block d" by (simp add: note_index_def Let_def)
  have mono: "dc_curr_block d \<le> dc_curr_block d'"
    using bldack_correct [of Ps L d m stack "y_malloc ev" ts a] inv acc env bl by (auto simp: word_le_nat_alt)
  have "a_blockno ack \<le> dc_curr_block d'"
    by (rule bldack_ack_behind [OF bl _ len]) (use mono cur env(3) in simp_all)
  then have "answers (csk\<lparr>c_dec := d'\<rparr>) csk'" unfolding csk' by (intro answers_over) simp
  moreover have "answers csk (csk\<lparr>c_dec := d'\<rparr>)" using mono cur d by (auto simp: answers_def acks_behind_def)
  ultimately show ?thesis using answers_trans by blast
qed

lemma answers_fin_ack: "cli_fin_ack ev i ts csk = Done csk' \<Longrightarrow> answers csk csk'"
proof -
  assume f: "cli_fin_ack ev i ts csk = Done csk'"
  define csk1 where "csk1 = set_sub i (\<lambda>q. q\<lparr>u_state := FIN_ACK_RECV_c\<rparr>) csk"
  have "csk' = csk \<or> (\<exists>csk2. cli_send_flags ev FIN_ACK ts True (\<lambda>q. q\<lparr>u_state := CLOSING_c\<rparr>) [0..<length (c_subs csk1)] csk1 = Done csk2 \<and>
      csk' = hang_up csk2)"
    using f unfolding cli_fin_ack_def Let_def csk1_def [symmetric] by (auto simp: obind_Done split: if_splits)
  then show ?thesis
  proof (elim disjE exE conjE)
    fix csk2 assume "cli_send_flags ev FIN_ACK ts True (\<lambda>q. q\<lparr>u_state := CLOSING_c\<rparr>) [0..<length (c_subs csk1)] csk1 = Done csk2" "csk' = hang_up csk2"
    then have "answers csk1 csk'" using answers_after [OF answers_flags] by simp
    then show ?thesis by (rule answers_before) (simp_all add: csk1_def)
  qed simp
qed

lemma answers_fin: "cli_fin ev i ts ps csk = Done (Some csk') \<Longrightarrow> answers csk csk'"
proof -
  assume f: "cli_fin ev i ts ps csk = Done (Some csk')"
  define csk1 where "csk1 = set_sub i (\<lambda>q. q\<lparr>u_state := FIN_RECV_c\<rparr>) csk"
  obtain csk2 n where l: "cli_fin_loop ev ts 0 (-1) csk1 ps = Done (Some (csk2, n))"
    and h: "csk' = hang_up (if POLL_MAX_TRIES \<le> n then csk2 else set_all CLOSING_c csk2)"
    using f unfolding cli_fin_def csk1_def [symmetric] by (auto simp: obind_Done)
  have "answers csk1 csk'" by (rule answers_after [OF answers_fin_loop [OF l]]) (simp_all add: h)
  then show ?thesis by (rule answers_before) (simp_all add: csk1_def)
qed

lemma answers_syn_ack: "cli_syn_ack ev i ts csk = Done csk' \<Longrightarrow> answers csk csk'"
proof -
  assume "cli_syn_ack ev i ts csk = Done csk'"
  then consider "csk' = csk" | csk1 ok where "cli_send_flag ev i NORMAL ts csk = Done (csk1, ok)"
    "csk' = set_sub i (\<lambda>q. q\<lparr>u_state := ESTABLISHED_c\<rparr>) csk1 \<or> csk' = csk1"
    by (auto simp: cli_syn_ack_def obind_Done split: if_splits)
  then show ?thesis by cases (auto intro: answers_after answers_flag)
qed

lemma answers_packet:
  assumes pk: "cli_packet ev stack ts i a m ps csk = Done (Some (csk', z))" and d: "c_dec csk = note_index m d"
    and inv: "window_inv Ps L d" "\<And>b. lens_ok (Ps b) L" "1 \<le> unat (dc_curr_block d)" and sound: "sound_packet Ps L d m"
    and env: "length stack = BLOCK_SIZE" "\<And>p. y_malloc ev p \<noteq> None" "unat (dc_curr_block d) + 2 * NUM_BLOCKS < 2 ^ 31"
  shows "answers csk csk'"
proof (cases "is_control m")
  case True
  then consider "cli_fin ev i (d_tstamp m) ps csk = Done (Some csk')" | "cli_fin_ack ev i (d_tstamp m) csk = Done csk'"
    | "cli_syn_ack ev i (d_tstamp m) csk = Done csk'" | "csk' = csk"
    using pk by (auto simp: cli_packet_def is_control_def Let_def obind_Done split: if_splits)
  then show ?thesis by cases (auto intro: answers_fin answers_fin_ack answers_syn_ack)
next
  case False
  then have data: "cli_data ev stack ts i a m csk = Done csk'" and acc: "accepts Ps L d m"
    using pk sound by (auto simp: cli_packet_def is_control_def Let_def obind_Done sound_packet_def)
  have dec: "answers csk csk'" if "cli_decode ev stack ts i a m csk1 = Done csk'" "c_dec csk1 = c_dec csk" "c_sent csk1 = c_sent csk" for csk1
    by (rule answers_before [OF answers_decode [OF that(1) _ inv acc env]]) (use that d in simp_all)
  show ?thesis using data dec [of csk] dec [of "set_sub i (\<lambda>q. q\<lparr>u_state := ESTABLISHED_c\<rparr>) csk"]
    by (auto simp: cli_data_def split: if_splits)
qed

lemma answers_visit:
  assumes v: "client_visit x i csk = Done (Some (csk', e))" and sound: "sound_visit Ps L (c_dec csk) x"
    and inv: "window_inv Ps L (c_dec csk)" "\<And>b. lens_ok (Ps b) L" "1 \<le> unat (dc_curr_block (c_dec csk))"
  shows "answers csk csk'"
proof -
  obtain pool skb where al: "alloc_skb (y_malloc (i_env x) (dc_pool (c_dec csk))) (dc_pool (c_dec csk)) = (pool, skb)"
    by fastforce
  let ?d = "(c_dec csk)\<lparr>dc_pool := pool\<rparr>"
  show ?thesis
  proof (cases "\<exists>m a. i_visit x = Recvd m \<and> skb = Some a")
    case False
    then have "csk' = set_pool pool csk \<or> csk' = lose_substream i (set_pool pool csk)"
      using v al by (auto simp: client_visit_def Let_def split: visit.splits option.splits)
    then show ?thesis by (auto intro: answers_same)
  next
    case True
    then obtain m a where m: "i_visit x = Recvd m" "skb = Some a" by blast
    define csk0 where "csk0 = (set_sub i (\<lambda>q. q\<lparr>u_lastrcvt := i_rcvt x, u_idle_time := INIT_IDLE_TIME, u_idle_count := 0\<rparr>)
      (set_pool pool csk))\<lparr>c_pkts := c_pkts csk + 1\<rparr>"
    have c0: "c_dec csk0 = ?d" "c_sent csk0 = c_sent csk" by (simp_all add: csk0_def set_pool_def set_sub_def)
    obtain z where pk: "cli_packet (i_env x) (i_stack x) (i_ack_ts x) i a m (i_polls x) (note_packet m csk0) = Done (Some (csk', z))"
      using v by (auto simp: client_visit_def al m csk0_def Let_def obind_Done set_pool_def)
    have w: "window_inv Ps L ?d" using inv(1) by (simp add: window_inv_def)
    have "c_dec (note_packet m csk0) = note_index m ?d" by (simp add: note_packet_def c0)
    moreover have "sound_packet Ps L ?d m"
      using sound m by (auto simp: sound_visit_def sound_packet_def accepts_def split: if_splits)
    ultimately have "answers (note_packet m csk0) csk'"
      using answers_packet [OF pk _ w inv(2)] inv(3) sound by (simp add: sound_visit_def)
    then show ?thesis by (rule answers_before) (simp_all add: c0)
  qed
qed

section \<open>Both ends\<close>

text \<open>
  \<open>ins\<close> is what \<open>send_ctcp\<close> has taken, \<open>outs\<close> what \<open>read_ctcp\<close> has returned.  Every packet the
  client reads was sent by the server, every acknowledgement that the server acts on was sent
  by the client; the network delivers any of them at any time, as often as it likes.  Block
  numbers stay below 2^31 and \<open>malloc\<close> succeeds.  A packet's coding window is not smaller
  than those that the block at the decoder has seen (\<open>fits\<close>), and a job is executed when its
  block is in the window: both are what the code itself does not see to.
\<close>

inductive session :: "coded_block list \<Rightarrow> server \<Rightarrow> client \<Rightarrow> bytes \<Rightarrow> bytes \<Rightarrow> bool" for raw where
  ses_start: "listen_srvctcp ev m r (create_srvctcp_sock c coder0) = (sk, True) \<Longrightarrow> pool_good (k_pool coder0) \<Longrightarrow>
    fresh (k_pool coder0) m \<Longrightarrow> c_dec csk = decoder_init raw pool \<Longrightarrow> (\<And>a. a \<in> snd ` set (c_sent csk) \<Longrightarrow> a_blockno a = 0) \<Longrightarrow>
    session raw (worker_init sk) csk [] []"
| ses_send: "session raw sk csk ins outs \<Longrightarrow> send_ctcp malloc sk buf = Some (sk', rest, e) \<Longrightarrow>
    (\<And>p. fresh p (malloc p)) \<Longrightarrow> (\<And>p. malloc p \<noteq> None) \<Longrightarrow>
    session raw sk' csk (ins @ take (length buf - length rest) buf) outs"
| ses_job: "session raw sk csk ins outs \<Longrightarrow> w < length (t_th (s_workers sk)) \<Longrightarrow> worker_take (s_workers sk) w = Some P \<Longrightarrow>
    t_th P ! w = Busy job \<Longrightarrow> unat (j_blockno job) < unat (s_curr_block sk) + NUM_BLOCKS \<Longrightarrow> (\<And>p. fresh p (malloc p)) \<Longrightarrow>
    server_job malloc job rnds (sk\<lparr>s_workers := P\<lparr>t_th := (t_th P)[w := Idle]\<rparr>\<rparr>) = Some sk' \<Longrightarrow>
    session raw sk' csk ins outs"
| ses_turn: "session raw sk csk ins outs \<Longrightarrow> s_status sk \<noteq> CLOSED \<Longrightarrow> event_turn e k sk = Ran (sk', k') \<Longrightarrow>
    (\<And>a ack. e_read e = Got a ack \<Longrightarrow> a_flag ack = flag_code NORMAL \<Longrightarrow> ack \<in> snd ` set (c_sent csk)) \<Longrightarrow>
    unat (dc_curr_block (c_dec csk)) + 2 * NUM_BLOCKS < 2 ^ 31 \<Longrightarrow> session raw sk' csk ins outs"
| ses_close: "session raw sk csk ins outs \<Longrightarrow> session raw (sk\<lparr>s_status := CLOSED\<rparr>) csk ins outs"
| ses_visit: "session raw sk csk ins outs \<Longrightarrow> c_status csk = ACTIVE_c \<Longrightarrow> i < length (c_subs csk) \<Longrightarrow>
    length (i_stack x) = BLOCK_SIZE \<Longrightarrow> (\<And>p. y_malloc (i_env x) p \<noteq> None) \<Longrightarrow> unat (dc_curr_block (c_dec csk)) + 2 * NUM_BLOCKS < 2 ^ 31 \<Longrightarrow>
    (\<And>m. i_visit x = Recvd m \<Longrightarrow> m \<in> snd ` set (s_sent sk) \<and>
      (is_control m \<or> d_blockno m < dc_curr_block (c_dec csk) \<or> fits (dc_blocks (c_dec csk) ! slot (d_blockno m)) (unat (d_num_packets m)))) \<Longrightarrow>
    client_visit x i csk = Done (Some (csk', z)) \<Longrightarrow> session raw sk csk' ins outs"
| ses_idle: "session raw sk csk ins outs \<Longrightarrow> c_status csk = ACTIVE_c \<Longrightarrow> idle_loop ev 0 csk = Done csk' \<Longrightarrow>
    session raw sk csk' ins outs"
| ses_none: "session raw sk csk ins outs \<Longrightarrow> c_subs csk = [] \<Longrightarrow> session raw sk (hang_up csk) ins outs"
| ses_read: "session raw sk csk ins outs \<Longrightarrow> 0 \<le> n \<Longrightarrow> read_ctcp csk n = Some (csk', r) \<Longrightarrow>
    session raw sk csk' ins (outs @ (case r of None \<Rightarrow> [] | Some buf \<Rightarrow> buf))"

text \<open>
  The streams of packets that what was sent may belong to; the client's run is one for each
  of them, so that it does not matter which packets the sender will still send.
\<close>

definition net_ok :: "server \<Rightarrow> (nat \<Rightarrow> nat \<Rightarrow> nat \<Rightarrow> u8) \<Rightarrow> bool" where
  "net_ok sk Ps \<longleftrightarrow> (\<forall>m \<in> snd ` set (s_sent sk).
    if is_control m then d_start_packet m = 0 \<and> d_num_packets m = 0 else pkt_ok (Ps (unat (d_blockno m))) PAYLOAD_SIZE m)"

definition ses_inv :: "coded_block list \<Rightarrow> server \<Rightarrow> client \<Rightarrow> bytes \<Rightarrow> bytes \<Rightarrow> bool" where
  "ses_inv raw sk csk ins outs \<longleftrightarrow> kept sk ins \<and> (\<forall>Ps. net_ok sk Ps \<longrightarrow> cli_run Ps PAYLOAD_SIZE raw csk outs) \<and>
    s_curr_block sk \<le> dc_curr_block (c_dec csk) \<and> acks_behind csk"

lemma hist_lens: "sent_inv sk F ins \<Longrightarrow> lens_ok (hist sk F b) PAYLOAD_SIZE"
proof -
  assume inv: "sent_inv sk F ins"
  then obtain X where own: "owned sk X" by (auto simp: sent_inv_def)
  have "lens_ok (packet_of (blk_at sk b) (s_coder sk)) PAYLOAD_SIZE" if "b \<in> window sk"
    using own that by (intro packet_of_lens) (simp_all add: owned_def blk_good_def)
  moreover have "lens_ok (\<lambda>k j. 0) PAYLOAD_SIZE"
    using payload_len_zeros by (simp add: lens_ok_def packet_def map_replicate_const PAYLOAD_SIZE_eq)
  ultimately show ?thesis using inv by (auto simp: hist_def sent_inv_def window_def)
qed

lemma hist_net: "sent_inv sk F ins \<Longrightarrow> net_ok sk (hist sk F)"
  using log_sound by (fastforce simp: sent_inv_def net_ok_def log_ok_def)

lemma net_ok_mono: "set (s_sent sk) \<subseteq> set (s_sent sk') \<Longrightarrow> net_ok sk' Ps \<Longrightarrow> net_ok sk Ps"
  unfolding net_ok_def by blast

text \<open>A packet that was sent is in the client's window or behind it.\<close>

lemma net_accepts:
  assumes inv: "sent_inv sk F ins" and m: "m \<in> snd ` set (s_sent sk)" and beh: "s_curr_block sk \<le> dc_curr_block d"
    and fit: "is_control m \<or> d_blockno m < dc_curr_block d \<or> fits (dc_blocks d ! slot (d_blockno m)) (unat (d_num_packets m))"
    and net: "net_ok sk Ps"
  shows "sound_packet Ps PAYLOAD_SIZE d m"
proof (cases "is_control m")
  case True
  then show ?thesis using net m unfolding sound_packet_def net_ok_def by fastforce
next
  case False
  let ?b = "unat (d_blockno m)"
  have "data_ok sk F m" using inv m False by (auto simp: sent_inv_def log_ok_def)
  then have "?b < unat (s_curr_block sk) + NUM_BLOCKS" by (auto simp: data_ok_def window_def Let_def split: if_splits)
  then have "?b < unat (dc_curr_block d) + NUM_BLOCKS" using beh by (simp add: word_le_nat_alt)
  moreover have "pkt_ok (Ps ?b) PAYLOAD_SIZE m" using net m False unfolding net_ok_def by fastforce
  ultimately show ?thesis using fit False by (auto simp: sound_packet_def accepts_def)
qed

lemma take_given: "buf = t @ rest \<Longrightarrow> take (length buf - length rest) buf = t"
  by simp

lemma ses_inv_client:
  assumes inv: "ses_inv raw sk csk ins outs" and run: "\<And>Ps. cli_run Ps PAYLOAD_SIZE raw csk outs \<Longrightarrow> cli_run Ps PAYLOAD_SIZE raw csk' outs'"
    and ans: "answers csk csk'"
  shows "ses_inv raw sk csk' ins outs'"
proof -
  have "s_curr_block sk \<le> dc_curr_block (c_dec csk')"
    using inv ans by (auto simp: ses_inv_def answers_def)
  with inv run ans show ?thesis by (simp add: ses_inv_def answers_def)
qed

lemma session_inv:
  assumes "session raw sk csk ins outs" "length raw = NUM_BLOCKS" "\<forall>blk \<in> set raw. shape_ok blk"
  shows "ses_inv raw sk csk ins outs"
  using assms(1)
proof (induction rule: session.induct)
  case (ses_start ev m r c coder0 sk csk)
  have c: "core (worker_init sk) = core sk" by simp
  have k: "kept sk []" "s_curr_block sk = 1" using listen_sent [OF ses_start(1,2,3)] by simp_all
  then have "kept (worker_init sk) []" "s_curr_block (worker_init sk) = 1"
    using core_same [OF c] core_fields [OF c] by (simp_all add: kept_def)
  moreover have "dc_curr_block (c_dec csk) = 1" using ses_start(4) by (simp add: decoder_init_def)
  moreover have "acks_behind csk" using ses_start(5) by (auto simp: acks_behind_def)
  moreover have "cli_run Ps PAYLOAD_SIZE raw csk []" for Ps by (rule cr_start [OF ses_start(4)])
  ultimately show ?case by (simp add: ses_inv_def)
next
  case (ses_send sk csk ins outs malloc buf sk' rest e)
  then obtain F where F: "sent_inv sk F ins" by (auto simp: ses_inv_def kept_def)
  obtain t where "buf = t @ rest" "sent_inv sk' F (ins @ t)"
    using send_ctcp_sent [OF ses_send(2) F] ses_send(3,4) by blast
  then have "kept sk' (ins @ take (length buf - length rest) buf)" using take_given by (auto simp: kept_def)
  with ses_send.IH send_ctcp_log [OF ses_send(2)] show ?case by (simp add: ses_inv_def net_ok_def)
next
  case (ses_job sk csk ins outs w P job malloc rnds sk')
  then obtain F where F: "sent_inv sk F ins" by (auto simp: ses_inv_def kept_def)
  have "sent_inv sk' F ins" by (rule worker_job_sent [OF F ses_job(3,2,4,7) _ ses_job(5)]) (use ses_job(6) in blast)
  with ses_job.IH server_job_log [OF ses_job(7)] show ?case by (auto simp: ses_inv_def net_ok_def kept_def)
next
  case (ses_turn sk csk ins outs e k sk' k')
  have le: "ack_top (e_read e) \<le> dc_curr_block (c_dec csk)"
    using ses_turn.IH ses_turn(4) by (auto simp: ack_top_def ses_inv_def acks_behind_def split: reading.splits)
  then have "unat (ack_top (e_read e)) + 2 * NUM_BLOCKS < 2 ^ 31" using ses_turn(5) by (simp add: word_le_nat_alt)
  note ev = evolves_turn [OF ses_turn(3) this]
  have "s_curr_block sk' \<le> dc_curr_block (c_dec csk)"
    using ev le ses_turn.IH by (auto simp: evolves_def ses_inv_def max_def split: if_splits)
  with ev ses_turn.IH net_ok_mono [of sk sk'] show ?case by (simp add: evolves_def ses_inv_def)
next
  case (ses_close sk csk ins outs)
  have c: "core (sk\<lparr>s_status := CLOSED\<rparr>) = core sk" by simp
  with ses_close.IH core_same [OF c] core_fields [OF c] show ?case by (simp add: ses_inv_def kept_def net_ok_def)
next
  case (ses_visit sk csk ins outs i x csk' z)
  note inv = ses_visit.IH
  obtain F where F: "sent_inv sk F ins" using inv by (auto simp: ses_inv_def kept_def)
  have sound: "sound_visit Ps PAYLOAD_SIZE (c_dec csk) x" if "net_ok sk Ps" for Ps
  proof -
    have "sound_packet Ps PAYLOAD_SIZE (c_dec csk) m" if "i_visit x = Recvd m" for m
      using net_accepts [OF F, of m "c_dec csk" Ps] ses_visit(7) [OF that] inv \<open>net_ok sk Ps\<close> by (simp add: ses_inv_def)
    then show ?thesis using ses_visit(4-6) by (simp add: sound_visit_def split: visit.splits)
  qed
  let ?H = "hist sk F"
  have lens: "lens_ok (?H b) PAYLOAD_SIZE" for b by (rule hist_lens [OF F])
  have "cli_run ?H PAYLOAD_SIZE raw csk outs" using inv hist_net [OF F] by (simp add: ses_inv_def)
  from cli_run_dec [OF this] ses_visit(2) have "dec_run ?H PAYLOAD_SIZE raw (c_dec csk) outs" by blast
  from dec_run_inv [OF this assms(2,3) lens] have w: "window_inv ?H PAYLOAD_SIZE (c_dec csk)" "1 \<le> unat (dc_curr_block (c_dec csk))"
    by blast+
  have ans: "answers csk csk'" by (rule answers_visit [OF ses_visit(8) sound [OF hist_net [OF F]] w(1) lens w(2)])
  have "cli_run Ps PAYLOAD_SIZE raw csk' outs" if "net_ok sk Ps" for Ps
    using cr_visit [OF _ ses_visit(2,3) sound [OF that] ses_visit(8)] inv that by (simp add: ses_inv_def)
  moreover have "s_curr_block sk \<le> dc_curr_block (c_dec csk')" using inv ans by (auto simp: ses_inv_def answers_def)
  ultimately show ?case using inv ans by (simp add: ses_inv_def answers_def)
next
  case (ses_idle sk csk ins outs ev csk')
  show ?case
    by (rule ses_inv_client [OF ses_idle.IH _ answers_idle [OF ses_idle(3)]]) (rule cr_idle [OF _ ses_idle(2,3)])
next
  case (ses_none sk csk ins outs)
  show ?case by (rule ses_inv_client [OF ses_none.IH]) (auto intro: cr_none ses_none(2) answers_same)
next
  case (ses_read sk csk ins outs n csk' r)
  have "dc_curr_block (c_dec csk') = dc_curr_block (c_dec csk) \<and> c_sent csk' = c_sent csk"
    using ses_read(3) by (auto simp: read_ctcp_def Let_def split: if_splits option.splits)
  then show ?case
    by (intro ses_inv_client [OF ses_read.IH cr_read [OF _ ses_read(2,3)]] answers_same) simp_all
qed

section \<open>The stream\<close>

text \<open>What the sender has taken is the stream of the blocks that were ever in its window.\<close>

lemma stream_split: "1 \<le> a \<Longrightarrow> a \<le> c \<Longrightarrow>
    stream_to Ps L c 0 = stream_to Ps L a 0 @ concat (map (\<lambda>b. packets_data (Ps b) L 0 BLOCK_SIZE) [a..<c])"
  using upt_add_eq_append [of 1 a "c - a"] by (simp add: stream_to_def)

lemma stream_cong: "(\<And>b. b < c \<Longrightarrow> Ps b = Qs b) \<Longrightarrow> stream_to Ps L c 0 = stream_to Qs L c 0"
  by (auto simp: stream_to_def intro!: arg_cong [where f = concat])

lemma hist_past: "stream_to (hist sk F) PAYLOAD_SIZE (unat (s_curr_block sk)) 0 = past sk F"
proof -
  have "stream_to (hist sk F) PAYLOAD_SIZE (unat (s_curr_block sk)) 0 = stream_to F PAYLOAD_SIZE (unat (s_curr_block sk)) 0"
    by (rule stream_cong) (simp add: hist_def)
  then show ?thesis by (simp add: stream_to_def past_def)
qed

lemma no_packets_data: "packets_data (\<lambda>k j. 0) PAYLOAD_SIZE 0 n = []"
proof -
  have "payload_data (replicate PAYLOAD_SIZE 0) = []" by (simp add: payload_data_def payload_len_zeros)
  then show ?thesis by (simp add: packets_data_def packet_def map_replicate_const)
qed

lemma hist_total:
  assumes inv: "sent_inv sk F ins" and c: "unat (s_curr_block sk) + NUM_BLOCKS \<le> c"
  shows "stream_to (hist sk F) PAYLOAD_SIZE c 0 = ins"
proof -
  let ?s = "unat (s_curr_block sk)" and ?H = "hist sk F" and ?d = "\<lambda>b. packets_data (hist sk F b) PAYLOAD_SIZE 0 BLOCK_SIZE"
  obtain X where own: "owned sk X" and ins: "past sk F @ s_stream sk = ins" and one: "1 \<le> ?s"
    using inv by (auto simp: sent_inv_def)
  have "?d b = block_bytes (blk_at sk b) (s_coder sk)" if "b \<in> set [?s..<?s + NUM_BLOCKS]" for b
  proof -
    have "?H b = packet_of (blk_at sk b) (s_coder sk)" using that by (simp add: hist_def)
    then show ?thesis using packets_data_block [OF owned_blocks [OF own]] by simp
  qed
  then have win: "map ?d [?s..<?s + NUM_BLOCKS] = map (\<lambda>b. block_bytes (blk_at sk b) (s_coder sk)) [?s..<?s + NUM_BLOCKS]"
    by (rule map_cong [OF refl])
  have "?d b = []" if "b \<in> set [?s + NUM_BLOCKS..<c]" for b
    using that no_packets_data by (simp add: hist_def)
  then have rest: "concat (map ?d [?s + NUM_BLOCKS..<c]) = []" by simp
  have "[?s..<c] = [?s..<?s + NUM_BLOCKS] @ [?s + NUM_BLOCKS..<c]"
    using upt_add_eq_append [of ?s "?s + NUM_BLOCKS" "c - (?s + NUM_BLOCKS)"] c by simp
  then have "concat (map ?d [?s..<c]) = s_stream sk"
    using rest by (simp only: map_append concat_append win s_stream_def append_Nil2)
  moreover have "stream_to ?H PAYLOAD_SIZE c 0 = stream_to ?H PAYLOAD_SIZE ?s 0 @ concat (map ?d [?s..<c])"
    by (rule stream_split) (use one c in simp_all)
  ultimately show ?thesis using hist_past ins by simp
qed

lemma hist_prefix:
  assumes inv: "sent_inv sk F ins" and a: "1 \<le> a"
  shows "\<exists>x. ins = stream_to (hist sk F) PAYLOAD_SIZE a 0 @ x"
proof -
  let ?c = "max a (unat (s_curr_block sk) + NUM_BLOCKS)"
  have "stream_to (hist sk F) PAYLOAD_SIZE ?c 0 = ins" by (rule hist_total [OF inv]) simp
  with stream_split [OF a, of ?c "hist sk F" PAYLOAD_SIZE] show ?thesis by auto
qed

lemma session_stream:
  assumes ses: "session raw sk csk ins outs" and raw: "length raw = NUM_BLOCKS" "\<forall>blk \<in> set raw. shape_ok blk"
  shows "\<exists>x. ins = outs @ x"
proof -
  note inv = session_inv [OF assms]
  obtain F where F: "sent_inv sk F ins" using inv by (auto simp: ses_inv_def kept_def)
  let ?H = "hist sk F"
  have "cli_run ?H PAYLOAD_SIZE raw csk outs" using inv hist_net [OF F] by (simp add: ses_inv_def)
  then obtain d where d: "dec_run ?H PAYLOAD_SIZE raw d outs" using cli_run_dec by blast
  obtain x where x: "stream_to ?H PAYLOAD_SIZE (Suc (unat (dc_curr_block d))) 0 = outs @ x"
    using dec_run_stream [OF d raw] hist_lens [OF F] by blast
  with hist_prefix [OF F, of "Suc (unat (dc_curr_block d))"] show ?thesis by auto
qed

text \<open>What has left the sender's window has reached the client's queue.\<close>

lemma session_acked:
  assumes ses: "session raw sk csk ins outs" and raw: "length raw = NUM_BLOCKS" "\<forall>blk \<in> set raw. shape_ok blk"
    and act: "c_status csk = ACTIVE_c"
  shows "\<exists>x y. ins = x @ s_stream sk \<and> outs @ fifo_bytes (dc_usr_cache (c_dec csk)) = x @ y"
proof -
  note inv = session_inv [OF ses raw]
  obtain F where F: "sent_inv sk F ins" using inv by (auto simp: ses_inv_def kept_def)
  let ?H = "hist sk F" and ?d = "c_dec csk"
  have "cli_run ?H PAYLOAD_SIZE raw csk outs" using inv hist_net [OF F] by (simp add: ses_inv_def)
  then have d: "dec_run ?H PAYLOAD_SIZE raw ?d outs" using cli_run_dec act by blast
  have lens: "lens_ok (?H b) PAYLOAD_SIZE" for b by (rule hist_lens [OF F])
  have p: "outs @ fifo_bytes (dc_usr_cache ?d) = pos ?H PAYLOAD_SIZE ?d" using dec_run_inv [OF d raw lens] by blast
  have le: "unat (s_curr_block sk) \<le> unat (dc_curr_block ?d)" "1 \<le> unat (s_curr_block sk)"
    using inv F by (simp_all add: ses_inv_def word_le_nat_alt sent_inv_def)
  have "pos ?H PAYLOAD_SIZE ?d = stream_to ?H PAYLOAD_SIZE (unat (dc_curr_block ?d)) 0 @
      packets_data (?H (unat (dc_curr_block ?d))) PAYLOAD_SIZE 0 (cb_dofs_pushed (cur_blk ?d))"
    by (simp add: pos_def stream_to_def)
  then have "\<exists>y. pos ?H PAYLOAD_SIZE ?d = past sk F @ y"
    using stream_split [OF le(2,1), of ?H PAYLOAD_SIZE] by (simp add: hist_past)
  then obtain y where y: "outs @ fifo_bytes (dc_usr_cache ?d) = past sk F @ y" using p by auto
  have "ins = past sk F @ s_stream sk" using F by (simp add: sent_inv_def)
  with y show ?thesis by blast
qed

end
