(* ===== verification/SesInputs.thy ===== *)
theory SesInputs
  imports Session ConnInputs
begin

text \<open>
  One connection from its first packet to the byte that arrives: the server listens, the
  application sends one byte, a worker codes it, the client's first packet establishes the
  path, the server's thread sends the byte, and the client reads it.
\<close>

section \<open>The byte in the sender\<close>

definition w_p7 :: skb_pool where "w_p7 = free_skb 7 (fst (alloc_skb (Some 7) skb_pool_init))"

definition w_S7 :: coder where "w_S7 = w_coder\<lparr>k_pool := w_p7\<rparr>"

definition w_start :: server where "w_start = worker_init w_listen"

definition w_path7 :: path where
  "w_path7 = (stamp_syn 1 ((init_stream w_cfg w_path0)\<lparr>cli_addr := (2, 80, 1), pathstate := SYN_RECV\<rparr>))\<lparr>pathstate := SYN_ACK_SENT\<rparr>"

lemma w_start_fields:
  "s_cfg w_start = w_cfg" "s_curr_block w_start = 1" "s_maxblockno w_start = 1" "s_dof_req_latest w_start = 0"
  "s_blocks w_start = replicate 100 block_init" "s_dof_remain w_start = replicate 100 0"
  "s_coded_q w_start = replicate 100 (q_init 64)" "s_workers w_start = thrpool_init 5" "s_status w_start = ACTIVE"
  "s_coder w_start = w_S7" "s_paths w_start = [w_path7]"
proof -
  have al: "alloc_skb (Some 7) (k_pool w_coder) = (fst (alloc_skb (Some 7) skb_pool_init), Some 7)"
    by (simp add: alloc_skb_def w_coder_def skb_pool_init_def Let_def)
  have r: "w_listen = fst (listen_srvctcp w_env (Some 7) (Got (2, 80, 1) (w_ctl SYN)) (create_srvctcp_sock w_cfg w_coder))"
    by (simp add: w_listen_def)
  note e = w_start_def worker_init_def r listen_srvctcp_def al create_srvctcp_sock_def send_flag_def w_env_def Let_def upd_path_def
    w_path7_def w_S7_def w_p7_def NUM_BLOCKS_def BLOCK_SIZE_def THREADS_def
  show "s_cfg w_start = w_cfg" "s_curr_block w_start = 1" "s_maxblockno w_start = 1"
    "s_blocks w_start = replicate 100 block_init" "s_dof_remain w_start = replicate 100 0"
    "s_coded_q w_start = replicate 100 (q_init 64)" "s_workers w_start = thrpool_init 5" "s_status w_start = ACTIVE"
    "s_coder w_start = w_S7" "s_paths w_start = [w_path7]"
    by (simp_all add: e)
  show "s_dof_req_latest w_start = 0" by (simp add: e w_bslot1 block_init_def)
qed

definition w_blk7 :: block where "w_blk7 = fst (readBlock w_malloc block_init w_S7 [65])"
definition w_S8 :: coder where "w_S8 = fst (snd (readBlock w_malloc block_init w_S7 [65]))"

lemma w_read7: "readBlock w_malloc block_init w_S7 [65] = (w_blk7, w_S8, [])"
    "b_len w_blk7 = 1" "b_skb w_blk7 ! 0 = Some 7" "k_mem w_S8 7 = w_pkt NORMAL 0 0 0 (pack_payload [65])"
  by (simp_all add: w_blk7_def w_S8_def readBlock.simps [of _ _ _ "[65]"] readBlock.simps [of _ _ _ "[]"]
      w_S7_def w_p7_def w_coder_def Let_def alloc_skb_def free_skb_def skb_pool_init_def block_init_def BLOCK_SIZE_def
      PAYLOAD_SIZE_eq put_skb_def set_payload_def take_chunk_def numeral_eq_Suc w_pkt_def)

definition w_job7 :: coding_job_t where
  "w_job7 = \<lparr>j_blockno = 1, j_start = 0, j_dof_request = 1, j_coding_wnd = 0\<rparr>"

definition w_pool1 :: "coding_job_t thr_pool" where "w_pool1 = the (addJob (thrpool_init 5) (Job w_job7) LOW)"

definition w_pool2 :: "coding_job_t thr_pool" where "w_pool2 = the (worker_take w_pool1 0)"

lemma w_jobs: "addJob (thrpool_init 5) (Job w_job7) LOW = Some w_pool1" "worker_take w_pool1 0 = Some w_pool2"
    "t_th w_pool2 ! 0 = Busy w_job7" "length (t_th w_pool1) = 5"
  by (simp_all add: w_pool1_def w_pool2_def addJob_def thrpool_init_def q_push_back_def q_init_def worker_take_def takeJob_def
      q_pop_def Let_def modulo_def c_rem_def)

definition w_a1 :: server where
  "w_a1 = w_start\<lparr>s_blocks := (replicate 100 block_init)[1 := w_blk7], s_coder := w_S8, s_dof_remain := (replicate 100 0)[1 := 1],
    s_workers := w_pool1, s_dof_req_latest := 1\<rparr>"

lemma w_a1_send: "send_ctcp w_malloc w_start [65] = Some (w_a1, [], AllSent)"
proof -
  have "b_len block_init = 0" by (simp add: block_init_def)
  then have "send_step w_malloc w_start [65] = Stored w_a1 []"
    using w_jobs(1)
    by (simp add: send_step_def w_start_fields w_bslot1 w_read7 Let_def w_a1_def w_job7_def del: One_nat_def)
  then show ?thesis by (simp add: send_ctcp.simps [of _ _ "[65]"] send_ctcp.simps [of _ _ "[]"] w_start_fields)
qed

definition w_S9 :: coder where "w_S9 = w_S8\<lparr>k_mem := (k_mem w_S8)(7 := w_msg\<lparr>d_seqno := 1\<rparr>)\<rparr>"

definition w_queue7 :: "addr qbuffer" where "w_queue7 = the (q_push_back (q_init 64) 7)"

definition w_a2 :: server where
  "w_a2 = w_a1\<lparr>s_workers := w_pool2\<lparr>t_th := (t_th w_pool2)[0 := Idle]\<rparr>, s_coder := w_S9,
    s_coded_q := (replicate 100 (q_init 64))[1 := w_queue7]\<rparr>"

lemma w_queue7: "q_push_back (q_init 64) 7 = Some w_queue7" "\<exists>q. q_pop w_queue7 = Some (q, Some 7)"
  by (simp_all add: w_queue7_def q_push_back_def q_init_def q_pop_def Let_def modulo_def c_rem_def)

lemma w_a2_job: "server_job w_malloc w_job7 [] (w_a1\<lparr>s_workers := w_pool2\<lparr>t_th := (t_th w_pool2)[0 := Idle]\<rparr>\<rparr>) = Some w_a2"
proof -
  have "coding_job w_malloc 1 w_job7 w_blk7 w_S8 (q_init 64) [] = Some (w_S9, w_queue7, [])"
    by (simp add: coding_job_def w_job7_def w_read7 w_queue7 Let_def w_S9_def w_msg_def w_pkt_def)
  then show ?thesis
    by (simp add: server_job_def w_job7_def w_bslot1 w_a1_def w_start_fields w_a2_def Let_def del: One_nat_def)
qed

section \<open>The byte on its way\<close>

definition w_hello :: srv_event where
  "w_hello = \<lparr>e_env = w_env, e_read = Got (2, 80, 1) (w_ctl NORMAL), e_rcvt = 1, e_rcvt_user = 0, e_fin = []\<rparr>"

definition w_path8 :: path where "w_path8 = establish 1 (w_path7\<lparr>last_ack_time := 1, last_ack_time_user := 0\<rparr>)"

definition w_a3 :: server where "w_a3 = w_a2\<lparr>s_paths := [w_path8]\<rparr>"

lemma w_path8_fields: "snd_nxt w_path8 = 1" "snd_una w_path8 = 1" "snd_cwnd w_path8 = 8" "slr w_path8 = 0"
    "last_ack_time w_path8 = 1" "pathstate w_path8 = ESTABLISHED" "0 \<le> rto w_path8" "cli_addr w_path8 = (2, 80, 1)"
  by (simp_all add: w_path8_def w_path7_def establish_def stamp_syn_def init_stream_def w_cfg_def default_cfg_def INIT_RTO_def Let_def)

lemma w_a3_fields: "s_paths w_a3 = [w_path8]" "s_curr_block w_a3 = 1" "s_maxblockno w_a3 = 1"
    "s_status w_a3 = ACTIVE" "s_dof_req_latest w_a3 = 1" "s_dof_remain w_a3 ! 1 = 1"
    "s_coded_q w_a3 ! 1 = w_queue7" "length (s_dof_remain w_a3) = 100" "s_cfg w_a3 = w_cfg" "s_coder w_a3 = w_S9"
  by (simp_all add: w_a3_def w_a2_def w_a1_def w_start_fields)

lemma w_one: "\<exists>sk. send_one 1 0 1 0 w_a3 = Some sk \<and> s_curr_block sk = 1 \<and> s_status sk = ACTIVE \<and> w_msg \<in> snd ` set (s_sent sk) \<and>
    (\<exists>q. s_paths sk = [q] \<and> last_ack_time q = 1 \<and> 0 \<le> rto q)"
proof -
  have m: "(k_mem w_S9 7)\<lparr>d_seqno := 1, d_tstamp := 0\<rparr> = w_msg" by (simp add: w_S9_def w_msg_def w_pkt_def)
  obtain q where q: "q_pop w_queue7 = Some (q, Some 7)" using w_queue7(2) by blast
  show ?thesis
    by (simp add: send_one_def w_bslot1 w_a3_fields w_path8_fields Let_def q m del: One_nat_def)
qed

lemma w_segs7: "\<exists>sk. send_segs True 1 0 0 w_a3 = Some sk \<and> s_status sk = ACTIVE \<and> w_msg \<in> snd ` set (s_sent sk) \<and>
    (\<exists>q. s_paths sk = [q] \<and> last_ack_time q = 1 \<and> 0 \<le> rto q)"
proof -
  have slr: "scaled_slr w_cfg w_path8 = 0" by (simp add: scaled_slr_def w_path8_fields Let_def)
  have win: "path_win w_path8 = 8" by (simp add: path_win_def w_path8_fields)
  have fly: "curr_on_fly 1 1 w_path8 = 0" by (simp add: curr_on_fly_def w_path8_fields)
  have dof: "dof_loop 0 0 1 8 0 = 1" by (simp add: dof_loop.simps [of _ _ _ _ 0] dof_loop.simps [of _ _ _ _ 1] del: One_nat_def)
  obtain sk where one: "send_one 1 0 1 0 w_a3 = Some sk" and sk: "s_curr_block sk = 1" "s_status sk = ACTIVE" "w_msg \<in> snd ` set (s_sent sk)"
    "\<exists>q. s_paths sk = [q] \<and> last_ack_time q = 1 \<and> 0 \<le> rto q"
    using w_one by blast
  have run: "send_run 1 0 1 0 (Suc 0) w_a3 = Some (sent_update 1 0 sk, 1)"
    using one by (simp add: w_bslot1 w_a3_fields(6) [simplified])
  have seg: "seg_block 1 0 0 1 8 [0] w_a3 = Some (sent_update 1 0 sk, 7, [0])"
    using run w_a3_fields(6)
    by (simp add: seg_block_def w_a3_fields(1-5,9) mean_on_fly_def slr dof request_job_def w_bslot1 Let_def
        del: send_run.simps One_nat_def) simp
  have upd: "s_curr_block (sent_update 1 0 sk) = 1" by (simp add: sent_update_def upd_path_def sk Let_def)
  have upt: "[0..<NUM_BLOCKS + 1] = 0 # 1 # [2..<101]" by (simp add: NUM_BLOCKS_def upt_conv_Cons)
  have "\<not> (2 :: u32) \<le> 1" by (simp add: word_le_nat_alt)
  then have "send_blocks 1 0 0 1 [0..<NUM_BLOCKS + 1] 8 [0] w_a3 = Some (sent_update 1 0 sk)"
    unfolding upt by (simp add: w_a3_fields seg upd)
  then have "send_segs True 1 0 0 w_a3 = Some (sent_update 1 0 sk)" by (simp add: send_segs_def w_a3_fields win fly)
  moreover have "s_status (sent_update 1 0 sk) = ACTIVE \<and> w_msg \<in> snd ` set (s_sent (sent_update 1 0 sk)) \<and>
    (\<exists>q. s_paths (sent_update 1 0 sk) = [q] \<and> last_ack_time q = 1 \<and> 0 \<le> rto q)"
    using sk by (auto simp: sent_update_def upd_path_def Let_def)
  ultimately show ?thesis by blast
qed

lemma w_hello_turn: "\<exists>sk k. event_turn w_hello 0 w_a2 = Ran (sk, k) \<and> w_msg \<in> snd ` set (s_sent sk)"
proof -
  obtain sk q where sk: "send_segs True 1 0 0 w_a3 = Some sk" "s_status sk = ACTIVE" "w_msg \<in> snd ` set (s_sent sk)"
    "s_paths sk = [q]" "last_ack_time q = 1" "0 \<le> rto q" using w_segs7 by blast
  have p: "s_paths w_a2 = [w_path7]" by (simp add: w_a2_def w_a1_def w_start_fields)
  have f: "find_path (2, 80, 1) [w_path7] = 0" by (simp add: w_path7_def stamp_syn_def sockaddr_cmp4_def)
  have st: "pathstate (w_path7\<lparr>last_ack_time := 1, last_ack_time_user := 0\<rparr>) = SYN_ACK_SENT" by (simp add: w_path7_def)
  have up: "upd_path 0 (establish 1) (upd_path 0 (\<lambda>p. p\<lparr>last_ack_time := 1, last_ack_time_user := 0\<rparr>) w_a2) = w_a3"
    by (simp add: upd_path_def p w_a3_def w_path8_def)
  have known: "recv_known w_env 1 0 0 (w_ctl NORMAL) [] w_a2 = Some sk"
    using sk(1) up st by (simp add: recv_known_def recv_normal_def Let_def w_env_def upd_path_def p)
  have "timeout_path w_env 1 0 sk = Some (sk, False)" using sk(4-6) by (simp add: timeout_path_def Let_def)
  then have "check_timeouts w_env 1 0 sk = Ran (sk, 0)"
    by (simp add: check_timeouts_def sk(2,4) c_rem_def)
  then have "event_turn w_hello 0 w_a2 = Ran (sk, 0)"
    using known by (simp add: event_turn_def w_hello_def server_turn_def p f Let_def del: find_path.simps)
  with sk(3) show ?thesis by blast
qed

section \<open>The byte at the application\<close>

definition w_client :: client where "w_client = w_cli\<lparr>c_sent := [(3, w_ctl NORMAL)]\<rparr>"

lemma w_client_fields: "c_dec w_client = w_dec" "c_status w_client = ACTIVE_c" "length (c_subs w_client) = 1"
    "u_state (c_subs w_client ! 0) = ESTABLISHED_c" "c_sent w_client = [(3, w_ctl NORMAL)]"
  using w_cli_fields by (simp_all add: w_client_def)

lemma w_session_sent: "session (replicate NUM_BLOCKS w_raw) w_a2 w_client [65] []"
proof -
  have "session (replicate NUM_BLOCKS w_raw) w_start w_client [] []"
    unfolding w_start_def
    by (rule ses_start [OF w_listen_eval(1) w_coder_good])
      (simp_all add: w_client_fields w_dec_def fresh_def w_coder_def skb_pool_init_def w_ctl_def ackPacket_def)
  from ses_send [OF this w_a1_send] have "session (replicate NUM_BLOCKS w_raw) w_a1 w_client [65] []"
    using w_malloc_fresh w_malloc_some by simp
  from ses_job [OF this, of 0 w_pool2 w_job7 w_malloc "[]"] show ?thesis
    using w_jobs w_a2_job w_malloc_fresh by (simp add: w_a1_def w_job7_def NUM_BLOCKS_def w_start_fields)
qed

lemma w_session: "\<exists>sk csk. session (replicate NUM_BLOCKS w_raw) sk csk [65] [65] \<and> c_status csk = ACTIVE_c"
proof -
  obtain sk k where turn: "event_turn w_hello 0 w_a2 = Ran (sk, k)" and sent: "w_msg \<in> snd ` set (s_sent sk)"
    using w_hello_turn by blast
  have "s_status w_a2 \<noteq> CLOSED" by (simp add: w_a2_def w_a1_def w_start_fields)
  from ses_turn [OF w_session_sent this turn] have run: "session (replicate NUM_BLOCKS w_raw) sk w_client [65] []"
    using w_ranges(1) by (simp add: w_hello_def w_client_fields)
  obtain csk e where v: "client_visit (w_visit (Recvd w_msg)) 0 w_client = Done (Some (csk, e))" "dc_usr_cache (c_dec csk) = w_Q"
    "c_status csk = ACTIVE_c" using w_visit_data [OF w_client_fields(1-4)] by blast
  have "fits (dc_blocks (c_dec w_client) ! slot (d_blockno w_msg)) (unat (d_num_packets w_msg))"
    by (simp add: fits_def w_msg_def w_pkt_def)
  then have "session (replicate NUM_BLOCKS w_raw) sk csk [65] []"
    by (intro ses_visit [OF run _ _ _ _ _ _ v(1)])
      (use sent w_ranges w_client_fields in \<open>simp_all add: w_visit_def w_cenv_def w_malloc7_def\<close>)
  moreover obtain csk' where r: "read_ctcp csk 1 = Some (csk', Some [65])" and act: "c_status csk' = ACTIVE_c"
    using v w_read by (simp add: read_ctcp_def Let_def)
  ultimately show ?thesis using ses_read [of _ sk csk "[65]" "[]" 1 csk' "Some [65]"] by auto
qed

section \<open>A full window\<close>

text \<open>More data than a block can take fills it.\<close>

lemma length_concat_le: "\<forall>w \<in> set ws. length (f w) \<le> n \<Longrightarrow> length (concat (map f ws)) \<le> length ws * n"
  by (induction ws) auto

lemma block_bytes_bound:
  assumes "block_ok blk S"
  shows "length (block_bytes blk S) \<le> BLOCK_SIZE * PAYLOAD_SIZE"
proof -
  have len: "length (contents blk S) = b_len blk" by (simp add: contents_def)
  have "length (payload_data w) \<le> PAYLOAD_SIZE" if "w \<in> set (contents blk S)" for w
  proof -
    from that [unfolded in_set_conv_nth] len obtain i where i: "i < b_len blk" "w = contents blk S ! i" by auto
    have "length w = PAYLOAD_SIZE" unfolding i(2) by (rule contents_nth [OF assms i(1)])
    then show ?thesis unfolding payload_data_def by simp
  qed
  then have "\<forall>w \<in> set (contents blk S). length (payload_data w) \<le> PAYLOAD_SIZE" by blast
  from length_concat_le [OF this] have "length (block_bytes blk S) \<le> b_len blk * PAYLOAD_SIZE"
    unfolding block_bytes_def len .
  also have "\<dots> \<le> BLOCK_SIZE * PAYLOAD_SIZE" using assms by (simp add: block_ok_def)
  finally show ?thesis .
qed

lemma w_full_block: "\<exists>blk S. block_ok blk S \<and> pool_good (k_pool S) \<and> b_len blk = BLOCK_SIZE"
proof -
  obtain blk S rest where r: "readBlock w_malloc block_init w_coder (replicate 50000 65) = (blk, S, rest)" by (metis prod_cases3)
  from readBlock_correct [OF r block_init_ok w_coder_good] w_malloc_fresh w_malloc_some
  have c: "block_ok blk S" "pool_good (k_pool S)" "rest = [] \<or> b_len blk = BLOCK_SIZE"
    "block_bytes blk S @ rest = block_bytes block_init w_coder @ replicate 50000 65" by blast+
  have "rest \<noteq> []"
  proof
    assume "rest = []"
    then have "50000 \<le> length (block_bytes blk S)" using arg_cong [OF c(4), of length] by simp
    with block_bytes_bound [OF c(1)] show False by (simp add: BLOCK_SIZE_def PAYLOAD_SIZE_eq)
  qed
  with c show ?thesis by blast
qed

text \<open>The scheduler's job for the block after the window.\<close>

definition w_job101 :: coding_job_t where
  "w_job101 = \<lparr>j_blockno = 101, j_start = 0, j_dof_request = 1, j_coding_wnd = 32\<rparr>"

lemma w_draw101_first: "draw_nonzero [3] 101 (Suc 0) \<noteq> None"
  by code_simp

lemma draw_coeffs_first: "draw_coeffs s (Suc n) = hd (draw_coeffs s (Suc 0)) # draw_coeffs (fst (fastrand s)) n"
  by (simp add: Let_def split: prod.splits)

lemma w_draw101: "draw_nonzero [3] 101 BLOCK_SIZE = Some (3, packet_coeffs 3 101 BLOCK_SIZE, [])"
proof -
  define cs where "cs = packet_coeffs 3 101 (Suc 0)"
  obtain c where c: "cs = [c]" using length_packet_coeffs [of 3 101 "Suc 0"] unfolding cs_def by (metis length_0_conv length_Suc_conv)
  have "0 < c"
  proof (rule ccontr)
    assume "\<not> 0 < c"
    then have "length (filter (\<lambda>c. c > 0) cs) = 0" by (simp add: c)
    moreover have "(of_nat (3 mod 256) :: u8) = 3" by simp
    ultimately have "draw_nonzero [3] 101 (Suc 0) = None" by (simp only: draw_nonzero.simps Let_def cs_def if_True simp_thms)
    with w_draw101_first show False by contradiction
  qed
  then have "0 < hd (packet_coeffs 3 101 (Suc 0))" using c by (simp add: cs_def)
  moreover have "BLOCK_SIZE = Suc 31" by (simp add: BLOCK_SIZE_def)
  then obtain xs where "packet_coeffs 3 101 BLOCK_SIZE = hd (packet_coeffs 3 101 (Suc 0)) # xs"
    unfolding packet_coeffs_def by (metis draw_coeffs_first)
  ultimately have "\<exists>c \<in> set (packet_coeffs 3 101 BLOCK_SIZE). 0 < c" by (metis list.set_intros(1))
  then have "filter (\<lambda>c. c > 0) (packet_coeffs 3 101 BLOCK_SIZE) \<noteq> []" by (simp add: filter_empty_conv)
  then show ?thesis by (simp add: Let_def)
qed

lemma w_count_one: "nat 1 = Suc 0" "nat (sint (1 :: 32 word)) = Suc 0"
  by simp_all

lemma w_full_window:
  "\<exists>sk sk'. sender_inv sk \<and> s_curr_block sk = 1 \<and> s_maxblockno sk = 101 \<and> s_coded_q sk = replicate NUM_BLOCKS (q_init 64) \<and>
    server_job w_malloc w_job101 [3] sk = Some sk'"
proof -
  obtain blk S where b: "block_ok blk S" "pool_good (k_pool S)" "b_len blk = BLOCK_SIZE" using w_full_block by blast
  define sk where "sk = w_srv\<lparr>s_blocks := replicate NUM_BLOCKS blk, s_coder := S, s_maxblockno := 101\<rparr>"
  have at: "blk_at sk k = blk" for k by (simp add: blk_at_def sk_def NUM_BLOCKS_def)
  have inv: "sender_inv sk"
    using b by (simp add: sender_inv_def at) (simp add: sk_def w_srv_def create_srvctcp_sock_def NUM_BLOCKS_def)
  have q: "s_coded_q sk = replicate NUM_BLOCKS (q_init 64)" by (simp add: sk_def w_srv_def create_srvctcp_sock_def BLOCK_SIZE_def)
  have slot: "bslot 101 < NUM_BLOCKS" by (simp add: bslot_def NUM_BLOCKS_def)
  obtain p a where al: "alloc_skb (w_malloc (k_pool S)) (k_pool S) = (p, Some a)" using w_alloc_any by blast
  obtain q' where q': "q_push_back (q_init 64) a = Some q'" by (rule w_push_back [of "q_init 64 :: addr qbuffer" a]) (simp_all add: q_init_def)
  have cj: "\<exists>T. coding_job w_malloc 1 w_job101 blk S (q_init 64) [3] = Some (T, q', [])"
    using al q' w_draw101 unfolding coding_job_def w_job101_def
    by (simp add: BLOCK_SIZE_def b(3) Let_def del: draw_nonzero.simps)
  have f: "s_curr_block sk = 1" "s_maxblockno sk = 101" "s_coder sk = S" "s_blocks sk ! bslot 101 = blk"
    "s_coded_q sk ! bslot 101 = q_init 64"
    using slot by (simp_all add: sk_def w_srv_def create_srvctcp_sock_def BLOCK_SIZE_def)
  have "\<exists>sk'. server_job w_malloc w_job101 [3] sk = Some sk'"
    using cj by (auto simp: server_job_def Let_def f w_job101_def)
  with inv q f show ?thesis by blast
qed

end
