(* ===== verification/MD5.thy ===== *)
theory MD5
  imports Prelude
begin

text \<open>
  The message digest of \<open>src/md5.c\<close> and \<open>src/md5.h\<close>, and RFC 1321 beside it.  The words of the
  computation are of type \<open>UINT4\<close>, which md5.h declares as \<open>unsigned long int\<close>: 32 bits on an
  ILP32 machine, 64 on an LP64 one.  The model is polymorphic in this width.
\<close>

section \<open>The steps\<close>

definition md_F :: "'a::len word \<Rightarrow> 'a word \<Rightarrow> 'a word \<Rightarrow> 'a word" where
  "md_F x y z = (x AND y) OR (NOT x AND z)"

definition md_G :: "'a::len word \<Rightarrow> 'a word \<Rightarrow> 'a word \<Rightarrow> 'a word" where
  "md_G x y z = (x AND z) OR (y AND NOT z)"

definition md_H :: "'a::len word \<Rightarrow> 'a word \<Rightarrow> 'a word \<Rightarrow> 'a word" where
  "md_H x y z = x XOR y XOR z"

definition md_I :: "'a::len word \<Rightarrow> 'a word \<Rightarrow> 'a word \<Rightarrow> 'a word" where
  "md_I x y z = y XOR (x OR NOT z)"

text \<open>The macro rotates by 32 whatever the width of \<open>x\<close> is.\<close>

definition ROTATE_LEFT :: "'a::len word \<Rightarrow> nat \<Rightarrow> 'a word" where
  "ROTATE_LEFT x n = push_bit n x OR drop_bit (32 - n) x"

text \<open>The new value of the first argument.\<close>

definition FF :: "'a::len word \<Rightarrow> 'a word \<Rightarrow> 'a word \<Rightarrow> 'a word \<Rightarrow> 'a word \<Rightarrow> nat \<Rightarrow> 'a word \<Rightarrow> 'a word" where
  "FF a b c d x s ac = ROTATE_LEFT (a + (md_F b c d + x + ac)) s + b"

definition GG :: "'a::len word \<Rightarrow> 'a word \<Rightarrow> 'a word \<Rightarrow> 'a word \<Rightarrow> 'a word \<Rightarrow> nat \<Rightarrow> 'a word \<Rightarrow> 'a word" where
  "GG a b c d x s ac = ROTATE_LEFT (a + (md_G b c d + x + ac)) s + b"

definition HH :: "'a::len word \<Rightarrow> 'a word \<Rightarrow> 'a word \<Rightarrow> 'a word \<Rightarrow> 'a word \<Rightarrow> nat \<Rightarrow> 'a word \<Rightarrow> 'a word" where
  "HH a b c d x s ac = ROTATE_LEFT (a + (md_H b c d + x + ac)) s + b"

definition II :: "'a::len word \<Rightarrow> 'a word \<Rightarrow> 'a word \<Rightarrow> 'a word \<Rightarrow> 'a word \<Rightarrow> nat \<Rightarrow> 'a word \<Rightarrow> 'a word" where
  "II a b c d x s ac = ROTATE_LEFT (a + (md_I b c d + x + ac)) s + b"

type_synonym 'a regs = "'a word \<times> 'a word \<times> 'a word \<times> 'a word"

definition round1 :: "'a::len word list \<Rightarrow> 'a regs \<Rightarrow> 'a regs" where
  "round1 X = (\<lambda>(a, b, c, d). let
       a = FF a b c d (X ! 0) 7 3614090360;
       d = FF d a b c (X ! 1) 12 3905402710;
       c = FF c d a b (X ! 2) 17 606105819;
       b = FF b c d a (X ! 3) 22 3250441966;
       a = FF a b c d (X ! 4) 7 4118548399;
       d = FF d a b c (X ! 5) 12 1200080426;
       c = FF c d a b (X ! 6) 17 2821735955;
       b = FF b c d a (X ! 7) 22 4249261313;
       a = FF a b c d (X ! 8) 7 1770035416;
       d = FF d a b c (X ! 9) 12 2336552879;
       c = FF c d a b (X ! 10) 17 4294925233;
       b = FF b c d a (X ! 11) 22 2304563134;
       a = FF a b c d (X ! 12) 7 1804603682;
       d = FF d a b c (X ! 13) 12 4254626195;
       c = FF c d a b (X ! 14) 17 2792965006;
       b = FF b c d a (X ! 15) 22 1236535329
     in (a, b, c, d))"

definition round2 :: "'a::len word list \<Rightarrow> 'a regs \<Rightarrow> 'a regs" where
  "round2 X = (\<lambda>(a, b, c, d). let
       a = GG a b c d (X ! 1) 5 4129170786;
       d = GG d a b c (X ! 6) 9 3225465664;
       c = GG c d a b (X ! 11) 14 643717713;
       b = GG b c d a (X ! 0) 20 3921069994;
       a = GG a b c d (X ! 5) 5 3593408605;
       d = GG d a b c (X ! 10) 9 38016083;
       c = GG c d a b (X ! 15) 14 3634488961;
       b = GG b c d a (X ! 4) 20 3889429448;
       a = GG a b c d (X ! 9) 5 568446438;
       d = GG d a b c (X ! 14) 9 3275163606;
       c = GG c d a b (X ! 3) 14 4107603335;
       b = GG b c d a (X ! 8) 20 1163531501;
       a = GG a b c d (X ! 13) 5 2850285829;
       d = GG d a b c (X ! 2) 9 4243563512;
       c = GG c d a b (X ! 7) 14 1735328473;
       b = GG b c d a (X ! 12) 20 2368359562
     in (a, b, c, d))"

definition round3 :: "'a::len word list \<Rightarrow> 'a regs \<Rightarrow> 'a regs" where
  "round3 X = (\<lambda>(a, b, c, d). let
       a = HH a b c d (X ! 5) 4 4294588738;
       d = HH d a b c (X ! 8) 11 2272392833;
       c = HH c d a b (X ! 11) 16 1839030562;
       b = HH b c d a (X ! 14) 23 4259657740;
       a = HH a b c d (X ! 1) 4 2763975236;
       d = HH d a b c (X ! 4) 11 1272893353;
       c = HH c d a b (X ! 7) 16 4139469664;
       b = HH b c d a (X ! 10) 23 3200236656;
       a = HH a b c d (X ! 13) 4 681279174;
       d = HH d a b c (X ! 0) 11 3936430074;
       c = HH c d a b (X ! 3) 16 3572445317;
       b = HH b c d a (X ! 6) 23 76029189;
       a = HH a b c d (X ! 9) 4 3654602809;
       d = HH d a b c (X ! 12) 11 3873151461;
       c = HH c d a b (X ! 15) 16 530742520;
       b = HH b c d a (X ! 2) 23 3299628645
     in (a, b, c, d))"

definition round4 :: "'a::len word list \<Rightarrow> 'a regs \<Rightarrow> 'a regs" where
  "round4 X = (\<lambda>(a, b, c, d). let
       a = II a b c d (X ! 0) 6 4096336452;
       d = II d a b c (X ! 7) 10 1126891415;
       c = II c d a b (X ! 14) 15 2878612391;
       b = II b c d a (X ! 5) 21 4237533241;
       a = II a b c d (X ! 12) 6 1700485571;
       d = II d a b c (X ! 3) 10 2399980690;
       c = II c d a b (X ! 10) 15 4293915773;
       b = II b c d a (X ! 1) 21 2240044497;
       a = II a b c d (X ! 8) 6 1873313359;
       d = II d a b c (X ! 15) 10 4264355552;
       c = II c d a b (X ! 6) 15 2734768916;
       b = II b c d a (X ! 13) 21 1309151649;
       a = II a b c d (X ! 4) 6 4149444226;
       d = II d a b c (X ! 11) 10 3174756917;
       c = II c d a b (X ! 2) 15 718787259;
       b = II b c d a (X ! 9) 21 3951481745
     in (a, b, c, d))"

definition Transform :: "'a::len word list \<Rightarrow> 'a word list \<Rightarrow> 'a word list" where
  "Transform buf X =
    (let (a, b, c, d) = round4 X (round3 X (round2 X (round1 X (buf ! 0, buf ! 1, buf ! 2, buf ! 3))))
     in [buf ! 0 + a, buf ! 1 + b, buf ! 2 + c, buf ! 3 + d])"

section \<open>The context and its operations\<close>

record 'w MD5_CTX =
  md_i :: "'w list"
  md_buf :: "'w list"
  md_in :: bytes
  md_digest :: bytes

definition PADDING :: bytes where
  "PADDING = 0x80 # replicate 63 0"

definition MD5Init :: "'a::len word MD5_CTX \<Rightarrow> 'a word MD5_CTX" where
  "MD5Init c = c\<lparr>md_i := [0, 0], md_buf := [0x67452301, 0xefcdab89, 0x98badcfe, 0x10325476]\<rparr>"

text \<open>The loops that assemble \<open>in[0]\<close> to \<open>in[n - 1]\<close> from the input buffer.\<close>

definition in_words :: "nat \<Rightarrow> bytes \<Rightarrow> 'a::len word list" where
  "in_words n b = map (\<lambda>i. push_bit 24 (ucast (b ! (4 * i + 3))) OR push_bit 16 (ucast (b ! (4 * i + 2))) OR
      push_bit 8 (ucast (b ! (4 * i + 1))) OR ucast (b ! (4 * i))) [0..<n]"

fun update_loop :: "bytes \<Rightarrow> nat \<Rightarrow> 'a::len word MD5_CTX \<Rightarrow> 'a word MD5_CTX" where
  "update_loop [] mdi c = c"
| "update_loop (x # inBuf) mdi c =
    (let c = c\<lparr>md_in := (md_in c)[mdi := x]\<rparr>; mdi = mdi + 1 in
     if mdi = 64 then update_loop inBuf 0 (c\<lparr>md_buf := Transform (md_buf c) (in_words 16 (md_in c))\<rparr>)
     else update_loop inBuf mdi c)"

definition md_pos :: "'a::len word MD5_CTX \<Rightarrow> nat" where
  "md_pos c = unat (drop_bit 3 (md_i c ! 0) AND 0x3F)"

definition MD5Update :: "'a::len word MD5_CTX \<Rightarrow> bytes \<Rightarrow> u32 \<Rightarrow> 'a word MD5_CTX" where
  "MD5Update c inBuf inLen =
    (let mdi = md_pos c; i0 = md_i c ! 0; i1 = md_i c ! 1;
         i1 = (if i0 + push_bit 3 (ucast inLen) < i0 then i1 + 1 else i1);
         i0 = i0 + push_bit 3 (ucast inLen);
         i1 = i1 + drop_bit 29 (ucast inLen)
     in update_loop (take (unat inLen) inBuf) mdi (c\<lparr>md_i := [i0, i1]\<rparr>))"

definition MD5Final :: "'a::len word MD5_CTX \<Rightarrow> 'a word MD5_CTX" where
  "MD5Final c =
    (let in14 = md_i c ! 0; in15 = md_i c ! 1; mdi = md_pos c;
         padLen = (if mdi < 56 then 56 - mdi else 120 - mdi);
         c = MD5Update c PADDING (of_nat padLen);
         c = c\<lparr>md_buf := Transform (md_buf c) (in_words 14 (md_in c) @ [in14, in15])\<rparr>
     in c\<lparr>md_digest := concat (map (\<lambda>w. [ucast (w AND 0xFF), ucast (drop_bit 8 w AND 0xFF),
           ucast (drop_bit 16 w AND 0xFF), ucast (drop_bit 24 w AND 0xFF)]) (md_buf c))\<rparr>)"

text \<open>A digest as md5driver.c computes it: one call of \<open>MD5Update\<close> for every part of the message.\<close>

definition md5_digest :: "'a::len word MD5_CTX \<Rightarrow> bytes list \<Rightarrow> bytes" where
  "md5_digest c parts = md_digest (MD5Final (fold (\<lambda>m c. MD5Update c m (of_nat (length m))) parts (MD5Init c)))"

section \<open>RFC 1321\<close>

text \<open>
  The algorithm of the RFC: one step for every number below 64, with tables for the rotations
  and the constants, over the message padded to a multiple of 64 bytes.
\<close>

definition rfc_T :: "u32 list" where
  "rfc_T = [0xd76aa478, 0xe8c7b756, 0x242070db, 0xc1bdceee, 0xf57c0faf, 0x4787c62a, 0xa8304613, 0xfd469501,
    0x698098d8, 0x8b44f7af, 0xffff5bb1, 0x895cd7be, 0x6b901122, 0xfd987193, 0xa679438e, 0x49b40821,
    0xf61e2562, 0xc040b340, 0x265e5a51, 0xe9b6c7aa, 0xd62f105d, 0x02441453, 0xd8a1e681, 0xe7d3fbc8,
    0x21e1cde6, 0xc33707d6, 0xf4d50d87, 0x455a14ed, 0xa9e3e905, 0xfcefa3f8, 0x676f02d9, 0x8d2a4c8a,
    0xfffa3942, 0x8771f681, 0x6d9d6122, 0xfde5380c, 0xa4beea44, 0x4bdecfa9, 0xf6bb4b60, 0xbebfbc70,
    0x289b7ec6, 0xeaa127fa, 0xd4ef3085, 0x04881d05, 0xd9d4d039, 0xe6db99e5, 0x1fa27cf8, 0xc4ac5665,
    0xf4292244, 0x432aff97, 0xab9423a7, 0xfc93a039, 0x655b59c3, 0x8f0ccc92, 0xffeff47d, 0x85845dd1,
    0x6fa87e4f, 0xfe2ce6e0, 0xa3014314, 0x4e0811a1, 0xf7537e82, 0xbd3af235, 0x2ad7d2bb, 0xeb86d391]"

definition rfc_f :: "nat \<Rightarrow> u32 \<Rightarrow> u32 \<Rightarrow> u32 \<Rightarrow> u32" where
  "rfc_f i x y z =
    (if i < 16 then (x AND y) OR (NOT x AND z)
     else if i < 32 then (x AND z) OR (y AND NOT z)
     else if i < 48 then x XOR y XOR z
     else y XOR (x OR NOT z))"

definition rfc_k :: "nat \<Rightarrow> nat" where
  "rfc_k i = (if i < 16 then i else if i < 32 then (5 * i + 1) mod 16 else if i < 48 then (3 * i + 5) mod 16 else (7 * i) mod 16)"

definition rfc_s :: "nat \<Rightarrow> nat" where
  "rfc_s i = [[7, 12, 17, 22], [5, 9, 14, 20], [4, 11, 16, 23], [6, 10, 15, 21]] ! (i div 16) ! (i mod 4)"

definition rfc_step :: "u32 list \<Rightarrow> nat \<Rightarrow> 32 regs \<Rightarrow> 32 regs" where
  "rfc_step X i = (\<lambda>(a, b, c, d).
    let b' = b + word_rotl (rfc_s i) (a + rfc_f i b c d + X ! rfc_k i + rfc_T ! i) in (d, b', b, c))"

definition rfc_compress :: "32 regs \<Rightarrow> u32 list \<Rightarrow> 32 regs" where
  "rfc_compress = (\<lambda>(a, b, c, d) X. let (a', b', c', d') = fold (rfc_step X) [0..<64] (a, b, c, d) in (a + a', b + b', c + c', d + d'))"

definition le_bytes :: "nat \<Rightarrow> nat \<Rightarrow> bytes" where
  "le_bytes k n = map (\<lambda>i. of_nat (n div 256 ^ i)) [0..<k]"

fun le_words :: "bytes \<Rightarrow> u32 list" where
  "le_words (a # b # c # d # bs) = of_nat (unat a + 2 ^ 8 * unat b + 2 ^ 16 * unat c + 2 ^ 24 * unat d) # le_words bs"
| "le_words _ = []"

function rfc_blocks :: "32 regs \<Rightarrow> bytes \<Rightarrow> 32 regs" where
  "rfc_blocks st bs = (if length bs < 64 then st else rfc_blocks (rfc_compress st (le_words (take 64 bs))) (drop 64 bs))"
  by pat_completeness auto
termination by (relation "measure (\<lambda>(st, bs). length bs)") auto

declare rfc_blocks.simps [simp del]

definition rfc_pad :: "bytes \<Rightarrow> bytes" where
  "rfc_pad m = [0x80] @ replicate (nat ((55 - int (length m)) mod 64)) 0 @ le_bytes 8 (8 * length m)"

definition rfc_init :: "32 regs" where
  "rfc_init = (0x67452301, 0xefcdab89, 0x98badcfe, 0x10325476)"

definition rfc1321 :: "bytes \<Rightarrow> bytes" where
  "rfc1321 m = (let (a, b, c, d) = rfc_blocks rfc_init (m @ rfc_pad m)
     in concat (map (\<lambda>w. le_bytes 4 (unat w)) [a, b, c, d]))"

section \<open>The steps are the RFC's\<close>

lemma rotate_left_32:
  assumes "0 < n" "n < 32"
  shows "ROTATE_LEFT (x :: u32) n = word_rotl n x"
proof (rule bit_word_eqI)
  fix k assume "k < LENGTH(32)"
  then have k: "k < 32" by simp
  have r: "bit (word_rotl n x) k \<longleftrightarrow> bit x ((k + (32 - n)) mod 32)"
    using assms k by (simp add: bit_word_rotl_iff)
  show "bit (ROTATE_LEFT x n) k \<longleftrightarrow> bit (word_rotl n x) k"
  proof (cases "k < n")
    case True
    then have "(k + (32 - n)) mod 32 = 32 - n + k" using assms by simp
    then show ?thesis unfolding r using True by (simp add: ROTATE_LEFT_def bit_or_iff bit_push_bit_iff bit_drop_bit_eq)
  next
    case False
    then have "(k + (32 - n)) mod 32 = ((k - n) + 32) mod 32" using assms by simp
    also have "\<dots> = k - n" using k by (simp only: mod_add_self2) simp
    finally have "(k + (32 - n)) mod 32 = k - n" .
    then show ?thesis unfolding r using False k assms
      by (auto simp: ROTATE_LEFT_def bit_or_iff bit_push_bit_iff bit_drop_bit_eq dest: bit_imp_le_length)
  qed
qed

lemma step_rotation:
  "0 < n \<Longrightarrow> n < 32 \<Longrightarrow> b + word_rotl n (a + f + x + t) = ROTATE_LEFT ((a :: u32) + (f + x + t)) n + b"
  by (simp add: rotate_left_32 ac_simps)

lemmas md_step_defs = FF_def GG_def HH_def II_def md_F_def md_G_def md_H_def md_I_def

lemma fold_Let: "fold f xs (Let v g) = Let v (\<lambda>y. fold f xs (g y))"
  by (simp add: Let_def)

lemma rfc_k_values:
  "rfc_k 0 = 0" "rfc_k 1 = 1" "rfc_k 2 = 2" "rfc_k 3 = 3" "rfc_k 4 = 4" "rfc_k 5 = 5" "rfc_k 6 = 6" "rfc_k 7 = 7"
    "rfc_k 8 = 8" "rfc_k 9 = 9" "rfc_k 10 = 10" "rfc_k 11 = 11" "rfc_k 12 = 12" "rfc_k 13 = 13" "rfc_k 14 = 14" "rfc_k 15 = 15"
    "rfc_k 16 = 1" "rfc_k 17 = 6" "rfc_k 18 = 11" "rfc_k 19 = 0" "rfc_k 20 = 5" "rfc_k 21 = 10" "rfc_k 22 = 15" "rfc_k 23 = 4"
    "rfc_k 24 = 9" "rfc_k 25 = 14" "rfc_k 26 = 3" "rfc_k 27 = 8" "rfc_k 28 = 13" "rfc_k 29 = 2" "rfc_k 30 = 7" "rfc_k 31 = 12"
    "rfc_k 32 = 5" "rfc_k 33 = 8" "rfc_k 34 = 11" "rfc_k 35 = 14" "rfc_k 36 = 1" "rfc_k 37 = 4" "rfc_k 38 = 7" "rfc_k 39 = 10"
    "rfc_k 40 = 13" "rfc_k 41 = 0" "rfc_k 42 = 3" "rfc_k 43 = 6" "rfc_k 44 = 9" "rfc_k 45 = 12" "rfc_k 46 = 15" "rfc_k 47 = 2"
    "rfc_k 48 = 0" "rfc_k 49 = 7" "rfc_k 50 = 14" "rfc_k 51 = 5" "rfc_k 52 = 12" "rfc_k 53 = 3" "rfc_k 54 = 10" "rfc_k 55 = 1"
    "rfc_k 56 = 8" "rfc_k 57 = 15" "rfc_k 58 = 6" "rfc_k 59 = 13" "rfc_k 60 = 4" "rfc_k 61 = 11" "rfc_k 62 = 2" "rfc_k 63 = 9"
  by (simp_all add: rfc_k_def)

lemma rfc_s_values:
  "rfc_s 0 = 7" "rfc_s 1 = 12" "rfc_s 2 = 17" "rfc_s 3 = 22" "rfc_s 4 = 7" "rfc_s 5 = 12" "rfc_s 6 = 17" "rfc_s 7 = 22"
    "rfc_s 8 = 7" "rfc_s 9 = 12" "rfc_s 10 = 17" "rfc_s 11 = 22" "rfc_s 12 = 7" "rfc_s 13 = 12" "rfc_s 14 = 17" "rfc_s 15 = 22"
    "rfc_s 16 = 5" "rfc_s 17 = 9" "rfc_s 18 = 14" "rfc_s 19 = 20" "rfc_s 20 = 5" "rfc_s 21 = 9" "rfc_s 22 = 14" "rfc_s 23 = 20"
    "rfc_s 24 = 5" "rfc_s 25 = 9" "rfc_s 26 = 14" "rfc_s 27 = 20" "rfc_s 28 = 5" "rfc_s 29 = 9" "rfc_s 30 = 14" "rfc_s 31 = 20"
    "rfc_s 32 = 4" "rfc_s 33 = 11" "rfc_s 34 = 16" "rfc_s 35 = 23" "rfc_s 36 = 4" "rfc_s 37 = 11" "rfc_s 38 = 16" "rfc_s 39 = 23"
    "rfc_s 40 = 4" "rfc_s 41 = 11" "rfc_s 42 = 16" "rfc_s 43 = 23" "rfc_s 44 = 4" "rfc_s 45 = 11" "rfc_s 46 = 16" "rfc_s 47 = 23"
    "rfc_s 48 = 6" "rfc_s 49 = 10" "rfc_s 50 = 15" "rfc_s 51 = 21" "rfc_s 52 = 6" "rfc_s 53 = 10" "rfc_s 54 = 15" "rfc_s 55 = 21"
    "rfc_s 56 = 6" "rfc_s 57 = 10" "rfc_s 58 = 15" "rfc_s 59 = 21" "rfc_s 60 = 6" "rfc_s 61 = 10" "rfc_s 62 = 15" "rfc_s 63 = 21"
  by (simp_all add: rfc_s_def)

lemma rfc_T_values:
  "rfc_T ! 0 = 3614090360" "rfc_T ! 1 = 3905402710" "rfc_T ! 2 = 606105819" "rfc_T ! 3 = 3250441966" "rfc_T ! 4 = 4118548399" "rfc_T ! 5 = 1200080426" "rfc_T ! 6 = 2821735955" "rfc_T ! 7 = 4249261313"
    "rfc_T ! 8 = 1770035416" "rfc_T ! 9 = 2336552879" "rfc_T ! 10 = 4294925233" "rfc_T ! 11 = 2304563134" "rfc_T ! 12 = 1804603682" "rfc_T ! 13 = 4254626195" "rfc_T ! 14 = 2792965006" "rfc_T ! 15 = 1236535329"
    "rfc_T ! 16 = 4129170786" "rfc_T ! 17 = 3225465664" "rfc_T ! 18 = 643717713" "rfc_T ! 19 = 3921069994" "rfc_T ! 20 = 3593408605" "rfc_T ! 21 = 38016083" "rfc_T ! 22 = 3634488961" "rfc_T ! 23 = 3889429448"
    "rfc_T ! 24 = 568446438" "rfc_T ! 25 = 3275163606" "rfc_T ! 26 = 4107603335" "rfc_T ! 27 = 1163531501" "rfc_T ! 28 = 2850285829" "rfc_T ! 29 = 4243563512" "rfc_T ! 30 = 1735328473" "rfc_T ! 31 = 2368359562"
    "rfc_T ! 32 = 4294588738" "rfc_T ! 33 = 2272392833" "rfc_T ! 34 = 1839030562" "rfc_T ! 35 = 4259657740" "rfc_T ! 36 = 2763975236" "rfc_T ! 37 = 1272893353" "rfc_T ! 38 = 4139469664" "rfc_T ! 39 = 3200236656"
    "rfc_T ! 40 = 681279174" "rfc_T ! 41 = 3936430074" "rfc_T ! 42 = 3572445317" "rfc_T ! 43 = 76029189" "rfc_T ! 44 = 3654602809" "rfc_T ! 45 = 3873151461" "rfc_T ! 46 = 530742520" "rfc_T ! 47 = 3299628645"
    "rfc_T ! 48 = 4096336452" "rfc_T ! 49 = 1126891415" "rfc_T ! 50 = 2878612391" "rfc_T ! 51 = 4237533241" "rfc_T ! 52 = 1700485571" "rfc_T ! 53 = 2399980690" "rfc_T ! 54 = 4293915773" "rfc_T ! 55 = 2240044497"
    "rfc_T ! 56 = 1873313359" "rfc_T ! 57 = 4264355552" "rfc_T ! 58 = 2734768916" "rfc_T ! 59 = 1309151649" "rfc_T ! 60 = 4149444226" "rfc_T ! 61 = 3174756917" "rfc_T ! 62 = 718787259" "rfc_T ! 63 = 3951481745"
  by (simp_all add: rfc_T_def)

lemma upt_rounds:
  "[0..<16] = [0, 1, 2, 3, 4, 5, 6, 7, 8, 9, 10, 11, 12, 13, 14, 15]"
  "[16..<32] = [16, 17, 18, 19, 20, 21, 22, 23, 24, 25, 26, 27, 28, 29, 30, 31]"
  "[32..<48] = [32, 33, 34, 35, 36, 37, 38, 39, 40, 41, 42, 43, 44, 45, 46, 47]"
  "[48..<64] = [48, 49, 50, 51, 52, 53, 54, 55, 56, 57, 58, 59, 60, 61, 62, 63]"
  by (simp_all add: upt_rec)

lemma rfc_s_range: "i < 64 \<Longrightarrow> 0 < rfc_s i \<and> rfc_s i < 32"
proof -
  assume "i < 64"
  then have "i div 16 \<in> {0, 1, 2, 3}" by auto
  moreover have "i mod 4 \<in> {0, 1, 2, 3}" by auto
  ultimately show ?thesis unfolding rfc_s_def by auto
qed

lemma rfc_step_F: "i < 16 \<Longrightarrow> rfc_step X i (a, b, c, d) =
    (let b' = FF a b c d (X ! rfc_k i) (rfc_s i) (rfc_T ! i) in (d, b', b, c))"
  using rfc_s_range [of i] by (simp add: rfc_step_def rfc_f_def step_rotation md_step_defs)

lemma rfc_step_G: "16 \<le> i \<Longrightarrow> i < 32 \<Longrightarrow> rfc_step X i (a, b, c, d) =
    (let b' = GG a b c d (X ! rfc_k i) (rfc_s i) (rfc_T ! i) in (d, b', b, c))"
  using rfc_s_range [of i] by (simp add: rfc_step_def rfc_f_def step_rotation md_step_defs)

lemma rfc_step_H: "32 \<le> i \<Longrightarrow> i < 48 \<Longrightarrow> rfc_step X i (a, b, c, d) =
    (let b' = HH a b c d (X ! rfc_k i) (rfc_s i) (rfc_T ! i) in (d, b', b, c))"
  using rfc_s_range [of i] by (simp add: rfc_step_def rfc_f_def step_rotation md_step_defs)

lemma rfc_step_I: "48 \<le> i \<Longrightarrow> i < 64 \<Longrightarrow> rfc_step X i (a, b, c, d) =
    (let b' = II a b c d (X ! rfc_k i) (rfc_s i) (rfc_T ! i) in (d, b', b, c))"
  using rfc_s_range [of i] by (simp add: rfc_step_def rfc_f_def step_rotation md_step_defs)

lemmas rfc_unroll = upt_rounds fold_simps fold_Let rfc_k_values rfc_s_values rfc_T_values split_conv rel_simps simp_thms

lemma rounds_rfc:
  "fold (rfc_step X) [0..<16] (a, b, c, d) = round1 X (a, b, c, d)"
  "fold (rfc_step X) [16..<32] (a, b, c, d) = round2 X (a, b, c, d)"
  "fold (rfc_step X) [32..<48] (a, b, c, d) = round3 X (a, b, c, d)"
  "fold (rfc_step X) [48..<64] (a, b, c, d) = round4 X (a, b, c, d)"
  by (simp_all only: rfc_unroll rfc_step_F rfc_step_G rfc_step_H rfc_step_I round1_def round2_def round3_def round4_def)

definition regs_list :: "'a regs \<Rightarrow> 'a::len word list" where
  "regs_list = (\<lambda>(a, b, c, d). [a, b, c, d])"

lemma Transform_rfc: "Transform (regs_list st) X = regs_list (rfc_compress st X)"
proof -
  obtain a b c d where st: "st = (a, b, c, d)" by (metis prod_cases4)
  have "[0..<64] = [0..<16] @ [16..<32] @ [32..<48] @ [48..<(64::nat)]" by (simp only: upt_rounds) (simp add: upt_rec)
  then have "fold (rfc_step X) [0..<64] (a, b, c, d) = round4 X (round3 X (round2 X (round1 X (a, b, c, d))))"
    using rounds_rfc by (simp only: fold_append comp_apply) (metis prod_cases4)
  then show ?thesis by (simp add: st regs_list_def Transform_def rfc_compress_def split: prod.splits)
qed

section \<open>Bytes and words\<close>

lemma bit_byte: "bit (push_bit k (ucast (a :: u8)) :: u32) n \<Longrightarrow> k \<le> n \<and> n < k + 8"
  by (auto simp: bit_push_bit_iff bit_unsigned_iff dest!: bit_imp_le_length)

lemma word_of_bytes:
  "push_bit 24 (ucast d) OR push_bit 16 (ucast c) OR push_bit 8 (ucast b) OR ucast a =
    (of_nat (unat a + 2 ^ 8 * unat b + 2 ^ 16 * unat c + 2 ^ 24 * unat d) :: u32)"
  for a b c d :: u8
proof -
  have a: "bit (ucast a :: u32) n \<Longrightarrow> n < 8" for n using bit_byte [of 0 a n] by simp
  have "(push_bit 8 (ucast b) :: u32) AND ucast a = 0"
    using bit_byte [of 8 b] a by (intro bit_word_eqI) (auto simp: bit_and_iff simp flip: linorder_not_le)
  then have 1: "(push_bit 8 (ucast b) :: u32) OR ucast a = push_bit 8 (ucast b) + ucast a" by (simp add: disjunctive_add_eq_or)
  have 2: "(push_bit 16 (ucast c) :: u32) AND (push_bit 8 (ucast b) OR ucast a) = 0"
    using bit_byte [of 16 c] bit_byte [of 8 b] a
    by (intro bit_word_eqI) (fastforce simp: bit_and_iff bit_or_iff)
  have 3: "(push_bit 24 (ucast d) :: u32) AND (push_bit 16 (ucast c) OR push_bit 8 (ucast b) OR ucast a) = 0"
    using bit_byte [of 24 d] bit_byte [of 16 c] bit_byte [of 8 b] a
    by (intro bit_word_eqI) (fastforce simp: bit_and_iff bit_or_iff)
  have "push_bit 24 (ucast d) OR push_bit 16 (ucast c) OR push_bit 8 (ucast b) OR ucast a =
      (push_bit 24 (ucast d) + (push_bit 16 (ucast c) + (push_bit 8 (ucast b) + ucast a)) :: u32)"
    by (simp only: 1 [symmetric] disjunctive_add_eq_or [OF 2] disjunctive_add_eq_or [OF 3])
  then show ?thesis by (simp add: push_bit_eq_mult ac_simps)
qed

lemma in_words_le: "4 * n \<le> length b \<Longrightarrow> in_words n b = le_words (take (4 * n) b)"
proof (induction n arbitrary: b)
  case 0
  then show ?case by (simp add: in_words_def)
next
  case (Suc n)
  then obtain x y z w r where b: "b = x # y # z # w # r" by (auto simp: Suc_le_length_iff numeral_eq_Suc)
  with Suc have "in_words n r = le_words (take (4 * n) r)" by simp
  moreover have "(in_words (Suc n) b :: u32 list) = le_words [x, y, z, w] @ in_words n r"
    unfolding in_words_def b map_upt_Suc by (simp add: word_of_bytes add.commute del: upt_Suc)
  moreover have t: "4 * Suc n = Suc (Suc (Suc (Suc (4 * n))))" by simp
  ultimately show ?case by (simp only: b t take_Suc_Cons le_words.simps append.simps)
qed

lemma le_words_append: "4 dvd length xs \<Longrightarrow> le_words (xs @ ys) = le_words xs @ le_words ys"
proof (induction xs rule: le_words.induct)
  case (1 a b c d bs)
  have "4 dvd length (a # b # c # d # bs) \<longleftrightarrow> 4 dvd length bs" by simp presburger
  with 1 show ?case by simp
qed (auto dest: dvd_imp_le)

lemma mod_bytes: "n mod 2 ^ 32 = n mod 256 + 2 ^ 8 * (n div 256 mod 256) + 2 ^ 16 * (n div 256 ^ 2 mod 256) + 2 ^ 24 * (n div 256 ^ 3 mod 256)"
  for n :: nat
  using mod_mult2_eq [of n 256 "256 ^ 3"] mod_mult2_eq [of "n div 256" 256 "256 ^ 2"] mod_mult2_eq [of "n div 256 ^ 2" 256 256]
  by (simp add: div_mult2_eq [symmetric] algebra_simps)

lemma le_words_number: "le_words (le_bytes 8 n) = [of_nat n, of_nat (n div 2 ^ 32)]"
proof -
  have w: "(of_nat (unat (of_nat k :: u8) + 2 ^ 8 * unat (of_nat (k div 256) :: u8) + 2 ^ 16 * unat (of_nat (k div 256 ^ 2) :: u8) +
      2 ^ 24 * unat (of_nat (k div 256 ^ 3) :: u8)) :: u32) = of_nat k" for k
  proof -
    have "unat (of_nat j :: u8) = j mod 256" for j by (simp add: unat_of_nat)
    moreover have "(of_nat (k mod 2 ^ 32) :: u32) = of_nat k" by (simp add: word_of_nat_eq_iff take_bit_eq_mod)
    ultimately show ?thesis by (simp only: mod_bytes [of k])
  qed
  show ?thesis using w [of n] w [of "n div 2 ^ 32"] by (simp add: le_bytes_def upt_rec div_mult2_eq [symmetric])
qed

lemma digest_word: "[ucast (w AND 0xFF), ucast (drop_bit 8 w AND 0xFF), ucast (drop_bit 16 w AND 0xFF), ucast (drop_bit 24 w AND 0xFF)] =
    le_bytes 4 (unat w)" for w :: u32
proof -
  have "(ucast (v AND 0xFF) :: u8) = of_nat (unat v)" for v :: u32
  proof -
    have "v AND 0xFF = take_bit 8 v" by (simp add: take_bit_eq_mask mask_eq_exp_minus_1)
    moreover have "(ucast (take_bit 8 v) :: u8) = ucast v" by (rule bit_word_eqI) (simp add: bit_unsigned_iff bit_take_bit_iff)
    ultimately show ?thesis by simp
  qed
  then have e: "(ucast (drop_bit k w AND 0xFF) :: u8) = of_nat (unat w div 2 ^ k)" for k
    by (simp only: unat_drop_bit_eq drop_bit_eq_div [of k "unat w"])
  show ?thesis using e [of 0] e [of 8] e [of 16] e [of 24] by (simp add: le_bytes_def upt_rec)
qed

section \<open>What the context holds\<close>

lemma rfc_blocks_append:
  "64 dvd length d \<Longrightarrow> length q = 64 \<Longrightarrow> rfc_blocks st (d @ q) = rfc_compress (rfc_blocks st d) (le_words q)"
proof (induction st d rule: rfc_blocks.induct)
  case (1 st d)
  show ?case
  proof (cases "d = []")
    case True
    then show ?thesis using 1(3) by (simp add: rfc_blocks.simps [of st] rfc_blocks.simps [of _ "[]"])
  next
    case False
    then have long: "64 \<le> length d" using dvd_imp_le [OF 1(2)] by simp
    then have "64 dvd length (drop 64 d)" using 1(2) by (simp add: dvd_diff_nat)
    with 1 long show ?thesis by (simp add: rfc_blocks.simps [of st d] rfc_blocks.simps [of st "d @ q"])
  qed
qed

definition md5_holds :: "u32 MD5_CTX \<Rightarrow> bytes \<Rightarrow> bool" where
  "md5_holds c m \<longleftrightarrow> length (md_in c) = 64 \<and> (\<exists>d p. m = d @ p \<and> 64 dvd length d \<and> length p < 64 \<and>
    take (length p) (md_in c) = p \<and> md_buf c = regs_list (rfc_blocks rfc_init d))"

definition md5_counts :: "u32 MD5_CTX \<Rightarrow> nat \<Rightarrow> bool" where
  "md5_counts c n \<longleftrightarrow> md_i c = [of_nat (8 * n), of_nat (8 * n div 2 ^ 32)]"

lemma init_holds: "length (md_in c) = 64 \<Longrightarrow> md5_holds (MD5Init c) [] \<and> md5_counts (MD5Init c) 0"
  by (simp add: md5_holds_def md5_counts_def MD5Init_def regs_list_def rfc_init_def rfc_blocks.simps [of _ "[]"])

lemma dvd_mod_add: "64 dvd a \<Longrightarrow> b < 64 \<Longrightarrow> (a + b) mod 64 = b" for a b :: nat
  by (auto simp: dvd_def)

lemma update_loop_holds:
  "md5_holds c m \<Longrightarrow> md5_holds (update_loop xs (length m mod 64) c) (m @ xs) \<and> md_i (update_loop xs (length m mod 64) c) = md_i c"
proof (induction xs arbitrary: c m)
  case (Cons x xs)
  from Cons.prems obtain d p where m: "m = d @ p" "64 dvd length d" "length p < 64" and l: "length (md_in c) = 64"
    and p: "take (length p) (md_in c) = p" and buf: "md_buf c = regs_list (rfc_blocks rfc_init d)" by (auto simp: md5_holds_def)
  let ?k = "length p"
  define c1 where "c1 = c\<lparr>md_in := (md_in c)[?k := x]\<rparr>"
  have k: "length m mod 64 = ?k" using m dvd_mod_add by simp
  have t: "take (?k + 1) (md_in c1) = p @ [x]" using p l m(3) by (simp add: c1_def take_Suc_conv_app_nth)
  have l1: "length (md_in c1) = 64" using l by (simp add: c1_def)
  show ?case
  proof (cases "?k + 1 = 64")
    case True
    define c2 where "c2 = c1\<lparr>md_buf := Transform (md_buf c1) (in_words 16 (md_in c1))\<rparr>"
    have q: "md_in c1 = p @ [x]" using t True l1 by simp
    have "(in_words 16 (md_in c1) :: u32 list) = le_words (p @ [x])" using in_words_le [of 16 "md_in c1"] l1 by (simp add: q)
    then have "md_buf c2 = regs_list (rfc_blocks rfc_init (d @ p @ [x]))"
      using True m(2) by (simp add: c2_def c1_def buf Transform_rfc rfc_blocks_append)
    then have "md5_holds c2 (m @ [x])"
      unfolding md5_holds_def using m True l1
      by (intro conjI exI [of _ "m @ [x]"] exI [of _ "[]"]) (auto simp: c2_def)
    moreover have "length (m @ [x]) mod 64 = 0" using m True dvd_mod_add [of "length d + 64" 0] by (simp add: add.assoc)
    moreover have "update_loop (x # xs) (length m mod 64) c = update_loop xs 0 c2" "md_i c2 = md_i c"
      using True by (simp_all add: k c2_def c1_def Let_def)
    ultimately show ?thesis using Cons.IH [of c2 "m @ [x]"] by simp
  next
    case False
    then have "md5_holds c1 (m @ [x])"
      unfolding md5_holds_def using m t l1 buf
      by (intro conjI exI [of _ d] exI [of _ "p @ [x]"]) (auto simp: c1_def)
    moreover have "length (m @ [x]) mod 64 = ?k + 1" using m False dvd_mod_add [of "length d" "?k + 1"] by simp
    moreover have "update_loop (x # xs) (length m mod 64) c = update_loop xs (?k + 1) c1" "md_i c1 = md_i c"
      using False by (simp_all add: k c1_def Let_def)
    ultimately show ?thesis using Cons.IH [of c1 "m @ [x]"] by simp
  qed
qed simp

lemma unat_u32: "unat (of_nat k :: u32) = k mod 2 ^ 32" "unat (w :: u32) < 2 ^ 32"
proof -
  have "unat w < 2 ^ LENGTH(32)" by (rule unsigned_less)
  then show "unat (of_nat k :: u32) = k mod 2 ^ 32" "unat w < 2 ^ 32" by (simp_all add: unat_of_nat)
qed

lemma position_holds: "md5_counts c n \<Longrightarrow> md_pos c = n mod 64"
proof -
  assume "md5_counts c n"
  then have "md_pos c = unat (take_bit 6 (drop_bit 3 (of_nat (8 * n) :: u32)))"
    by (simp add: md_pos_def md5_counts_def take_bit_eq_mask mask_eq_exp_minus_1)
  also have "\<dots> = (8 * n mod 2 ^ 32) div 8 mod 64"
    by (simp only: unsigned_take_bit_eq unat_drop_bit_eq take_bit_eq_mod [of 6 "_ :: nat"] unat_u32) (simp add: drop_bit_eq_div)
  also have "\<dots> = n mod 2 ^ 29 mod 64" using mod_mult_mult1 [of 8 n "2 ^ 29"] by simp
  also have "\<dots> = n mod 64" by (rule mod_mod_cancel) simp
  finally show ?thesis .
qed

lemma carry_iff: "(a + b < a) \<longleftrightarrow> 2 ^ 32 \<le> unat a + unat b" for a b :: u32
  using unat_u32(2) [of a] unat_u32(2) [of b] by (simp add: word_less_nat_alt unat_word_ariths mod_if) linarith

lemma div_carry: "0 < M \<Longrightarrow> (a mod M + b mod M) div M = (if M \<le> a mod M + b mod M then 1 else 0)" for a b M :: nat
proof -
  assume M: "0 < M"
  have "a mod M + b mod M - M < M" using mod_less_divisor [OF M, of a] mod_less_divisor [OF M, of b] by linarith
  with M show ?thesis by (simp add: le_div_geq)
qed

lemma update_counts:
  assumes "md5_counts c n" "k < 2 ^ 32"
  shows "md5_counts (MD5Update c buf (of_nat k)) (n + k)"
proof -
  let ?x = "push_bit 3 (ucast (of_nat k :: u32)) :: u32" and ?A = "8 * n" and ?B = "8 * k"
  have i: "md_i c ! 0 = of_nat ?A" "md_i c ! 1 = of_nat (?A div 2 ^ 32)" using assms(1) by (simp_all add: md5_counts_def)
  have x: "?x = of_nat ?B" by (simp add: push_bit_eq_mult)
  have "unat (drop_bit 29 (of_nat k :: u32)) = k div 2 ^ 29"
    using assms(2) by (simp only: unat_drop_bit_eq unat_u32) (simp add: drop_bit_eq_div)
  then have "drop_bit 29 (of_nat k :: u32) = of_nat (k div 2 ^ 29)" using of_nat_unat [of "drop_bit 29 (of_nat k :: u32)", where 'a = "32 word"] by (metis ucast_id)
  then have d: "(drop_bit 29 (ucast (of_nat k :: u32)) :: u32) = of_nat (?B div 2 ^ 32)"
    using div_mult_mult1 [of 8 k "2 ^ 29"] by simp
  have carry: "(of_nat ?A + ?x < of_nat ?A) \<longleftrightarrow> 2 ^ 32 \<le> ?A mod 2 ^ 32 + ?B mod 2 ^ 32"
    unfolding x carry_iff unat_u32 ..
  have "(?A + ?B) div 2 ^ 32 = ?A div 2 ^ 32 + ?B div 2 ^ 32 + (if 2 ^ 32 \<le> ?A mod 2 ^ 32 + ?B mod 2 ^ 32 then 1 else 0)"
    using div_add1_eq [of ?A ?B "2 ^ 32"] by (simp only: div_carry zero_less_power zero_less_numeral)
  then have "(of_nat ((?A + ?B) div 2 ^ 32) :: u32) =
      (if of_nat ?A + ?x < of_nat ?A then of_nat (?A div 2 ^ 32) + 1 else of_nat (?A div 2 ^ 32)) + of_nat (?B div 2 ^ 32)"
    unfolding carry by (simp only: of_nat_add if_distrib [of of_nat] of_nat_1 of_nat_0) simp
  moreover have "md_i (update_loop xs j e) = md_i e" for xs j and e :: "u32 MD5_CTX"
    by (induction xs j e rule: update_loop.induct) (simp_all add: Let_def)
  ultimately show ?thesis unfolding md5_counts_def MD5Update_def Let_def i d by (simp add: push_bit_eq_mult distrib_left)
qed

lemma update_holds:
  assumes "md5_holds c m" "md5_counts c (length m)" "length xs < 2 ^ 32"
  shows "md5_holds (MD5Update c (xs @ ys) (of_nat (length xs))) (m @ xs) \<and>
    md5_counts (MD5Update c (xs @ ys) (of_nat (length xs))) (length (m @ xs))"
proof -
  define e where "e = c\<lparr>md_i := md_i (MD5Update c (xs @ ys) (of_nat (length xs)))\<rparr>"
  have i: "md_i (update_loop zs j d) = md_i d" for zs j and d :: "u32 MD5_CTX"
    by (induction zs j d rule: update_loop.induct) (simp_all add: Let_def)
  have "unat (of_nat (length xs) :: u32) = length xs" using assms(3) by (simp add: unat_u32)
  then have "MD5Update c (xs @ ys) (of_nat (length xs)) = update_loop xs (length m mod 64) e"
    using position_holds [OF assms(2)] by (simp add: e_def MD5Update_def Let_def i)
  moreover have "md5_holds e m" using assms(1) by (simp add: e_def md5_holds_def)
  ultimately show ?thesis using update_loop_holds [of e m xs] update_counts [OF assms(2,3), of "xs @ ys"] by simp
qed

lemma parts_hold:
  "md5_holds c m \<Longrightarrow> md5_counts c (length m) \<Longrightarrow> \<forall>x \<in> set parts. length x < 2 ^ 32 \<Longrightarrow>
    md5_holds (fold (\<lambda>x c. MD5Update c x (of_nat (length x))) parts c) (m @ concat parts) \<and>
    md5_counts (fold (\<lambda>x c. MD5Update c x (of_nat (length x))) parts c) (length (m @ concat parts))"
proof (induction parts arbitrary: c m)
  case (Cons x parts)
  then show ?case using update_holds [of c m x "[]"] Cons.IH [of "MD5Update c x (of_nat (length x))" "m @ x"] by simp
qed simp

definition pad_len :: "nat \<Rightarrow> nat" where
  "pad_len n = (if n mod 64 < 56 then 56 - n mod 64 else 120 - n mod 64)"

lemma pad_len:
  "0 < pad_len n" "pad_len n \<le> 64" "(n + pad_len n) mod 64 = 56" "nat ((55 - int n) mod 64) = pad_len n - 1"
proof -
  have r: "n mod 64 < 64" by simp
  show "0 < pad_len n" "pad_len n \<le> 64" using r by (auto simp: pad_len_def)
  have "(n + pad_len n) mod 64 = (n mod 64 + pad_len n) mod 64" by (simp add: mod_add_left_eq)
  moreover have "n mod 64 + pad_len n = 56 \<or> n mod 64 + pad_len n = 56 + 64" using r by (auto simp: pad_len_def)
  ultimately show "(n + pad_len n) mod 64 = 56" by auto
  have "(55 - int n) mod 64 = (55 - int (n mod 64)) mod 64" by (simp add: zmod_int mod_diff_right_eq)
  moreover have "55 - int (n mod 64) = int (pad_len n - 1) \<or> 55 - int (n mod 64) = int (pad_len n - 1) - 64"
    using r by (auto simp: pad_len_def)
  moreover have "int (pad_len n - 1) < 64" using r by (auto simp: pad_len_def)
  moreover have "(j - 64) mod 64 = j mod 64" for j :: int by simp
  ultimately have "(55 - int n) mod 64 = int (pad_len n - 1)" by (metis mod_pos_pos_trivial of_nat_0_le_iff)
  then show "nat ((55 - int n) mod 64) = pad_len n - 1" by simp
qed

lemma final_rfc:
  assumes "md5_holds c m" "md5_counts c (length m)"
  shows "md_digest (MD5Final c) = rfc1321 m"
proof -
  let ?n = "length m"
  define k where "k = pad_len ?n"
  define c1 where "c1 = MD5Update c PADDING (of_nat k)"
  have k: "0 < k" "k \<le> 64" using pad_len by (simp_all add: k_def)
  define pad where "pad = take k PADDING"
  have pad: "length pad = k" "pad @ drop k PADDING = PADDING" using k by (simp_all add: pad_def PADDING_def)
  have "md5_holds c1 (m @ pad)"
    using update_holds [OF assms, of pad "drop k PADDING"] k by (simp add: pad c1_def)
  then obtain d p where dp: "m @ pad = d @ p" "64 dvd length d" "length p < 64" and l: "length (md_in c1) = 64"
    and p: "take (length p) (md_in c1) = p" and buf: "md_buf c1 = regs_list (rfc_blocks rfc_init d)"
    by (auto simp: md5_holds_def)
  have "(?n + k) mod 64 = 56" unfolding k_def by (rule pad_len)
  moreover have "?n + k = length d + length p" using arg_cong [OF dp(1), of length] pad by simp
  ultimately have p56: "length p = 56" using dvd_mod_add [OF dp(2,3)] by simp
  have "(in_words 14 (md_in c1) :: u32 list) = le_words p" using in_words_le [of 14 "md_in c1"] l p p56 by simp
  then have w: "in_words 14 (md_in c1) @ [md_i c ! 0, md_i c ! 1] = le_words (p @ le_bytes 8 (8 * ?n))"
    using assms(2) p56 by (simp add: le_words_append le_words_number md5_counts_def)
  have "nat ((55 - int ?n) mod 64) = k - 1" unfolding k_def by (rule pad_len)
  then have "rfc_pad m = pad @ le_bytes 8 (8 * ?n)"
    using k by (simp add: rfc_pad_def pad_def PADDING_def take_Cons' )
  then have "m @ rfc_pad m = d @ (p @ le_bytes 8 (8 * ?n))" using dp(1) by (metis append.assoc)
  then have "rfc_blocks rfc_init (m @ rfc_pad m) = rfc_compress (rfc_blocks rfc_init d) (le_words (p @ le_bytes 8 (8 * ?n)))"
    using rfc_blocks_append [OF dp(2)] p56 by (simp add: le_bytes_def)
  then have "Transform (md_buf c1) (in_words 14 (md_in c1) @ [md_i c ! 0, md_i c ! 1]) =
      regs_list (rfc_blocks rfc_init (m @ rfc_pad m))" unfolding w buf Transform_rfc by simp
  then have "md_digest (MD5Final c) = concat (map (\<lambda>w. [ucast (w AND 0xFF), ucast (drop_bit 8 w AND 0xFF),
           ucast (drop_bit 16 w AND 0xFF), ucast (drop_bit 24 w AND 0xFF)]) (regs_list (rfc_blocks rfc_init (m @ rfc_pad m))))"
    using position_holds [OF assms(2)] by (simp add: MD5Final_def Let_def c1_def k_def pad_len_def)
  then show ?thesis by (simp only: digest_word) (simp add: rfc1321_def regs_list_def split: prod.splits)
qed

lemma digest_rfc:
  fixes c :: "u32 MD5_CTX"
  assumes "length (md_in c) = 64" "\<forall>m \<in> set parts. length m < 2 ^ 32"
  shows "md5_digest c parts = rfc1321 (concat parts)"
  using parts_hold [of "MD5Init c" "[]" parts] init_holds [OF assms(1)] assms(2)
  by (simp add: md5_digest_def final_rfc)

section \<open>The empty message at both widths\<close>

text \<open>Its only block, and the steps over it where \<open>unsigned long int\<close> has 32 and 64 bits.\<close>

definition empty_words :: "'a::len word list" where
  "empty_words = 128 # replicate 15 0"

lemma empty_nth:
  "empty_words ! 0 = 128" "empty_words ! 1 = 0" "empty_words ! 2 = 0" "empty_words ! 3 = 0" "empty_words ! 4 = 0" "empty_words ! 5 = 0" "empty_words ! 6 = 0" "empty_words ! 7 = 0" "empty_words ! 8 = 0" "empty_words ! 9 = 0" "empty_words ! 10 = 0" "empty_words ! 11 = 0" "empty_words ! 12 = 0" "empty_words ! 13 = 0" "empty_words ! 14 = 0" "empty_words ! 15 = 0"
  by (simp_all add: empty_words_def)

lemma empty32_steps1:
  "FF 1732584193 4023233417 2562383102 271733878 128 7 3614090360 = (2770347892 :: 32 word)"
  "FF 271733878 2770347892 4023233417 2562383102 0 12 3905402710 = (4120220381 :: 32 word)"
  "FF 2562383102 4120220381 2770347892 4023233417 0 17 606105819 = (3891292963 :: 32 word)"
  "FF 4023233417 3891292963 4120220381 2770347892 0 22 3250441966 = (454439427 :: 32 word)"
  "FF 2770347892 454439427 3891292963 4120220381 0 7 4118548399 = (839070532 :: 32 word)"
  "FF 4120220381 839070532 454439427 3891292963 0 12 1200080426 = (792056980 :: 32 word)"
  "FF 3891292963 792056980 839070532 454439427 0 17 2821735955 = (4122040539 :: 32 word)"
  "FF 454439427 4122040539 792056980 839070532 0 22 4249261313 = (2613132521 :: 32 word)"
  "FF 839070532 2613132521 4122040539 792056980 0 7 1770035416 = (949205393 :: 32 word)"
  "FF 792056980 949205393 2613132521 4122040539 0 12 2336552879 = (4242842386 :: 32 word)"
  "FF 4122040539 4242842386 949205393 2613132521 0 17 4294925233 = (3790538102 :: 32 word)"
  "FF 2613132521 3790538102 4242842386 949205393 0 22 2304563134 = (1886816809 :: 32 word)"
  "FF 949205393 1886816809 3790538102 4242842386 0 7 1804603682 = (4117527793 :: 32 word)"
  "FF 4242842386 4117527793 1886816809 3790538102 0 12 4254626195 = (927548327 :: 32 word)"
  "FF 3790538102 927548327 4117527793 1886816809 0 17 2792965006 = (1520779125 :: 32 word)"
  "FF 1886816809 1520779125 927548327 4117527793 0 22 1236535329 = (3598818410 :: 32 word)"
  by (simp_all add: md_step_defs ROTATE_LEFT_def)

lemma empty32_steps2:
  "GG 4117527793 3598818410 1520779125 927548327 0 5 4129170786 = (477984019 :: 32 word)"
  "GG 927548327 477984019 3598818410 1520779125 0 9 3225465664 = (2077588026 :: 32 word)"
  "GG 1520779125 2077588026 477984019 3598818410 0 14 643717713 = (3231052090 :: 32 word)"
  "GG 3598818410 3231052090 2077588026 477984019 128 20 3921069994 = (3178769943 :: 32 word)"
  "GG 477984019 3178769943 3231052090 2077588026 0 5 3593408605 = (1025392236 :: 32 word)"
  "GG 2077588026 1025392236 3178769943 3231052090 0 9 38016083 = (1756869603 :: 32 word)"
  "GG 3231052090 1756869603 1025392236 3178769943 0 14 3634488961 = (3946931262 :: 32 word)"
  "GG 3178769943 3946931262 1756869603 1025392236 0 20 3889429448 = (3827454746 :: 32 word)"
  "GG 1025392236 3827454746 3946931262 1756869603 0 5 568446438 = (812564770 :: 32 word)"
  "GG 1756869603 812564770 3827454746 3946931262 0 9 3275163606 = (3532421058 :: 32 word)"
  "GG 3946931262 3532421058 812564770 3827454746 0 14 4107603335 = (2747687898 :: 32 word)"
  "GG 3827454746 2747687898 3532421058 812564770 0 20 1163531501 = (2690066439 :: 32 word)"
  "GG 812564770 2690066439 2747687898 3532421058 0 5 2850285829 = (326135862 :: 32 word)"
  "GG 3532421058 326135862 2690066439 2747687898 0 9 4243563512 = (2927104987 :: 32 word)"
  "GG 2747687898 2927104987 326135862 2690066439 0 14 1735328473 = (473023364 :: 32 word)"
  "GG 2690066439 473023364 2927104987 326135862 0 20 2368359562 = (2720030495 :: 32 word)"
  by (simp_all add: md_step_defs ROTATE_LEFT_def)

lemma empty32_steps3:
  "HH 326135862 2720030495 473023364 2927104987 0 4 4294588738 = (3747867297 :: 32 word)"
  "HH 2927104987 3747867297 2720030495 473023364 0 11 2272392833 = (3278413659 :: 32 word)"
  "HH 473023364 3278413659 3747867297 2720030495 0 16 1839030562 = (317974357 :: 32 word)"
  "HH 2720030495 317974357 3278413659 3747867297 0 23 4259657740 = (4941417 :: 32 word)"
  "HH 3747867297 4941417 317974357 3278413659 0 4 2763975236 = (1601870638 :: 32 word)"
  "HH 3278413659 1601870638 4941417 317974357 0 11 1272893353 = (2881703446 :: 32 word)"
  "HH 317974357 2881703446 1601870638 4941417 0 16 4139469664 = (2445954231 :: 32 word)"
  "HH 4941417 2445954231 2881703446 1601870638 0 23 3200236656 = (3319565333 :: 32 word)"
  "HH 1601870638 3319565333 2445954231 2881703446 0 4 681279174 = (1150752413 :: 32 word)"
  "HH 2881703446 1150752413 3319565333 2445954231 128 11 3936430074 = (1996329940 :: 32 word)"
  "HH 2445954231 1996329940 1150752413 3319565333 0 16 3572445317 = (4254462531 :: 32 word)"
  "HH 3319565333 4254462531 1996329940 1150752413 0 23 76029189 = (266544211 :: 32 word)"
  "HH 1150752413 266544211 4254462531 1996329940 0 4 3654602809 = (1062596093 :: 32 word)"
  "HH 1996329940 1062596093 266544211 4254462531 0 11 3873151461 = (581115732 :: 32 word)"
  "HH 4254462531 581115732 1062596093 266544211 0 16 530742520 = (1759006370 :: 32 word)"
  "HH 266544211 1759006370 581115732 1062596093 0 23 3299628645 = (3397201341 :: 32 word)"
  by (simp_all add: md_step_defs ROTATE_LEFT_def)

lemma empty32_steps4:
  "II 1062596093 3397201341 1759006370 581115732 128 6 4096336452 = (2477401463 :: 32 word)"
  "II 581115732 2477401463 3397201341 1759006370 0 10 1126891415 = (378068101 :: 32 word)"
  "II 1759006370 378068101 2477401463 3397201341 0 15 2878612391 = (3448092875 :: 32 word)"
  "II 3397201341 3448092875 378068101 2477401463 0 21 4237533241 = (1444808329 :: 32 word)"
  "II 2477401463 1444808329 3448092875 378068101 0 6 1700485571 = (1445306644 :: 32 word)"
  "II 378068101 1445306644 1444808329 3448092875 0 10 2399980690 = (877720619 :: 32 word)"
  "II 3448092875 877720619 1445306644 1444808329 0 15 4293915773 = (959107280 :: 32 word)"
  "II 1444808329 959107280 877720619 1445306644 0 21 2240044497 = (511179361 :: 32 word)"
  "II 1445306644 511179361 959107280 877720619 0 6 1873313359 = (1196072076 :: 32 word)"
  "II 877720619 1196072076 511179361 959107280 0 10 4264355552 = (3754819772 :: 32 word)"
  "II 959107280 3754819772 1196072076 511179361 0 15 2734768916 = (911821588 :: 32 word)"
  "II 511179361 911821588 3754819772 1196072076 0 21 1309151649 = (806551938 :: 32 word)"
  "II 1196072076 806551938 911821588 3754819772 0 6 4149444226 = (1917254355 :: 32 word)"
  "II 3754819772 1917254355 806551938 911821588 0 10 3174756917 = (1846584438 :: 32 word)"
  "II 911821588 1846584438 1917254355 806551938 0 15 718787259 = (4283343851 :: 32 word)"
  "II 806551938 4283343851 1846584438 1917254355 0 21 3951481745 = (350508294 :: 32 word)"
  by (simp_all add: md_step_defs ROTATE_LEFT_def)

lemma empty32_round1: "round1 empty_words (1732584193, 4023233417, 2562383102, 271733878) =
    ((4117527793, 3598818410, 1520779125, 927548327) :: 32 regs)"
  unfolding round1_def prod.case by (simp only: Let_def empty_nth empty32_steps1 cong: let_weak_cong)

lemma empty32_round2: "round2 empty_words (4117527793, 3598818410, 1520779125, 927548327) =
    ((326135862, 2720030495, 473023364, 2927104987) :: 32 regs)"
  unfolding round2_def prod.case by (simp only: Let_def empty_nth empty32_steps2 cong: let_weak_cong)

lemma empty32_round3: "round3 empty_words (326135862, 2720030495, 473023364, 2927104987) =
    ((1062596093, 3397201341, 1759006370, 581115732) :: 32 regs)"
  unfolding round3_def prod.case by (simp only: Let_def empty_nth empty32_steps3 cong: let_weak_cong)

lemma empty32_round4: "round4 empty_words (1062596093, 3397201341, 1759006370, 581115732) =
    ((1917254355, 350508294, 4283343851, 1846584438) :: 32 regs)"
  unfolding round4_def prod.case by (simp only: Let_def empty_nth empty32_steps4 cong: let_weak_cong)

lemmas empty32_rounds = empty32_round1 empty32_round2 empty32_round3 empty32_round4

lemma empty64_steps1:
  "FF 1732584193 4023233417 2562383102 271733878 128 7 3614090360 = (1016382629748 :: 64 word)"
  "FF 271733878 1016382629748 4023233417 2562383102 0 12 3905402710 = (31155518022365 :: 64 word)"
  "FF 2562383102 31155518022365 1016382629748 4023233417 0 17 606105819 = (39112501537831715 :: 64 word)"
  "FF 4023233417 39112501537831715 31155518022365 1016382629748 0 22 3250441966 = (2175409637700280843 :: 64 word)"
  "FF 1016382629748 2175409637700280843 39112501537831715 31155518022365 0 7 4118548399 = (2196491450697719767 :: 64 word)"
  "FF 31155518022365 2196491450697719767 2175409637700280843 39112501537831715 0 12 1200080426 = (3429936767900570160 :: 64 word)"
  "FF 39112501537831715 3429936767900570160 2196491450697719767 2175409637700280843 0 17 2821735955 = (3497418108223843227 :: 64 word)"
  "FF 2175409637700280843 3497418108223843227 3429936767900570160 2196491450697719767 0 22 4249261313 = (7513356890271376542 :: 64 word)"
  "FF 2196491450697719767 7513356890271376542 3497418108223843227 3429936767900570160 0 7 1770035416 = (8263830918588506402 :: 64 word)"
  "FF 3429936767900570160 8263830918588506402 7513356890271376542 3497418108223843227 0 12 2336552879 = (5870918656773016546 :: 64 word)"
  "FF 3497418108223843227 5870918656773016546 8263830918588506402 7513356890271376542 0 17 4294925233 = (10721717108955118078 :: 64 word)"
  "FF 7513356890271376542 10721717108955118078 5870918656773016546 8263830918588506402 0 22 2304563134 = (13961984068007965471 :: 64 word)"
  "FF 8263830918588506402 13961984068007965471 10721717108955118078 5870918656773016546 0 7 1804603682 = (10871433800582520069 :: 64 word)"
  "FF 5870918656773016546 10871433800582520069 13961984068007965471 10721717108955118078 0 12 4254626195 = (6079375046028346327 :: 64 word)"
  "FF 10721717108955118078 6079375046028346327 10871433800582520069 13961984068007965471 0 17 2792965006 = (1585618057195662231 :: 64 word)"
  "FF 13961984068007965471 1585618057195662231 6079375046028346327 10871433800582520069 0 22 1236535329 = (10445878844286575515 :: 64 word)"
  by (simp_all add: md_step_defs ROTATE_LEFT_def)

lemma empty64_steps2:
  "GG 10871433800582520069 10445878844286575515 1585618057195662231 6079375046028346327 0 5 4129170786 = (13241169408146547580 :: 64 word)"
  "GG 6079375046028346327 13241169408146547580 10445878844286575515 1585618057195662231 0 9 3225465664 = (6952358685948906227 :: 64 word)"
  "GG 1585618057195662231 6952358685948906227 13241169408146547580 10445878844286575515 0 14 643717713 = (9053569239441865844 :: 64 word)"
  "GG 10445878844286575515 9053569239441865844 6952358685948906227 13241169408146547580 128 20 3921069994 = (14509798245041849541 :: 64 word)"
  "GG 13241169408146547580 14509798245041849541 9053569239441865844 6952358685948906227 0 5 3593408605 = (9026579593145219252 :: 64 word)"
  "GG 6952358685948906227 9026579593145219252 14509798245041849541 9053569239441865844 0 9 38016083 = (3454651587117840282 :: 64 word)"
  "GG 9053569239441865844 3454651587117840282 9026579593145219252 14509798245041849541 0 14 3634488961 = (15840886469013270133 :: 64 word)"
  "GG 14509798245041849541 15840886469013270133 3454651587117840282 9026579593145219252 0 20 3889429448 = (11167134561086168503 :: 64 word)"
  "GG 9026579593145219252 11167134561086168503 15840886469013270133 3454651587117840282 0 5 568446438 = (11707403993063316452 :: 64 word)"
  "GG 3454651587117840282 11707403993063316452 11167134561086168503 15840886469013270133 0 9 3275163606 = (8665910111417817325 :: 64 word)"
  "GG 15840886469013270133 8665910111417817325 11707403993063316452 11167134561086168503 0 14 4107603335 = (5489095081623307384 :: 64 word)"
  "GG 11167134561086168503 5489095081623307384 8665910111417817325 11707403993063316452 0 20 1163531501 = (6268066476382587539 :: 64 word)"
  "GG 11707403993063316452 6268066476382587539 5489095081623307384 8665910111417817325 0 5 2850285829 = (3720851114925492716 :: 64 word)"
  "GG 8665910111417817325 3720851114925492716 6268066476382587539 5489095081623307384 0 9 4243563512 = (11367238944272938529 :: 64 word)"
  "GG 5489095081623307384 11367238944272938529 3720851114925492716 6268066476382587539 0 14 1735328473 = (15006569089568068913 :: 64 word)"
  "GG 6268066476382587539 15006569089568068913 11367238944272938529 3720851114925492716 0 20 2368359562 = (15983705072902754029 :: 64 word)"
  by (simp_all add: md_step_defs ROTATE_LEFT_def)

lemma empty64_steps3:
  "HH 3720851114925492716 15983705072902754029 15006569089568068913 11367238944272938529 0 4 4294588738 = (2104279030485593769 :: 64 word)"
  "HH 11367238944272938529 2104279030485593769 15983705072902754029 15006569089568068913 0 11 2272392833 = (2658729188191087588 :: 64 word)"
  "HH 15006569089568068913 2658729188191087588 2104279030485593769 15983705072902754029 0 16 1839030562 = (406357069610316569 :: 64 word)"
  "HH 15983705072902754029 406357069610316569 2658729188191087588 2104279030485593769 0 23 4259657740 = (2580931579215877527 :: 64 word)"
  "HH 2104279030485593769 2580931579215877527 406357069610316569 2658729188191087588 0 4 2763975236 = (2343204022673441553 :: 64 word)"
  "HH 2658729188191087588 2343204022673441553 2580931579215877527 406357069610316569 0 11 1272893353 = (81857557472671579 :: 64 word)"
  "HH 406357069610316569 81857557472671579 2343204022673441553 2580931579215877527 0 16 4139469664 = (15131441649805546575 :: 64 word)"
  "HH 2580931579215877527 15131441649805546575 81857557472671579 2343204022673441553 0 23 3200236656 = (17414272684339625608 :: 64 word)"
  "HH 2343204022673441553 17414272684339625608 15131441649805546575 81857557472671579 0 4 681279174 = (1243242932676851138 :: 64 word)"
  "HH 81857557472671579 1243242932676851138 17414272684339625608 15131441649805546575 128 11 3936430074 = (15910131647513085524 :: 64 word)"
  "HH 15131441649805546575 15910131647513085524 1243242932676851138 17414272684339625608 0 16 3572445317 = (13033896085736608594 :: 64 word)"
  "HH 17414272684339625608 13033896085736608594 15910131647513085524 1243242932676851138 0 23 76029189 = (17681484179932077072 :: 64 word)"
  "HH 1243242932676851138 17681484179932077072 13033896085736608594 15910131647513085524 0 4 3654602809 = (16013921822190226924 :: 64 word)"
  "HH 15910131647513085524 16013921822190226924 17681484179932077072 13033896085736608594 0 11 3873151461 = (2302140967492144413 :: 64 word)"
  "HH 13033896085736608594 2302140967492144413 16013921822190226924 17681484179932077072 0 16 530742520 = (5441147249984637601 :: 64 word)"
  "HH 17681484179932077072 5441147249984637601 2302140967492144413 16013921822190226924 0 23 3299628645 = (12556789716051873983 :: 64 word)"
  by (simp_all add: md_step_defs ROTATE_LEFT_def)

lemma empty64_steps4:
  "II 16013921822190226924 12556789716051873983 5441147249984637601 2302140967492144413 128 6 4096336452 = (12743299320293077181 :: 64 word)"
  "II 2302140967492144413 12743299320293077181 12556789716051873983 5441147249984637601 0 10 1126891415 = (8887954151305875419 :: 64 word)"
  "II 5441147249984637601 8887954151305875419 12743299320293077181 12556789716051873983 0 15 2878612391 = (17206678240081648211 :: 64 word)"
  "II 12556789716051873983 17206678240081648211 8887954151305875419 12743299320293077181 0 21 4237533241 = (6875244478570016267 :: 64 word)"
  "II 12743299320293077181 6875244478570016267 17206678240081648211 8887954151305875419 0 6 1700485571 = (16076914047821131171 :: 64 word)"
  "II 8887954151305875419 16076914047821131171 6875244478570016267 17206678240081648211 0 10 2399980690 = (10553499793298462012 :: 64 word)"
  "II 17206678240081648211 10553499793298462012 16076914047821131171 6875244478570016267 0 15 4293915773 = (5807461544596743303 :: 64 word)"
  "II 6875244478570016267 5807461544596743303 10553499793298462012 16076914047821131171 0 21 2240044497 = (2175449045170812004 :: 64 word)"
  "II 16076914047821131171 2175449045170812004 5807461544596743303 10553499793298462012 0 6 1873313359 = (12541372061410013426 :: 64 word)"
  "II 10553499793298462012 12541372061410013426 2175449045170812004 5807461544596743303 0 10 4264355552 = (120749403459432043 :: 64 word)"
  "II 5807461544596743303 120749403459432043 12541372061410013426 2175449045170812004 0 15 2734768916 = (3401724805574327323 :: 64 word)"
  "II 2175449045170812004 3401724805574327323 120749403459432043 12541372061410013426 0 21 1309151649 = (16531929726287791845 :: 64 word)"
  "II 12541372061410013426 16531929726287791845 3401724805574327323 120749403459432043 0 6 4149444226 = (8863795446308577251 :: 64 word)"
  "II 120749403459432043 8863795446308577251 16531929726287791845 3401724805574327323 0 10 3174756917 = (14788787346903034911 :: 64 word)"
  "II 3401724805574327323 14788787346903034911 8863795446308577251 16531929726287791845 0 15 718787259 = (12192877750745007488 :: 64 word)"
  "II 16531929726287791845 12192877750745007488 14788787346903034911 8863795446308577251 0 21 3951481745 = (4224312351078579556 :: 64 word)"
  by (simp_all add: md_step_defs ROTATE_LEFT_def)

lemma empty64_round1: "round1 empty_words (1732584193, 4023233417, 2562383102, 271733878) =
    ((10871433800582520069, 10445878844286575515, 1585618057195662231, 6079375046028346327) :: 64 regs)"
  unfolding round1_def prod.case by (simp only: Let_def empty_nth empty64_steps1 cong: let_weak_cong)

lemma empty64_round2: "round2 empty_words (10871433800582520069, 10445878844286575515, 1585618057195662231, 6079375046028346327) =
    ((3720851114925492716, 15983705072902754029, 15006569089568068913, 11367238944272938529) :: 64 regs)"
  unfolding round2_def prod.case by (simp only: Let_def empty_nth empty64_steps2 cong: let_weak_cong)

lemma empty64_round3: "round3 empty_words (3720851114925492716, 15983705072902754029, 15006569089568068913, 11367238944272938529) =
    ((16013921822190226924, 12556789716051873983, 5441147249984637601, 2302140967492144413) :: 64 regs)"
  unfolding round3_def prod.case by (simp only: Let_def empty_nth empty64_steps3 cong: let_weak_cong)

lemma empty64_round4: "round4 empty_words (16013921822190226924, 12556789716051873983, 5441147249984637601, 2302140967492144413) =
    ((8863795446308577251, 4224312351078579556, 12192877750745007488, 14788787346903034911) :: 64 regs)"
  unfolding round4_def prod.case by (simp only: Let_def empty_nth empty64_steps4 cong: let_weak_cong)

lemmas empty64_rounds = empty64_round1 empty64_round2 empty64_round3 empty64_round4

lemma update_loop_short:
  "mdi + length xs < 64 \<Longrightarrow> length (md_in c) = 64 \<Longrightarrow>
    update_loop xs mdi c = c\<lparr>md_in := take mdi (md_in c) @ xs @ drop (mdi + length xs) (md_in c)\<rparr>"
proof (induction xs arbitrary: mdi c)
  case (Cons x xs)
  then show ?case by (simp add: Let_def take_Suc_conv_app_nth)
qed simp

lemma padding_words:
  assumes "length b = 64" "take 56 b = take 56 PADDING"
  shows "in_words 14 b @ [0, 0] = (empty_words :: 'a::len word list)"
proof -
  have b: "b ! k = PADDING ! k" if "k < 56" for k using assms that by (metis nth_take)
  have "in_words 14 b = map (\<lambda>i. if i = 0 then ucast (128 :: u8) else (0 :: 'a word)) [0..<14]"
    unfolding in_words_def by (rule map_cong [OF refl]) (auto simp: b PADDING_def nth_Cons')
  moreover have "replicate 15 x = [x, x, x, x, x, x, x, x, x, x, x, x, x, x, x]" for x :: "'a word" by (simp add: numeral_eq_Suc)
  ultimately show ?thesis by (simp add: empty_words_def upt_rec)
qed

lemma digest_empty:
  fixes c :: "'a::len word MD5_CTX"
  assumes "length (md_in c) = 64"
  shows "md5_digest c [] = concat (map (\<lambda>w. [ucast (w AND 0xFF), ucast (drop_bit 8 w AND 0xFF),
    ucast (drop_bit 16 w AND 0xFF), ucast (drop_bit 24 w AND 0xFF)])
      (Transform [0x67452301, 0xefcdab89, 0x98badcfe, 0x10325476] (empty_words :: 'a word list)))"
proof -
  have i: "md_i (MD5Init c) = [0, 0]" "md_pos (MD5Init c) = 0"
    and buf: "md_buf (MD5Init c) = [0x67452301, 0xefcdab89, 0x98badcfe, 0x10325476]" by (simp_all add: MD5Init_def md_pos_def)
  obtain ii where u: "MD5Update (MD5Init c) PADDING 56 = update_loop (take 56 PADDING) 0 ((MD5Init c)\<lparr>md_i := ii\<rparr>)"
    using i(2) by (simp add: MD5Update_def Let_def)
  have "length (md_in ((MD5Init c)\<lparr>md_i := ii\<rparr>)) = 64" "length (take 56 PADDING) = 56"
    using assms by (simp_all add: MD5Init_def PADDING_def)
  with update_loop_short [of 0 "take 56 PADDING" "(MD5Init c)\<lparr>md_i := ii\<rparr>"]
  have u: "MD5Update (MD5Init c) PADDING 56 = (MD5Init c)\<lparr>md_i := ii, md_in := take 56 PADDING @ drop 56 (md_in c)\<rparr>"
    unfolding u by (simp add: MD5Init_def)
  have "in_words 14 (take 56 PADDING @ drop 56 (md_in c)) @ [0, 0] = (empty_words :: 'a word list)"
    by (rule padding_words) (use assms in \<open>simp_all add: PADDING_def\<close>)
  then show ?thesis by (simp add: md5_digest_def MD5Final_def Let_def i u buf)
qed

text \<open>d41d8cd98f00b204e9800998ecf8427e is the answer that the RFC's test suite gives.\<close>

lemma digest_empty_32: "length (md_in c) = 64 \<Longrightarrow> md5_digest (c :: u32 MD5_CTX) [] =
    [0xd4, 0x1d, 0x8c, 0xd9, 0x8f, 0x00, 0xb2, 0x04, 0xe9, 0x80, 0x09, 0x98, 0xec, 0xf8, 0x42, 0x7e]"
  by (simp add: digest_empty Transform_def empty32_rounds)

lemma digest_empty_64: "length (md_in c) = 64 \<Longrightarrow> md5_digest (c :: u64 MD5_CTX) [] =
    [0xe4, 0xc2, 0x37, 0x62, 0xed, 0x28, 0x23, 0xa2, 0x7e, 0x62, 0xa6, 0x4b, 0x95, 0xc0, 0x24, 0xe7]"
  by (simp add: digest_empty Transform_def empty64_rounds)

end
