(* ===== verification/Leases.thy ===== *)
theory Leases
  imports ProxyConfig CliConn
begin

text \<open>
  The DHCP leases of the client, one for each of its interfaces: \<open>readLease\<close>,
  \<open>make_new_table\<close>, \<open>delete_table\<close>, \<open>add_routing_tables\<close> and \<open>remove_routing_tables\<close> of
  \<open>src/clictcp.c\<close>.

  A line is what \<open>fgets\<close> gives.  The arrays \<open>type\<close>, \<open>val1\<close> and \<open>val2\<close> keep their contents from
  line to line and start with what the stack holds, here arguments.  A field of a lease that was
  not assigned is the pointer the stack holds, \<open>None\<close>; to follow it is \<open>Overrun\<close>.  \<open>system\<close>
  adds the command to a list; \<open>exit\<close> is \<open>Ret None\<close>.
\<close>

section \<open>readLease\<close>

record dhcp_lease =
  l_interface :: "bytes option"
  l_address :: "bytes option"
  l_gateway :: "bytes option"
  l_netmask :: "bytes option"

text \<open>\<open>sscanf\<close> with \<open>n\<close> conversions \<open>%s\<close>: the words it stores.\<close>

fun scan_words :: "nat \<Rightarrow> bytes \<Rightarrow> bytes list" where
  "scan_words 0 s = []"
| "scan_words (Suc n) s =
    (let s = dropWhile is_space s in
     if s = [] then []
     else takeWhile (\<lambda>c. \<not> is_space c) s # scan_words n (dropWhile (\<lambda>c. \<not> is_space c) s))"

text \<open>\<open>strndup\<close>; its second argument is a \<open>size_t\<close>, so a negative one takes the whole string.\<close>

definition c_strndup :: "bytes \<Rightarrow> int \<Rightarrow> bytes" where
  "c_strndup s n = (if n < 0 then s else take (nat n) s)"

record lease_scan =
  z_type :: bytes
  z_val1 :: bytes
  z_val2 :: bytes
  z_substreams :: int
  z_leases :: "dhcp_lease list"

definition put_lease :: "(dhcp_lease \<Rightarrow> dhcp_lease) \<Rightarrow> lease_scan \<Rightarrow> lease_scan call" where
  "put_lease f z =
    (let k = z_substreams z in
     if 0 \<le> k \<and> nat k < length (z_leases z)
     then Ret (z\<lparr>z_leases := (z_leases z)[nat k := f (z_leases z ! nat k)]\<rparr>) else Overrun)"

text \<open>What is done with the words once a line was scanned.\<close>

definition lease_words :: "lease_scan \<Rightarrow> lease_scan call" where
  "lease_words z =
    (let val1 = z_val1 z; val2 = z_val2 z in
     if z_type z \<noteq> [] \<and> hd (z_type z) = 35 then Ret z
     else if z_type z = str ''lease'' then Ret (z\<lparr>z_substreams := z_substreams z + 1\<rparr>)
     else if z_type z = str ''fixed-address''
     then put_lease (\<lambda>l. l\<lparr>l_address := Some (c_strndup val1 (int (length val1) - 1))\<rparr>) z
     else if z_type z = str ''interface''
     then put_lease (\<lambda>l. l\<lparr>l_interface := Some (c_strndup (tl val1) (int (length val1) - 3))\<rparr>) z
     else if z_type z = str ''option'' then
       (if val1 = str ''subnet-mask''
        then put_lease (\<lambda>l. l\<lparr>l_netmask := Some (c_strndup val2 (int (length val2) - 1))\<rparr>) z
        else if val1 = str ''routers''
        then put_lease (\<lambda>l. l\<lparr>l_gateway := Some (c_strndup val2 (int (length val2) - 1))\<rparr>) z
        else Ret z)
     else Ret z)"

text \<open>A word of 64 characters does not fit into its array.\<close>

definition lease_line :: "bytes \<Rightarrow> lease_scan \<Rightarrow> lease_scan call" where
  "lease_line line z =
    (let ws = scan_words 3 (takeWhile (\<lambda>c. c \<noteq> 0) line);
         z = (if 0 < length ws then z\<lparr>z_type := ws ! 0\<rparr> else z);
         z = (if 1 < length ws then z\<lparr>z_val1 := ws ! 1\<rparr> else z);
         z = (if 2 < length ws then z\<lparr>z_val2 := ws ! 2\<rparr> else z)
     in if \<exists>w \<in> set ws. 64 \<le> length w then Overrun else lease_words z)"

fun lease_lines :: "bytes list \<Rightarrow> lease_scan \<Rightarrow> lease_scan call" where
  "lease_lines [] z = Ret z"
| "lease_lines (l # ls) z =
    (case lease_line l z of Overrun \<Rightarrow> Overrun | Stuck \<Rightarrow> Stuck | Ret z \<Rightarrow> lease_lines ls z)"

text \<open>\<open>None\<close> for the file is one that cannot be opened.\<close>

definition readLease ::
  "bytes \<times> bytes \<times> bytes \<Rightarrow> bytes list option \<Rightarrow> dhcp_lease list \<Rightarrow> (int \<times> dhcp_lease list) call" where
  "readLease stack file leases =
    (case file of
       None \<Rightarrow> Ret (-1, leases)
     | Some ls \<Rightarrow>
         (case lease_lines ls \<lparr>z_type = fst stack, z_val1 = fst (snd stack), z_val2 = snd (snd stack),
             z_substreams = -1, z_leases = leases\<rparr> of
            Overrun \<Rightarrow> Overrun | Stuck \<Rightarrow> Stuck
          | Ret z \<Rightarrow> Ret (z_substreams z + 1, z_leases z)))"

section \<open>The routing tables\<close>

text \<open>
  \<open>for(maskbits=32; (mask & 1L<<(32-maskbits))==0; maskbits--)\<close> with \<open>s = 32 - maskbits\<close>, on an LP64
  machine.  \<open>mask\<close> has no bit from 32 on, so the loop does not end when it has none at all; from
  \<open>s = 64\<close> on the shift is undefined.
\<close>

function maskbits_loop :: "u32 \<Rightarrow> nat \<Rightarrow> int option" where
  "maskbits_loop m s =
    (if 64 \<le> s then None
     else if (ucast m :: u64) AND push_bit s 1 = 0 then maskbits_loop m (s + 1)
     else Some (32 - int s))"
  by pat_completeness auto
termination by (relation "measure (\<lambda>(m, s). 64 - s)") auto

declare maskbits_loop.simps [simp del]

text \<open>\<open>inet_ntoa\<close> of the four bytes of an address in network order.\<close>

definition inet_ntoa :: "bytes \<Rightarrow> bytes" where
  "inet_ntoa a = show_dotted (uint (a ! 0)) (uint (a ! 1)) (uint (a ! 2)) (uint (a ! 3))"

text \<open>
  \<open>sprintf\<close> into \<open>command\<close>, which has 150 bytes, and \<open>system\<close>.  The pieces that are strings of the
  lease may be unassigned.
\<close>

definition run_command :: "bytes option list \<Rightarrow> bytes list \<Rightarrow> bytes list call" where
  "run_command ps cmds =
    (if None \<in> set ps \<or> 150 \<le> length (concat (map the ps)) then Overrun
     else Ret (cmds @ [concat (map the ps)]))"

fun run_commands :: "bytes option list list \<Rightarrow> bytes list \<Rightarrow> bytes list call" where
  "run_commands [] cmds = Ret cmds"
| "run_commands (ps # pss) cmds =
    (case run_command ps cmds of Overrun \<Rightarrow> Overrun | Stuck \<Rightarrow> Stuck | Ret cmds \<Rightarrow> run_commands pss cmds)"

definition lit :: "string \<Rightarrow> bytes option" where "lit s = Some (str s)"

definition num :: "int \<Rightarrow> bytes option" where "num n = Some (show_int n)"

text \<open>
  \<open>aton\<close> is \<open>inet_aton\<close>: the four bytes of \<open>s_addr\<close> in memory.  The first \<open>printf\<close> is for the
  user; it follows the pointers to the interface and the address.
\<close>

definition make_new_table ::
  "(bytes \<Rightarrow> bytes option) \<Rightarrow> bool \<Rightarrow> dhcp_lease \<Rightarrow> int \<Rightarrow> int \<Rightarrow> bytes list \<Rightarrow> bytes list option call" where
  "make_new_table aton le lease table_number mark_number sys =
    (let sys = sys @ [str ''ip route flush table '' @ show_int table_number] in
     case (l_interface lease, l_address lease) of
       (Some ifc, Some ad) \<Rightarrow>
         (case aton ad of
            None \<Rightarrow> Ret None
          | Some address \<Rightarrow>
              (case l_netmask lease of
                 None \<Rightarrow> Overrun
               | Some nm \<Rightarrow>
                   (case aton nm of
                      None \<Rightarrow> Ret None
                    | Some netmask \<Rightarrow>
                        let bits = htonl le (of_mem32 le netmask);
                            network = htonl le (of_mem32 le address) AND htonl le (of_mem32 le netmask);
                            network_addr = mem32 le (htonl le network)
                        in case maskbits_loop bits 0 of
                             None \<Rightarrow> Stuck
                           | Some maskbits \<Rightarrow>
                               (case run_commands
                                  [[lit ''ip route add table '', num table_number, lit '' '', Some (inet_ntoa network_addr), lit ''/'',
                                    num maskbits, lit '' dev '', Some ifc, lit '' proto static src '', Some ad],
                                   [lit ''ip route add table '', num table_number, lit '' default via '', l_gateway lease,
                                    lit '' dev '', Some ifc, lit '' proto static''],
                                   [lit ''iptables -t mangle -A OUTPUT -s '', Some ad, lit '' -j MARK --set-mark '', num mark_number],
                                   [lit ''ip rule add fwmark '', num mark_number, lit '' table '', num table_number],
                                   [lit ''ip route flush cache'']] sys of
                                  Overrun \<Rightarrow> Overrun | Stuck \<Rightarrow> Stuck | Ret sys \<Rightarrow> Ret (Some sys)))))
     | _ \<Rightarrow> Overrun)"

definition delete_table :: "int \<Rightarrow> int \<Rightarrow> bytes list \<Rightarrow> bytes list" where
  "delete_table table_number mark_number sys =
    sys @ [str ''ip route flush table '' @ show_int table_number,
      str ''ip rule delete fwmark '' @ show_int mark_number @ str '' table '' @ show_int table_number,
      str ''iptables -t mangle -F'', str ''ip route flush cache'']"

fun add_tables ::
  "(bytes \<Rightarrow> bytes option) \<Rightarrow> bool \<Rightarrow> dhcp_lease list \<Rightarrow> nat list \<Rightarrow> bytes list \<Rightarrow> bytes list option call" where
  "add_tables aton le leases [] sys = Ret (Some sys)"
| "add_tables aton le leases (k # ks) sys =
    (case make_new_table aton le (leases ! k) (int k + 1) (int k + 1) sys of
       Overrun \<Rightarrow> Overrun | Stuck \<Rightarrow> Stuck | Ret None \<Rightarrow> Ret None
     | Ret (Some sys) \<Rightarrow> add_tables aton le leases ks sys)"

text \<open>The result: the commands run, and the number returned unless the process has exited.\<close>

definition add_routing_tables ::
  "(bytes \<Rightarrow> bytes option) \<Rightarrow> bool \<Rightarrow> bytes \<times> bytes \<times> bytes \<Rightarrow> dhcp_lease list \<Rightarrow> bytes list option option \<Rightarrow>
    (bytes list \<times> int) option call" where
  "add_routing_tables aton le stack leases lease_file =
    (case lease_file of
       None \<Rightarrow> Ret (Some ([], 0))
     | Some file \<Rightarrow>
         (case readLease stack file leases of
            Overrun \<Rightarrow> Overrun | Stuck \<Rightarrow> Stuck
          | Ret (substreams, leases) \<Rightarrow>
              (case add_tables aton le leases [0..<nat substreams] [] of
                 Overrun \<Rightarrow> Overrun | Stuck \<Rightarrow> Stuck | Ret None \<Rightarrow> Ret None
               | Ret (Some sys) \<Rightarrow> Ret (Some (sys, substreams)))))"

definition remove_routing_tables ::
  "bytes \<times> bytes \<times> bytes \<Rightarrow> dhcp_lease list \<Rightarrow> bytes list option option \<Rightarrow> bytes list call" where
  "remove_routing_tables stack leases lease_file =
    (case lease_file of
       None \<Rightarrow> Ret []
     | Some file \<Rightarrow>
         (case readLease stack file leases of
            Overrun \<Rightarrow> Overrun | Stuck \<Rightarrow> Stuck
          | Ret (substreams, leases) \<Rightarrow> Ret (fold (\<lambda>k. delete_table (int k + 1) (int k + 1)) [0..<nat substreams] [])))"

section \<open>What readLease reads\<close>

text \<open>A line of a lease file: words with blanks between them, as the DHCP client writes it.\<close>

definition token :: "bytes \<Rightarrow> bool" where
  "token w \<longleftrightarrow> w \<noteq> [] \<and> (\<forall>c \<in> set w. \<not> is_space c \<and> c \<noteq> 0)"

fun join_words :: "bytes list \<Rightarrow> bytes" where
  "join_words [] = []"
| "join_words [w] = w"
| "join_words (w # ws) = w @ [32] @ join_words ws"

definition file_line :: "nat \<Rightarrow> bytes list \<Rightarrow> bytes" where
  "file_line n ws = replicate n 32 @ join_words ws @ [10]"

lemma scan_blanks: "scan_words n (replicate k 32 @ s) = scan_words n s"
proof -
  have "dropWhile is_space (replicate k 32 @ s) = dropWhile is_space s" using space_chars by (induction k) simp_all
  then show ?thesis by (cases n) (simp_all only: scan_words.simps)
qed

lemma scan_join:
  assumes "\<forall>w \<in> set ws. token w"
  shows "scan_words n (join_words ws @ [10]) = take n ws"
  using assms
proof (induction ws arbitrary: n rule: join_words.induct)
  case 1
  show ?case using space_chars by (cases n) (simp_all add: Let_def)
next
  case (2 w)
  then obtain c w' where w: "w = c # w'" and t: "\<forall>c \<in> set w. \<not> is_space c" by (cases w) (auto simp: token_def)
  then have d: "dropWhile is_space (w @ [10]) = w @ [10]" by simp
  have e: "scan_words m [10] = []" for m using space_chars by (cases m) (simp_all add: Let_def)
  show ?case
    using t space_chars d e by (cases n) (simp_all add: Let_def takeWhile_append2 dropWhile_append2)
next
  case (3 w v ws)
  then obtain c w' where w: "w = c # w'" and t: "\<forall>c \<in> set w. \<not> is_space c" by (cases w) (auto simp: token_def)
  then have d: "dropWhile is_space (w @ 32 # join_words (v # ws) @ [10]) = w @ 32 # join_words (v # ws) @ [10]" by simp
  have e: "scan_words m (32 # s) = scan_words m s" for m s using scan_blanks [of m 1 s] by simp
  show ?case
    using t space_chars d e 3 by (cases n) (simp_all add: Let_def takeWhile_append2 dropWhile_append2)
qed

lemma join_no_nul: "\<forall>w \<in> set ws. token w \<Longrightarrow> \<forall>c \<in> set (join_words ws). c \<noteq> 0"
  by (induction ws rule: join_words.induct) (auto simp: token_def)

lemma scan_file_line:
  assumes "\<forall>w \<in> set ws. token w"
  shows "scan_words 3 (takeWhile (\<lambda>c. c \<noteq> 0) (file_line n ws)) = take 3 ws"
proof -
  have "\<forall>c \<in> set (file_line n ws). c \<noteq> 0" using join_no_nul [OF assms] by (auto simp: file_line_def)
  then have "takeWhile (\<lambda>c. c \<noteq> 0) (file_line n ws) = file_line n ws" by (simp add: takeWhile_eq_all_conv)
  then show ?thesis by (simp only: file_line_def scan_blanks scan_join [OF assms])
qed

text \<open>A lease as the client writes it, with other statements before the closing brace.\<close>

definition other_line :: "bytes \<Rightarrow> bool" where
  "other_line line \<longleftrightarrow> (\<exists>w ws. scan_words 3 (takeWhile (\<lambda>c. c \<noteq> 0) line) = w # ws \<and> (\<forall>x \<in> set (w # ws). length x < 64) \<and>
    w \<notin> {str ''lease'', str ''fixed-address'', str ''interface''} \<and>
    (w = str ''option'' \<longrightarrow> ws \<noteq> [] \<and> hd ws \<notin> {str ''subnet-mask'', str ''routers''}))"

definition lease_of :: "bytes \<times> bytes \<times> bytes \<times> bytes \<Rightarrow> dhcp_lease" where
  "lease_of = (\<lambda>(i, a, n, g). \<lparr>l_interface = Some i, l_address = Some a, l_gateway = Some g, l_netmask = Some n\<rparr>)"

definition lease_text :: "bytes \<times> bytes \<times> bytes \<times> bytes \<Rightarrow> bytes list \<Rightarrow> bytes list" where
  "lease_text = (\<lambda>(i, a, n, g) others.
    [file_line 0 [str ''lease'', str ''{''],
     file_line 2 [str ''interface'', [34] @ i @ [34, 59]],
     file_line 2 [str ''fixed-address'', a @ [59]],
     file_line 2 [str ''option'', str ''subnet-mask'', n @ [59]],
     file_line 2 [str ''option'', str ''routers'', g @ [59]]] @ others @
    [file_line 0 [str ''}'']])"

definition lease_ok :: "bytes \<times> bytes \<times> bytes \<times> bytes \<Rightarrow> bool" where
  "lease_ok = (\<lambda>(i, a, n, g). \<forall>w \<in> {i, a, n, g}. token w \<and> length w \<le> 60)"

lemma keyword_tokens:
  "list_all token [str ''lease'', str ''{'', str ''interface'', str ''fixed-address'', str ''option'', str ''subnet-mask'', str ''routers'', str ''}'']"
  "list_all (\<lambda>w. length w < 64) [str ''lease'', str ''{'', str ''interface'', str ''fixed-address'', str ''option'', str ''subnet-mask'', str ''routers'', str ''}'']"
  "distinct [str ''lease'', str ''{'', str ''interface'', str ''fixed-address'', str ''option'', str ''}'']"
  "str ''subnet-mask'' \<noteq> str ''routers''"
  "distinct [str ''}'', str ''option'', str ''fixed-address'', str ''interface'', str ''{'', str ''lease'']"
  "str ''routers'' \<noteq> str ''subnet-mask''"
  "list_all (\<lambda>w. w \<noteq> [] \<and> hd w \<noteq> 35) [str ''lease'', str ''interface'', str ''fixed-address'', str ''option'', str ''}'']"
  by code_simp+

lemma other_line_keeps:
  assumes "other_line line"
  obtains z' where "lease_line line z = Ret z'" "z_substreams z' = z_substreams z" "z_leases z' = z_leases z"
proof -
  obtain w ws where w: "scan_words 3 (takeWhile (\<lambda>c. c \<noteq> 0) line) = w # ws" "\<forall>x \<in> set (w # ws). length x < 64"
    "w \<notin> {str ''lease'', str ''fixed-address'', str ''interface''}"
    "w = str ''option'' \<longrightarrow> ws \<noteq> [] \<and> hd ws \<notin> {str ''subnet-mask'', str ''routers''}"
    using assms unfolding other_line_def by blast
  define y where "y = z\<lparr>z_type := w, z_val1 := (if ws \<noteq> [] then hd ws else z_val1 z),
    z_val2 := (if 1 < length ws then ws ! 1 else z_val2 z)\<rparr>"
  have "lease_line line z = lease_words y"
    using w(2) by (auto simp: lease_line_def w(1) y_def Let_def hd_conv_nth nth_Cons' neq_Nil_conv not_le)
  also have "lease_words y = Ret y" using w(3,4) by (auto simp: lease_words_def y_def Let_def)
  finally show ?thesis by (rule that) (simp_all add: y_def)
qed

lemma other_lines_keep:
  assumes "\<forall>l \<in> set ls. other_line l"
  obtains z' where "lease_lines ls z = Ret z'" "z_substreams z' = z_substreams z" "z_leases z' = z_leases z"
  using assms
proof (induction ls arbitrary: z thesis)
  case (Cons l ls)
  then obtain y where y: "lease_line l z = Ret y" "z_substreams y = z_substreams z" "z_leases y = z_leases z"
    using other_line_keeps by (metis list.set_intros(1))
  obtain z' where "lease_lines ls y = Ret z'" "z_substreams z' = z_substreams y" "z_leases z' = z_leases y"
    using Cons.IH [of y] Cons.prems(2) by auto
  then show ?case using y Cons.prems(1) by simp
qed simp

lemma lease_lines_append:
  "lease_lines (xs @ ys) z = (case lease_lines xs z of Overrun \<Rightarrow> Overrun | Stuck \<Rightarrow> Stuck | Ret y \<Rightarrow> lease_lines ys y)"
  by (induction xs arbitrary: z) (auto split: call.splits)

lemma line_words:
  assumes "\<forall>w \<in> set ws. token w \<and> length w < 64" "length ws \<le> 3" "ws \<noteq> []"
  shows "lease_line (file_line n ws) z = lease_words (z\<lparr>z_type := ws ! 0,
    z_val1 := (if 1 < length ws then ws ! 1 else z_val1 z), z_val2 := (if 2 < length ws then ws ! 2 else z_val2 z)\<rparr>)"
proof -
  have "scan_words 3 (takeWhile (\<lambda>c. c \<noteq> 0) (file_line n ws)) = ws" using scan_file_line [of ws n] assms by simp
  moreover have "\<not> (\<exists>w \<in> set ws. 64 \<le> length w)" using assms(1) by (auto simp: not_le)
  ultimately show ?thesis using assms(3) by (simp add: lease_line_def Let_def)
qed

lemma token_append: "token w \<Longrightarrow> \<forall>c \<in> set v. \<not> is_space c \<and> c \<noteq> 0 \<Longrightarrow> token (w @ v) \<and> token (v @ w)"
  by (auto simp: token_def)

lemma punctuation: "\<not> is_space 34" "\<not> is_space 59"
  by code_simp+

lemma strndup_address: "c_strndup (a @ [59]) (int (length (a @ [59])) - 1) = a"
  by (simp add: c_strndup_def)

lemma strndup_interface: "c_strndup (tl ([34] @ i @ [34, 59])) (int (length ([34] @ i @ [34, 59])) - 3) = i"
  by (simp add: c_strndup_def)

lemma put_lease_in:
  "z_substreams z = int k \<Longrightarrow> k < length (z_leases z) \<Longrightarrow>
    put_lease f z = Ret (z\<lparr>z_leases := (z_leases z)[k := f (z_leases z ! k)]\<rparr>)"
  by (simp add: put_lease_def Let_def)

lemma lease_keywords:
  "z_type z = str ''lease'' \<Longrightarrow> lease_words z = Ret (z\<lparr>z_substreams := z_substreams z + 1\<rparr>)"
  "z_type z = str ''}'' \<Longrightarrow> lease_words z = Ret z"
  "z_type z = str ''interface'' \<Longrightarrow> lease_words z =
    put_lease (\<lambda>l. l\<lparr>l_interface := Some (c_strndup (tl (z_val1 z)) (int (length (z_val1 z)) - 3))\<rparr>) z"
  "z_type z = str ''fixed-address'' \<Longrightarrow> lease_words z =
    put_lease (\<lambda>l. l\<lparr>l_address := Some (c_strndup (z_val1 z) (int (length (z_val1 z)) - 1))\<rparr>) z"
  "z_type z = str ''option'' \<Longrightarrow> z_val1 z = str ''subnet-mask'' \<Longrightarrow> lease_words z =
    put_lease (\<lambda>l. l\<lparr>l_netmask := Some (c_strndup (z_val2 z) (int (length (z_val2 z)) - 1))\<rparr>) z"
  "z_type z = str ''option'' \<Longrightarrow> z_val1 z = str ''routers'' \<Longrightarrow> lease_words z =
    put_lease (\<lambda>l. l\<lparr>l_gateway := Some (c_strndup (z_val2 z) (int (length (z_val2 z)) - 1))\<rparr>) z"
  using keyword_tokens unfolding lease_words_def by (simp_all add: Let_def)

lemma quoted_tokens:
  assumes "lease_ok (i, a, n, g)"
  shows "token ([34] @ i @ [34, 59])" "length ([34] @ i @ [34, 59]) < 64" "token (a @ [59])" "length (a @ [59]) < 64"
    "token (n @ [59])" "length (n @ [59]) < 64" "token (g @ [59])" "length (g @ [59]) < 64"
  using assms punctuation by (auto simp: lease_ok_def token_def)

lemma all_fields:
  "l\<lparr>l_interface := Some i, l_address := Some a, l_netmask := Some n, l_gateway := Some g\<rparr> = lease_of (i, a, n, g)"
  by (cases l) (simp add: lease_of_def)

text \<open>The four statements that \<open>readLease\<close> uses.\<close>

lemma lease_fields_read:
  assumes ok: "lease_ok (i, a, n, g)" and k: "z_substreams z = int k" "k < length (z_leases z)"
  obtains z' where "lease_lines [file_line 2 [str ''interface'', [34] @ i @ [34, 59]], file_line 2 [str ''fixed-address'', a @ [59]],
      file_line 2 [str ''option'', str ''subnet-mask'', n @ [59]], file_line 2 [str ''option'', str ''routers'', g @ [59]]] z = Ret z'"
    "z_substreams z' = int k" "z_leases z' = (z_leases z)[k := lease_of (i, a, n, g)]"
proof -
  note t = quoted_tokens [OF ok] and kw = keyword_tokens(1,2) [unfolded list.pred_inject]
  define y :: "(dhcp_lease \<Rightarrow> dhcp_lease) \<Rightarrow> bytes \<Rightarrow> bytes \<Rightarrow> bytes \<Rightarrow> lease_scan \<Rightarrow> lease_scan" where
    "y = (\<lambda>f t v w z. z\<lparr>z_type := t, z_val1 := v, z_val2 := w, z_leases := (z_leases z)[k := f (z_leases z ! k)]\<rparr>)"
  have y: "z_substreams (y f u v w x) = z_substreams x" "length (z_leases (y f u v w x)) = length (z_leases x)"
    "z_leases (y f u v w x) = (z_leases x)[k := f (z_leases x ! k)]" for f u v w x by (simp_all add: y_def)
  have 1: "lease_line (file_line 2 [str ''interface'', [34] @ i @ [34, 59]]) x =
      Ret (y (\<lambda>l. l\<lparr>l_interface := Some i\<rparr>) (str ''interface'') ([34] @ i @ [34, 59]) (z_val2 x) x)"
    if "z_substreams x = int k" "k < length (z_leases x)" for x
    using that t kw strndup_interface [of i] by (simp add: line_words lease_keywords put_lease_in y_def)
  have 2: "lease_line (file_line 2 [str ''fixed-address'', a @ [59]]) x =
      Ret (y (\<lambda>l. l\<lparr>l_address := Some a\<rparr>) (str ''fixed-address'') (a @ [59]) (z_val2 x) x)"
    if "z_substreams x = int k" "k < length (z_leases x)" for x
    using that t kw strndup_address [of a] by (simp add: line_words lease_keywords put_lease_in y_def)
  have 3: "lease_line (file_line 2 [str ''option'', str ''subnet-mask'', n @ [59]]) x =
      Ret (y (\<lambda>l. l\<lparr>l_netmask := Some n\<rparr>) (str ''option'') (str ''subnet-mask'') (n @ [59]) x)"
    if "z_substreams x = int k" "k < length (z_leases x)" for x
    using that t kw strndup_address [of n] by (simp add: line_words lease_keywords put_lease_in y_def)
  have 4: "lease_line (file_line 2 [str ''option'', str ''routers'', g @ [59]]) x =
      Ret (y (\<lambda>l. l\<lparr>l_gateway := Some g\<rparr>) (str ''option'') (str ''routers'') (g @ [59]) x)"
    if "z_substreams x = int k" "k < length (z_leases x)" for x
    using that t kw strndup_address [of g] by (simp add: line_words lease_keywords put_lease_in y_def)
  define z1 where "z1 = y (\<lambda>l. l\<lparr>l_interface := Some i\<rparr>) (str ''interface'') ([34] @ i @ [34, 59]) (z_val2 z) z"
  define z2 where "z2 = y (\<lambda>l. l\<lparr>l_address := Some a\<rparr>) (str ''fixed-address'') (a @ [59]) (z_val2 z1) z1"
  define z3 where "z3 = y (\<lambda>l. l\<lparr>l_netmask := Some n\<rparr>) (str ''option'') (str ''subnet-mask'') (n @ [59]) z2"
  define z4 where "z4 = y (\<lambda>l. l\<lparr>l_gateway := Some g\<rparr>) (str ''option'') (str ''routers'') (g @ [59]) z3"
  have s: "z_substreams z1 = int k" "k < length (z_leases z1)" "z_substreams z2 = int k" "k < length (z_leases z2)"
    "z_substreams z3 = int k" "k < length (z_leases z3)" using k by (simp_all add: z1_def z2_def z3_def y)
  have "lease_lines [file_line 2 [str ''interface'', [34] @ i @ [34, 59]], file_line 2 [str ''fixed-address'', a @ [59]],
      file_line 2 [str ''option'', str ''subnet-mask'', n @ [59]], file_line 2 [str ''option'', str ''routers'', g @ [59]]] z = Ret z4"
    unfolding lease_lines.simps 1 [OF k, folded z1_def] call.case 2 [OF s(1,2), folded z2_def] 3 [OF s(3,4), folded z3_def]
      4 [OF s(5,6), folded z4_def] ..
  then show ?thesis
    by (rule that) (use k in \<open>simp_all add: z4_def z3_def z2_def z1_def y all_fields\<close>)
qed

lemma lease_text_read:
  assumes ok: "lease_ok l" and others: "\<forall>x \<in> set others. other_line x"
    and k: "z_substreams z = int k - 1" "k < length (z_leases z)"
  obtains z' where "lease_lines (lease_text l others) z = Ret z'" "z_substreams z' = int k" "z_leases z' = (z_leases z)[k := lease_of l]"
proof -
  obtain i a n g where l: "l = (i, a, n, g)" by (metis prod_cases4)
  note kw = keyword_tokens(1,2) [unfolded list.pred_inject]
  obtain z1 where 1: "lease_line (file_line 0 [str ''lease'', str ''{'']) z = Ret z1" "z_substreams z1 = int k" "z_leases z1 = z_leases z"
    using kw k by (simp add: line_words lease_keywords)
  then obtain z2 where 2: "lease_lines [file_line 2 [str ''interface'', [34] @ i @ [34, 59]], file_line 2 [str ''fixed-address'', a @ [59]],
      file_line 2 [str ''option'', str ''subnet-mask'', n @ [59]], file_line 2 [str ''option'', str ''routers'', g @ [59]]] z1 = Ret z2"
    "z_substreams z2 = int k" "z_leases z2 = (z_leases z)[k := lease_of l]"
    using lease_fields_read [OF ok [unfolded l], of z1 k] k(2) unfolding l by metis
  obtain z3 where 3: "lease_lines others z2 = Ret z3" "z_substreams z3 = int k" "z_leases z3 = (z_leases z)[k := lease_of l]"
    using other_lines_keep [OF others, of z2] 2 by metis
  have 4: "lease_line (file_line 0 [str ''}'']) z3 = Ret (z3\<lparr>z_type := str ''}''\<rparr>)"
    using kw by (simp add: line_words lease_keywords)
  define fs where "fs = [file_line 2 [str ''interface'', [34] @ i @ [34, 59]], file_line 2 [str ''fixed-address'', a @ [59]],
      file_line 2 [str ''option'', str ''subnet-mask'', n @ [59]], file_line 2 [str ''option'', str ''routers'', g @ [59]]]"
  have "lease_text l others = [file_line 0 [str ''lease'', str ''{'']] @ fs @ others @ [file_line 0 [str ''}'']]"
    by (simp add: lease_text_def l fs_def)
  then have "lease_lines (lease_text l others) z = Ret (z3\<lparr>z_type := str ''}''\<rparr>)"
    using 2(1) [folded fs_def] by (simp add: 1(1) 3(1) 4 lease_lines_append)
  then show ?thesis by (rule that) (simp_all add: 3)
qed

lemma leases_read:
  assumes "\<forall>(l, others) \<in> set ls. lease_ok l \<and> (\<forall>x \<in> set others. other_line x)"
    and "z_substreams z = int k - 1" "k + length ls \<le> length (z_leases z)"
  shows "\<exists>z'. lease_lines (concat (map (\<lambda>(l, others). lease_text l others) ls)) z = Ret z' \<and> z_substreams z' = int (k + length ls) - 1 \<and>
    z_leases z' = take k (z_leases z) @ map (lease_of \<circ> fst) ls @ drop (k + length ls) (z_leases z)"
  using assms
proof (induction ls arbitrary: z k)
  case (Cons p ls)
  obtain l others where p: "p = (l, others)" by (cases p)
  obtain y where y: "lease_lines (lease_text l others) z = Ret y" "z_substreams y = int k" "z_leases y = (z_leases z)[k := lease_of l]"
    using lease_text_read [of l others z k] Cons.prems unfolding p by auto
  obtain z' where "lease_lines (concat (map (\<lambda>(l, others). lease_text l others) ls)) y = Ret z'"
    "z_substreams z' = int (k + 1 + length ls) - 1"
    "z_leases z' = take (k + 1) (z_leases y) @ map (lease_of \<circ> fst) ls @ drop (k + 1 + length ls) (z_leases y)"
    using Cons.IH [of y "k + 1"] Cons.prems y by auto
  moreover have "take (k + 1) (z_leases y) = take k (z_leases z) @ [lease_of l]"
    using Cons.prems(3) by (simp add: y(3) take_Suc_conv_app_nth)
  ultimately show ?case using y by (simp add: p lease_lines_append)
qed simp

lemma readLease_text:
  assumes "\<forall>(l, others) \<in> set ls. lease_ok l \<and> (\<forall>x \<in> set others. other_line x)" "length ls \<le> length leases"
  shows "readLease stack (Some (concat (map (\<lambda>(l, others). lease_text l others) ls))) leases =
    Ret (int (length ls), map (lease_of \<circ> fst) ls @ drop (length ls) leases)"
  using leases_read [OF assms(1), of "\<lparr>z_type = fst stack, z_val1 = fst (snd stack), z_val2 = snd (snd stack),
    z_substreams = -1, z_leases = leases\<rparr>" 0] assms(2) by (auto simp: readLease_def)

section \<open>Files that are read otherwise\<close>

text \<open>A field before the first lease, and a lease more than the array has, are written outside it.\<close>

lemma field_before_lease:
  "lease_ok (i, a, n, g) \<Longrightarrow> readLease stack (Some (file_line 2 [str ''fixed-address'', a @ [59]] # ls)) leases = Overrun"
  using quoted_tokens [of i a n g] keyword_tokens(1,2) [unfolded list.pred_inject]
  by (simp add: readLease_def line_words lease_keywords put_lease_def)

text \<open>A blank line repeats the words of the line before: after the first line of a lease it counts it again.\<close>

lemma blank_line_counts:
  "lease_line (file_line 0 [str ''lease'', str ''{'']) z = Ret y \<Longrightarrow> z_substreams y = z_substreams z + 1 \<and>
    lease_line [10] y = Ret (y\<lparr>z_substreams := z_substreams y + 1\<rparr>)"
proof -
  assume l: "lease_line (file_line 0 [str ''lease'', str ''{'']) z = Ret y"
  then have y: "z_type y = str ''lease''" "z_substreams y = z_substreams z + 1"
    using keyword_tokens(1,2) [unfolded list.pred_inject] by (auto simp: line_words lease_keywords)
  have "scan_words 3 (takeWhile (\<lambda>c. c \<noteq> 0) [10]) = []" using space_chars by (simp add: numeral_eq_Suc)
  then have "lease_line [10] y = lease_words y" by (simp add: lease_line_def Let_def)
  with y show ?thesis by (simp add: lease_keywords)
qed

section \<open>The routes of a lease\<close>

lemma maskbits_found: "bit m j \<Longrightarrow> \<forall>i < j. \<not> bit m i \<Longrightarrow> s \<le> j \<Longrightarrow> maskbits_loop m s = Some (32 - int j)"
proof (induction m s rule: maskbits_loop.induct)
  case (1 m s)
  have j: "j < 32" using bit_imp_le_length [OF 1(2)] by simp
  have b: "(ucast m :: u64) AND push_bit s 1 = 0 \<longleftrightarrow> \<not> bit m s"
    using 1(4) j by (simp add: push_bit_eq_mult and_exp_eq_0_iff_not_bit bit_unsigned_iff)
  show ?case
  proof (cases "s = j")
    case True
    then show ?thesis using 1(2) j b by (simp add: maskbits_loop.simps [of m j])
  next
    case False
    then have "\<not> bit m s" "s + 1 \<le> j" using 1(3,4) by auto
    then show ?thesis using 1(1) [OF _ _ 1(2,3)] j b by (simp add: maskbits_loop.simps [of m s])
  qed
qed

lemma maskbits_zero: "maskbits_loop 0 s = None"
  by (induction "0 :: u32" s rule: maskbits_loop.induct) (simp add: maskbits_loop.simps [of 0])

lemma prefix_mask_bits: "k \<le> 32 \<Longrightarrow> maskbits_loop (NOT (mask (32 - k))) 0 = (if k = 0 then None else Some (int k))"
proof (cases "k = 0")
  case True
  have "NOT (mask 32) = (0 :: u32)" by (rule bit_word_eqI) (simp add: bit_push_bit_iff bit_not_iff bit_mask_iff)
  with True show ?thesis using maskbits_zero by simp
next
  case False
  assume "k \<le> 32"
  with False have "maskbits_loop (NOT (mask (32 - k))) 0 = Some (32 - int (32 - k))"
    by (intro maskbits_found) (auto simp: bit_not_iff bit_mask_iff)
  with False \<open>k \<le> 32\<close> show ?thesis by simp
qed

lemma inet_ntoa_length: "length (inet_ntoa A) \<le> 15"
proof -
  have "0 \<le> uint x \<and> uint x < 1000" for x :: u8 using uint_lt2p [of x] by simp
  then show ?thesis unfolding inet_ntoa_def by (intro show_dotted_length) blast
qed

lemma run_commands_all:
  "\<forall>ps \<in> set pss. None \<notin> set ps \<and> length (concat (map the ps)) < 150 \<Longrightarrow>
    run_commands pss cmds = Ret (cmds @ map (\<lambda>ps. concat (map the ps)) pss)"
  by (induction pss arbitrary: cmds) (auto simp: run_command_def)

lemma command_lengths:
  "length (str ''ip route add table '') = 19" "length (str '' '') = 1" "length (str ''/'') = 1" "length (str '' dev '') = 5"
  "length (str '' proto static src '') = 18" "length (str '' default via '') = 13" "length (str '' proto static'') = 13"
  "length (str ''iptables -t mangle -A OUTPUT -s '') = 32" "length (str '' -j MARK --set-mark '') = 20"
  "length (str ''ip rule add fwmark '') = 19" "length (str '' table '') = 7" "length (str ''ip route flush cache'') = 20"
  by (simp_all add: str_def)

text \<open>The commands for a lease in the table \<open>t\<close>, whose netmask has \<open>k\<close> bits.\<close>

definition route_commands :: "bytes \<Rightarrow> bytes \<Rightarrow> bytes \<Rightarrow> u32 \<Rightarrow> nat \<Rightarrow> int \<Rightarrow> bytes list" where
  "route_commands i a g network k t =
    [str ''ip route flush table '' @ show_int t,
     str ''ip route add table '' @ show_int t @ str '' '' @ inet_ntoa (be32 network) @ str ''/'' @ show_int (int k) @
       str '' dev '' @ i @ str '' proto static src '' @ a,
     str ''ip route add table '' @ show_int t @ str '' default via '' @ g @ str '' dev '' @ i @ str '' proto static'',
     str ''iptables -t mangle -A OUTPUT -s '' @ a @ str '' -j MARK --set-mark '' @ show_int t,
     str ''ip rule add fwmark '' @ show_int t @ str '' table '' @ show_int t,
     str ''ip route flush cache'']"

lemma lease_routes:
  assumes ad: "aton a = Some A" "length A = 4" and nm: "aton n = Some (be32 (NOT (mask (32 - k))))" "k \<le> 32"
    and len: "length i \<le> 15" "length a \<le> 15" "length g \<le> 15" and t: "0 \<le> t" "t < 1000"
  shows "make_new_table aton le (lease_of (i, a, n, g)) t t cmds =
    (if k = 0 then Stuck else Ret (Some (cmds @ route_commands i a g (of_be32 A AND NOT (mask (32 - k))) k t)))"
proof -
  have A: "htonl le (of_mem32 le A) = of_be32 A" using of_mem32_htonl [OF ad(2)] by simp
  have N: "htonl le (of_mem32 le (be32 w)) = w" for w by simp
  show ?thesis
  proof (cases "k = 0")
    case True
    then show ?thesis
      unfolding make_new_table_def using prefix_mask_bits [OF nm(2)] nm(1) ad(1)
      by (simp only: lease_of_def prod.case option.case dhcp_lease.select_convs Let_def N if_True) simp
  next
    case False
    then have m: "maskbits_loop (NOT (mask (32 - k))) 0 = Some (int k)" using prefix_mask_bits [OF nm(2)] by simp
    define net where "net = inet_ntoa (be32 (of_be32 A AND NOT (mask (32 - k))))"
    have "length (show_int t) \<le> 3" "length (show_int (int k)) \<le> 3" "length net \<le> 15"
      using show_int_length [of t] show_int_length [of "int k"] t nm(2) inet_ntoa_length by (simp_all add: net_def)
    then have c: "run_commands
        [[lit ''ip route add table '', num t, lit '' '', Some net, lit ''/'', num (int k), lit '' dev '', Some i, lit '' proto static src '', Some a],
         [lit ''ip route add table '', num t, lit '' default via '', Some g, lit '' dev '', Some i, lit '' proto static''],
         [lit ''iptables -t mangle -A OUTPUT -s '', Some a, lit '' -j MARK --set-mark '', num t],
         [lit ''ip rule add fwmark '', num t, lit '' table '', num t], [lit ''ip route flush cache'']] (cmds @ [str ''ip route flush table '' @ show_int t]) =
      Ret (cmds @ route_commands i a g (of_be32 A AND NOT (mask (32 - k))) k t)"
      using len by (subst run_commands_all) (simp_all add: lit_def num_def command_lengths route_commands_def net_def [symmetric])
    show ?thesis
      unfolding make_new_table_def lease_of_def prod.case dhcp_lease.select_convs option.case ad(1) nm(1) Let_def A N m mem32_htonl
        net_def [symmetric] c call.case using False by simp
  qed
qed

section \<open>A whole file\<close>

lemma add_tables_all:
  "(\<And>k cs. k \<in> set ks \<Longrightarrow> make_new_table aton le (leases ! k) (int k + 1) (int k + 1) cs = Ret (Some (cs @ f k))) \<Longrightarrow>
    add_tables aton le leases ks cmds = Ret (Some (cmds @ concat (map f ks)))"
  by (induction ks arbitrary: cmds) auto

text \<open>A lease that can be set up: its strings are short, its address and its netmask, of at least one bit, are understood.\<close>

definition routable :: "(bytes \<Rightarrow> bytes option) \<Rightarrow> (bytes \<Rightarrow> nat) \<Rightarrow> bytes \<times> bytes \<times> bytes \<times> bytes \<Rightarrow> bool" where
  "routable aton bits = (\<lambda>(i, a, n, g). length i \<le> 15 \<and> length a \<le> 15 \<and> length g \<le> 15 \<and>
    (\<exists>A. aton a = Some A \<and> length A = 4) \<and> 1 \<le> bits n \<and> bits n \<le> 32 \<and> aton n = Some (be32 (NOT (mask (32 - bits n)))))"

definition routes_of :: "(bytes \<Rightarrow> bytes option) \<Rightarrow> (bytes \<Rightarrow> nat) \<Rightarrow> nat \<Rightarrow> bytes \<times> bytes \<times> bytes \<times> bytes \<Rightarrow> bytes list" where
  "routes_of aton bits t = (\<lambda>(i, a, n, g).
    route_commands i a g (of_be32 (the (aton a)) AND NOT (mask (32 - bits n))) (bits n) (int t + 1))"

lemma file_routes:
  assumes ls: "\<forall>(l, others) \<in> set ls. lease_ok l \<and> (\<forall>x \<in> set others. other_line x)"
    and len: "length ls \<le> length leases" "length ls < 999" and ok: "\<forall>(l, others) \<in> set ls. routable aton bits l"
  shows "add_routing_tables aton le stack leases (Some (Some (concat (map (\<lambda>(l, others). lease_text l others) ls)))) =
    Ret (Some (concat (map (\<lambda>t. routes_of aton bits t (fst (ls ! t))) [0..<length ls]), int (length ls)))"
proof -
  let ?L = "map (lease_of \<circ> fst) ls @ drop (length ls) leases"
  have "make_new_table aton le (?L ! t) (int t + 1) (int t + 1) cs = Ret (Some (cs @ routes_of aton bits t (fst (ls ! t))))"
    if t: "t \<in> set [0..<length ls]" for t cs
  proof -
    obtain i a n g where l: "fst (ls ! t) = (i, a, n, g)" by (metis prod_cases4)
    have "ls ! t \<in> set ls" using t by simp
    then have "routable aton bits (fst (ls ! t))" using ok by auto
    then obtain A where r: "aton a = Some A" "length A = 4" "aton n = Some (be32 (NOT (mask (32 - bits n))))" "bits n \<le> 32" "bits n \<noteq> 0"
      "length i \<le> 15" "length a \<le> 15" "length g \<le> 15" unfolding l routable_def by auto
    have "?L ! t = lease_of (i, a, n, g)" using t l by (simp add: nth_append)
    then show ?thesis
      using lease_routes [where aton = aton and le = le and t = "int t + 1", OF r(1,2,3,4,6,7,8)] t len(2) r(1,5)
      by (simp add: l routes_of_def)
  qed
  from add_tables_all [of "[0..<length ls]" aton le ?L "\<lambda>t. routes_of aton bits t (fst (ls ! t))", OF this]
  show ?thesis using readLease_text [OF ls len(1), of stack] by (simp add: add_routing_tables_def)
qed

end
