(* ===== verification/LeaseInputs.thy ===== *)
theory LeaseInputs
  imports Leases
begin

text \<open>A lease file for the witnesses: one lease, with a statement that is not read.\<close>

definition w_lease :: "bytes \<times> bytes \<times> bytes \<times> bytes" where
  "w_lease = (str ''eth0'', str ''10.0.0.2'', str ''255.255.255.0'', str ''10.0.0.1'')"

definition w_renew :: bytes where
  "w_renew = str ''  renew 2 2012/10/16 05:09:31;'' @ [10]"

definition w_no_lease :: dhcp_lease where
  "w_no_lease = \<lparr>l_interface = None, l_address = None, l_gateway = None, l_netmask = None\<rparr>"

definition w_aton :: "bytes \<Rightarrow> bytes option" where
  "w_aton s = (if s = str ''10.0.0.2'' then Some [10, 0, 0, 2] else if s = str ''255.255.255.0'' then Some [255, 255, 255, 0] else None)"

lemma w_renew_words: "scan_words 3 (takeWhile (\<lambda>c. c \<noteq> 0) w_renew) = [str ''renew'', str ''2'', str ''2012/10/16'']"
  by code_simp

lemma w_keywords: "str ''renew'' \<notin> {str ''lease'', str ''fixed-address'', str ''interface''}" "str ''renew'' \<noteq> str ''option''"
  by code_simp+

lemma w_lease_ok: "list_all (\<lambda>w. token w \<and> length w \<le> 15) [str ''eth0'', str ''10.0.0.2'', str ''255.255.255.0'', str ''10.0.0.1'']"
  by code_simp

lemma w_aton_values: "w_aton (str ''10.0.0.2'') = Some [10, 0, 0, 2]" "w_aton (str ''255.255.255.0'') = Some (be32 (NOT (mask 8)))"
  by code_simp+

lemma w_lease_facts: "lease_ok w_lease" "other_line w_renew" "routable w_aton (\<lambda>n. 24) w_lease"
proof -
  show "lease_ok w_lease" using w_lease_ok by (simp add: lease_ok_def w_lease_def)
  show "other_line w_renew"
    unfolding other_line_def w_renew_words using w_keywords by (auto simp: str_def)
  show "routable w_aton (\<lambda>n. 24) w_lease" using w_lease_ok w_aton_values by (simp add: routable_def w_lease_def)
qed

lemma w_lease_route:
  "routes_of w_aton (\<lambda>n. 24) 0 w_lease ! 1 = str ''ip route add table 1 10.0.0.0/24 dev eth0 proto static src 10.0.0.2''"
  by code_simp

end
