(* ===== verification/DaemonMain.thy ===== *)
theory DaemonMain
  imports Leases
begin

text \<open>
  \<open>main\<close> of the daemons \<open>src/proxy_local.c\<close> and \<open>src/proxy_remote.c\<close> up to the accept loop:
  the command line, \<open>shutdown\<close> and \<open>start\<close>.  The two programs differ in their names, in the table
  of \<open>load_config\<close> and in the routing tables of the local one.  Messages and the log are left out.
\<close>

section \<open>The command line\<close>

datatype action = ACT_START | ACT_SHUTDOWN

datatype cmdline = ArgExit int | ArgFault | ArgsOk bytes bool "action option"

text \<open>
  \<open>-c\<close> copies the next argument into the 256 bytes of \<open>sz_cfgfile\<close>; after the last argument
  \<open>argv\<close> has NULL.
\<close>

fun parse_args :: "bytes list \<Rightarrow> bytes \<Rightarrow> bool \<Rightarrow> action option \<Rightarrow> cmdline" where
  "parse_args [] cfgfile force_load act = ArgsOk cfgfile force_load act"
| "parse_args (a # as) cfgfile force_load act =
    (if a \<in> {str ''-h'', str ''--help''} then ArgExit 1
     else if a \<in> {str ''-v'', str ''--version''} then ArgExit 1
     else if a \<in> {str ''-c'', str ''--config''} then
       (case as of [] \<Rightarrow> ArgFault
        | f # as \<Rightarrow> if 256 \<le> length f then ArgFault else parse_args as f force_load act)
     else if a \<in> {str ''-f'', str ''--forceload''} then parse_args as cfgfile True act
     else if a = str ''start'' then parse_args as cfgfile force_load (Some ACT_START)
     else if a = str ''shutdown'' then parse_args as cfgfile force_load (Some ACT_SHUTDOWN)
     else ArgExit 2)"

section \<open>The program\<close>

text \<open>
  What the program meets: the configuration files, the PID files with their contents, the
  results of \<open>kill\<close>, \<open>open_serv_sock\<close>, \<open>fork\<close> and of creating the PID file, and its own number
  after the \<open>fork\<close>.
\<close>

datatype forked = ForkChild | ForkParent | ForkFails

record main_env =
  m_files :: "bytes \<Rightarrow> bytes list option"
  m_pids :: "bytes \<Rightarrow> bytes option"
  m_kill :: bool
  m_serve :: int
  m_fork :: forked
  m_create :: bool
  m_self :: nat

text \<open>What it does: a signal to a process group, the routing tables, the PID file.\<close>

datatype deed = Kill int int | RemoveTables | AddTables | WritePid bytes bytes | Unlink bytes

datatype main_end = Exit int | MainFault | MainHangs | Serves

record program =
  p_cfgfile :: bytes
  p_pidfile :: bytes
  p_load :: "bytes list option \<Rightarrow> (config \<times> t_proxy option) option call"
  p_tables :: bool

definition proxy_local :: "(bytes \<Rightarrow> bytes option) \<Rightarrow> int \<Rightarrow> program" where
  "proxy_local host port0 = \<lparr>p_cfgfile = str ''/etc/ctcp/proxy_local.conf'', p_pidfile = str ''/var/run/proxy_local.pid'',
    p_load = load_config_local host port0, p_tables = True\<rparr>"

definition proxy_remote :: "(bytes \<Rightarrow> bytes option) \<Rightarrow> int \<Rightarrow> program" where
  "proxy_remote host port0 = \<lparr>p_cfgfile = str ''/etc/ctcp/proxy_remote.conf'', p_pidfile = str ''/var/run/proxy_remote.pid'',
    p_load = load_config_remote host port0, p_tables = False\<rparr>"

definition ERR_NEGTIME :: int where "ERR_NEGTIME = 2"
definition SIGTERM :: int where "SIGTERM = 15"
definition SIGKILL :: int where "SIGKILL = 9"

text \<open>\<open>lease_file\<close> is NULL, so the calls for the routing tables succeed without a command.\<close>

definition main_shutdown :: "program \<Rightarrow> main_env \<Rightarrow> bytes \<Rightarrow> deed list \<times> main_end" where
  "main_shutdown pg e pidfile =
    (let ds = (if p_tables pg then [RemoveTables] else []) in
     case m_pids e pidfile of
       None \<Rightarrow> (ds, Exit 2)
     | Some content \<Rightarrow>
         (case scan_unsigned content of
            None \<Rightarrow> (ds, Exit 2)
          | Some res \<Rightarrow>
              if res \<le> 0 then (ds, Exit 2)
              else if \<not> m_kill e then (ds @ [Kill (- res) SIGTERM], Exit 2)
              else (ds @ [Kill (- res) SIGTERM, Kill (- res) SIGKILL], Exit 0)))"

definition main_start :: "program \<Rightarrow> main_env \<Rightarrow> bool \<Rightarrow> bytes \<Rightarrow> deed list \<times> main_end" where
  "main_start pg e force_load pidfile =
    (if m_pids e pidfile \<noteq> None \<and> \<not> force_load then ([], Exit 2)
     else if m_serve e \<noteq> ERR_NONE then ([], Exit (m_serve e))
     else
       let ds = (if p_tables pg then [AddTables] else []) in
       case m_fork e of
         ForkFails \<Rightarrow> (ds, Exit 1)
       | ForkParent \<Rightarrow> (ds, Exit 0)
       | ForkChild \<Rightarrow> (ds @ (if m_create e then [WritePid pidfile (show_int (int (m_self e)))] else []), Serves))"

definition daemon_main :: "program \<Rightarrow> main_env \<Rightarrow> bytes list \<Rightarrow> deed list \<times> main_end" where
  "daemon_main pg e args =
    (case parse_args args (p_cfgfile pg) False None of
       ArgExit r \<Rightarrow> ([], Exit r)
     | ArgFault \<Rightarrow> ([], MainFault)
     | ArgsOk cfgfile force_load None \<Rightarrow> ([], Exit 1)
     | ArgsOk cfgfile force_load (Some act) \<Rightarrow>
         (case p_load pg (m_files e cfgfile) of
            Overrun \<Rightarrow> ([], MainFault)
          | Stuck \<Rightarrow> ([], MainHangs)
          | Ret None \<Rightarrow> ([], Exit 2)
          | Ret (Some (cf, _)) \<Rightarrow>
              let pidfile = (case cf_str cf (str ''PID_FILE'') of None \<Rightarrow> p_pidfile pg | Some f \<Rightarrow> f)
              in if act = ACT_SHUTDOWN then main_shutdown pg e pidfile else main_start pg e force_load pidfile))"

definition main_local :: "(bytes \<Rightarrow> bytes option) \<Rightarrow> int \<Rightarrow> main_env \<Rightarrow> bytes list \<Rightarrow> deed list \<times> main_end" where
  "main_local host port0 = daemon_main (proxy_local host port0)"

definition main_remote :: "(bytes \<Rightarrow> bytes option) \<Rightarrow> int \<Rightarrow> main_env \<Rightarrow> bytes list \<Rightarrow> deed list \<times> main_end" where
  "main_remote host port0 = daemon_main (proxy_remote host port0)"

text \<open>
  The handler of signals, in the daemon or in the process of a connection: the count of
  connections, what is done, and the code of \<open>exit\<close>.  \<open>SigChld\<close> finds \<open>n\<close> children that have ended.
\<close>

datatype signal = SigTerm | SigChld nat | SigAlrm

fun handle_sig :: "bool \<Rightarrow> bytes \<Rightarrow> signal \<Rightarrow> int \<Rightarrow> int \<times> deed list \<times> int option" where
  "handle_sig child pidfile SigTerm cnt = (cnt, if child then [] else [Unlink pidfile], Some 0)"
| "handle_sig child pidfile (SigChld n) cnt = (cnt - int n, [], None)"
| "handle_sig child pidfile SigAlrm cnt = (cnt, [], Some (if child then ERR_NEGTIME else 0))"

section \<open>Starting and shutting down\<close>

lemma parse_append:
  "parse_args as c l act = ArgsOk c' l' act' \<Longrightarrow> parse_args (as @ bs) c l act = parse_args bs c' l' act'"
proof (induction as c l act rule: parse_args.induct)
  case (2 a as c l act)
  let ?o = "\<lambda>s t. a \<in> {s, t}"
  note IH = 2(1-4) and p = 2(5)
  consider "?o (str ''-h'') (str ''--help'')"
    | "\<not> ?o (str ''-h'') (str ''--help'')" "?o (str ''-v'') (str ''--version'')"
    | "\<not> ?o (str ''-h'') (str ''--help'')" "\<not> ?o (str ''-v'') (str ''--version'')" "?o (str ''-c'') (str ''--config'')"
    | "\<not> ?o (str ''-h'') (str ''--help'')" "\<not> ?o (str ''-v'') (str ''--version'')" "\<not> ?o (str ''-c'') (str ''--config'')"
    by blast
  then show ?case
  proof cases
    case 1
    then show ?thesis using p by (simp only: parse_args.simps if_True cmdline.distinct)
  next
    case 2
    then show ?thesis using p by (simp only: parse_args.simps if_True if_False cmdline.distinct)
  next
    case 3
    note q = 3
    show ?thesis
    proof (cases as)
      case Nil
      then show ?thesis using p q by (simp only: parse_args.simps if_True if_False list.case cmdline.distinct)
    next
      case (Cons f fs)
      then have f: "\<not> 256 \<le> length f" "parse_args fs f l act = ArgsOk c' l' act'"
        using p q by (simp_all only: parse_args.simps if_True if_False list.case cmdline.distinct simp_thms split: if_splits)
      show ?thesis
        using IH(1) [OF q Cons f(1) f(2)] q f(1)
        by (simp only: Cons append_Cons parse_args.simps if_True if_False list.case)
    qed
  next
    case 4
    then show ?thesis
      using IH(2-4) p by (simp only: append_Cons parse_args.simps if_True if_False cmdline.distinct simp_thms split: if_splits)
  qed
qed simp

lemma scan_pid: "n < 2 ^ 31 \<Longrightarrow> scan_unsigned (show_int (int n)) = Some (int n)"
  by (simp add: scan_unsigned_def scan_show_int)

lemma action_args:
  "parse_args [str ''start''] c l act = ArgsOk c l (Some ACT_START)" "parse_args [str ''shutdown''] c l act = ArgsOk c l (Some ACT_SHUTDOWN)"
  by (simp_all add: str_def)

text \<open>
  What \<open>shutdown\<close> kills is what \<open>start\<close> has left running, if both use one configuration and the
  PID file holds what was written.
\<close>

lemma shutdown_kills:
  assumes opts: "parse_args opts (p_cfgfile pg) False None = ArgsOk c l act"
    and start: "daemon_main pg e (opts @ [str ''start'']) = (ds, Serves)" and w: "WritePid file content \<in> set ds"
    and same: "m_files e' c = m_files e c" "m_pids e' file = Some content" "m_kill e'" and pid: "0 < m_self e" "m_self e < 2 ^ 31"
  shows "daemon_main pg e' (opts @ [str ''shutdown'']) =
    ((if p_tables pg then [RemoveTables] else []) @ [Kill (- int (m_self e)) SIGTERM, Kill (- int (m_self e)) SIGKILL], Exit 0)"
proof -
  have p: "parse_args (opts @ [str ''start'']) (p_cfgfile pg) False None = ArgsOk c l (Some ACT_START)"
    "parse_args (opts @ [str ''shutdown'']) (p_cfgfile pg) False None = ArgsOk c l (Some ACT_SHUTDOWN)"
    unfolding parse_append [OF opts] by (rule action_args)+
  obtain cf px where cf: "p_load pg (m_files e c) = Ret (Some (cf, px))"
    using start unfolding daemon_main_def p by (auto split: call.splits option.splits)
  define pidfile where "pidfile = (case cf_str cf (str ''PID_FILE'') of None \<Rightarrow> p_pidfile pg | Some f \<Rightarrow> f)"
  have "main_start pg e l pidfile = (ds, Serves)"
    using start unfolding daemon_main_def p by (simp add: cf pidfile_def)
  then have "file = pidfile" "content = show_int (int (m_self e))"
    using w by (auto simp: main_start_def Let_def split: if_splits forked.splits)
  then have "main_shutdown pg e' pidfile =
      ((if p_tables pg then [RemoveTables] else []) @ [Kill (- int (m_self e)) SIGTERM, Kill (- int (m_self e)) SIGKILL], Exit 0)"
    using same pid scan_pid [of "m_self e"] by (simp add: main_shutdown_def Let_def)
  then show ?thesis unfolding daemon_main_def p by (simp add: same(1) cf pidfile_def)
qed

text \<open>An input: empty files, and a process that serves as number 4711.\<close>

definition w_main_env :: main_env where
  "w_main_env = \<lparr>m_files = (\<lambda>_. Some []), m_pids = (\<lambda>_. None), m_kill = True, m_serve = ERR_NONE, m_fork = ForkChild,
    m_create = True, m_self = 4711\<rparr>"

lemma w_started:
  "parse_args [str ''-f''] c False None = ArgsOk c True None"
  "daemon_main (proxy_local (\<lambda>_. None) 0) w_main_env [str ''-f'', str ''start''] =
    ([AddTables, WritePid (str ''/var/run/proxy_local.pid'') (show_int 4711)], Serves)"
proof -
  show f: "parse_args [str ''-f''] c False None = ArgsOk c True None" for c by (simp add: str_def)
  have "parse_args [str ''-f'', str ''start''] c False None = ArgsOk c True (Some ACT_START)" for c
    using parse_append [OF f, of "[str ''start'']"] action_args by simp
  then show "daemon_main (proxy_local (\<lambda>_. None) 0) w_main_env [str ''-f'', str ''start''] =
      ([AddTables, WritePid (str ''/var/run/proxy_local.pid'') (show_int 4711)], Serves)"
    by (simp add: daemon_main_def proxy_local_def w_main_env_def main_start_def load_config_local_def load_config_def
        config_init_def Let_def)
qed

end
