(* ===== verification/Spec2Isabelle.thy ===== *)
theory Spec2Isabelle
  imports ProxyInputs SesInputs ThrPool MD5 LeaseInputs DaemonMain "HOL-Library.Sublist"
begin

text \<open>
CTCP is a reliable byte stream over UDP that codes packets with random linear network
  coding, so that a receiver needs any 32 independent packets of a block and not each
  packet once.  The server (\<open>src/src/srvctcp.c\<close>) sends and the client
  (\<open>src/src/clictcp.c\<close>) receives; both use \<open>util.c\<close> (packets, arithmetic, buffers),
  \<open>fifo.c\<close>, and the server \<open>qbuffer.c\<close> and \<open>thr_pool.c\<close>.  Their users are a pair of SOCKS
  proxies: the local one (\<open>proxy_local.c\<close>, \<open>child_local.c\<close>) accepts applications, connects
  to the remote one (\<open>proxy_remote.c\<close>, \<open>child_remote.c\<close>) as its upstream proxy
  (\<open>up_proxy.c\<close>), and takes the target's bytes from CTCP; the other direction is TCP.

  Parts and theories.  Each theory names the functions it translates in its own text.
  Prelude: word types, the macros MIN and MAX, \<open>memcpy\<close>.  GField: the tables and
  products of GF(256), and the field they form as an instance of the class.  LinComb:
  linear combinations of packets.  Wire: both packet types, their memory image, byte
  order, marshalling.  FastRand: the generator of coefficients and its sharing between
  threads.  Ring, Fifo, Qbuffer: the circular buffers, as interpretations of a byte
  stream and of a deque.  SkbPool: the free list of packet buffers.  ThrPool: the worker
  threads as a step relation.  Encoder: \<open>readBlock\<close> and \<open>coding_job\<close>.  Decoder,
  Elimination: the rows of a block, Gaussian elimination and back substitution.
  Receiver, Delivery: \<open>bldack\<close> with all it calls and the invariant of the window of
  blocks.  EndToEnd: the packets of the encoder are those the decoder expects.
  Congestion: the state of a path, its estimators and its window.  Sender, SendStream:
  \<open>send_ctcp\<close>, \<open>handle_ack\<close>, \<open>send_segs\<close>.  SrvConn: listening, the thread
  \<open>server_worker\<close>, timeouts, closing.  CliConn: \<open>connect_ctcp\<close>, the thread
  \<open>handle_connection\<close>, reading and closing.  Buffers: which packet buffers a block and its
  queue of coded packets own.  SendRun, Evolve: the invariant of everything the server has
  sent, kept by its thread, its workers and the application.  Session: both ends, the workers
  and the network in one inductive step relation.  Inputs, ConnInputs, SesInputs: the concrete
  inputs of the witnesses.

  CString: \<open>char\<close> as a signed number, \<open>sprintf\<close> of numbers, accesses to arrays.  Base64:
  the encoder of credentials.  UpProxy, UpSession: \<open>proxy_connect\<close>, its state machine for
  three types of proxy, and whole sessions.  Socks: \<open>readnb\<close>, \<open>writenb\<close>, \<open>negotiate\<close> and
  the replies, on both sides.  Relay: both \<open>handle_traffic\<close> and \<open>handle_ctcp_traffic\<close>, as
  interpretations of a locale of forwarders.  ProxyMain: the filter of clients, the accept
  loop, the count of children.  ProxyConfig: \<open>load_config\<close>.  DaemonMain:
  the command line, starting and shutting down (C30), signals.  Tunnel: what the proxies say
  to each other.  ProxyInputs: inputs.  This theory states the properties.

  Leases, LeaseInputs: the file of DHCP leases of a client with several interfaces and the
  routing tables made from it (C29, C31).  MD5: the digest of \<open>md5.c\<close> at any width of its words; linked with the rest but not called.

  How state is modelled.  A struct is a record, an array a list of the same length, a
  pointer to a packet buffer an address into a map; machine integers are words where they
  can wrap and \<open>nat\<close> or \<open>int\<close> with a stated range otherwise; \<open>double\<close> is \<open>real\<close>, except
  for the time stamps in packets, which are 64 bits.  A call that waits on a condition
  variable, or spins, is the value \<open>None\<close> (\<open>Blocks\<close> in Receiver, \<open>Waits\<close> in SrvConn); an
  index outside an array or NULL followed is \<open>Fault\<close> (\<open>Crash\<close> in SrvConn).  In the proxies a
  call is \<open>Ret\<close> with its result, \<open>Overrun\<close> when it leaves an array or follows NULL, \<open>Stuck\<close>
  while it still waits.  A function runs
  as one step under the locks the code takes.  \<open>malloc\<close>, the clock, \<open>random\<close>, and what
  \<open>poll\<close>, \<open>select\<close> and the reads return are arguments; \<open>sendto\<close> appends to a log.

  What the lemmas show.  The data path: any sound packet keeps the rows of a block
  consistent with the packets the sender packed (C10), a full block decodes to them
  (C11), so what the application reads is a prefix of what the sending one wrote
  (C4, \<open>end_to_end\<close>, \<open>client_reads_sender_stream\<close>), and no packet the window accepts breaks memory (C5).
  The whole: in every run of both ends what is read is a prefix of what was sent
  (C1), and nothing is given up before it has arrived (C2).  A rule of \<open>session\<close> is one call of
  \<open>send_ctcp\<close>, one job of a worker, one turn of either thread or one read; the packets and
  acknowledgements a turn receives are any that the other end has sent so far, so loss,
  repetition and reordering need no rules of their own.  The rules ask that a job's block is still in the window, which
  C3 shows the scheduler to break when the window is full, that block numbers stay below
  2^31, and of a packet the client takes that its coding window fits the rows already there,
  which \<open>mixed_lengths_corrupt\<close> shows to be needed.
  The sender: order and content of the stream (C6, C7, C8), acknowledgements
  (C17, \<open>ack_first_incomplete\<close>) and the window (C20, C22).  The connection: the
  paths of a server (C14) and the ends of its FIN exchanges (C15, \<open>close_fin_terminates\<close>).  The containers
  refine lists and deques (C23, C34), the pools lose nothing (C33, C35).
  The proxies: the SOCKS dialogue (C16, C9) and its end (C18) and states
  (C19), credentials (C32), the filter (C27), and the order of the bytes through both relays
  and to the application (C21, C12, C13).
  The digest is RFC 1321's with words of 32 bits (C25) and not with the words of 64 bits that
  the header declares on most machines (C26).
  The properties of kind error state faults of the code, each with an input that shows it.

  Bounds.  Loops are structural or have a measure; no fuel is used.  Loops over outcomes of
  the network recurse over the list of outcomes.  Names and credentials have fewer than 128
  characters where their length is read back from a \<open>char\<close>; the faults beyond are stated.  Block numbers are below 2^31 where the code
  keeps them in an \<open>int\<close>; \<open>ack_first_incomplete\<close> asks only for no wrap of the window.

  Not modelled: GF(2) (the constant GF is 256), opening and binding sockets, status and debug logs, statistics that nothing reads,
  the demo programs, and of the proxies the messages, the timers and the log.  Two threads interleave at the granularity
  of the functions named above, not inside them.
\<close>

section \<open>The two ends of a connection\<close>







section \<open>The message digest\<close>

text \<open>
  C25: where \<open>UINT4\<close> has 32 bits, the digest of a message given to \<open>MD5Update\<close> in any parts is
  RFC 1321's of the whole, whatever the context held before, also beyond 2^32 bits, where the counter carries.
\<close>

theorem md5_matches_rfc1321:
  fixes c :: "u32 MD5_CTX"
  assumes "length (md_in c) = 64" "\<forall>m \<in> set parts. length m < 2 ^ 32"
  shows "md5_digest c parts = rfc1321 (concat parts)"
  using assms by (rule digest_rfc)

theorem md5_matches_rfc1321_witness:
  "md5_digest (\<lparr>md_i = [], md_buf = [], md_in = replicate 64 7, md_digest = []\<rparr> :: u32 MD5_CTX) [[97], [], [98, 99]] = rfc1321 [97, 98, 99]"
  using md5_matches_rfc1321 [of "\<lparr>md_i = [], md_buf = [], md_in = replicate 64 7, md_digest = []\<rparr>" "[[97], [], [98, 99]]"] by simp

text \<open>
  C26: the type \<open>unsigned long int\<close> that md5.h gives to \<open>UINT4\<close> has 64 bits on LP64
  machines.  There the digest of the empty message is e4c23762... and not RFC 1321's d41d8cd9....
\<close>

theorem md5_wrong_with_64_bits:
  fixes c :: "u64 MD5_CTX"
  assumes "length (md_in c) = 64"
  shows "take 4 (md5_digest c []) = [0xe4, 0xc2, 0x37, 0x62] \<and> take 4 (rfc1321 []) = [0xd4, 0x1d, 0x8c, 0xd9]"
proof
  show "take 4 (md5_digest c []) = [0xe4, 0xc2, 0x37, 0x62]" using digest_empty_64 [OF assms] by simp
  have "rfc1321 [] = md5_digest (\<lparr>md_i = [], md_buf = [], md_in = replicate 64 0, md_digest = []\<rparr> :: u32 MD5_CTX) []"
    by (subst digest_rfc) simp_all
  then show "take 4 (rfc1321 []) = [0xd4, 0x1d, 0x8c, 0xd9]" by (simp add: digest_empty_32)
qed

theorem md5_wrong_with_64_bits_witness:
  "md5_digest (\<lparr>md_i = [], md_buf = [], md_in = replicate 64 0, md_digest = []\<rparr> :: u64 MD5_CTX) [] \<noteq> rfc1321 []"
  using md5_wrong_with_64_bits [of "\<lparr>md_i = [], md_buf = [], md_in = replicate 64 0, md_digest = []\<rparr>"] by auto

section \<open>Leases and routes\<close>

text \<open>
  C29: a file of leases as the DHCP client writes them, with any other statements in between, is
  read back to exactly these leases.
\<close>

theorem lease_file_read:
  assumes "\<forall>(l, others) \<in> set ls. lease_ok l \<and> (\<forall>x \<in> set others. other_line x)" "length ls \<le> length leases"
  shows "readLease stack (Some (concat (map (\<lambda>(l, others). lease_text l others) ls))) leases =
    Ret (int (length ls), map (lease_of \<circ> fst) ls @ drop (length ls) leases)"
  using assms by (rule readLease_text)

theorem lease_file_read_witness:
  "readLease ([], [], []) (Some (lease_text w_lease [w_renew])) (replicate MAX_SUBSTREAMS w_no_lease) =
    Ret (1, lease_of w_lease # replicate 4 w_no_lease)"
  using lease_file_read [of "[(w_lease, [w_renew])]" "replicate MAX_SUBSTREAMS w_no_lease" "([], [], [])"] w_lease_facts
  by (simp add: MAX_SUBSTREAMS_def)

text \<open>
  C31: for such a file \<open>add_routing_tables\<close> runs, for the lease number t, the commands that fill
  table t + 1: the route to the network, which is the first bits of the address and has the
  length of the netmask, the default route, and the rules that send the packets of the address there.
\<close>

theorem lease_file_routes:
  assumes "\<forall>(l, others) \<in> set ls. lease_ok l \<and> (\<forall>x \<in> set others. other_line x)"
    and "length ls \<le> length leases" "length ls < 999" "\<forall>(l, others) \<in> set ls. routable aton bits l"
  shows "add_routing_tables aton le stack leases (Some (Some (concat (map (\<lambda>(l, others). lease_text l others) ls)))) =
    Ret (Some (concat (map (\<lambda>t. routes_of aton bits t (fst (ls ! t))) [0..<length ls]), int (length ls)))"
  using assms by (rule file_routes)

theorem lease_file_routes_witness:
  "\<exists>cmds. add_routing_tables w_aton True ([], [], []) (replicate MAX_SUBSTREAMS w_no_lease) (Some (Some (lease_text w_lease [w_renew]))) =
      Ret (Some (cmds, 1)) \<and> cmds ! 1 = str ''ip route add table 1 10.0.0.0/24 dev eth0 proto static src 10.0.0.2''"
  using lease_file_routes [of "[(w_lease, [w_renew])]" "replicate MAX_SUBSTREAMS w_no_lease" w_aton "\<lambda>n. 24" True "([], [], [])"]
    w_lease_facts w_lease_route by (simp add: MAX_SUBSTREAMS_def)

text \<open>
  C30: what a daemon started with \<open>start\<close> has written into its PID file makes the same program
  with the same options and \<open>shutdown\<close> send SIGTERM and then SIGKILL to the group of the process that serves,
  and nothing else.
\<close>

theorem shutdown_finds_daemon:
  assumes "parse_args opts (p_cfgfile pg) False None = ArgsOk c l act"
    and "daemon_main pg e (opts @ [str ''start'']) = (ds, Serves)" "WritePid file content \<in> set ds"
    and "m_files e' c = m_files e c" "m_pids e' file = Some content" "m_kill e'" "0 < m_self e" "m_self e < 2 ^ 31"
  shows "daemon_main pg e' (opts @ [str ''shutdown'']) =
    ((if p_tables pg then [RemoveTables] else []) @ [Kill (- int (m_self e)) SIGTERM, Kill (- int (m_self e)) SIGKILL], Exit 0)"
  by (rule shutdown_kills [OF assms])

theorem shutdown_finds_daemon_witness:
  "daemon_main (proxy_local (\<lambda>_. None) 0) (w_main_env\<lparr>m_pids := \<lambda>_. Some (show_int 4711)\<rparr>) [str ''-f'', str ''shutdown''] =
    ([RemoveTables, Kill (- 4711) SIGTERM, Kill (- 4711) SIGKILL], Exit 0)"
  using shutdown_finds_daemon [of "[str ''-f'']" "proxy_local (\<lambda>_. None) 0" _ True None w_main_env _ "str ''/var/run/proxy_local.pid''"
      "show_int 4711" "w_main_env\<lparr>m_pids := \<lambda>_. Some (show_int 4711)\<rparr>"] w_started
  by (simp add: w_main_env_def proxy_local_def)

section \<open>The data path of the receiver\<close>



text \<open>
  Both ends together.  If every block of the stream was filled by
  \<open>readBlock\<close> from the sending application, what the receiving application reads is a prefix
  of the concatenation of the blocks' bytes in order.
\<close>

lemma end_to_end:
  assumes "dec_run (\<lambda>b. packet_of (B b) (S b)) PAYLOAD_SIZE raw d outs" "length raw = NUM_BLOCKS"
    "\<forall>blk \<in> set raw. shape_ok blk" "\<forall>b. block_ok (B b) (S b) \<and> block_packed (B b) (S b)"
  shows "prefix outs (concat (map (\<lambda>b. block_bytes (B b) (S b)) [1..<Suc (unat (dc_curr_block d))]))"
proof -
  let ?Ps = "\<lambda>b. packet_of (B b) (S b)"
  have lens: "\<And>b. lens_ok (?Ps b) PAYLOAD_SIZE" using packet_of_lens assms(4) by blast
  then obtain x where x: "stream_to ?Ps PAYLOAD_SIZE (Suc (unat (dc_curr_block d))) 0 = outs @ x"
    using dec_run_stream [OF assms(1-3)] by blast
  have "packets_data (?Ps b) PAYLOAD_SIZE 0 BLOCK_SIZE = block_bytes (B b) (S b)" for b
    using packets_data_block assms(4) by blast
  with x have "concat (map (\<lambda>b. block_bytes (B b) (S b)) [1..<Suc (unat (dc_curr_block d))]) = outs @ x"
    by (simp add: stream_to_def)
  then show ?thesis by simp
qed

lemma end_to_end_example:
  "prefix [65] (concat (map (\<lambda>b. block_bytes (w_blocks b) w_coder1) [1..<Suc (unat (dc_curr_block w_dec2))]))"
  using end_to_end [OF w_run [unfolded w_Ps_def] w_ranges(3)] w_raw_shape w_blocks_ok by simp

text \<open>
  C5: \<open>bldack\<close>, on a packet the window accepts, never leaves an array or follows
  NULL: it returns, with the window's invariant kept, the queue extended by exactly the next
  bytes of the stream and the current block incomplete, or its thread waits for the
  application because the queue is full.
\<close>

theorem bldack_safe:
  assumes "window_inv Ps L d" "\<forall>b. lens_ok (Ps b) L" "accepts Ps L d msg" "length stack = BLOCK_SIZE"
    "1 \<le> unat (dc_curr_block d)" "unat (dc_curr_block d) + 2 * NUM_BLOCKS < 2 ^ 31" "\<forall>p. malloc p \<noteq> None"
  shows "case bldack malloc stack ts skb msg (note_index msg d) of
      Fault \<Rightarrow> False
    | Blocks Q \<Rightarrow> True
    | Done (d', ack) \<Rightarrow> window_inv Ps L d' \<and> cb_dofs (cur_blk d') < BLOCK_SIZE \<and>
        (\<exists>x. fifo_bytes (dc_usr_cache d') = fifo_bytes (dc_usr_cache d) @ x \<and> pos Ps L d' = pos Ps L d @ x)"
  using bldack_correct [OF assms(1) _ assms(3-6), of malloc ts skb] assms(2,7)
  by (auto simp: delivers_def)

theorem bldack_safe_witness:
  "case bldack (\<lambda>_. Some 9) w_stack 0 7 w_msg (note_index w_msg w_dec) of
      Fault \<Rightarrow> False
    | Blocks Q \<Rightarrow> True
    | Done (d', ack) \<Rightarrow> window_inv w_Ps PAYLOAD_SIZE d' \<and> cb_dofs (cur_blk d') < BLOCK_SIZE \<and>
        (\<exists>x. fifo_bytes (dc_usr_cache d') = fifo_bytes (dc_usr_cache w_dec) @ x \<and>
          pos w_Ps PAYLOAD_SIZE d' = pos w_Ps PAYLOAD_SIZE w_dec @ x)"
  by (rule bldack_safe [OF _ _ w_accepts w_ranges(2,4,1)])
    (use init_window [of "replicate NUM_BLOCKS w_raw"] w_raw_shape w_Ps_lens in \<open>auto simp: w_dec_def\<close>)



text \<open>
  C11: when as many packets are independent as packets are known to exist, back
  substitution succeeds and every row then holds exactly its packet.
\<close>

theorem unwrap_recovers:
  assumes "block_inv P L blk" "cb_dofs blk = cb_max_packet_index blk"
  shows "\<exists>blk'. unwrap blk = Some blk' \<and> block_inv P L blk' \<and>
    (\<forall>r < cb_max_packet_index blk. cb_content blk' ! r = Some (packet P L r))"
proof -
  obtain C R where "unwrap blk = Some (blk\<lparr>cb_content := C, cb_row_len := R\<rparr>)"
    "block_inv P L (blk\<lparr>cb_content := C, cb_row_len := R\<rparr>)"
    "\<And>r. r < cb_max_packet_index blk \<Longrightarrow> has_packet P L C r"
    using unwrap_correct [OF assms] by metis
  then show ?thesis by (auto simp: has_packet_eq)
qed

theorem unwrap_recovers_witness:
  "\<exists>blk'. unwrap w_full = Some blk' \<and> (\<forall>r < 3. cb_content blk' ! r = Some (packet w_P3 1 r))"
proof -
  have "block_inv w_P3 1 w_blk3"
    unfolding w_blk3_def
    by (rule block_inv_mpi [OF init_block_inv [OF w_raw_shape]]) (simp_all add: w_init_counts BLOCK_SIZE_def)
  then have "block_inv w_P3 1 w_full"
    by (rule bld_feed_inv [OF w_feed(1), of _ _ 3])
      (auto simp: w_mixed_ok w_blk3_def initCodedBlock_def simp del: One_nat_def,
        auto simp: w_mixed_def w_pkt_def)
  then show ?thesis using unwrap_recovers [of w_P3 1 w_full] w_feed by auto
qed

text \<open>
  C40: the elimination needs the packets of a block to come with
  non-decreasing coding windows.  Two sound coded packets of one block, the later one in the
  stream first (three coefficients, then two), and an uncoded one fill the block, and back
  substitution yields a payload that the sender never had.
\<close>

theorem mixed_lengths_corrupt:
  "pkt_ok w_P3 1 (w_mixed 3 1) \<and> pkt_ok w_P3 1 (w_mixed 2 2) \<and> pkt_ok w_P3 1 (w_pkt NORMAL 2 1 0 [30]) \<and>
   (\<exists>blk blk'. bld_feed w_blk3 [w_mixed 3 1, w_mixed 2 2, w_pkt NORMAL 2 1 0 [30]] = Some blk \<and>
      cb_dofs blk = cb_max_packet_index blk \<and> unwrap blk = Some blk' \<and>
      cb_content blk' ! 1 \<noteq> Some (packet w_P3 1 1))"
proof -
  let ?b = "bld_feed w_blk3 [w_mixed 3 1, w_mixed 2 2, w_pkt NORMAL 2 1 0 [30]]"
  have "(case ?b of None \<Rightarrow> False | Some blk \<Rightarrow> cb_dofs blk = cb_max_packet_index blk \<and>
      (case unwrap blk of None \<Rightarrow> False | Some blk' \<Rightarrow> cb_content blk' ! 1 \<noteq> Some [20]))"
    by code_simp
  moreover have "packet w_P3 1 1 = [20]" by (simp add: packet_def w_P3_def)
  moreover have "pkt_ok w_P3 1 (w_pkt NORMAL 2 1 0 [30])"
    by (simp add: pkt_ok_def w_pkt_def pkt_coeffs_def BLOCK_SIZE_def row_sat_def w_P3_def gf_simps)
  ultimately show ?thesis
    using w_mixed_ok [of 3 1] w_mixed_ok [of 2 2] by (auto split: option.splits simp del: One_nat_def bld_feed.simps)
qed

text \<open>
  The acknowledgement names the first block of the window that is
  not complete and its degrees of freedom; if the whole window is complete it names the
  block after the window with 0 degrees.
\<close>

lemma ack_first_incomplete:
  assumes "unat (dc_curr_block d) + NUM_BLOCKS < 2 ^ 32"
  shows "let ack = build_ack ts d msg; b = a_blockno ack; top = dc_curr_block d + of_nat NUM_BLOCKS in
    a_ackno ack = d_seqno msg + 1 \<and> dc_curr_block d \<le> b \<and> b \<le> top \<and>
    (\<forall>c. dc_curr_block d \<le> c \<and> c < b \<longrightarrow> cb_dofs (dc_blocks d ! slot c) = cb_len (dc_blocks d ! slot c)) \<and>
    (if b < top then cb_dofs (dc_blocks d ! slot b) \<noteq> cb_len (dc_blocks d ! slot b) \<and>
        a_dof_rec ack = of_nat (cb_dofs (dc_blocks d ! slot b))
     else a_dof_rec ack = 0)"
proof -
  let ?c = "dc_curr_block d"
  obtain b r where sc: "ack_scan d ?c (cb_dofs (dc_blocks d ! slot ?c)) = (b, r)" by fastforce
  have "unat (of_nat NUM_BLOCKS :: u32) = NUM_BLOCKS" by (simp add: NUM_BLOCKS_def)
  then have "unat (?c + of_nat NUM_BLOCKS) = unat ?c + NUM_BLOCKS"
    using unat_add_lem [of ?c "of_nat NUM_BLOCKS"] assms by simp
  then have "?c \<le> ?c + of_nat NUM_BLOCKS" by (simp add: word_le_nat_alt)
  from ack_scan_spec [OF sc refl this] show ?thesis
    by (auto simp: build_ack_def ackPacket_def sc Let_def not_le)
qed

lemma ack_first_incomplete_example:
  "let ack = build_ack 5 w_dec1 w_msg in a_ackno ack = 2 \<and> a_blockno ack = 1 \<and> a_dof_rec ack = 1"
proof -
  have "unat (dc_curr_block w_dec1) + NUM_BLOCKS < 2 ^ 32" by (simp add: w_dec1_scan NUM_BLOCKS_def)
  note f = ack_first_incomplete [OF this, of 5 w_msg, unfolded Let_def]
  have "(1 :: nat) \<noteq> 32" by simp
  then have "\<not> 1 < a_blockno (build_ack 5 w_dec1 w_msg)" using f w_dec1_scan by (metis order_refl)
  then have "a_blockno (build_ack 5 w_dec1 w_msg) = 1" using f w_dec1_scan(3) by (metis order_le_less)
  moreover from this have "a_blockno (build_ack 5 w_dec1 w_msg) < dc_curr_block w_dec1 + of_nat NUM_BLOCKS"
    by (simp add: w_dec1_scan NUM_BLOCKS_def word_less_nat_alt)
  ultimately show ?thesis using f w_dec1_scan by (simp add: w_msg_fields)
qed

section \<open>The sender\<close>

text \<open>
  C6: \<open>readBlock\<close> moves the first bytes of the buffer, in order, to
  the end of the block; what it leaves is what follows.  Every packet stays a length, its
  data and zeros; buffers in use keep their contents; it stops early only at a full block or
  when no buffer can be had.
\<close>

theorem readBlock_keeps_stream:
  assumes "block_ok blk S" "block_packed blk S" "pool_good (k_pool S)" "\<forall>p. fresh p (malloc p)"
  shows "case readBlock malloc blk S buf of (blk', S', rest) \<Rightarrow>
    block_bytes blk' S' @ rest = block_bytes blk S @ buf \<and> block_ok blk' S' \<and> block_packed blk' S' \<and>
    pool_good (k_pool S') \<and> frame S S' \<and>
    (rest = [] \<or> b_len blk' = BLOCK_SIZE \<or> (\<exists>p. malloc p = None))"
proof -
  obtain blk' S' rest where r: "readBlock malloc blk S buf = (blk', S', rest)" by (metis prod_cases3)
  show ?thesis using readBlock_correct [OF r assms(1,3,4)] readBlock_packed [OF r assms(1,3,4,2)] r by simp
qed

theorem readBlock_keeps_stream_witness:
  "block_bytes w_blk1 w_coder1 = [65] \<and> b_len w_blk1 = 1"
  using readBlock_keeps_stream [OF block_init_ok block_packed_init w_coder_good, of w_malloc "[65]"] w_malloc_fresh
    w_read1 by (simp add: block_bytes_def contents_def block_init_def)

text \<open>
  C8: every packet a coding job queues, uncoded or coded, is the combination
  of the block's packets that its header announces, and its coding window is 1 or the whole
  block; the block's own contents are not changed.
\<close>

theorem coding_job_sound:
  assumes "coding_job malloc cb job blk S q rnds = Some (S', q', rnds')" "block_ok blk S" "pool_good (k_pool S)"
    "\<forall>p. fresh p (malloc p)" "q_holds q xs" "0 \<le> j_start job"
  shows "\<exists>as. q_holds q' (xs @ as) \<and> contents blk S' = contents blk S \<and>
    (\<forall>a \<in> set as. pkt_ok (packet_of blk S) PAYLOAD_SIZE (k_mem S' a) \<and>
      d_blockno (k_mem S' a) = j_blockno job \<and>
      (unat (d_num_packets (k_mem S' a)) = 1 \<or> unat (d_num_packets (k_mem S' a)) = b_len blk))"
  using coding_job_correct [OF assms] by (auto simp: job_pkt_def)

theorem coding_job_sound_witness:
  "\<exists>S q as. coding_job w_malloc 1 w_job w_blk1 w_coder1 (q_init 64) [3] = Some (S, q, []) \<and> q_holds q as \<and>
    (\<forall>a \<in> set as. pkt_ok (packet_of w_blk1 w_coder1) PAYLOAD_SIZE (k_mem S a))"
proof -
  obtain S q where job: "coding_job w_malloc 1 w_job w_blk1 w_coder1 (q_init 64) [3] = Some (S, q, [])"
    using w_coding by blast
  have "q_holds (q_init 64 :: addr qbuffer) []" by (rule q_init_holds) simp
  from coding_job_sound [OF job w_blk1_ok(1,3) _ this] show ?thesis
    using job w_malloc_fresh by (auto simp: w_job_def)
qed

text \<open>
  C7: \<open>send_ctcp\<close> appends the application's bytes in order to the
  bytes its window holds, and reports what it did not take; it takes everything unless the
  connection is closed or the window is full.
\<close>

theorem send_ctcp_keeps_stream:
  assumes "sender_inv sk" "\<forall>p. fresh p (malloc p)" "\<forall>p. malloc p \<noteq> None"
  shows "case send_ctcp malloc sk buf of
      None \<Rightarrow> True
    | Some (sk', rest, e) \<Rightarrow> sender_inv sk' \<and> s_stream sk' @ rest = s_stream sk @ buf \<and> (e = AllSent \<longleftrightarrow> rest = [])"
  using send_ctcp_correct [OF _ assms] by (auto split: option.splits)

theorem send_ctcp_keeps_stream_witness:
  "case send_ctcp w_malloc w_srv [65] of
      None \<Rightarrow> False
    | Some (sk', rest, e) \<Rightarrow> sender_inv sk' \<and> s_stream sk' = [65] \<and> rest = [] \<and> e = AllSent"
  using send_ctcp_keeps_stream [OF w_srv_inv, of w_malloc "[65]"] w_send w_srv_stream w_malloc_fresh w_malloc_some
  by auto

text \<open>
  C17: an ack of a packet that was sent is accepted: the window of blocks
  advances exactly to the acknowledged block, the path's \<open>snd_una\<close> never moves back, the
  idle counter is cleared and the congestion window stays between 2 and \<open>MAX_CWND\<close>.
\<close>

theorem handle_ack_good_path:
  assumes "pin < length (s_paths sk)" "a_ackno ack \<le> snd_nxt (s_paths sk ! pin)"
  shows "case handle_ack now t ack pin sk of (sk', ok) \<Rightarrow>
    ok \<and> s_curr_block sk' = max (s_curr_block sk) (a_blockno ack) \<and>
    snd_una (s_paths sk' ! pin) = max (snd_una (s_paths sk ! pin)) (a_ackno ack) \<and>
    snd_nxt (s_paths sk' ! pin) = snd_nxt (s_paths sk ! pin) \<and> idle (s_paths sk' ! pin) = 0 \<and>
    2 \<le> snd_cwnd (s_paths sk' ! pin) \<and> snd_cwnd (s_paths sk' ! pin) \<le> of_nat MAX_CWND"
proof -
  obtain sk' ok where r: "handle_ack now t ack pin sk = (sk', ok)" by fastforce
  have "\<not> snd_nxt (s_paths sk ! pin) < a_ackno ack" using assms(2) by simp
  from handle_ack_good [OF assms(1) this r] handle_ack_curr [OF assms(1) r] show ?thesis by (simp add: r)
qed

theorem handle_ack_good_path_witness:
  "case handle_ack 3 1 (w_ack 1 2) 0 w_srv1 of (sk', ok) \<Rightarrow>
    ok \<and> s_curr_block sk' = 2 \<and> snd_una (s_paths sk' ! 0) = 1 \<and> idle (s_paths sk' ! 0) = 0"
  using handle_ack_good_path [of 0 w_srv1 "w_ack 1 2" 3 1]
  by (auto simp: w_path_fields w_ack_def ackPacket_def w_srv1_def w_srv_def create_srvctcp_sock_def max_def word_le_nat_alt)

text \<open>
  An ack of a packet that was never sent is counted and reported, but
  it still moves \<open>snd_una\<close>, beyond \<open>snd_nxt\<close>; the window the path may fill, computed from
  the unsigned difference of the two, then exceeds the congestion window by the overshoot.
\<close>

lemma handle_ack_bad_path:
  assumes "pin < length (s_paths sk)" "snd_una (s_paths sk ! pin) \<le> snd_nxt (s_paths sk ! pin)"
    "snd_nxt (s_paths sk ! pin) < a_ackno ack" "unat (snd_cwnd (s_paths sk ! pin)) \<le> 1000"
    "unat (a_ackno ack) - unat (snd_nxt (s_paths sk ! pin)) \<le> 1000000"
  shows "case handle_ack now t ack pin sk of (sk', ok) \<Rightarrow> \<not> ok \<and>
    snd_nxt (s_paths sk' ! pin) < snd_una (s_paths sk' ! pin) \<and>
    path_win (s_paths sk' ! pin) = int (unat (snd_cwnd (s_paths sk ! pin))) +
      int (unat (a_ackno ack) - unat (snd_nxt (s_paths sk ! pin)))"
proof -
  obtain sk' ok where r: "handle_ack now t ack pin sk = (sk', ok)" by fastforce
  note b = handle_ack_bad [OF assms(1,3,2) r]
  have "path_win (s_paths sk' ! pin) = int (unat (snd_cwnd (s_paths sk' ! pin))) +
      int (unat (a_ackno ack) - unat (snd_nxt (s_paths sk ! pin)))"
    by (rule bad_ack_window [OF b(4,3)]) (use assms b in \<open>simp_all add: word_less_nat_alt\<close>)
  with b assms(3) show ?thesis by (simp add: r)
qed

lemma handle_ack_bad_path_example:
  "case handle_ack 3 1 (w_ack 5001 1) 0 w_srv1 of (sk', ok) \<Rightarrow> \<not> ok \<and> path_win (s_paths sk' ! 0) = 5008"
  using handle_ack_bad_path [of 0 w_srv1 "w_ack 5001 1" 3 1]
  by (auto simp: w_path_fields w_ack_def ackPacket_def word_less_nat_alt word_le_nat_alt)



text \<open>
  The number of packets asked for is the least that, at the estimated
  loss rate and with those in flight, is expected to cover the missing degrees of freedom,
  or the whole window if that is not enough.
\<close>

lemma dof_needed_minimal:
  "let n = dof_loop p m r win 0 in
    list_all (\<lambda>k. real k * (1 - p) + m < real_of_int r) [0..<n] \<and> int n \<le> max 0 win \<and>
    (win \<le> int n \<or> real_of_int r \<le> real n * (1 - p) + m)"
proof -
  have "int (dof_loop p m r win 0) \<le> max 0 win"
    using dof_loop_le [of 0 win p m r] by (cases "0 \<le> win") (auto simp: dof_loop.simps [of p m r win 0])
  then show ?thesis
    using dof_loop_min [of 0 _ p m r win] dof_loop_covers [of p m r win 0]
    by (force simp: list_all_iff Let_def)
qed


text \<open>
  A second loss in the window that was in flight when the
  congestion window was decreased does not decrease it again, as long as the sequence number
  of the window's end does not wrap.
\<close>

lemma one_decrease_per_window:
  assumes "snd_una p \<le> snd_una p + snd_cwnd p"
  shows "decrease_cwnd (decrease_cwnd p) = decrease_cwnd p"
  by (rule decrease_once [OF assms])

lemma one_decrease_per_window_example:
  "decrease_cwnd (decrease_cwnd w_path) = decrease_cwnd w_path \<and> snd_cwnd (decrease_cwnd w_path) = 3"
  using one_decrease_per_window [of w_path]
  by (simp add: w_path_fields word_le_nat_alt)
    (simp add: decrease_cwnd_def w_path_def init_stream_def w_cfg_def default_cfg_def)

text \<open>
  A path that answers nothing is declared dead after \<open>maxidle\<close> + 1
  timeouts, and not before; each timeout doubles the retransmission timer.
\<close>

lemma silent_path_aborts:
  assumes "idle p = 0" "0 \<le> maxidle c" "int n \<le> maxidle c + 1"
  shows "snd (timeout c (((\<lambda>p. fst (timeout c p)) ^^ n) p)) \<longleftrightarrow> int n \<le> maxidle c"
  using timeouts_idle [of p n c] assms timeout_dead [of c "((\<lambda>p. fst (timeout c p)) ^^ n) p"] by auto

lemma silent_path_aborts_example:
  "\<not> snd (timeout w_cfg (((\<lambda>p. fst (timeout w_cfg p)) ^^ 11) w_path)) \<and>
    snd (timeout w_cfg (((\<lambda>p. fst (timeout w_cfg p)) ^^ 10) w_path))"
  using silent_path_aborts [of w_path w_cfg 11] silent_path_aborts [of w_path w_cfg 10]
  by (simp add: w_path_fields w_cfg_def default_cfg_def)

text \<open>
  The short and the long term loss rates stay probabilities at every
  acceptable ack.
\<close>

lemma loss_rate_probability:
  assumes "prob (slr p)" "prob (slr_long p)" "0 \<le> sint (ackno - (snd_una p + 1))"
  shows "prob (slr (good_ack ackno p)) \<and> prob (slr_long (good_ack ackno p))"
  using good_ack_slr [OF assms] by blast

lemma loss_rate_probability_example:
  "prob (slr (good_ack 5 w_path)) \<and> prob (slr_long (good_ack 5 w_path))"
  by (rule loss_rate_probability) (simp_all add: w_path_fields prob_def SLR_LONG_INIT_def)

text \<open>
  The smoothed round-trip time moves to a value between the old one
  and the sample, the base round-trip time is the least sample so far, and the timeout is the
  estimate plus four deviations.
\<close>

lemma rtt_estimate_between:
  "let rtt = last_ack_time p - t; q = rtt_update t p in
    min (srtt p) rtt \<le> srtt q \<and> srtt q \<le> max (srtt p) rtt \<and> basertt q = min (basertt p) rtt \<and>
    rto q = srtt q + 4 * rttvar q"
  using srtt_between [where p = p and t = t] rtt_update_base rtt_update_rto by (simp add: Let_def)

text \<open>
  In slow start, when the target window lies above the congestion
  window, the unsigned difference wraps and the code takes it for congestion: the window does
  not grow and the threshold drops below it, so slow start ends.
\<close>

lemma spurious_slow_start_exit:
  assumes "snd_cwnd p \<le> snd_ssthresh p" "2 \<le> snd_cwnd p" "snd_cwnd p \<le> of_nat MAX_CWND" "losscnt p = 0"
    "snd_cwnd p < c_u32 (r32 (snd_cwnd p) * basertt p / srtt p)"
    "c_u32 (r32 (snd_cwnd p) * basertt p / srtt p) \<le> of_nat MAX_CWND"
  shows "snd_cwnd (advance_aimd p) = snd_cwnd p \<and> snd_ssthresh (advance_aimd p) < snd_cwnd p"
  using aimd_spurious_exit [OF assms(1-3,5,6,4)] by blast

lemma spurious_slow_start_exit_example:
  "snd_cwnd (advance_aimd w_path2) = 8 \<and> snd_ssthresh (advance_aimd w_path2) < 8"
proof -
  have "c_u32 (r32 (snd_cwnd w_path2) * basertt w_path2 / srtt w_path2) = 16"
    by (simp add: w_path2_def w_path_fields c_u32_def c_trunc_def)
  moreover have "snd_ssthresh w_path2 = 850" "losscnt w_path2 = 0"
    by (simp_all add: w_path2_def w_path_def init_stream_def w_cfg_def default_cfg_def c_u32_def c_trunc_def MAX_CWND_def)
  ultimately show ?thesis
    using spurious_slow_start_exit [of w_path2]
    by (simp add: w_path2_def w_path_fields MAX_CWND_def word_le_nat_alt word_less_nat_alt)
qed

section \<open>Arithmetic and random numbers\<close>

text \<open>
  C24: multiplication by the log and antilog tables is multiplication of
  polynomials modulo x^8 + x^4 + x^3 + x + 1, computed bit by bit.
\<close>

theorem FFmult_is_product: "FFmult x y = gmul x y"
  by (rule FFmult_eq_gmul)

text \<open>
  A coding thread that has the generator to itself draws exactly the
  coefficients that the receiver regenerates from the seed in the packet's header.
\<close>

lemma coefficients_agree:
  "rng_schedule s (map (Pair True) (Seed (ucast (d_packet_coeff m) + d_blockno m) #
      replicate (unat (d_num_packets m)) Draw)) =
    packet_coeffs (d_packet_coeff m) (d_blockno m) (unat (d_num_packets m))"
  by (rule rng_alone_coeffs)

text \<open>
  The generator is global and unlocked while five threads code: when another
  thread seeds it in between, the coefficient drawn is not the one the receiver regenerates,
  whatever the state was.
\<close>

lemma generator_race:
  "rng_schedule s [(True, Seed (ucast (1 :: u8) + 1)), (False, Seed (ucast (2 :: u8) + 1)), (True, Draw)]
    \<noteq> packet_coeffs 1 1 1"
  by code_simp

section \<open>Queues, pools and threads\<close>

text \<open>
  C23: in every interleaving of pushes, pops and a release, what the consumer has
  popped followed by what the buffer holds is what the producer pushed, and the buffer never
  holds more than its capacity.
\<close>

theorem fifo_order:
  assumes "fifo_run cap Q ins outs" "0 < cap"
  shows "ins = outs @ fifo_bytes Q \<and> fifo_ok Q \<and> f_size Q \<le> f_max_size Q"
  using fifo_run_inv [OF assms] by (simp add: fifo_ok_def)

theorem fifo_order_witness:
  "\<exists>Q. fifo_run 2 Q [7, 8, 9] [7] \<and> fifo_bytes Q = [8, 9]"
proof -
  define Q1 where "Q1 = fst (the (fifo_push (fifo_init 2) [7, 8] 2))"
  define Q2 where "Q2 = fst (the (fifo_pop Q1 1))"
  define Q3 where "Q3 = fst (the (fifo_push Q2 [9] 1))"
  have e: "fifo_push (fifo_init 2) [7, 8] 2 = Some (Q1, 2)" "fifo_pop Q1 1 = Some (Q2, [7])"
    "fifo_push Q2 [9] 1 = Some (Q3, 1)"
    unfolding Q3_def Q2_def Q1_def by code_simp+
  have "fifo_run 2 Q1 ([] @ take 2 [7, 8]) []"
    by (rule run_push [OF run_init _ _ e(1)]) simp_all
  then have "fifo_run 2 Q2 [7, 8] ([] @ [7])"
    by (intro run_pop [OF _ _ e(2)]) simp_all
  then have "fifo_run 2 Q3 ([7, 8] @ take 1 [9]) [7]"
    by (intro run_push [OF _ _ _ e(3)]) simp_all
  then show ?thesis using fifo_order [of 2 Q3 "[7, 8, 9]" "[7]"] by auto
qed

text \<open>
  C34: the circular buffer implements a bounded double-ended queue: each
  operation blocks exactly when the queue is full, or empty, and else does what the list
  operation does.
\<close>

theorem qbuffer_is_deque:
  assumes "q_holds b xs"
  shows "(case q_push_back b x of None \<Rightarrow> int (length xs) = q_max_size b | Some b' \<Rightarrow> q_holds b' (xs @ [x])) \<and>
    (case q_push_front b x of None \<Rightarrow> int (length xs) = q_max_size b | Some b' \<Rightarrow> q_holds b' (x # xs)) \<and>
    (case q_pop b of None \<Rightarrow> xs = [] | Some (b', e) \<Rightarrow> xs \<noteq> [] \<and> e = Some (hd xs) \<and> q_holds b' (tl xs))"
  using q_push_back_holds [OF assms] q_push_front_holds [OF assms] q_pop_holds [OF assms]
    q_push_back_None [of b x] q_push_front_None [of b x] q_pop_None [of b] q_holds_size [OF assms]
  by (auto split: option.splits)

theorem qbuffer_is_deque_witness:
  "\<exists>q. q_push_back (q_init 2) (5 :: nat) = Some q \<and> q_holds q [5]"
proof -
  have "q_holds (q_init 2 :: nat qbuffer) []" by (rule q_init_holds) simp
  from qbuffer_is_deque [OF this, of 5] show ?thesis
    by (auto simp: q_init_def split: option.splits)
qed

text \<open>
  When the queue wraps around the end of its array, or is full,
  \<open>q_free\<close> empties it without handing a single entry to the handler: every buffer queued is
  lost.
\<close>

lemma q_free_leaks:
  assumes "q_holds b xs" "xs \<noteq> []" "q_max_size b \<le> q_tail b + q_size b"
  shows "snd (q_free b) = [] \<and> q_holds (fst (q_free b)) []"
  using q_free_wrapped [OF q_holds_ok [OF assms(1)] assms(3)] q_free_reset [OF q_holds_ok [OF assms(1)]] by simp

lemma q_free_leaks_example:
  "\<exists>q. q_push_back (q_init 1) (5 :: nat) = Some q \<and> snd (q_free q) = []"
proof -
  have "q_holds (q_init 1 :: nat qbuffer) []" by (rule q_init_holds) simp
  moreover obtain q where q: "q_push_back (q_init 1) (5 :: nat) = Some q" and "q_max_size q \<le> q_tail q + q_size q"
    by (simp add: q_push_back_def q_init_def Let_def modulo_def c_rem_def)
  ultimately have "snd (q_free q) = []"
    using q_free_leaks [of q "[5]"] q_push_back_holds [OF _ q] by fastforce
  with q show ?thesis by blast
qed

text \<open>
  C33: once every worker has taken the NULL job that tells it to stop,
  every job that was submitted has been executed exactly once, whatever the interleaving and
  the priorities.
\<close>

theorem thread_pool_complete:
  assumes "pool_run sz P sub exe kill" "0 < sz" "\<forall>w \<in> set (t_th P). w = Dead"
  shows "mset exe = mset sub"
proof -
  obtain js where js: "mset sub = mset js + mset (busy_jobs (t_th P)) + mset exe"
    "js = [] \<or> dead_count (t_th P) = 0" "length (t_th P) = sz"
    using pool_run_inv [OF assms(1,2)] by (auto simp: pool_inv_def)
  moreover have "dead_count (t_th P) = length (t_th P)" using assms(3) by (simp add: dead_count_all)
  ultimately show ?thesis using assms(2,3) busy_jobs_dead by auto
qed

theorem thread_pool_complete_witness:
  "\<exists>P. pool_run 1 P [7 :: nat] [7] (Some 0) \<and> (\<forall>w \<in> set (t_th P). w = Dead) \<and> mset [7 :: nat] = mset [7]"
proof -
  define P1 where "P1 = the (addJob (thrpool_init 1) (Job (7 :: nat)) LOW)"
  define P2 where "P2 = the (worker_take P1 0)"
  define P3 where "P3 = P2\<lparr>t_th := (t_th P2)[0 := Idle]\<rparr>"
  define P4 where "P4 = the (addJob P3 NullJob LOW)"
  define P5 where "P5 = the (worker_take P4 0)"
  have e: "addJob (thrpool_init 1) (Job 7) LOW = Some P1" "t_th P1 = [Idle]" "worker_take P1 0 = Some P2"
    "t_th P2 = [Busy 7]" "t_nthreads P3 = 1" "addJob P3 NullJob LOW = Some P4" "t_th P4 = [Idle]"
    "worker_take P4 0 = Some P5" "t_th P5 = [Dead]"
    unfolding P5_def P4_def P3_def P2_def P1_def by code_simp+
  have "pool_run 1 P1 [7] [] None" by (rule pool_add [OF pool_start e(1)])
  then have "pool_run 1 P2 [7] [] None" by (rule pool_take [OF _ _ _ e(3)]) (simp_all add: e)
  then have "pool_run 1 P3 [7] [7] None" unfolding P3_def by (rule pool_exec) (simp_all add: e)
  from pool_kill [OF this] have "pool_run 1 P3 [7] [7] (Some (Suc 0))" by (simp add: e)
  from pool_kill_add [OF this e(6)] have "pool_run 1 P5 [7] [7] (Some 0)"
    by (rule pool_take [OF _ _ _ e(8)]) (simp_all add: e)
  with thread_pool_complete [OF this] show ?thesis by (auto simp: e intro!: exI [of _ P5])
qed

text \<open>
  C35: the pool never hands out a buffer that a client still holds, however often
  buffers are released, even twice.
\<close>

theorem skb_exclusive:
  assumes "skb_run p H" "fresh p m" "alloc_skb m p = (p', Some a)"
  shows "a \<notin> H \<and> p_used p' a \<and> free_skb a (free_skb a p') = free_skb a p'"
proof -
  obtain fl where "pool_ok p fl" using skb_run_inv [OF assms(1)] by blast
  with alloc_skb_ok [OF _ assms(2,3)] have "p_used p' a" by auto
  with skb_run_fresh [OF assms] free_skb_idem show ?thesis by blast
qed

theorem skb_exclusive_witness:
  "\<exists>p p'. skb_run p {5} \<and> alloc_skb (Some 6) p = (p', Some 6) \<and> p_used p' 6"
proof -
  define p where "p = fst (alloc_skb (Some 5) skb_pool_init)"
  have p: "alloc_skb (Some 5) skb_pool_init = (p, Some 5)"
    by (simp add: p_def alloc_skb_def skb_pool_init_def Let_def)
  have run: "skb_run p (insert 5 {})"
    by (rule skb_alloc [OF skb_start _ p]) (simp add: fresh_def skb_pool_init_def)
  have al: "alloc_skb (Some 6) p = (fst (alloc_skb (Some 6) p), Some 6)"
    by (simp add: p_def alloc_skb_def skb_pool_init_def Let_def take_chunk_def)
  have "fresh p (Some 6)"
    by (simp add: fresh_def p_def alloc_skb_def skb_pool_init_def Let_def take_chunk_def)
  from skb_exclusive [OF run this al] run al show ?thesis by blast
qed

section \<open>The wire format\<close>

text \<open>
  C28: a data packet marshalled on one machine and unmarshalled on another,
  whatever their byte orders, is the same packet, except that the time stamp's eight bytes
  are copied as they are.
\<close>

theorem data_roundtrip:
  assumes "length (d_payload m) = PAYLOAD_SIZE"
  shows "ntohpData le (data_of_mem le (marshallData le' pad m)) =
    m\<lparr>d_tstamp := of_mem64 le (mem64 le' (d_tstamp m))\<rparr>"
  by (rule marshall_data_cross [OF assms])

theorem data_roundtrip_witness:
  "ntohpData True (data_of_mem True (marshallData False [] w_msg)) =
    w_msg\<lparr>d_tstamp := of_mem64 True (mem64 False (d_tstamp w_msg))\<rparr>"
  by (rule data_roundtrip) (simp add: w_msg_def w_pkt_def w_pay)

text \<open>
  The same for acknowledgements; between machines of one byte order the
  acknowledgement arrives unchanged, and it occupies exactly \<open>ACK_SIZE\<close> bytes.
\<close>

lemma ack_roundtrip:
  "unmarshallAck le (marshallAck le' m) = m\<lparr>a_tstamp := of_mem64 le (mem64 le' (a_tstamp m))\<rparr> \<and>
    unmarshallAck le (marshallAck le m) = m \<and> length (marshallAck le m) = ACK_SIZE"
  using marshall_ack_cross unmarshall_marshall_ack by (simp add: marshallAck_def)

text \<open>
  Once a call of \<open>sendto\<close> has failed with ENOBUFS, calls that succeed do
  not reset \<open>errno\<close>: however many succeed, the loop goes on and sends the packet again.
\<close>

lemma sendto_loop_spins:
  "sendto_loop 0 (Some ENOBUFS # replicate n None) = None \<and> sendto_loop 0 (None # rs) = Some 1"
  using sendto_loop_stuck [of n] by (simp add: ENOBUFS_def)

section \<open>The connection at the server\<close>



text \<open>
  C15: after a FIN the server's loop ends exactly when a FIN-ACK arrives, another
  thread closes the socket, or ten attempts have failed (timeouts, failed reads, repeated
  FINs); other packets are not counted.  Whichever it is, the socket is then closed and every
  path is closing.
\<close>

theorem fin_terminates:
  assumes "pathstate (s_paths sk ! i) \<noteq> CLOSING" "pathstate (s_paths sk ! i) \<noteq> FIN_ACK_RECV"
  shows "(recv_fin ev i ack es sk \<noteq> None \<longleftrightarrow>
      list_ex fin_ends es \<or> CONTROL_MAX_RETRIES \<le> length (filter (\<lambda>e. fin_counts (fst e)) es)) \<and>
    (case recv_fin ev i ack es sk of
       None \<Rightarrow> True
     | Some sk' \<Rightarrow> s_status sk' = CLOSED \<and> list_all (\<lambda>p. pathstate p = CLOSING) (s_paths sk'))"
  using recv_fin_closes(1) [OF assms] recv_fin_closes(2) [OF assms] by (auto split: option.splits)

theorem fin_terminates_witness:
  "\<exists>sk. recv_fin w_env 0 (w_ctl FIN) (replicate 10 (ReadTimeout, False)) w_srv1 = Some sk \<and> s_status sk = CLOSED \<and>
    recv_fin w_env 0 (w_ctl FIN) (replicate 99 (Got (2, 80, 1) (w_ctl NORMAL), False)) w_srv1 = None"
proof -
  have "pathstate (s_paths w_srv1 ! 0) \<noteq> CLOSING" "pathstate (s_paths w_srv1 ! 0) \<noteq> FIN_ACK_RECV"
    by (simp_all add: w_path_fields w_path_def init_stream_def w_path0_def)
  note f = fin_terminates [OF this, of w_env "w_ctl FIN"]
  have "list_ex P (replicate n x) \<longleftrightarrow> 0 < n \<and> P x" for P and n and x :: "ack_pckt reading \<times> bool"
    by (induction n) auto
  then show ?thesis
    using f [of "replicate 10 (ReadTimeout, False)"] f [of "replicate 99 (Got (2, 80, 1) (w_ctl NORMAL), False)"]
    by (auto simp: fin_ends_def fin_counts_def CONTROL_MAX_RETRIES_def filter_replicate)
qed

text \<open>
  The FIN exchange of \<open>close_srvctcp\<close> ends exactly when a FIN-ACK
  arrives or ten reads have failed; it reports success, with every path closing and no
  error, if it was the FIN-ACK, and the error CLOSE_ERR otherwise.  A client that closes at
  the same time and only sends FINs keeps it running: they neither count nor end it.
\<close>

lemma close_fin_terminates:
  assumes "s_paths sk \<noteq> []"
  shows "(close_fin ev 0 m sk rs \<noteq> None \<longleftrightarrow>
      list_ex close_ends rs \<or> CONTROL_MAX_RETRIES \<le> length (filter close_counts rs)) \<and>
    (case close_fin ev 0 m sk rs of
       None \<Rightarrow> True
     | Some (sk', success) \<Rightarrow>
         (if success then s_error sk' = NONE \<and> list_all (\<lambda>p. pathstate p = CLOSING) (s_paths sk')
          else s_error sk' = CLOSE_ERR))"
  using close_fin_ends [of 0 sk ev m rs] assms by (simp add: CONTROL_MAX_RETRIES_def)

lemma close_fin_terminates_example:
  "close_fin w_env 0 1 w_srv1 (replicate 1000 (Got (2, 80, 1) (w_ctl FIN))) = None"
proof -
  have "\<not> list_ex close_ends (replicate n (Got (2, 80, 1) (w_ctl FIN)))" for n by (induction n) (simp_all add: close_ends_def)
  then show ?thesis
    using close_fin_terminates [of w_srv1 w_env 1 "replicate 1000 (Got (2, 80, 1) (w_ctl FIN))"]
    by (auto simp: close_counts_def CONTROL_MAX_RETRIES_def w_path_fields filter_replicate split: option.splits)
qed

text \<open>
  The index of the loop over the paths advances by the loop counter, not
  by one.  With three paths, when nothing arrives and the first two are alive, the third is
  never looked at, dead or not, and the state in which this happens does not change.
\<close>

lemma timeout_skips_path:
  assumes "s_paths sk = [p, q, r]" "s_status sk \<noteq> CLOSED" "t - last_ack_time p \<le> rto p" "t - last_ack_time q \<le> rto q"
  shows "server_turn ev ReadTimeout t u es 0 sk = Ran (sk, 0)"
  by (rule skip_third [OF assms])

lemma timeout_skips_path_example:
  "\<exists>sk. s_paths sk ! 2 = (w_path_at 3 0)\<lparr>idle := 11\<rparr> \<and> server_turn w_env ReadTimeout 9 0 [] 0 sk = Ran (sk, 0)"
proof -
  define sk where "sk = w_srv\<lparr>s_paths := [w_path_at 1 9, w_path_at 2 9, (w_path_at 3 0)\<lparr>idle := 11\<rparr>]\<rparr>"
  have p: "s_paths sk = [w_path_at 1 9, w_path_at 2 9, (w_path_at 3 0)\<lparr>idle := 11\<rparr>]" and s: "s_status sk \<noteq> CLOSED"
    by (simp_all add: sk_def w_srv_def create_srvctcp_sock_def)
  from timeout_skips_path [OF this, of 9 w_env 0 "[]"] p show ?thesis by (intro exI [of _ sk]) simp
qed

text \<open>
  C37: when the first of three paths is removed last in its turn, the
  index is left at -1, and if the next read times out too the thread reads before the
  array of paths.
\<close>

theorem timeout_index_negative:
  assumes "s_paths sk = [p, q, r]" "s_status sk \<noteq> CLOSED" "rto p < t - last_ack_time p" "maxidle (s_cfg sk) < idle p"
    "t - last_ack_time r \<le> rto r"
  shows "server_turn ev ReadTimeout t u es 2 sk = Ran (removePath sk 0, -1) \<and>
    server_turn ev' ReadTimeout t' u' es' (-1) (removePath sk 0) = Crash"
  using removed_index [OF assms] by blast

theorem timeout_index_negative_witness:
  "\<exists>sk. server_turn w_env ReadTimeout 9 0 [] 2 w_srv3 = Ran (sk, -1) \<and> server_turn w_env ReadTimeout 10 0 [] (-1) sk = Crash"
proof -
  have "s_paths w_srv3 = [(w_path_at 1 0)\<lparr>idle := 11\<rparr>, w_path_at 2 9, w_path_at 3 9]" by (simp add: w_srv3_def)
  from timeout_index_negative [OF this, of 9 w_env 0 "[]" w_env 10 0 "[]"] show ?thesis
    by (auto simp: w_srv3_fields w_cfg_def default_cfg_def)
qed

section \<open>The connection at the client\<close>

text \<open>
  The data path survives the connection management.  Whatever
  control packets, read errors, removed substreams and repeated requests come in between,
  what \<open>read_ctcp\<close> has returned is a prefix of the sender's stream, and as long as the
  connection is active it is, with the bytes queued, the stream up to the decoder's
  position.
\<close>

lemma client_reads_sender_stream:
  assumes "cli_run Ps L raw csk outs" "length raw = NUM_BLOCKS" "\<forall>blk \<in> set raw. shape_ok blk" "\<forall>b. lens_ok (Ps b) L"
  shows "(\<exists>c. prefix outs (stream_to Ps L c 0)) \<and>
    (c_status csk = ACTIVE_c \<longrightarrow> outs @ fifo_bytes (dc_usr_cache (c_dec csk)) = pos Ps L (c_dec csk))"
proof -
  obtain d where run: "dec_run Ps L raw d outs" and act: "c_status csk = ACTIVE_c \<longrightarrow> d = c_dec csk"
    using cli_run_dec [OF assms(1)] by blast
  from dec_run_stream [OF run assms(2-4)] act show ?thesis by (metis prefixI)
qed

lemma client_reads_sender_stream_example:
  "\<exists>csk c. cli_run w_Ps PAYLOAD_SIZE (replicate NUM_BLOCKS w_raw) csk [65] \<and> prefix [65] (stream_to w_Ps PAYLOAD_SIZE c 0)"
proof -
  obtain csk where run: "cli_run w_Ps PAYLOAD_SIZE (replicate NUM_BLOCKS w_raw) csk [65]" using w_cli_run by blast
  from client_reads_sender_stream [OF this w_ranges(3)] w_raw_shape w_Ps_lens run show ?thesis by auto
qed

text \<open>
  C38: as long as no SYN-ACK arrives, \<open>connect_ctcp\<close> does not return, not
  even NULL, however many polls fail, time out or bring other packets.
\<close>

theorem connect_never_gives_up:
  assumes "list_all (\<lambda>p. \<not> has_syn_ack p) ps"
  shows "connect_ctcp ev csk ps \<noteq> Done (Some r)"
proof -
  have "connect_loop ev 0 (-1) 0 csk ps \<noteq> Done (Some q)" for q
    by (rule connect_loop_waits [OF assms]) (simp add: POLL_MAX_TRIES_def)
  then show ?thesis by (auto simp: connect_ctcp_def obind_Done split: option.splits)
qed

theorem connect_never_gives_up_witness:
  "connect_ctcp w_cenv w_cli (replicate 1000 PollTimeout) \<noteq> Done (Some (w_cli, False))"
  by (rule connect_never_gives_up) (simp add: list_all_iff has_syn_ack_def)

text \<open>
  An error when reading the first substream removes it and leaves the
  index of the loop at -1; the next packet makes the thread look before its arrays.
\<close>

lemma client_index_negative:
  assumes "c_subs csk \<noteq> []" "i_visit x = RecvError" "0 < n"
  shows "\<exists>csk'. read_loop 0 n csk (x # xs) = Done (Some (csk', -1)) \<and> length (c_subs csk') = length (c_subs csk) - 1 \<and>
    read_loop (-1) n' csk' (y # ys) = Fault"
  by (rule lose_first [OF assms])

lemma client_index_negative_example:
  "\<exists>csk. read_loop 0 1 w_cli [w_visit RecvError] = Done (Some (csk, -1)) \<and> read_loop (-1) 1 csk [w_visit NotReady] = Fault"
proof -
  have "c_subs w_cli \<noteq> []" using w_cli_fields(3) by auto
  from client_index_negative [OF this, of "w_visit RecvError" 1 "[]" 1 "w_visit NotReady" "[]"]
  show ?thesis by (auto simp: w_visit_def)
qed

text \<open>
  C39: a FIN from the server closes the client's socket, and from then on
  \<open>read_ctcp\<close> reports an error, although the bytes that were decoded before are still in the
  queue: the end of the stream is lost.
\<close>

theorem fin_loses_queued_bytes:
  assumes "cli_fin ev i ts ps csk = Done (Some csk')"
  shows "read_ctcp csk' n = Some (csk'\<lparr>c_error := SRVHUP\<rparr>, None) \<and>
    fifo_bytes (dc_usr_cache (c_dec csk')) = fifo_bytes (dc_usr_cache (c_dec csk))"
  using fin_then_read [OF assms] by blast

theorem fin_loses_queued_bytes_witness:
  "\<exists>csk. fifo_bytes (dc_usr_cache (c_dec csk)) = [65] \<and> read_ctcp csk 1 = Some (csk\<lparr>c_error := SRVHUP\<rparr>, None)"
proof -
  obtain csk where c: "cli_fin w_cenv 0 0 [PollReady [Recvd (w_pkt FIN_ACK 0 0 0 [])]] (w_cli\<lparr>c_dec := w_dec1\<rparr>) = Done (Some csk)"
    using w_fin by blast
  have "fifo_bytes (dc_usr_cache w_dec1) = [65]" using w_Q_bytes by (simp add: w_dec1_def)
  with fin_loses_queued_bytes [OF c, of 1] show ?thesis by auto
qed

section \<open>Connecting through an upstream proxy\<close>

text \<open>
  C32: the credentials of an HTTP proxy are encoded as RFC 4648 says: what the
  encoder returns is decoded to what it was given and has the length of the standard.  It
  fails exactly when there is a character from 128 on, which makes an index of the table
  negative.
\<close>

theorem base64_rfc4648:
  "proxy_encode_base64 src = (if list_all (\<lambda>c. c < 128) src then Some (b64_spec src) else None) \<and>
    b64_decode (b64_spec src) = Some src \<and> length (b64_spec src) = 4 * ((length src + 2) div 3)"
  using base64_spec [of src] b64_decode_spec b64_spec_length by (simp add: list_all_iff)

text \<open>
  C19: a connection that is made with one of the three types of proxy, and
  polled in whatever way, also after failures, is always in a state that \<open>up_proxy.h\<close> names
  for its type.  A poll that fails leaves ERROR, except that a failed write of the
  credentials leaves WAITAUTH, and one that succeeds leaves CONNECTED, except that a
  SOCKS 4 BIND stays in WAITREQ2.
\<close>

theorem connection_states:
  assumes "proxy_connect_nb ne (Some px) (Some name) port cmd = Inr c0" "uint (px_type px) \<in> {1, 2, 3}" "poll_run c0 c"
  shows "status_ok (uint (px_type px)) (pc_status c) \<and> pc_proxy c = px \<and>
    (case proxy_poll_connect e c of Ret r \<Rightarrow> turn_ok (uint (px_type px)) r | _ \<Rightarrow> True)"
proof -
  have c0: "pc_status c0 = 1" "pc_proxy c0 = px" using connect_nb_start [OF assms(1)] by (simp_all add: pc_static_def)
  then have "status_ok (uint (px_type px)) (pc_status c0)" by (simp add: status_ok_def proxy_consts)
  from poll_run_status [OF assms(3) this _ assms(2)] c0
  have c: "status_ok (uint (px_type px)) (pc_status c)" "pc_proxy c = px" by simp_all
  then show ?thesis using poll_turn_ok [OF _ assms(2), of c e] by (auto split: call.splits)
qed

theorem connection_states_witness:
  "\<exists>c0. proxy_connect_nb w_nenv (Some w_px) (Some w_name) 80 PROXY_CMD_CONNECT = Inr c0 \<and> status_ok 1 (pc_status c0)"
proof -
  define c0 where "c0 = projr (proxy_connect_nb w_nenv (Some w_px) (Some w_name) 80 PROXY_CMD_CONNECT)"
  have c0: "proxy_connect_nb w_nenv (Some w_px) (Some w_name) 80 PROXY_CMD_CONNECT = Inr c0"
    unfolding c0_def by code_simp
  from connection_states [OF c0 _ poll_start] w_plain(2) c0 show ?thesis by auto
qed





text \<open>
  C9: the two ends of the SOCKS dialogue fit.  What \<open>proxy_connect\<close> has sent,
  in whatever segments it arrives at the remote proxy, is read to its last byte by
  \<open>negotiate\<close>, which goes on to connect to the name's address and the port that were asked
  for; and the seven bytes it answers make the other end take the port of the CTCP socket
  and go on to its request.
\<close>

theorem socks_handshake:
  assumes "proxy_connect ne es (Some px) (Some name) port PROXY_CMD_CONNECT = Ret (Some c)" "plain_socks5 px"
    and stack: "\<forall>e \<in> set es. length (e_stack e) = 256" "length (e_stack e) = 256"
    and name: "0 < length name" "length name < 128" "0 \<notin> set name"
    and child: "delivers_bytes (ch_client ch) (pc_sent c @ rest)" "length (ch_buf ch) = 256" "takes_writes (ch_client ch) 7"
    and host: "x_up_proxy x = None" "x_host x name = Some ip" "length ip = 4"
    and p: "START_PORT \<le> p" "p \<le> MAX_PORT"
  shows "\<exists>ch' reply. negotiate_remote x p ch = connect_client_remote x ch' \<and>
    ch_target_port ch' = port \<and> take 6 (ch_data ch') = net16_bytes port @ ip \<and> delivers_bytes (ch_client ch') rest \<and>
    sk_out (ch_client ch') = sk_out (ch_client ch) @ reply \<and>
    cs_s5_waitmet (answered reply e) c0 =
      pc_next PROXY_CS_S5_SENDREQ PROXY_CF_WAITWRITE (c0\<lparr>pc_ctcp_port := Some (show_int p @ [0])\<rparr>)"
proof -
  have digits: "length (show_int p) = 4" by (rule ctcp_port_digits [OF p])
  have inp: "delivers_bytes (ch_client ch) (([5, of_nat (length [0 :: u8])] @ [0]) @ s5_req 1 name port @ rest)"
    using child(1) plain_sent [OF assms(1,2) name(2) stack(1)] by simp
  obtain ch' where "negotiate_remote x p ch = connect_client_remote x ch'" "ch_target_port ch' = port"
      "take 6 (ch_data ch') = net16_bytes port @ ip" "sk_out (ch_client ch') = sk_out (ch_client ch) @ [5, 0] @ show_int p @ [0]"
      "delivers_bytes (ch_client ch') rest"
    by (rule negotiate_remote_ok [OF inp child(2) _ _ name host digits child(3)]) simp_all
  with waitmet_reply [OF stack(2) digits] show ?thesis
    by (intro exI [of _ ch'] exI [of _ "[5, 0] @ show_int p @ [0]"]) (simp del: append.simps)
qed

theorem socks_handshake_witness:
  "\<exists>ch'. negotiate_remote w_socks_env 8001 w_child = connect_client_remote w_socks_env ch' \<and>
    ch_target_port ch' = 80 \<and> take 6 (ch_data ch') = [0, 80, 10, 0, 0, 1] \<and> delivers_bytes (ch_client ch') [42]"
proof -
  obtain c where c: "proxy_connect w_nenv w_turns (Some w_px) (Some w_name) 80 PROXY_CMD_CONNECT = Ret (Some c)"
    using w_connected by blast
  have bytes: "pc_sent c = [5, 1, 0, 5, 1, 0, 3, 3, 97, 98, 99, 0, 80]" "net16_bytes 80 = [0, 80]"
    using plain_sent [OF c w_plain(1,6) w_turns_all(1)] by (simp_all add: s5_req_def w_name_def str_def net16_bytes_def)
  have inp: "delivers_bytes (ch_client w_child) (pc_sent c @ [42])"
    by (simp add: bytes w_child_def w_chunks_def delivers_bytes_def flat_def)
  have "length (ch_buf w_child) = 256" "takes_writes (ch_client w_child) 7"
    by (auto simp: w_child_def w_chunks_def takes_writes_def)
  from socks_handshake [OF c w_plain(1) w_turns_all(1) w_penv_ok(1) w_plain(5-7) inp this, of w_socks_env "[10, 0, 0, 1]" 8001 undefined c]
  show ?thesis by (auto simp: w_socks_env_def START_PORT_def MAX_PORT_def bytes)
qed



section \<open>The relays and the daemons\<close>

text \<open>
  C21: in every run of the local relay what was written to the target is a
  prefix of what was read from the client and conversely; while the loop goes on nothing is
  missing but what its buffer holds for the other side.
\<close>

theorem relay_local_order:
  assumes "handle_traffic_local evs buf = Some (st, out, res)"
  shows "prefix (out 1) (rl_in st 0) \<and> prefix (out 0) (rl_in st 1) \<and>
    (res = None \<longrightarrow> rl_in st 0 = out 1 @ (if rl_own st = 0 then pending st else []) \<and>
      rl_in st 1 = out 0 @ (if rl_own st = 1 then pending st else []))"
proof -
  have "if res = None then tw.in_order [] [] st out else tw.prefixes [] [] st out"
    by (rule tw.relay_loop_order [OF _ _ assms [unfolded handle_traffic_local_def]])
      (use tw.relay_init_order [of "\<lambda>_. []" buf] in simp_all)
  then show ?thesis by (auto simp: tw.in_order_def tw.prefixes_def prefix_def split: if_splits)
qed

theorem relay_local_order_witness:
  "\<exists>st out. handle_traffic_local [w_turn [7, 8, 9] 0, w_turn [] 2] [0, 0, 0, 0] = Some (st, out, None) \<and>
    [7, 8, 9] = out 1 @ [9]"
proof -
  obtain st out where r: "handle_traffic_local [w_turn [7, 8, 9] 0, w_turn [] 2] [0, 0, 0, 0] = Some (st, out, None)"
      "rl_in st 0 = [7, 8, 9]" "rl_own st = 0" "pending st = [9]"
    by (simp add: handle_traffic_local_def relay_step_def relay_read_def relay_init_def w_turn_def POLLERR_def POLLHUP_def POLLIN_def
        tcp_write_def pending_def memcpy_at_def Let_def)
  from relay_local_order [OF r(1)] r show ?thesis by auto
qed





text \<open>
  C27: for exceptions with masks of 1 to 32 bits the filter of clients, which
  works on words in network order on hosts of any byte order, lets a client in exactly when
  the policy says so and its address shares no exception's leading bits, or conversely.
\<close>

theorem filter_matches_prefixes:
  assumes "length addr = 4" "\<forall>(ex, m) \<in> set excepts. length ex = 4 \<and> 1 \<le> m \<and> m \<le> 32"
  shows "client_allowed le policy excepts addr = Some ((policy = FP_ALLOW) \<noteq> (\<exists>(ex, m) \<in> set excepts.
    drop_bit (32 - nat m) (of_be32 addr) = drop_bit (32 - nat m) (of_be32 ex)))"
  unfolding client_allowed_def by (rule filter_loop_prefix [OF assms])

theorem filter_matches_prefixes_witness:
  "client_allowed True FP_DENY [([10, 1, 0, 0], 16)] [10, 1, 7, 9] = Some True"
proof -
  have "drop_bit 16 (of_be32 [10, 1, 7, 9]) = drop_bit 16 (of_be32 [10, 1, 0, 0])" by code_simp
  with filter_matches_prefixes [of "[10, 1, 7, 9]" "[([10, 1, 0, 0], 16)]" True FP_DENY] show ?thesis by simp
qed

text \<open>
  The port of the next child is not advanced when the daemon becomes full.
  For every limit of at least two connections there is a run, in which clients come and go,
  after which two children alive listen on the same CTCP port.
\<close>

lemma port_given_twice:
  assumes "allowed addr = Some True" "2 \<le> m"
  shows "\<exists>d. daemon_run m allowed d \<and> con_cnt d = int (length (children d)) \<and> con_cnt d \<le> m \<and> \<not> distinct (children d)"
  using port_twice [of allowed addr m] daemon_count [of m allowed] assms by fastforce

lemma port_given_twice_example:
  "\<exists>d. daemon_run 2 (\<lambda>_. Some True) d \<and> \<not> distinct (children d)"
  using port_given_twice [of "\<lambda>_. Some True" "[]" 2] by fastforce

text \<open>
  A line that assigns a printed number to one of the variables of the
  remote proxy sets exactly that variable to that number, for every number and variable.
\<close>

lemma config_number_read:
  assumes "(v, VNum) \<in> set vars_remote"
  shows "config_line host vars_remote (assignment v (show_int n)) cf =
    Ret (Some (cf\<lparr>cf_var := v, cf_val := show_int n, cf_num := (cf_num cf)(v \<mapsto> n)\<rparr>))"
  using assms by (rule config_number)

lemma config_number_read_example:
  "\<exists>cf. config_line (\<lambda>_. None) vars_remote (assignment (str ''PORT'') (show_int 1080)) config_init = Ret (Some cf) \<and>
    cf_num cf (str ''PORT'') = Some 1080"
proof -
  have "(str ''PORT'', VNum) \<in> set vars_remote" by code_simp
  from config_number_read [OF this, of "\<lambda>_. None" 1080 config_init] show ?thesis by auto
qed

text \<open>
  A line that assigns nothing repeats the last assignment.  An exception
  for a network, followed by a blank line, comes back as a second exception for its first
  address alone.
\<close>

lemma blank_line_repeats:
  assumes "host name = Some ip" "length ip = 4" "is_word name" "47 \<notin> set name" "\<forall>c \<in> set s. is_space c"
    "length (cf_excepts cf) < 255" "0 \<le> n" "n \<le> 32"
  shows "config_lines host vars [assignment (str ''FILTER_EXCEPTION'') (name @ [47] @ show_int n), s] cf =
    Ret (Some (cf\<lparr>cf_var := str ''FILTER_EXCEPTION'', cf_val := name,
      cf_excepts := cf_excepts cf @ [(ip, n), (ip, 32)]\<rparr>))"
  using assms by (rule exception_twice)

lemma blank_line_repeats_example:
  "\<exists>cf. config_lines (\<lambda>_. Some [10, 0, 0, 0]) vars_remote
      [assignment (str ''FILTER_EXCEPTION'') (str ''net'' @ [47] @ show_int 8), [10]] config_init = Ret (Some cf) \<and>
    cf_excepts cf = [([10, 0, 0, 0], 8), ([10, 0, 0, 0], 32)]"
proof -
  have "is_word (str ''net'')" "47 \<notin> set (str ''net'')" "\<forall>c \<in> set [10]. is_space c"
    by (code_simp)+
  from blank_line_repeats [OF _ _ this, of "\<lambda>_. Some [10, 0, 0, 0]" "[10, 0, 0, 0]" config_init 8 vars_remote] show ?thesis
    by (auto simp: config_init_def)
qed

end
